(* ===== verification/Prelude.thy ===== *)
theory Prelude
  imports Main "HOL-Library.Word"
begin

unbundle bit_operations_syntax

text \<open>
  Shared vocabulary of the development: the machine integer types of the C sources, the
  constants and macros of \<^verbatim>\<open>include/koharu/mmu.h\<close>, and the generic lemmas on words, bits
  and lists that the components use. A C unsigned integer of width \<open>w\<close> is a \<open>w word\<close>, so
  that addition, subtraction and shifts wrap the way the compiled code does; a C \<open>int\<close>
  that carries a status code is an \<open>int\<close>.
\<close>

section \<open>Machine types\<close>

type_synonym u8 = "8 word"
type_synonym u16 = "16 word"
type_synonym u32 = "32 word"
type_synonym u64 = "64 word"

text \<open>Facts that unfold a component's operations are collected per purpose.\<close>

named_theorems frame_simps
  \<open>equations saying that an operation leaves a field of the state alone\<close>

named_theorems word_bits
  \<open>equations on single bits of the words a component builds\<close>

section \<open>Constants and macros of mmu.h\<close>

abbreviation (input) PAGE_SHIFT :: nat where "PAGE_SHIFT \<equiv> 12"
abbreviation (input) PAGE_SIZE :: u64 where "PAGE_SIZE \<equiv> 4096"
abbreviation (input) PAGE_SHIFT_HUGE :: nat where "PAGE_SHIFT_HUGE \<equiv> 21"
abbreviation (input) PAGE_SIZE_HUGE :: u64 where "PAGE_SIZE_HUGE \<equiv> 2097152"
abbreviation (input) MAX_BUDDY_ORDER :: nat where "MAX_BUDDY_ORDER \<equiv> 11"
abbreviation (input) HHDM_OFFSET :: u64 where "HHDM_OFFSET \<equiv> 0xFFFF800000000000"
abbreviation (input) PMM_POOL_START_PFN :: u64 where "PMM_POOL_START_PFN \<equiv> 0x8000"

definition ALIGN_UP :: "u64 \<Rightarrow> u64 \<Rightarrow> u64" where
  "ALIGN_UP a al = (a + al - 1) AND NOT (al - 1)"

definition ALIGN_DOWN :: "u64 \<Rightarrow> u64 \<Rightarrow> u64" where
  "ALIGN_DOWN a al = a AND NOT (al - 1)"

section \<open>Lists\<close>

lemma find_append: "find P (xs @ ys) = (case find P xs of None \<Rightarrow> find P ys | Some x \<Rightarrow> Some x)"
  by (induction xs) auto

lemma remove1_split:
  "x \<notin> set xs \<Longrightarrow> remove1 x (xs @ x # ys) = xs @ ys"
  by (simp add: remove1_append)

lemma distinct_split_middle:
  assumes "x \<in> set zs" "distinct zs"
  obtains xs ys where "zs = xs @ x # ys" "x \<notin> set xs" "x \<notin> set ys"
  using assms by (metis split_list distinct.simps(2) distinct_append in_set_conv_decomp_first
      not_distinct_conv_prefix)

lemma remove1_map: "inj f \<Longrightarrow> remove1 (f x) (map f xs) = map f (remove1 x xs)"
  by (induction xs) (auto simp: inj_def)

section \<open>Words\<close>

lemma bit_exp_word [word_bits]:
  "bit ((2 :: 'a::len word) ^ k) n \<longleftrightarrow> n = k \<and> k < LENGTH('a)"
  by (auto simp: bit_exp_iff)

lemma unat_exp_word:
  assumes "k < LENGTH('a::len)"
  shows "unat ((2 :: 'a word) ^ k) = 2 ^ k"
proof -
  have "unat (of_nat (2 ^ k) :: 'a word) = 2 ^ k"
    using assms by (simp only: unat_of_nat) (simp add: take_bit_eq_mod)
  then show ?thesis by simp
qed

lemma word_less_exp_iff_bits:
  \<comment> \<open>an upper bound \<open>2 ^ k\<close> on a word says that the bits from \<open>k\<close> on are clear\<close>
  assumes k: "k < LENGTH('a::len)"
  shows "(p :: 'a word) < 2 ^ k \<longleftrightarrow> (\<forall>n \<ge> k. \<not> bit p n)"
proof -
  have "p < 2 ^ k \<longleftrightarrow> unat p < 2 ^ k"
    using k by (simp add: word_less_nat_alt unat_exp_word)
  also have "\<dots> \<longleftrightarrow> take_bit k (unat p) = unat p"
    by (simp add: take_bit_nat_eq_self_iff)
  also have "\<dots> \<longleftrightarrow> (\<forall>n \<ge> k. \<not> bit (unat p) n)"
    unfolding bit_eq_iff [of "take_bit k (unat p)" "unat p"] bit_take_bit_iff
    by (metis linorder_not_less possible_bit_nat)
  also have "\<dots> \<longleftrightarrow> (\<forall>n \<ge> k. \<not> bit p n)"
    using bit_imp_le_length by (fastforce simp: bit_unsigned_iff)
  finally show ?thesis .
qed

lemma unat_inc:
  "i < n \<Longrightarrow> unat (i + 1 :: 'a::len word) = Suc (unat i)"
proof -
  assume "i < n"
  then have "Suc (unat i) \<le> unat n" by (simp add: word_less_nat_alt)
  also have "unat n < 2 ^ LENGTH('a)" by (rule unsigned_less)
  finally have "Suc (unat i) mod 2 ^ LENGTH('a) = Suc (unat i)" by (rule mod_less)
  then show ?thesis by (simp add: unat_word_ariths)
qed

lemma unat_dec:
  "n > 0 \<Longrightarrow> unat (n - 1 :: 'a::len word) = unat n - 1"
  by (simp add: unat_minus_one word_neq_0_conv)

lemma unat_dec_less:
  "n > 0 \<Longrightarrow> unat (n - 1 :: 'a::len word) < unat n"
  using unat_gt_0 [of n] by (simp add: unat_dec)

lemma unat_of_nat_self: "of_nat (unat w) = (w :: 'a::len word)"
  by simp

lemma unat_less_64: "unat (n :: u64) < 2 ^ 64"
proof -
  have "unat n < 2 ^ LENGTH(64)" by (rule unsigned_less)
  then show ?thesis by simp
qed

lemma unat_le_64: "unat (n :: u64) \<le> 2 ^ 64"
proof -
  have "unat n < 2 ^ LENGTH(64)" by (rule unsigned_less)
  then show ?thesis by simp
qed

lemma word_sub_eq: "unat (a - d) = n \<longleftrightarrow> a = d + of_nat n" if "n < 2 ^ 64" for a d :: u64
proof -
  have "unat (of_nat n :: u64) = n" using that by (simp add: unat_of_nat take_bit_nat_eq_self)
  then have "unat (a - d) = n \<longleftrightarrow> a - d = of_nat n" by (metis word_eq_iff_unsigned)
  then show ?thesis by (auto simp: algebra_simps)
qed

lemma all_below_word: "(\<forall>i < unat n. P (of_nat i)) \<longleftrightarrow> (\<forall>i < n. P i)" for n :: u64
proof (intro iffI allI impI)
  fix i assume "\<forall>i < unat n. P (of_nat i)" "i < n"
  then show "P i" using unat_of_nat_self [of i] by (metis word_less_nat_alt)
next
  fix i assume a: "\<forall>i < n. P i" "i < unat n"
  then have "unat (of_nat i :: u64) = i"
    using unat_le_64 [of n] by (simp add: unat_of_nat take_bit_nat_eq_self)
  with a show "P (of_nat i)" by (simp add: word_less_nat_alt)
qed

lemma bits_FFF: "bit (0xFFF :: u64) n \<longleftrightarrow> n < 12"
  using bit_mask_iff [of 12 n, where ?'a = "64 word"] by (auto simp: mask_eq_exp_minus_1)

section \<open>Bounded loops\<close>

text \<open>\<open>for (size_t i = \<dots>; i < n; i++)\<close>\<close>

function for_range :: "u64 \<Rightarrow> u64 \<Rightarrow> (u64 \<Rightarrow> 's \<Rightarrow> 's) \<Rightarrow> 's \<Rightarrow> 's" where
  "for_range i n f s = (if i < n then for_range (i + 1) n f (f i s) else s)"
  by pat_completeness auto
termination
  by (relation "measure (\<lambda>(i, n, _). unat n - unat i)") (auto simp: unat_inc word_less_nat_alt)

declare for_range.simps [simp del]

lemma for_range_fold:
  "for_range i n f s = fold (\<lambda>k. f (of_nat k)) [unat i..<unat n] s"
proof (induction i n f s rule: for_range.induct)
  case (1 i n f s)
  then show ?case
    by (subst for_range.simps)
      (auto simp: unat_inc word_less_nat_alt upt_conv_Cons)
qed

lemma for_range_keeps:
  assumes "\<And>k s. g (f k s) = g s"
  shows "g (for_range i n f s) = g s"
proof -
  have "g (fold (\<lambda>k. f (of_nat k)) xs s) = g s" for xs :: "nat list"
    by (induction xs arbitrary: s) (simp_all add: assms)
  then show ?thesis by (simp add: for_range_fold)
qed

lemma round_up_mod:
  assumes "0 < (a :: nat)"
  shows "(x + (if x mod a \<noteq> 0 then a - x mod a else 0)) mod a = 0"
proof (cases "x mod a = 0")
  case False
  have "x + (a - x mod a) = a * (x div a) + a"
    using mod_less_divisor [OF assms, of x] mult_div_mod_eq [of a x] by linarith
  with False show ?thesis by simp
qed simp

end
