(* ===== verification/Ticket_Lock.thy ===== *)
theory Ticket_Lock
  imports Prelude
begin

text \<open>
  The ticket spinlock of \<^verbatim>\<open>kernel/misc/lock.c\<close> and its use by several CPUs at once. The
  fields of \<open>spinlock_t\<close> keep their 32-bit width, so tickets wrap around. Each access to a field
  in \<open>spin_lock\<close>, \<open>spin_trylock\<close> and \<open>spin_unlock\<close> is one function and one step; the step relation
  interleaves them over \<open>n\<close> CPUs, each of which is between two such accesses at any time.
  The barriers (\<open>__sync_synchronize\<close>) have no counterpart: the relation is sequentially
  consistent. Mutual exclusion, first-come-first-served order, freedom from deadlock and from starvation are
  proved for every number of CPUs below \<open>2 ^ 32\<close>, under a condition on \<open>spin_trylock\<close> alone: fewer tickets are drawn during
  one call of it than would bring the 32-bit counter back to the value it has read. That it is
  needed is shown as well.
\<close>

section \<open>The lock\<close>

record spinlock_t =
  now_serving :: u32
  next_ticket :: u32
  holder_cpu :: int

definition spin_lock_init :: spinlock_t where
  "spin_lock_init = \<lparr>now_serving = 0, next_ticket = 0, holder_cpu = -1\<rparr>"

definition spin_lock_take :: "spinlock_t \<Rightarrow> u32 \<times> spinlock_t" where
  \<comment> \<open>\<open>ticket = __sync_fetch_and_add(&lock->next_ticket, 1)\<close>\<close>
  "spin_lock_take lk = (next_ticket lk, lk\<lparr>next_ticket := next_ticket lk + 1\<rparr>)"

definition spin_lock_wait :: "u32 \<Rightarrow> spinlock_t \<Rightarrow> bool" where
  \<comment> \<open>the condition of the spin loop: stay while it holds\<close>
  "spin_lock_wait ticket lk \<longleftrightarrow> now_serving lk \<noteq> ticket"

text \<open>
  \<open>spin_trylock\<close> reads \<open>now_serving\<close>, compares it with \<open>next_ticket\<close> and then swaps \<open>next_ticket\<close>;
  \<open>lock->now_serving++\<close> on a volatile field is a read and a write. The definitions \<open>spin_trylock\<close> and
  \<open>spin_unlock\<close> are their accesses in a row, without interference.
\<close>

definition trylock_test :: "u32 \<Rightarrow> spinlock_t \<Rightarrow> bool" where
  \<comment> \<open>\<open>lock->next_ticket != serving\<close> is false\<close>
  "trylock_test serving lk \<longleftrightarrow> next_ticket lk = serving"

definition trylock_swap :: "u32 \<Rightarrow> spinlock_t \<Rightarrow> bool \<times> spinlock_t" where
  \<comment> \<open>\<open>__sync_bool_compare_and_swap(&lock->next_ticket, serving, serving + 1)\<close>\<close>
  "trylock_swap serving lk =
     (if next_ticket lk = serving then (True, lk\<lparr>next_ticket := serving + 1\<rparr>) else (False, lk))"

definition spin_trylock :: "spinlock_t \<Rightarrow> bool \<times> spinlock_t" where
  "spin_trylock lk =
     (let serving = now_serving lk in
      if \<not> trylock_test serving lk then (False, lk)
      else trylock_swap serving lk)"

definition unlock_write :: "u32 \<Rightarrow> spinlock_t \<Rightarrow> spinlock_t" where
  "unlock_write v lk = lk\<lparr>now_serving := v + 1\<rparr>"

definition spin_unlock :: "spinlock_t \<Rightarrow> spinlock_t" where
  "spin_unlock lk = unlock_write (now_serving lk) lk"

section \<open>Interrupt flag\<close>

text \<open>
  \<open>arch_irq_save\<close> (\<open>pushfq; pop; cli\<close>) returns the flags register and clears its interrupt
  flag, bit 9; \<open>arch_irq_restore\<close> (\<open>push; popfq\<close>) writes the register back.
\<close>

definition arch_irq_save :: "u64 \<Rightarrow> u64 \<times> u64" where
  "arch_irq_save rflags = (rflags, rflags AND NOT 0x200)"

definition arch_irq_restore :: "u64 \<Rightarrow> u64 \<Rightarrow> u64" where
  "arch_irq_restore flags rflags = flags"

section \<open>Several CPUs on one lock\<close>

text \<open>
  A CPU is outside (\<open>Idle\<close>), in the spin loop with its ticket, in \<open>spin_trylock\<close> after the read of
  \<open>now_serving\<close> (\<open>Trying\<close>) or after the comparison (\<open>Swapping\<close>), inside the critical section, or in
  \<open>spin_unlock\<close> between the read of \<open>now_serving\<close> and the write of the incremented value.
  Two history variables, which no guard reads, count tickets: \<open>drawn\<close> is the number of tickets
  drawn so far, \<open>since\<close> what it was when a CPU began its \<open>spin_trylock\<close>.
\<close>

datatype lock_pc = Idle | Spinning u32 | Trying u32 | Swapping u32 | Critical | Unlocking u32

record lock_sys =
  lck :: spinlock_t
  pcs :: "nat \<Rightarrow> lock_pc"
  drawn :: nat
  since :: "nat \<Rightarrow> nat"

definition lock_init :: lock_sys where
  "lock_init = \<lparr>lck = spin_lock_init, pcs = (\<lambda>_. Idle), drawn = 0, since = (\<lambda>_. 0)\<rparr>"

inductive lock_step :: "nat \<Rightarrow> nat \<Rightarrow> lock_sys \<Rightarrow> lock_sys \<Rightarrow> bool" for n c where
  take: "c < n \<Longrightarrow> pcs s c = Idle \<Longrightarrow> spin_lock_take (lck s) = (t, lk) \<Longrightarrow>
    lock_step n c s (s\<lparr>lck := lk, pcs := (pcs s)(c := Spinning t), drawn := drawn s + 1\<rparr>)"
| spin: "c < n \<Longrightarrow> pcs s c = Spinning t \<Longrightarrow> spin_lock_wait t (lck s) \<Longrightarrow> lock_step n c s s"
| enter: "c < n \<Longrightarrow> pcs s c = Spinning t \<Longrightarrow> \<not> spin_lock_wait t (lck s) \<Longrightarrow>
    lock_step n c s (s\<lparr>pcs := (pcs s)(c := Critical)\<rparr>)"
| try_read: "c < n \<Longrightarrow> pcs s c = Idle \<Longrightarrow>
    lock_step n c s (s\<lparr>pcs := (pcs s)(c := Trying (now_serving (lck s))), since := (since s)(c := drawn s)\<rparr>)"
| try_test: "c < n \<Longrightarrow> pcs s c = Trying v \<Longrightarrow>
    lock_step n c s (s\<lparr>pcs := (pcs s)(c := if trylock_test v (lck s) then Swapping v else Idle)\<rparr>)"
| try_ok: "c < n \<Longrightarrow> pcs s c = Swapping v \<Longrightarrow> trylock_swap v (lck s) = (True, lk) \<Longrightarrow>
    lock_step n c s (s\<lparr>lck := lk, pcs := (pcs s)(c := Critical), drawn := drawn s + 1\<rparr>)"
| try_fail: "c < n \<Longrightarrow> pcs s c = Swapping v \<Longrightarrow> trylock_swap v (lck s) = (False, lk) \<Longrightarrow>
    lock_step n c s (s\<lparr>lck := lk, pcs := (pcs s)(c := Idle)\<rparr>)"
| unlock_read: "c < n \<Longrightarrow> pcs s c = Critical \<Longrightarrow>
    lock_step n c s (s\<lparr>pcs := (pcs s)(c := Unlocking (now_serving (lck s)))\<rparr>)"
| unlock: "c < n \<Longrightarrow> pcs s c = Unlocking v \<Longrightarrow>
    lock_step n c s (s\<lparr>lck := unlock_write v (lck s), pcs := (pcs s)(c := Idle)\<rparr>)"

inductive lock_reach :: "nat \<Rightarrow> lock_sys \<Rightarrow> bool" for n where
  start: "lock_reach n lock_init"
| step: "lock_reach n s \<Longrightarrow> lock_step n c s t \<Longrightarrow> lock_reach n t"

definition timely :: "nat \<Rightarrow> lock_sys \<Rightarrow> bool" where
  \<comment> \<open>during each \<open>spin_trylock\<close> at most \<open>2 ^ 32 - n\<close> tickets have been drawn\<close>
  "timely n s \<longleftrightarrow> (\<forall>c v. pcs s c = Trying v \<or> pcs s c = Swapping v \<longrightarrow> drawn s - since s c + n \<le> 2 ^ 32)"

inductive lock_run :: "nat \<Rightarrow> lock_sys \<Rightarrow> bool" for n where
  start: "lock_run n lock_init"
| step: "lock_run n s \<Longrightarrow> timely n s \<Longrightarrow> lock_step n c s t \<Longrightarrow> lock_run n t"

definition holds_lock :: "lock_sys \<Rightarrow> nat \<Rightarrow> bool" where
  "holds_lock s c \<longleftrightarrow> (case pcs s c of Critical \<Rightarrow> True | Unlocking _ \<Rightarrow> True | _ \<Rightarrow> False)"

section \<open>The queue behind the tickets\<close>

text \<open>
  The invariant: the CPUs with a ticket form a queue \<open>q\<close> in ticket order, the \<open>i\<close>-th
  holding ticket \<open>now_serving + i\<close> (modulo \<open>2 ^ 32\<close>), and only its head can be past the loop. What a CPU in
  \<open>spin_trylock\<close> has read was the ticket being served some time after its call began.
\<close>

fun ticket_ok :: "u32 \<Rightarrow> nat \<Rightarrow> lock_pc \<Rightarrow> bool" where
  "ticket_ok serving i (Spinning t) = (t = serving + of_nat i)"
| "ticket_ok serving i Critical = (i = 0)"
| "ticket_ok serving i (Unlocking v) = (i = 0 \<and> v = serving)"
| "ticket_ok serving i _ = False"

fun has_ticket :: "lock_pc \<Rightarrow> bool" where
  "has_ticket (Spinning t) = True"
| "has_ticket Critical = True"
| "has_ticket (Unlocking v) = True"
| "has_ticket _ = False"

abbreviation ticket_at :: "lock_sys \<Rightarrow> nat \<Rightarrow> nat \<Rightarrow> bool" where
  "ticket_at s i c \<equiv> ticket_ok (now_serving (lck s)) i (pcs s c)"

definition read_ok :: "nat \<Rightarrow> lock_sys \<Rightarrow> nat \<Rightarrow> nat \<Rightarrow> bool" where
  "read_ok n s k c \<longleftrightarrow> (\<forall>v. pcs s c = Trying v \<or> pcs s c = Swapping v \<longrightarrow>
     (\<exists>m. v = of_nat m \<and> m + k \<le> drawn s \<and> since s c < m + n \<and> since s c \<le> drawn s))"

definition lock_inv :: "nat \<Rightarrow> lock_sys \<Rightarrow> nat list \<Rightarrow> bool" where
  "lock_inv n s q \<longleftrightarrow> distinct q \<and> set q = {c. has_ticket (pcs s c)} \<and> set q \<subseteq> {..<n} \<and>
     next_ticket (lck s) = of_nat (drawn s) \<and> length q \<le> drawn s \<and>
     of_nat (drawn s) = now_serving (lck s) + of_nat (length q) \<and>
     (\<forall>i < length q. ticket_at s i (q ! i)) \<and> (\<forall>c. read_ok n s (length q) c)"

lemma lock_inv_length: "lock_inv n s q \<Longrightarrow> length q \<le> n"
  by (metis card_lessThan card_mono distinct_card finite_lessThan lock_inv_def)

lemma of_nat_u32_zero: "k < 2 ^ 32 \<Longrightarrow> (of_nat k :: u32) = 0 \<longleftrightarrow> k = 0"
  using nat_dvd_not_less by (auto simp: word_of_nat_eq_0_iff)

lemma lock_inv_init: "lock_inv n lock_init []"
  by (simp add: lock_inv_def lock_init_def spin_lock_init_def read_ok_def)

lemma inv_join:
  assumes inv: "lock_inv n s q" and c: "c < n" "\<not> has_ticket (pcs s c)" and p: "has_ticket p" "ticket_ok (now_serving (lck s)) (length q) p"
    and lk: "lk = (lck s)\<lparr>next_ticket := next_ticket (lck s) + 1\<rparr>"
  shows "lock_inv n (s\<lparr>lck := lk, pcs := (pcs s)(c := p), drawn := drawn s + 1\<rparr>) (q @ [c])" (is "lock_inv n ?s _")
proof -
  have cq: "c \<notin> set q" using inv c by (simp add: lock_inv_def)
  have "ticket_at ?s i ((q @ [c]) ! i)" if "i < length (q @ [c])" for i
  proof (cases "i < length q")
    case True
    with cq have "q ! i \<noteq> c" by (metis nth_mem)
    with True inv show ?thesis by (simp add: nth_append lock_inv_def lk)
  next
    case False
    with that have "i = length q" by simp
    with p show ?thesis by (simp add: nth_append lk)
  qed
  moreover have "read_ok n ?s (length (q @ [c])) d" for d
  proof -
    have "read_ok n s (length q) d" using inv by (simp add: lock_inv_def)
    then show ?thesis using p by (cases "d = c") (auto simp: read_ok_def intro: le_SucI)
  qed
  moreover have "{d. has_ticket (pcs ?s d)} = insert c {d. has_ticket (pcs s d)}" using p by auto
  ultimately show ?thesis using inv cq c by (auto simp: lock_inv_def lk)
qed

lemma inv_move:
  \<comment> \<open>a CPU changes its program counter and keeps its place, or its having none\<close>
  assumes inv: "lock_inv n s q" and p: "has_ticket p = has_ticket (pcs s c)"
    and "\<And>i. i < length q \<Longrightarrow> q ! i = c \<Longrightarrow> ticket_ok (now_serving (lck s)) i p"
    and "read_ok n (s\<lparr>pcs := (pcs s)(c := p), since := f\<rparr>) (length q) c" "\<And>d. d \<noteq> c \<Longrightarrow> f d = since s d"
  shows "lock_inv n (s\<lparr>pcs := (pcs s)(c := p), since := f\<rparr>) q"
proof -
  have "ticket_ok (now_serving (lck s)) i (((pcs s)(c := p)) (q ! i))" if "i < length q" for i
    using assms that by (cases "q ! i = c") (auto simp: lock_inv_def)
  moreover have "{d. has_ticket (((pcs s)(c := p)) d)} = {d. has_ticket (pcs s d)}" using p by auto
  moreover have "read_ok n (s\<lparr>pcs := (pcs s)(c := p), since := f\<rparr>) (length q) d" for d
    using assms by (cases "d = c") (auto simp: lock_inv_def read_ok_def)
  ultimately show ?thesis using inv by (auto simp: lock_inv_def)
qed

lemmas inv_move' = inv_move [where f = "since s" and s = s for s, simplified]

lemma inv_position:
  assumes "lock_inv n s q" "has_ticket (pcs s c)"
  obtains i where "i < length q" "q ! i = c" "ticket_at s i c"
proof -
  have "c \<in> set q" using assms by (simp add: lock_inv_def)
  then obtain i where "i < length q" "q ! i = c" by (metis in_set_conv_nth)
  with that assms show thesis by (auto simp: lock_inv_def)
qed

lemma inv_leave:
  assumes inv: "lock_inv n s q" and c: "pcs s c = Unlocking v"
  obtains q' where "q = c # q'" "lock_inv n (s\<lparr>lck := unlock_write v (lck s), pcs := (pcs s)(c := Idle)\<rparr>) q'"
proof -
  from inv c obtain i where "i < length q" "q ! i = c" "ticket_at s i c"
    using inv_position [OF inv, of c] by auto
  with c obtain q' where q: "q = c # q'" and v: "v = now_serving (lck s)"
    by (cases q) auto
  let ?s = "s\<lparr>lck := unlock_write v (lck s), pcs := (pcs s)(c := Idle)\<rparr>"
  have "ticket_at ?s i (q' ! i)" if "i < length q'" for i
  proof -
    have "q' ! i \<noteq> c" using inv q that by (auto simp: lock_inv_def)
    moreover have "ticket_at s (Suc i) (q' ! i)" using inv q that by (auto simp: lock_inv_def)
    ultimately show ?thesis by (cases "pcs s (q' ! i)") (auto simp: v unlock_write_def)
  qed
  moreover have "read_ok n ?s (length q') d" for d
  proof -
    have "read_ok n s (length q) d" using inv by (simp add: lock_inv_def)
    then show ?thesis using q by (cases "d = c") (fastforce simp: read_ok_def)+
  qed
  moreover have "{d. has_ticket (pcs ?s d)} = {d. has_ticket (pcs s d)} - {c}" by auto
  ultimately have "lock_inv n ?s q'" using inv q v by (auto simp: lock_inv_def unlock_write_def)
  with q that show thesis by blast
qed

lemma inv_served:
  assumes "lock_inv n s q" "n < 2 ^ 32" "pcs s c = Spinning t" "\<not> spin_lock_wait t (lck s)"
    and "i < length q" "q ! i = c"
  shows "i = 0"
proof -
  have "ticket_at s i c" using assms by (auto simp: lock_inv_def)
  with assms have "(of_nat i :: u32) = 0" by (simp add: spin_lock_wait_def)
  moreover have "i < 2 ^ 32" using assms lock_inv_length [OF assms(1)] by linarith
  ultimately show ?thesis by (simp add: of_nat_u32_zero)
qed

lemma inv_swap_empty:
  \<comment> \<open>a swap in time succeeds only when nobody has a ticket\<close>
  assumes inv: "lock_inv n s q" and v: "timely n s" "pcs s c = Swapping v" "next_ticket (lck s) = v"
  shows "q = []"
proof -
  from inv v obtain m where m: "v = of_nat m" "m + length q \<le> drawn s" "since s c < m + n" "since s c \<le> drawn s"
    unfolding lock_inv_def read_ok_def by blast
  have "drawn s - since s c + n \<le> 2 ^ 32" using v by (auto simp: timely_def)
  then have "drawn s - m < 2 ^ 32" using m by linarith
  moreover have "(of_nat (drawn s) :: u32) = of_nat m" using inv v m by (simp add: lock_inv_def)
  then have "(of_nat (drawn s - m) :: u32) = 0" using m by simp
  ultimately have "drawn s = m" using of_nat_u32_zero m by (metis add_leD1 diff_is_0_eq le_antisym)
  then show ?thesis using m by simp
qed

lemma inv_try_read:
  assumes inv: "lock_inv n s q" and c: "c < n" "pcs s c = Idle"
  shows "lock_inv n (s\<lparr>pcs := (pcs s)(c := Trying (now_serving (lck s))), since := (since s)(c := drawn s)\<rparr>) q"
proof (rule inv_move [OF inv])
  have q: "c \<notin> set q" "set q \<subseteq> {..<n}" "distinct q" using inv c by (auto simp: lock_inv_def)
  then have "card (set q) < card {..<n}" using c by (intro psubset_card_mono) auto
  then have len: "length q < n" using distinct_card [OF q(3)] by simp
  have sv: "now_serving (lck s) = of_nat (drawn s - length q)" 
    using inv unfolding lock_inv_def by (metis add_diff_cancel_right' of_nat_diff)
  have "length q \<le> drawn s" using inv by (simp add: lock_inv_def)
  then show "read_ok n (s\<lparr>pcs := (pcs s)(c := Trying (now_serving (lck s))), since := (since s)(c := drawn s)\<rparr>) (length q) c"
    using len unfolding read_ok_def sv by (auto intro!: exI [of _ "drawn s - length q"])
  show "ticket_ok (now_serving (lck s)) i (Trying (now_serving (lck s)))" if "i < length q" "q ! i = c" for i
    using that q by (metis nth_mem)
qed (use c in auto)

text \<open>How a step changes the queue: its CPU joins at the end, leaves from the front, or keeps its place.\<close>

lemma lock_step_queue:
  assumes step: "lock_step n c s t" and inv: "lock_inv n s q" and n: "n < 2 ^ 32" and tm: "timely n s"
  shows "lock_inv n t q \<or> c \<notin> set q \<and> lock_inv n t (q @ [c]) \<or> (\<exists>q' v. q = c # q' \<and> pcs s c = Unlocking v \<and> lock_inv n t q')"
  using step
proof cases
  case (take t' lk)
  then have t: "t = s\<lparr>lck := (lck s)\<lparr>next_ticket := next_ticket (lck s) + 1\<rparr>, pcs := (pcs s)(c := Spinning (next_ticket (lck s))), drawn := drawn s + 1\<rparr>"
    by (auto simp: spin_lock_take_def)
  have "lock_inv n t (q @ [c])" unfolding t by (rule inv_join [OF inv]) (use inv take in \<open>auto simp: lock_inv_def\<close>)
  then show ?thesis using inv take by (auto simp: lock_inv_def)
next
  case (enter t')
  have "lock_inv n t q" unfolding enter(1) using inv_served [OF inv n enter(3,4)] enter(3)
    by (intro inv_move' [OF inv]) (auto simp: read_ok_def)
  then show ?thesis ..
next
  case try_read
  then show ?thesis using inv_try_read [OF inv] by blast
next
  case (try_test v)
  have "read_ok n s (length q) c" using inv by (simp add: lock_inv_def)
  then have "lock_inv n t q" unfolding try_test(1) using inv try_test(3)
    by (intro inv_move' [OF inv]) (auto simp: read_ok_def lock_inv_def split: if_splits)
  then show ?thesis ..
next
  case (try_ok v lk)
  then have lk: "next_ticket (lck s) = v" "lk = (lck s)\<lparr>next_ticket := next_ticket (lck s) + 1\<rparr>"
    by (auto simp: trylock_swap_def split: if_splits)
  have "q = []" by (rule inv_swap_empty [OF inv tm try_ok(3) lk(1)])
  then have "lock_inv n t (q @ [c])" using try_ok lk inv by (auto intro!: inv_join [of n s "[]", simplified])
  then show ?thesis using \<open>q = []\<close> by simp
next
  case (try_fail v lk)
  then have "lk = lck s" by (auto simp: trylock_swap_def split: if_splits)
  then have "lock_inv n t q" unfolding try_fail(1) using inv try_fail(3)
    by simp (intro inv_move' [OF inv]; auto simp: read_ok_def lock_inv_def)
  then show ?thesis ..
next
  case unlock_read
  have "lock_inv n t q" unfolding unlock_read(1) using inv unlock_read(3)
    by (intro inv_move' [OF inv]) (auto simp: read_ok_def lock_inv_def)
  then show ?thesis ..
next
  case (unlock v)
  then show ?thesis using inv_leave [OF inv unlock(3)] by metis
qed (use inv in auto)

lemma lock_run_inv: "lock_run n s \<Longrightarrow> n < 2 ^ 32 \<Longrightarrow> \<exists>q. lock_inv n s q"
proof (induction rule: lock_run.induct)
  case start
  then show ?case using lock_inv_init by blast
next
  case (step s c t)
  then show ?case using lock_step_queue by blast
qed

lemma holds_is_head:
  assumes "lock_inv n s q" "holds_lock s c"
  shows "\<exists>q'. q = c # q'"
proof -
  from assms(2) have "has_ticket (pcs s c)" by (cases "pcs s c") (auto simp: holds_lock_def)
  with assms obtain i where "i < length q" "q ! i = c" "ticket_at s i c" by (auto elim: inv_position)
  with assms(2) show ?thesis
    by (cases q) (auto simp: holds_lock_def split: lock_pc.splits)
qed

section \<open>Order of entry\<close>

definition ticket_distance :: "lock_sys \<Rightarrow> nat \<Rightarrow> nat" where
  \<comment> \<open>how many unlocks a CPU in the spin loop still has to see\<close>
  "ticket_distance s c = (case pcs s c of Spinning t \<Rightarrow> unat (t - now_serving (lck s)) | _ \<Rightarrow> 0)"

lemma unat_of_nat_u32: "k < 2 ^ 32 \<Longrightarrow> unat (of_nat k :: u32) = k"
  by (simp add: unat_of_nat take_bit_eq_mod)

lemma inv_distance:
  assumes "lock_inv n s q" "n < 2 ^ 32" "pcs s c = Spinning t"
  shows "ticket_distance s c < length q \<and> q ! ticket_distance s c = c"
proof -
  from assms obtain i where i: "i < length q" "q ! i = c" "ticket_at s i c"
    by (metis inv_position has_ticket.simps(1))
  moreover have "i < 2 ^ 32" using i assms lock_inv_length [OF assms(1)] by linarith
  ultimately show ?thesis using assms(3) by (simp add: ticket_distance_def unat_of_nat_u32)
qed

text \<open>
  First come, first served. When a step lets a CPU \<open>d\<close> into the critical section while another
  CPU \<open>c\<close> is in the spin loop, then \<open>d\<close> was in the loop too and had drawn its ticket earlier;
  and the distance of every waiting CPU is below the number of CPUs.
\<close>

theorem lock_fifo:
  assumes "lock_run n s" "timely n s" "n < 2 ^ 32" "lock_step n e s s'"
    and "pcs s c = Spinning t" "d \<noteq> c" "\<not> holds_lock s d" "holds_lock s' d"
  shows "(\<exists>t'. pcs s d = Spinning t') \<and> ticket_distance s d < ticket_distance s c \<and> ticket_distance s c < n"
proof -
  obtain q where inv: "lock_inv n s q" using lock_run_inv [OF assms(1,3)] by blast
  have dc: "ticket_distance s c < length q" "q ! ticket_distance s c = c"
    using inv_distance [OF inv assms(3,5)] by simp_all
  from assms(4) obtain t' where d: "pcs s d = Spinning t'" "\<not> spin_lock_wait t' (lck s)"
  proof cases
    case (try_ok v lk)
    then have "q = []" using inv_swap_empty [OF inv assms(2)] by (auto simp: trylock_swap_def split: if_splits)
    with dc show ?thesis by simp
  qed (use assms(7,8) that in \<open>auto simp: holds_lock_def split: if_splits lock_pc.splits\<close>)
  have dd: "ticket_distance s d < length q" "q ! ticket_distance s d = d"
    using inv_distance [OF inv assms(3) d(1)] by simp_all
  then have "ticket_distance s d = 0" using inv_served [OF inv assms(3) d] by simp
  moreover have "ticket_distance s d \<noteq> ticket_distance s c" using dc dd assms(6) by metis
  ultimately show ?thesis using d dc lock_inv_length [OF inv] by auto
qed

text \<open>
  No deadlock. Whenever some CPU has a ticket, one CPU is either past its spin loop or finds
  the loop condition false, so it can proceed; the lock is never lost to a ticket nobody holds.
\<close>

theorem lock_progress:
  assumes "lock_run n s" "n < 2 ^ 32" "has_ticket (pcs s c)"
  shows "\<exists>d < n. holds_lock s d \<or> (\<exists>t. pcs s d = Spinning t \<and> \<not> spin_lock_wait t (lck s))"
proof -
  obtain q where inv: "lock_inv n s q" using lock_run_inv [OF assms(1,2)] by blast
  with assms(3) obtain d q' where q: "q = d # q'" by (cases q) (auto simp: lock_inv_def)
  with inv have "ticket_at s 0 d" "d < n" by (auto simp: lock_inv_def)
  then show ?thesis
    by (cases "pcs s d") (auto simp: holds_lock_def spin_lock_wait_def intro!: exI [of _ d])
qed

section \<open>Fair runs\<close>

text \<open>
  An infinite run, with the CPU that makes each step. It is fair when every CPU that is not \<open>Idle\<close> comes
  to make a step; so a CPU leaves the critical section after a finite time.
\<close>

definition fair_run :: "nat \<Rightarrow> (nat \<Rightarrow> nat) \<Rightarrow> (nat \<Rightarrow> lock_sys) \<Rightarrow> bool" where
  "fair_run n cpu run \<longleftrightarrow> run 0 = lock_init \<and> (\<forall>i. timely n (run i) \<and> lock_step n (cpu i) (run i) (run (Suc i))) \<and>
     (\<forall>i c. pcs (run i) c \<noteq> Idle \<longrightarrow> (\<exists>j \<ge> i. cpu j = c))"

fun stage :: "lock_pc \<Rightarrow> nat" where
  \<comment> \<open>how many steps the head of the queue is away from leaving it\<close>
  "stage (Spinning t) = 3"
| "stage Critical = 2"
| "stage (Unlocking v) = 1"
| "stage _ = 0"

lemma step_others: "lock_step n c s t \<Longrightarrow> d \<noteq> c \<Longrightarrow> pcs t d = pcs s d"
  by (erule lock_step.cases) auto

lemma waiting_step:
  \<comment> \<open>who has a ticket and is not at the head only spins\<close>
  assumes inv: "lock_inv n s (h # q)" and c: "c \<in> set q" and n: "n < 2 ^ 32" and step: "lock_step n c s t"
  shows "t = s"
proof -
  obtain i where i: "i < length q" "q ! i = c" using c by (metis in_set_conv_nth)
  then have at: "ticket_at s (Suc i) c" using inv by (auto simp: lock_inv_def)
  then obtain v where v: "pcs s c = Spinning v" by (cases "pcs s c") auto
  then have "spin_lock_wait v (lck s)" using inv_served [OF inv n v, of "Suc i"] i by auto
  with step v show ?thesis by (auto elim: lock_step.cases)
qed

lemma other_step:
  assumes inv: "lock_inv n s (h # q)" and c: "c \<noteq> h" and n: "n < 2 ^ 32" "timely n s" and step: "lock_step n c s t"
  shows "\<exists>zs. lock_inv n t (h # q @ zs) \<and> (\<forall>d \<in> set (h # q). pcs t d = pcs s d)"
proof (cases "c \<in> set q")
  case True
  then have "t = s" by (rule waiting_step [OF inv _ n(1) step])
  then show ?thesis using inv by (auto intro: exI [of _ "[]"])
next
  case False
  then have "pcs t d = pcs s d" if "d \<in> set (h # q)" for d using step_others [OF step, of d] c that by auto
  moreover have "lock_inv n t (h # q @ []) \<or> lock_inv n t (h # q @ [c])" using lock_step_queue [OF step inv n] c by auto
  ultimately show ?thesis by blast
qed

lemma head_step:
  assumes inv: "lock_inv n s (h # q)" and step: "lock_step n h s t" and n: "n < 2 ^ 32" "timely n s"
  obtains v where "pcs s h = Spinning v" "pcs t h = Critical" "lock_inv n t (h # q)"
  | "pcs s h = Critical" "stage (pcs t h) = 1" "lock_inv n t (h # q)"
  | "stage (pcs s h) = 1" "lock_inv n t q"
proof -
  have at: "ticket_at s 0 h" using inv by (auto simp: lock_inv_def)
  show thesis using step
  proof cases
    case (enter v)
    then show ?thesis using lock_step_queue [OF step inv n] that(1) [of v] by auto
  next
    case unlock_read
    then show ?thesis using lock_step_queue [OF step inv n] that(2) by auto
  next
    case (unlock v)
    then show ?thesis using inv_leave [OF inv unlock(3)] that(3) by auto
  qed (use at in \<open>auto simp: spin_lock_wait_def\<close>)
qed

lemma until_head_moves:
  assumes f: "fair_run n cpu run" and n: "n < 2 ^ 32" and inv: "lock_inv n (run i) (h # q)"
    and before: "\<And>k. i \<le> k \<Longrightarrow> k < j \<Longrightarrow> cpu k \<noteq> h" and "i \<le> j"
  shows "\<exists>zs. lock_inv n (run j) (h # q @ zs) \<and> (\<forall>d \<in> set (h # q). pcs (run j) d = pcs (run i) d)"
  using \<open>i \<le> j\<close> before
proof (induction j rule: dec_induct)
  case base
  then show ?case using inv by (auto intro: exI [of _ "[]"])
next
  case (step j)
  then obtain zs where zs: "lock_inv n (run j) (h # q @ zs)" "\<forall>d \<in> set (h # q). pcs (run j) d = pcs (run i) d"
    by (metis less_SucI)
  obtain ys where "lock_inv n (run (Suc j)) (h # (q @ zs) @ ys)" "\<forall>d \<in> set (h # q @ zs). pcs (run (Suc j)) d = pcs (run j) d"
    using other_step [OF zs(1), of "cpu j" "run (Suc j)"] f n step by (auto simp: fair_run_def)
  then show ?case using zs(2) by (auto intro!: exI [of _ "zs @ ys"])
qed

lemma head_moves:
  assumes f: "fair_run n cpu run" and n: "n < 2 ^ 32" and inv: "lock_inv n (run i) (h # q)"
  obtains j zs where "i \<le> j" "cpu j = h" "lock_inv n (run j) (h # q @ zs)" "\<forall>d \<in> set (h # q). pcs (run j) d = pcs (run i) d"
proof -
  have "ticket_at (run i) 0 h" using inv by (auto simp: lock_inv_def)
  then have "pcs (run i) h \<noteq> Idle" by auto
  then have ex: "\<exists>j. i \<le> j \<and> cpu j = h" using f by (auto simp: fair_run_def)
  define j where "j = (LEAST j. i \<le> j \<and> cpu j = h)"
  have j: "i \<le> j" "cpu j = h" using LeastI_ex [OF ex] by (auto simp: j_def)
  have "cpu k \<noteq> h" if "i \<le> k" "k < j" for k using not_less_Least [of k "\<lambda>j. i \<le> j \<and> cpu j = h"] that by (auto simp: j_def)
  from until_head_moves [OF f n inv this j(1)] show thesis using that j by blast
qed

lemma waiting_enters:
  assumes f: "fair_run n cpu run" and n: "n < 2 ^ 32" and inv: "lock_inv n (run i) q" and p: "p < length q" "q ! p = c"
    and w: "pcs (run i) c = Spinning t"
  shows "\<exists>j \<ge> i. pcs (run j) c = Critical"
  using inv p w
proof (induction "3 * p + stage (pcs (run i) (hd q))" arbitrary: i q p rule: less_induct)
  case less
  obtain h r where q: "q = h # r" using less.prems(2) by (cases q) auto
  obtain j zs where j: "i \<le> j" "cpu j = h" "lock_inv n (run j) (h # r @ zs)" "\<forall>d \<in> set (h # r). pcs (run j) d = pcs (run i) d"
    using head_moves [OF f n less.prems(1) [unfolded q]] by blast
  have step: "lock_step n h (run j) (run (Suc j))" "timely n (run j)" using f j(2) by (auto simp: fair_run_def)
  have hj: "pcs (run j) h = pcs (run i) h" using j(4) by simp
  have cq: "c \<in> set (h # r)" using less.prems(2,3) q by (metis nth_mem)
  have wait: "pcs (run (Suc j)) c = Spinning t" if "c \<noteq> h"
    using step_others [OF step(1) that] j(4) cq less.prems(4) by metis
  have d: "distinct (h # r @ zs)" using j(3) by (simp add: lock_inv_def)
  have later: "\<exists>k \<ge> i. pcs (run k) c = Critical" if "\<exists>k \<ge> Suc j. pcs (run k) c = Critical" using that j(1) by (meson Suc_leD order_trans)
  have at: "(h # r @ zs) ! p = c" "p < length (h # r @ zs)" using less.prems(2,3) q by (auto simp: nth_append nth_Cons')
  from j(3) step(1) n step(2) show ?case
  proof (cases rule: head_step)
    case (1 v)
    show ?thesis
    proof (cases "c = h")
      case True
      then show ?thesis using 1 j(1) by (meson le_Suc_eq order_trans)
    next
      case False
      show ?thesis by (rule later, rule less.hyps [OF _ 1(3) at(2,1) wait [OF False]]) (use 1 q hj in auto)
    qed
  next
    case 2
    then have "c \<noteq> h" using less.prems(4) hj by auto
    show ?thesis by (rule later, rule less.hyps [OF _ 2(3) at(2,1) wait [OF \<open>c \<noteq> h\<close>]]) (use 2 q hj in auto)
  next
    case 3
    then have ch: "c \<noteq> h" using less.prems(4) hj by auto
    then obtain p' where p': "p = Suc p'" using less.prems(3) q by (cases p) auto
    have at': "p' < length (r @ zs)" "(r @ zs) ! p' = c" using at p' by auto
    have "stage x \<le> 3" for x by (cases x) auto
    then have "3 * p' + stage (pcs (run (Suc j)) (hd (r @ zs))) < 3 * p + stage (pcs (run i) (hd q))"
      using 3 hj q p' le_imp_less_Suc [of "stage (pcs (run (Suc j)) (hd (r @ zs)))" 3] by simp
    then show ?thesis by (intro later less.hyps [OF _ 3(2) at' wait [OF ch]])
  qed
qed

section \<open>One CPU that takes the lock again and again\<close>

definition solo :: "(nat \<Rightarrow> lock_pc) \<Rightarrow> nat \<Rightarrow> lock_sys" where
  \<comment> \<open>CPU 0 after \<open>i\<close> steps, four for each time it takes the lock\<close>
  "solo p i = (let k = i div 4; m = (if i mod 4 = 0 then k else k + 1) in
     \<lparr>lck = \<lparr>now_serving = of_nat k, next_ticket = of_nat m, holder_cpu = -1\<rparr>,
      pcs = p(0 := [Idle, Spinning (of_nat k), Critical, Unlocking (of_nat k)] ! (i mod 4)), drawn = m, since = (\<lambda>_. 0)\<rparr>)"

abbreviation solo_state :: "(nat \<Rightarrow> lock_pc) \<Rightarrow> nat \<Rightarrow> nat \<Rightarrow> lock_pc \<Rightarrow> lock_sys" where
  "solo_state p k m pc \<equiv> \<lparr>lck = \<lparr>now_serving = of_nat k, next_ticket = of_nat m, holder_cpu = -1\<rparr>, pcs = p(0 := pc),
     drawn = m, since = (\<lambda>_. 0)\<rparr>"

lemma solo_at:
  "solo p (4 * k) = solo_state p k k Idle"
  "solo p (Suc (4 * k)) = solo_state p k (Suc k) (Spinning (of_nat k))"
  "solo p (Suc (Suc (4 * k))) = solo_state p k (Suc k) Critical"
  "solo p (Suc (Suc (Suc (4 * k)))) = solo_state p k (Suc k) (Unlocking (of_nat k))"
  by (simp_all add: solo_def Let_def mod_Suc div_Suc)

lemma solo_step:
  assumes "0 < n"
  shows "lock_step n 0 (solo p i) (solo p (Suc i))"
proof -
  define k where "k = i div 4"
  have "i mod 4 < 4" by simp
  then consider "i = 4 * k" | "i = Suc (4 * k)" | "i = Suc (Suc (4 * k))" | "i = Suc (Suc (Suc (4 * k)))" unfolding k_def by linarith
  then show ?thesis
  proof cases
    case 1
    then show ?thesis using lock_step.take [of 0 n "solo_state p k k Idle", OF assms]
      by (simp add: solo_at spin_lock_take_def add.commute)
  next
    case 2
    then show ?thesis using lock_step.enter [of 0 n "solo_state p k (Suc k) (Spinning (of_nat k))", OF assms]
      by (simp add: solo_at spin_lock_wait_def)
  next
    case 3
    then show ?thesis using lock_step.unlock_read [of 0 n "solo_state p k (Suc k) Critical", OF assms]
      by (simp add: solo_at)
  next
    case 4
    then have "Suc i = 4 * Suc k" by simp
    then have "solo p (Suc i) = solo_state p (Suc k) (Suc k) Idle" by (simp only: solo_at)
    then show ?thesis using 4 lock_step.unlock [of 0 n "solo_state p k (Suc k) (Unlocking (of_nat k))", OF assms]
      by (simp add: solo_at unlock_write_def add.commute)
  qed
qed

lemma solo_reach:
  assumes "lock_reach n (solo p 0)" "0 < n"
  shows "lock_reach n (solo p i)"
proof (induction i)
  case (Suc i)
  then show ?case using solo_step [OF assms(2)] by (rule lock_reach.step)
qed (rule assms(1))

abbreviation alone :: "nat \<Rightarrow> lock_sys" where
  "alone \<equiv> solo (\<lambda>_. Idle)"

lemma alone_pcs: "d \<noteq> 0 \<Longrightarrow> pcs (alone i) d = Idle" "has_ticket (pcs (alone i) 0) \<or> pcs (alone i) 0 = Idle"
proof -
  have "i mod 4 < 4" by simp
  then have "i mod 4 = 0 \<or> i mod 4 = 1 \<or> i mod 4 = 2 \<or> i mod 4 = 3" by linarith
  then show "has_ticket (pcs (alone i) 0) \<or> pcs (alone i) 0 = Idle" by (elim disjE) (simp_all add: solo_def Let_def)
qed (simp add: solo_def Let_def)

lemma alone_timely: "timely n (alone i)"
proof -
  have "has_ticket (pcs (alone i) c) \<or> pcs (alone i) c = Idle" for c using alone_pcs by (cases "c = 0") auto
  then show ?thesis unfolding timely_def by (metis has_ticket.simps(5,6) lock_pc.distinct(3,5))
qed

lemma alone_start: "alone 0 = lock_init"
  by (simp add: solo_def lock_init_def spin_lock_init_def Let_def fun_eq_iff)

lemma alone_run: "lock_run 2 (alone i)"
proof (induction i)
  case 0
  show ?case unfolding alone_start by (rule lock_run.start)
next
  case (Suc i)
  then show ?case using alone_timely solo_step [of 2] by (rule_tac lock_run.step) auto
qed

lemma alone_fair: "fair_run 2 (\<lambda>_. 0) alone"
proof -
  have "c = 0" if "pcs (alone i) c \<noteq> Idle" for i c using alone_pcs(1) that by blast
  then show ?thesis unfolding fair_run_def using alone_start alone_timely solo_step [of 2] by auto
qed

section \<open>Properties of the lock\<close>

text \<open>
  C7: mutual exclusion. However the CPUs interleave their accesses, and however often the 32-bit
  tickets have wrapped around, two CPUs never both hold a spinlock, in every run of \<open>n\<close> CPUs in which at most
  \<open>2 ^ 32 - n\<close> tickets are drawn between the first and the last access of a \<open>spin_trylock\<close>.
\<close>

theorem lock_mutual_exclusion:
  assumes "lock_run n s" "n < 2 ^ 32" "holds_lock s i" "holds_lock s j"
  shows "i = j"
proof -
  obtain q where inv: "lock_inv n s q" using lock_run_inv [OF assms(1,2)] by blast
  show ?thesis using holds_is_head [OF inv assms(3)] holds_is_head [OF inv assms(4)] by auto
qed

theorem lock_mutual_exclusion_witness:
  "lock_run 2 (alone 2) \<and> holds_lock (alone 2) 0 \<and> \<not> holds_lock (alone 2) 1"
proof -
  have "alone 2 = solo_state (\<lambda>_. Idle) 0 1 Critical" using solo_at(3) [of _ 0] by (simp add: numeral_2_eq_2)
  then have h: "holds_lock (alone 2) 0" by (simp add: holds_lock_def)
  then have "\<not> holds_lock (alone 2) 1" using lock_mutual_exclusion [OF alone_run, of 2 0 1] by auto
  then show ?thesis using alone_run h by blast
qed

text \<open>
  The bound on \<open>spin_trylock\<close> is needed: when \<open>2 ^ 32\<close> tickets are drawn between its comparison and its
  swap, the counter has the value that was read again, the swap succeeds, and two CPUs hold the lock.
\<close>

theorem trylock_overtaken:
  assumes "1 < n"
  shows "\<exists>s. lock_reach n s \<and> holds_lock s 0 \<and> holds_lock s 1"
proof -
  let ?p = "(\<lambda>_. Idle)(1 := Swapping 0)"
  obtain k :: nat where k: "Suc k = 2 ^ 32" by (metis not0_implies_Suc power_not_zero zero_neq_numeral)
  let ?t = "lock_init\<lparr>pcs := (\<lambda>_. Idle)(1 := Trying 0)\<rparr>"
  have "lock_step n 1 lock_init ?t"
    using lock_step.try_read [of 1 n lock_init] assms by (simp add: lock_init_def spin_lock_init_def fun_upd_idem)
  moreover have "lock_step n 1 ?t (solo ?p 0)"
    using lock_step.try_test [of 1 n ?t 0] assms solo_at(1) [of ?p 0]
    by (simp add: lock_init_def spin_lock_init_def trylock_test_def fun_upd_idem)
  ultimately have "lock_reach n (solo ?p 0)" using lock_reach.start lock_reach.step by metis
  then have r: "lock_reach n (solo ?p (Suc (Suc (4 * k))))" by (rule solo_reach) (use assms in simp)
  define s where "s = solo ?p (Suc (Suc (4 * k)))"
  have "(of_nat (Suc k) :: u32) = 0" unfolding k by simp
  then have f: "next_ticket (lck s) = 0" "pcs s = ?p(0 := Critical)" unfolding s_def solo_at(3) by simp_all
  let ?s = "s\<lparr>lck := (lck s)\<lparr>next_ticket := 0 + 1\<rparr>, pcs := (pcs s)(1 := Critical), drawn := drawn s + 1\<rparr>"
  have "lock_step n 1 s ?s" by (rule lock_step.try_ok [where v = 0]) (use assms f in \<open>simp_all add: trylock_swap_def\<close>)
  with r have "lock_reach n ?s" unfolding s_def [symmetric] by (rule lock_reach.step)
  moreover have "holds_lock ?s 0 \<and> holds_lock ?s 1" by (simp add: holds_lock_def f(2))
  ultimately show ?thesis by blast
qed

text \<open>
  C22: no starvation. In every infinite run in which each CPU that is not idle makes a step again and
  again, and in which no \<open>spin_trylock\<close> is overtaken by the wrap-around of the tickets, every CPU in the
  spin loop comes to enter the critical section, whatever the others do.
\<close>

theorem lock_no_starvation:
  assumes "fair_run n cpu run" "n < 2 ^ 32" "pcs (run i) c = Spinning t"
  shows "\<exists>j \<ge> i. pcs (run j) c = Critical"
proof -
  have "lock_run n (run k)" for k
    using assms(1) by (induction k) (auto simp: fair_run_def intro: lock_run.intros)
  then obtain q where inv: "lock_inv n (run i) q" using lock_run_inv assms(2) by blast
  from waiting_enters [OF assms(1,2) inv _ _ assms(3)] show ?thesis using inv_distance [OF inv assms(2,3)] by blast
qed

theorem lock_no_starvation_witness:
  "pcs (alone 401) 0 = Spinning 100 \<and> (\<exists>j \<ge> 401. pcs (alone j) 0 = Critical)"
proof -
  have "pcs (alone 401) 0 = Spinning 100" using solo_at(2) [of _ 100] by simp
  then show ?thesis using lock_no_starvation [OF alone_fair, of 401 0 100] by simp
qed

end
