(* ===== verification/Intrusive_List.thy ===== *)
theory Intrusive_List
  imports Prelude
begin

text \<open>
  The circular doubly linked lists of \<^verbatim>\<open>include/koharu/list.h\<close>. A \<open>list_node\<close> (or
  \<open>list_head\<close>) embedded in some object is a name of type \<open>'n\<close>; the \<open>next\<close> and \<open>prev\<close>
  fields of all nodes form a store. \<open>None\<close> is the C null pointer, and writing through it
  sets the \<open>fault\<close> flag of the store: the C code would trap there. The second part relates
  the store to the sequences it represents, and the locale \<open>list_family\<close> states the
  contract on which the clients of the lists (free lists, run queues, wait queues, grant
  lists) rely.
\<close>

section \<open>The operations of list.h\<close>

record 'n dlinks =
  nxt :: "'n \<Rightarrow> 'n option"
  prv :: "'n \<Rightarrow> 'n option"
  fault :: bool

definition set_nxt :: "'n option \<Rightarrow> 'n option \<Rightarrow> 'n dlinks \<Rightarrow> 'n dlinks" where
  \<comment> \<open>\<open>p->next = v\<close>\<close>
  "set_nxt p v st = (case p of None \<Rightarrow> st\<lparr>fault := True\<rparr> | Some a \<Rightarrow> st\<lparr>nxt := (nxt st)(a := v)\<rparr>)"

definition set_prv :: "'n option \<Rightarrow> 'n option \<Rightarrow> 'n dlinks \<Rightarrow> 'n dlinks" where
  \<comment> \<open>\<open>p->prev = v\<close>\<close>
  "set_prv p v st = (case p of None \<Rightarrow> st\<lparr>fault := True\<rparr> | Some a \<Rightarrow> st\<lparr>prv := (prv st)(a := v)\<rparr>)"

definition list_init :: "'n \<Rightarrow> 'n dlinks \<Rightarrow> 'n dlinks" where
  "list_init head st = set_prv (Some head) (Some head) (set_nxt (Some head) (Some head) st)"

definition list_add_between :: "'n \<Rightarrow> 'n option \<Rightarrow> 'n option \<Rightarrow> 'n dlinks \<Rightarrow> 'n dlinks" where
  "list_add_between new_node pr ne st =
     (let st = set_prv ne (Some new_node) st;
          st = set_nxt (Some new_node) ne st;
          st = set_prv (Some new_node) pr st
      in set_nxt pr (Some new_node) st)"

definition list_add :: "'n \<Rightarrow> 'n \<Rightarrow> 'n dlinks \<Rightarrow> 'n dlinks" where
  "list_add new_node head st = list_add_between new_node (Some head) (nxt st head) st"

definition list_add_tail :: "'n \<Rightarrow> 'n \<Rightarrow> 'n dlinks \<Rightarrow> 'n dlinks" where
  "list_add_tail new_node head st = list_add_between new_node (prv st head) (Some head) st"

definition list_del_between :: "'n option \<Rightarrow> 'n option \<Rightarrow> 'n dlinks \<Rightarrow> 'n dlinks" where
  "list_del_between pr ne st = set_nxt pr ne (set_prv ne pr st)"

definition list_del :: "'n \<Rightarrow> 'n dlinks \<Rightarrow> 'n dlinks" where
  "list_del node st =
     (let st = list_del_between (prv st node) (nxt st node) st;
          st = set_nxt (Some node) None st
      in set_prv (Some node) None st)"

definition list_empty :: "'n \<Rightarrow> 'n dlinks \<Rightarrow> bool" where
  "list_empty head st \<longleftrightarrow> nxt st head = Some head"

lemmas list_h_defs = set_nxt_def set_prv_def list_init_def list_add_between_def list_add_def
  list_add_tail_def list_del_between_def list_del_def list_empty_def

section \<open>What a store represents\<close>

text \<open>
  \<open>seg st a xs b\<close>: starting at \<open>a\<close>, the \<open>next\<close> fields run through \<open>xs\<close> and arrive at \<open>b\<close>,
  and every \<open>prev\<close> field on the way points back. A list with head \<open>h\<close> and elements \<open>xs\<close> is
  such a segment from \<open>h\<close> back to \<open>h\<close>.
\<close>

fun seg :: "'n dlinks \<Rightarrow> 'n \<Rightarrow> 'n list \<Rightarrow> 'n \<Rightarrow> bool" where
  "seg st a [] b \<longleftrightarrow> nxt st a = Some b \<and> prv st b = Some a"
| "seg st a (x # xs) b \<longleftrightarrow> nxt st a = Some x \<and> prv st x = Some a \<and> seg st x xs b"

definition dlist :: "'n dlinks \<Rightarrow> 'n \<Rightarrow> 'n list \<Rightarrow> bool" where
  "dlist st h xs \<longleftrightarrow> seg st h xs h \<and> distinct (h # xs)"

text \<open>A family of lists with heads \<open>H\<close> in one store, no node shared between two of them.\<close>

definition dlists :: "'n dlinks \<Rightarrow> 'n set \<Rightarrow> ('n \<Rightarrow> 'n list) \<Rightarrow> bool" where
  "dlists st H L \<longleftrightarrow> \<not> fault st \<and> (\<forall>h \<in> H. dlist st h (L h) \<and> set (L h) \<inter> H = {}) \<and>
     (\<forall>h \<in> H. \<forall>h' \<in> H. h \<noteq> h' \<longrightarrow> set (L h) \<inter> set (L h') = {})"

definition members :: "'n set \<Rightarrow> ('n \<Rightarrow> 'n list) \<Rightarrow> 'n set" where
  "members H L = (\<Union>h \<in> H. set (L h))"

lemma seg_append [simp]:
  "seg st a (xs @ y # ys) b \<longleftrightarrow> seg st a xs y \<and> seg st y ys b"
  by (induction xs arbitrary: a) auto

lemma seg_nxt: "seg st a xs b \<Longrightarrow> nxt st a = Some (case xs of [] \<Rightarrow> b | x # _ \<Rightarrow> x)"
  by (cases xs) auto

lemma seg_prv: "seg st a xs b \<Longrightarrow> prv st b = Some (if xs = [] then a else last xs)"
  by (induction xs arbitrary: a) auto

lemma seg_cong:
  assumes "seg st a xs b"
    and "\<And>x. x \<in> insert a (set xs) \<Longrightarrow> nxt st' x = nxt st x"
    and "\<And>x. x \<in> insert b (set xs) \<Longrightarrow> prv st' x = prv st x"
  shows "seg st' a xs b"
  using assms by (induction xs arbitrary: a) auto

lemma dlist_cong:
  assumes "dlist st h xs"
    and "\<And>x. x \<in> insert h (set xs) \<Longrightarrow> nxt st' x = nxt st x \<and> prv st' x = prv st x"
  shows "dlist st' h xs"
  using assms seg_cong [of st h xs h st'] by (auto simp: dlist_def)

lemma seg_unique:
  "seg st a xs h \<Longrightarrow> seg st a ys h \<Longrightarrow> h \<notin> set xs \<Longrightarrow> h \<notin> set ys \<Longrightarrow> xs = ys"
proof (induction xs arbitrary: a ys)
  case Nil
  then show ?case by (cases ys) auto
next
  case (Cons x xs)
  then show ?case by (cases ys) auto
qed

lemma dlist_unique: "dlist st h xs \<Longrightarrow> dlist st h ys \<Longrightarrow> xs = ys"
  using seg_unique by (fastforce simp: dlist_def)

section \<open>The operations on one list\<close>

lemma dlist_empty: "dlist st h xs \<Longrightarrow> list_empty h st \<longleftrightarrow> xs = []"
  by (cases xs) (auto simp: dlist_def list_empty_def)

lemma dlist_first: "dlist st h (x # xs) \<Longrightarrow> nxt st h = Some x"
  by (simp add: dlist_def)

lemma dlist_init: "dlist (list_init h st) h []"
  by (simp add: dlist_def list_h_defs)

lemma dlist_add_tail:
  assumes d: "dlist st h xs" and n: "n \<notin> insert h (set xs)"
  shows "dlist (list_add_tail n h st) h (xs @ [n])"
proof -
  have p: "prv st h = Some (if xs = [] then h else last xs)"
    using d by (intro seg_prv) (simp add: dlist_def)
  have s: "seg (list_add_tail n h st) h xs n"
  proof (cases xs rule: rev_cases)
    case Nil
    with p n show ?thesis by (auto simp: list_h_defs Let_def)
  next
    case (snoc ys y)
    with d have "seg st h ys y" by (simp add: dlist_def)
    then have "seg (list_add_tail n h st) h ys y"
      by (rule seg_cong) (use snoc p n d in \<open>auto simp: list_h_defs Let_def dlist_def\<close>)
    with snoc p n show ?thesis by (auto simp: list_h_defs Let_def)
  qed
  have "seg (list_add_tail n h st) n [] h"
    using n p by (auto simp: list_h_defs Let_def)
  with s d n show ?thesis by (auto simp: dlist_def)
qed

lemma dlist_add:
  assumes d: "dlist st h xs" and n: "n \<notin> insert h (set xs)"
  shows "dlist (list_add n h st) h (n # xs)"
proof (cases xs)
  case Nil
  with d n show ?thesis by (auto simp: dlist_def list_h_defs Let_def)
next
  case (Cons y ys)
  with d have "seg st y ys h" "nxt st h = Some y" by (simp_all add: dlist_def)
  moreover from this have "seg (list_add n h st) y ys h"
    by (rule_tac seg_cong) (use Cons n d in \<open>auto simp: list_h_defs Let_def dlist_def\<close>)
  ultimately show ?thesis
    using Cons n d by (auto simp: dlist_def list_h_defs Let_def)
qed

lemma seg_bypass:
  \<comment> \<open>unlinking \<open>n\<close> from a segment; \<open>a\<close> and \<open>b\<close> may be the same node\<close>
  assumes "seg st a (ys @ n # zs) b" "distinct (ys @ n # zs)"
    and "a \<notin> set (ys @ n # zs)" "b \<notin> set (ys @ n # zs)"
    and "nxt st' = (nxt st)(last (a # ys) := Some (hd (zs @ [b])), n := None)"
    and "prv st' = (prv st)(hd (zs @ [b]) := Some (last (a # ys)), n := None)"
  shows "seg st' a (ys @ zs) b"
  using assms
proof (induction ys arbitrary: a)
  case Nil
  show ?case
  proof (cases zs)
    case Nil
    with Nil.prems show ?thesis by auto
  next
    case (Cons z ws)
    with Nil.prems have "seg st z ws b" by simp
    then have "seg st' z ws b"
      by (rule seg_cong) (use Nil.prems Cons in auto)
    with Nil.prems Cons show ?thesis by auto
  qed
next
  case (Cons y ys)
  then have "seg st' y (ys @ zs) b" by (auto simp del: fun_upd_apply)
  with Cons.prems show ?case by (cases zs) auto
qed

lemma dlist_del:
  assumes d: "dlist st h xs" and n: "n \<in> set xs"
  shows "dlist (list_del n st) h (remove1 n xs)"
proof -
  from d n obtain ys zs where xs: "xs = ys @ n # zs" "n \<notin> set ys" "n \<notin> set zs"
    using distinct_split_middle by (metis dlist_def distinct.simps(2))
  from d xs have s: "seg st h ys n" "seg st n zs h" by (auto simp: dlist_def)
  have "prv st n = Some (last (h # ys))" "nxt st n = Some (hd (zs @ [h]))"
    using seg_prv [OF s(1)] seg_nxt [OF s(2)] by (cases zs; simp)+
  then have "seg (list_del n st) h (ys @ zs) h"
    using d xs by (intro seg_bypass [of st h ys n zs h]) (auto simp: dlist_def list_h_defs Let_def)
  with d xs show ?thesis by (auto simp: dlist_def remove1_append)
qed

section \<open>The operations on a family of lists\<close>

lemma list_add_between_other:
  assumes "x \<noteq> n" "pr \<noteq> Some x" "ne \<noteq> Some x"
  shows "nxt (list_add_between n pr ne st) x = nxt st x \<and> prv (list_add_between n pr ne st) x = prv st x"
  using assms by (auto simp: list_h_defs Let_def split: option.splits)

lemma list_del_other:
  assumes "x \<noteq> n" "nxt st n \<noteq> Some x" "prv st n \<noteq> Some x"
  shows "nxt (list_del n st) x = nxt st x \<and> prv (list_del n st) x = prv st x"
  using assms by (auto simp: list_h_defs Let_def split: option.splits)

lemma dlist_ends:
  assumes "dlist st h xs"
  shows "\<exists>a \<in> insert h (set xs). nxt st h = Some a" "\<exists>a \<in> insert h (set xs). prv st h = Some a"
proof -
  have s: "seg st h xs h" using assms by (simp add: dlist_def)
  show "\<exists>a \<in> insert h (set xs). nxt st h = Some a"
    using seg_nxt [OF s] by (cases xs) auto
  show "\<exists>a \<in> insert h (set xs). prv st h = Some a"
    using seg_prv [OF s] by (cases "xs = []") auto
qed

lemma dlist_neighbours:
  assumes "dlist st h xs" "n \<in> set xs"
  shows "\<exists>a \<in> insert h (set xs). nxt st n = Some a" "\<exists>a \<in> insert h (set xs). prv st n = Some a"
proof -
  from assms(2) obtain ys zs where xs: "xs = ys @ n # zs" by (metis split_list)
  with assms have "seg st h ys n" "seg st n zs h" by (simp_all add: dlist_def)
  then have "prv st n = Some (last (h # ys))" "nxt st n = Some (hd (zs @ [h]))"
    using seg_prv [of st h ys n] seg_nxt [of st n zs h] by (cases zs; simp)+
  moreover have "last (h # ys) \<in> insert h (set xs)" "hd (zs @ [h]) \<in> insert h (set xs)"
    using xs last_in_set [of "h # ys"] hd_in_set [of "zs @ [h]"] by auto
  ultimately show "\<exists>a \<in> insert h (set xs). nxt st n = Some a" "\<exists>a \<in> insert h (set xs). prv st n = Some a"
    by blast+
qed

lemma dlists_disjoint:
  "dlists st H L \<Longrightarrow> h \<in> H \<Longrightarrow> h' \<in> H \<Longrightarrow> x \<in> set (L h) \<Longrightarrow> x \<in> set (L h') \<Longrightarrow> h = h'"
  unfolding dlists_def by blast

lemma dlists_no_head: "dlists st H L \<Longrightarrow> h \<in> H \<Longrightarrow> x \<in> set (L h) \<Longrightarrow> x \<notin> H"
  unfolding dlists_def by blast

lemma dlists_update_one:
  \<comment> \<open>an operation that only touches nodes of the list at \<open>h\<close> (and a fresh node) keeps the others\<close>
  assumes L: "dlists st H L" and h: "h \<in> H" and d: "dlist st' h ys" and f: "\<not> fault st'"
    and ys: "set ys \<inter> H = {}" "set ys \<subseteq> insert n (set (L h))" "n \<notin> members H L - set (L h)"
    and same: "\<And>x. x \<notin> insert h (insert n (set (L h))) \<Longrightarrow> nxt st' x = nxt st x \<and> prv st' x = prv st x"
    and nH: "n \<notin> H"
  shows "dlists st' H (L(h := ys))"
proof -
  have other: "dlist st' h' (L h')" if "h' \<in> H" "h' \<noteq> h" for h'
  proof (rule dlist_cong)
    show "dlist st h' (L h')" using L that by (simp add: dlists_def)
    show "nxt st' x = nxt st x \<and> prv st' x = prv st x" if "x \<in> insert h' (set (L h'))" for x
      using that \<open>h' \<in> H\<close> \<open>h' \<noteq> h\<close> h ys(3) nH
      by (intro same) (auto simp: members_def dest: dlists_no_head [OF L] dlists_disjoint [OF L])
  qed
  show ?thesis
    using L h d f ys other unfolding dlists_def members_def by simp blast
qed

lemma dlists_add_tail:
  assumes L: "dlists st H L" and h: "h \<in> H" and n: "n \<notin> H" "n \<notin> members H L"
  shows "dlists (list_add_tail n h st) H (L(h := L h @ [n]))"
proof -
  have d: "dlist st h (L h)" using L h by (simp add: dlists_def)
  then obtain a where a: "a \<in> insert h (set (L h))" "prv st h = Some a" using dlist_ends by metis
  show ?thesis
  proof (rule dlists_update_one [OF L h, where n = n])
    show "dlist (list_add_tail n h st) h (L h @ [n])"
      using d n h by (intro dlist_add_tail) (auto simp: members_def)
    show "\<not> fault (list_add_tail n h st)" using L a by (simp add: dlists_def list_h_defs Let_def)
    show "nxt (list_add_tail n h st) x = nxt st x \<and> prv (list_add_tail n h st) x = prv st x"
      if "x \<notin> insert h (insert n (set (L h)))" for x
      using that a unfolding list_add_tail_def by (intro list_add_between_other) auto
  qed (use L n h in \<open>auto simp: dlists_def\<close>)
qed

lemma dlists_add:
  assumes L: "dlists st H L" and h: "h \<in> H" and n: "n \<notin> H" "n \<notin> members H L"
  shows "dlists (list_add n h st) H (L(h := n # L h))"
proof -
  have d: "dlist st h (L h)" using L h by (simp add: dlists_def)
  then obtain a where a: "a \<in> insert h (set (L h))" "nxt st h = Some a" using dlist_ends by metis
  show ?thesis
  proof (rule dlists_update_one [OF L h, where n = n])
    show "dlist (list_add n h st) h (n # L h)"
      using d n h by (intro dlist_add) (auto simp: members_def)
    show "\<not> fault (list_add n h st)" using L a by (simp add: dlists_def list_h_defs Let_def)
    show "nxt (list_add n h st) x = nxt st x \<and> prv (list_add n h st) x = prv st x"
      if "x \<notin> insert h (insert n (set (L h)))" for x
      using that a unfolding list_add_def by (intro list_add_between_other) auto
  qed (use L n h in \<open>auto simp: dlists_def\<close>)
qed

lemma dlists_del:
  assumes L: "dlists st H L" and h: "h \<in> H" and n: "n \<in> set (L h)"
  shows "dlists (list_del n st) H (L(h := remove1 n (L h)))"
proof -
  have d: "dlist st h (L h)" using L h by (simp add: dlists_def)
  obtain a b where ab: "a \<in> insert h (set (L h))" "nxt st n = Some a"
    "b \<in> insert h (set (L h))" "prv st n = Some b" using dlist_neighbours [OF d n] by metis
  show ?thesis
  proof (rule dlists_update_one [OF L h, where n = n])
    show "dlist (list_del n st) h (remove1 n (L h))" using d n by (rule dlist_del)
    show "\<not> fault (list_del n st)" using L ab by (simp add: dlists_def list_h_defs Let_def)
    show "nxt (list_del n st) x = nxt st x \<and> prv (list_del n st) x = prv st x"
      if "x \<notin> insert h (insert n (set (L h)))" for x
      using that ab by (intro list_del_other) auto
  qed (use L n h in \<open>auto dest: set_remove1_subset [THEN subsetD] dlists_no_head [OF L]\<close>)
qed

lemma dlists_init:
  assumes L: "dlists st H L" and h: "h \<notin> H" "h \<notin> members H L"
  shows "dlists (list_init h st) (insert h H) (L(h := []))"
proof -
  have other: "dlist (list_init h st) h' (L h')" if "h' \<in> H" for h'
    by (rule dlist_cong [of st]) (use that L h in \<open>auto simp: dlists_def members_def list_h_defs\<close>)
  have "\<not> fault (list_init h st)" using L by (simp add: dlists_def list_h_defs)
  with L h other show ?thesis
    by (auto simp: dlists_def members_def dlist_init)
qed

section \<open>The contract of the lists\<close>

text \<open>
  What a client of a family of lists may rely on: \<open>rep\<close> says which sequences the state holds,
  and every operation acts on them as its name says. The lemmas proved from the contract are
  the compound operations the kernel uses: taking the first element, moving an element to the
  tail of another list, and the fact that a node is on one list only.
\<close>

locale list_family =
  fixes rep :: "'s \<Rightarrow> 'n set \<Rightarrow> ('n \<Rightarrow> 'n list) \<Rightarrow> bool"
    and add_first add_last :: "'n \<Rightarrow> 'n \<Rightarrow> 's \<Rightarrow> 's"
    and unlink :: "'n \<Rightarrow> 's \<Rightarrow> 's"
    and is_empty :: "'n \<Rightarrow> 's \<Rightarrow> bool"
    and first :: "'s \<Rightarrow> 'n \<Rightarrow> 'n option"
  assumes rep_add_first: "rep st H L \<Longrightarrow> h \<in> H \<Longrightarrow> n \<notin> H \<Longrightarrow> n \<notin> members H L \<Longrightarrow>
      rep (add_first n h st) H (L(h := n # L h))"
    and rep_add_last: "rep st H L \<Longrightarrow> h \<in> H \<Longrightarrow> n \<notin> H \<Longrightarrow> n \<notin> members H L \<Longrightarrow>
      rep (add_last n h st) H (L(h := L h @ [n]))"
    and rep_unlink: "rep st H L \<Longrightarrow> h \<in> H \<Longrightarrow> n \<in> set (L h) \<Longrightarrow>
      rep (unlink n st) H (L(h := remove1 n (L h)))"
    and rep_is_empty: "rep st H L \<Longrightarrow> h \<in> H \<Longrightarrow> is_empty h st \<longleftrightarrow> L h = []"
    and rep_first: "rep st H L \<Longrightarrow> h \<in> H \<Longrightarrow> L h = x # xs \<Longrightarrow> first st h = Some x"
    and rep_distinct: "rep st H L \<Longrightarrow> h \<in> H \<Longrightarrow> distinct (L h) \<and> set (L h) \<inter> H = {}"
    and rep_disjoint: "rep st H L \<Longrightarrow> h \<in> H \<Longrightarrow> h' \<in> H \<Longrightarrow> x \<in> set (L h) \<Longrightarrow> x \<in> set (L h') \<Longrightarrow> h = h'"
begin

lemma pop:
  assumes "rep st H L" "h \<in> H" "L h = x # xs"
  shows "\<not> is_empty h st" "first st h = Some x" "rep (unlink x st) H (L(h := xs))"
  using assms rep_is_empty [OF assms(1,2)] rep_first [OF assms] rep_unlink [OF assms(1,2), of x]
  by simp_all

lemma pop_fresh:
  assumes "rep st H L" "h \<in> H" "L h = x # xs"
  shows "x \<notin> H" "x \<notin> members H (L(h := xs))"
proof -
  show "x \<notin> H" using rep_distinct [OF assms(1,2)] assms(3) by auto
  have "x \<notin> set (L h')" if "h' \<in> H" "h' \<noteq> h" for h'
    using rep_disjoint [OF assms(1,2) that(1), of x] assms(3) that by auto
  moreover have "x \<notin> set xs" using rep_distinct [OF assms(1,2)] assms(3) by auto
  ultimately show "x \<notin> members H (L(h := xs))" by (auto simp: members_def)
qed

lemma unlink_fresh:
  assumes "rep st H L" "h \<in> H" "n \<in> set (L h)"
  shows "n \<notin> H" "n \<notin> members H (L(h := remove1 n (L h)))"
proof -
  show "n \<notin> H" using rep_distinct [OF assms(1,2)] assms(3) by auto
  have "n \<notin> set (L h')" if "h' \<in> H" "h' \<noteq> h" for h'
    using rep_disjoint [OF assms(1,2) that(1), of n] assms(3) that by auto
  moreover have "n \<notin> set (remove1 n (L h))" using rep_distinct [OF assms(1,2)] by simp
  ultimately show "n \<notin> members H (L(h := remove1 n (L h)))" by (auto simp: members_def)
qed

lemma move_first_to_tail:
  assumes "rep st H L" "h \<in> H" "h' \<in> H" "L h = x # xs"
  shows "rep (add_last x h' (unlink x st)) H (L(h := xs, h' := (L(h := xs)) h' @ [x]))"
  using rep_add_last [OF pop(3) [OF assms(1,2,4)] assms(3)] pop_fresh [OF assms(1,2,4)] by blast

end

interpretation lists: list_family dlists list_add list_add_tail list_del list_empty nxt
proof unfold_locales
  fix st :: "'n dlinks" and H L h x xs
  show "dlists st H L \<Longrightarrow> h \<in> H \<Longrightarrow> list_empty h st \<longleftrightarrow> L h = []"
    by (simp add: dlists_def dlist_empty)
  show "dlists st H L \<Longrightarrow> h \<in> H \<Longrightarrow> L h = x # xs \<Longrightarrow> nxt st h = Some x"
    by (metis dlists_def dlist_first)
  show "dlists st H L \<Longrightarrow> h \<in> H \<Longrightarrow> distinct (L h) \<and> set (L h) \<inter> H = {}"
    by (auto simp: dlists_def dlist_def)
next
  fix st :: "'n dlinks" and H L h h' x
  show "dlists st H L \<Longrightarrow> h \<in> H \<Longrightarrow> h' \<in> H \<Longrightarrow> x \<in> set (L h) \<Longrightarrow> x \<in> set (L h') \<Longrightarrow> h = h'"
    by (rule dlists_disjoint)
qed (auto intro: dlists_add dlists_add_tail dlists_del)

end
