(* ===== verification/Boot_Info.thy ===== *)
theory Boot_Info
  imports Prelude
begin

text \<open>
  The boot information the loader hands to the kernel: the structures of
  \<^verbatim>\<open>include/koharu/bootinfo.h\<close>.
\<close>

abbreviation (input) MMAP_TYPE_USABLE :: u32 where "MMAP_TYPE_USABLE \<equiv> 1"
abbreviation (input) MMAP_TYPE_RESERVED :: u32 where "MMAP_TYPE_RESERVED \<equiv> 2"
abbreviation (input) MMAP_TYPE_ACPI_RECLAIMABLE :: u32 where "MMAP_TYPE_ACPI_RECLAIMABLE \<equiv> 3"
abbreviation (input) MMAP_TYPE_ACPI_NVS :: u32 where "MMAP_TYPE_ACPI_NVS \<equiv> 4"
abbreviation (input) MMAP_TYPE_BAD_MEM :: u32 where "MMAP_TYPE_BAD_MEM \<equiv> 5"
abbreviation (input) MMAP_TYPE_BOOTLOADER_RECLAIMABLE :: u32 where "MMAP_TYPE_BOOTLOADER_RECLAIMABLE \<equiv> 6"

record framebuffer_t =
  fb_address :: u64
  fb_width :: u16
  fb_height :: u16
  fb_pitch :: u16

record mmap_entry_t =
  phys_start :: u64
  len :: u64
  mtype :: u32
  mflags :: u32

record mmap_info_t =
  total_usable :: u64
  max_phys_addr :: u64
  entries :: "mmap_entry_t list"

record kernel_info_t =
  kernel_src :: u64
  kernel_size :: u64

record image_info_t =
  \<comment> \<open>\<open>init_info_t\<close> and \<open>initrd_info_t\<close> have the same fields\<close>
  img_addr :: u64
  img_size :: u64

record boot_info_t =
  bi_framebuffer :: framebuffer_t
  bi_memory :: mmap_info_t
  bi_kernel :: kernel_info_t
  bi_init :: image_info_t
  bi_initrd :: image_info_t
  bi_rsdp_addr :: u64

end
