(* ===== verification/Buddy.thy ===== *)
theory Buddy
  imports Intrusive_List Boot_Info
begin

text \<open>
  The physical page allocator of \<^verbatim>\<open>kernel/mm/pmm.c\<close>: a binary buddy allocator whose free
  blocks of order \<open>k\<close> (\<open>2 ^ k\<close> pages) are threaded through the \<open>page_list\<close> nodes of
  \<open>mem_map\<close>. A \<open>page_t *\<close> is identified with the index of its element, the page frame number.
  The second half states what the free lists mean (disjoint aligned blocks of frames) and shows
  that allocation hands out exactly one free block, and that freeing gives it back as long as
  the neighbour a block is merged with is free as a whole.
\<close>

section \<open>State\<close>

datatype pmm_node = FreeHead nat | PageNode u64

record page_t =
  is_free :: bool
  owner_cpu_id :: u16

record pmm_t =
  links :: "pmm_node dlinks"
  free_count :: "nat \<Rightarrow> u64"
  mem_map :: "u64 \<Rightarrow> page_t"
  mem_map_phys :: u64
  mem_map_size :: u64
  total_pages :: u64
  free_pages :: u64

section \<open>Address conversions\<close>

definition virt_to_phys :: "u64 \<Rightarrow> u64" where
  "virt_to_phys addr = addr - HHDM_OFFSET"

definition phys_to_virt :: "u64 \<Rightarrow> u64" where
  "phys_to_virt phys = phys + HHDM_OFFSET"

definition phys_to_pfn :: "u64 \<Rightarrow> u64" where
  "phys_to_pfn phys = drop_bit PAGE_SHIFT phys"

definition pfn_to_phys :: "u64 \<Rightarrow> u64" where
  "pfn_to_phys pfn = push_bit PAGE_SHIFT pfn"

definition virt_to_page :: "u64 \<Rightarrow> u64" where
  \<comment> \<open>the index in \<open>mem_map\<close>\<close>
  "virt_to_page ptr = phys_to_pfn (virt_to_phys ptr)"

definition page_to_virt :: "u64 \<Rightarrow> u64" where
  "page_to_virt page = phys_to_virt (pfn_to_phys page)"

section \<open>Allocation and freeing\<close>

fun node_pfn :: "pmm_node option \<Rightarrow> u64" where
  \<comment> \<open>\<open>page_to_pfn((page_t*)node)\<close>; the cast is meant for nodes of \<open>mem_map\<close> only\<close>
  "node_pfn (Some (PageNode pfn)) = pfn"
| "node_pfn _ = 0"

definition set_is_free :: "u64 \<Rightarrow> bool \<Rightarrow> 'z pmm_t_scheme \<Rightarrow> 'z pmm_t_scheme" where
  "set_is_free pfn v s = s\<lparr>mem_map := (mem_map s)(pfn := (mem_map s pfn)\<lparr>is_free := v\<rparr>)\<rparr>"

definition count_add :: "nat \<Rightarrow> u64 \<Rightarrow> 'z pmm_t_scheme \<Rightarrow> 'z pmm_t_scheme" where
  "count_add k d s = s\<lparr>free_count := (free_count s)(k := free_count s k + d)\<rparr>"

function pmm_split :: "nat \<Rightarrow> nat \<Rightarrow> u64 \<Rightarrow> 'z pmm_t_scheme \<Rightarrow> 'z pmm_t_scheme" where
  \<comment> \<open>the inner \<open>while (curr_order > order)\<close> of \<open>pmm_alloc_pages\<close>\<close>
  "pmm_split order cur pfn s =
     (if cur > order then
        let cur = cur - 1;
            buddy_pfn = pfn XOR push_bit cur 1;
            s = set_is_free buddy_pfn True s;
            s = s\<lparr>links := list_add (PageNode buddy_pfn) (FreeHead cur) (links s)\<rparr>;
            s = count_add cur 1 s
        in pmm_split order cur pfn s
      else s)"
  by pat_completeness auto
termination by (relation "measure (\<lambda>(order, cur, _). cur)") auto

function pmm_alloc_scan :: "nat \<Rightarrow> nat \<Rightarrow> 'z pmm_t_scheme \<Rightarrow> u64 \<times> 'z pmm_t_scheme" where
  \<comment> \<open>the outer \<open>for\<close> of \<open>pmm_alloc_pages\<close>\<close>
  "pmm_alloc_scan order cur s =
     (if cur < MAX_BUDDY_ORDER then
        if list_empty (FreeHead cur) (links s) then pmm_alloc_scan order (Suc cur) s
        else
          let node = nxt (links s) (FreeHead cur);
              s = s\<lparr>links := (case node of Some n \<Rightarrow> list_del n (links s)
                                          | None \<Rightarrow> (links s)\<lparr>fault := True\<rparr>)\<rparr>;
              s = count_add cur (- 1) s;
              pfn = node_pfn node;
              s = pmm_split order cur pfn s;
              s = set_is_free pfn False s;
              s = s\<lparr>free_pages := free_pages s - push_bit order 1\<rparr>
          in (pfn_to_phys pfn, s)
      else (0, s))"
  by pat_completeness auto
termination by (relation "measure (\<lambda>(order, cur, s). MAX_BUDDY_ORDER - cur)") auto

definition pmm_alloc_pages :: "int \<Rightarrow> 'z pmm_t_scheme \<Rightarrow> u64 \<times> 'z pmm_t_scheme" where
  \<comment> \<open>returns the physical address, 0 for \<open>NULL\<close>\<close>
  "pmm_alloc_pages order s =
     (if order < 0 \<or> order \<ge> int MAX_BUDDY_ORDER then (0, s)
      else pmm_alloc_scan (nat order) (nat order) s)"

function pmm_merge :: "nat \<Rightarrow> u64 \<Rightarrow> 'z pmm_t_scheme \<Rightarrow> nat \<times> u64 \<times> 'z pmm_t_scheme" where
  \<comment> \<open>the \<open>while\<close> of \<open>pmm_free_pages\<close>\<close>
  "pmm_merge cur pfn s =
     (if cur < MAX_BUDDY_ORDER - 1 then
        let buddy_pfn = pfn XOR push_bit cur 1 in
        if \<not> is_free (mem_map s buddy_pfn) then (cur, pfn, s)
        else
          let s = s\<lparr>links := list_del (PageNode buddy_pfn) (links s)\<rparr>;
              s = set_is_free buddy_pfn False s;
              s = count_add cur (- 1) s
          in pmm_merge (Suc cur) (pfn AND buddy_pfn) s
      else (cur, pfn, s))"
  by pat_completeness auto
termination by (relation "measure (\<lambda>(cur, _, _). MAX_BUDDY_ORDER - cur)") auto

definition pmm_free_pages :: "u64 \<Rightarrow> int \<Rightarrow> 'z pmm_t_scheme \<Rightarrow> 'z pmm_t_scheme" where
  "pmm_free_pages addr order s =
     (if addr = 0 \<or> order < 0 \<or> order \<ge> int MAX_BUDDY_ORDER then s
      else
        let (cur, pfn, s) = pmm_merge (nat order) (phys_to_pfn addr) s;
            s = set_is_free pfn True s;
            s = s\<lparr>links := list_add_tail (PageNode pfn) (FreeHead cur) (links s)\<rparr>;
            s = count_add cur 1 s
        in s\<lparr>free_pages := free_pages s + push_bit (nat order) 1\<rparr>)"

declare pmm_split.simps [simp del] pmm_alloc_scan.simps [simp del] pmm_merge.simps [simp del]

section \<open>Initialisation\<close>

definition entry_end :: "mmap_entry_t \<Rightarrow> u64" where
  "entry_end e = phys_start e + len e"

definition pmm_frame_in_pool :: "mmap_entry_t list \<Rightarrow> u64 \<Rightarrow> 'z pmm_t_scheme \<Rightarrow> bool" where
  "pmm_frame_in_pool mmap pfn s =
     (if pfn < PMM_POOL_START_PFN then False
      else
        let phys = pfn_to_phys pfn in
        if phys < 0x100000 then False
        else if phys \<ge> mem_map_phys s \<and> phys < mem_map_phys s + mem_map_size s then False
        else list_ex (\<lambda>e.
          if mtype e \<noteq> MMAP_TYPE_USABLE then False
          else
            let start = ALIGN_UP (phys_start e) PAGE_SIZE;
                ende = ALIGN_DOWN (entry_end e) PAGE_SIZE;
                start = (if start < 0x100000 then 0x100000 else start)
            in if ende \<le> start then False
               else phys \<ge> start \<and> phys + PAGE_SIZE \<le> ende) mmap)"

fun pmm_find_array :: "u64 \<Rightarrow> mmap_entry_t list \<Rightarrow> u64" where
  \<comment> \<open>where \<open>mem_map\<close> goes: the first usable region that is large enough, 0 if there is none\<close>
  "pmm_find_array array_size [] = 0"
| "pmm_find_array array_size (e # es) =
     (if mtype e = MMAP_TYPE_USABLE then
        let start_addr = ALIGN_UP (phys_start e) PAGE_SIZE;
            end_addr = ALIGN_UP (entry_end e) PAGE_SIZE;
            start_addr = (if start_addr < 0x100000 then 0x100000 else start_addr)
        in if end_addr > start_addr \<and> end_addr - start_addr \<ge> array_size then start_addr
           else pmm_find_array array_size es
      else pmm_find_array array_size es)"

fun pmm_target_order :: "u64 \<Rightarrow> u64 \<Rightarrow> nat \<Rightarrow> nat" where
  \<comment> \<open>the loop over \<open>order\<close> from \<open>order\<close> down to 0\<close>
  "pmm_target_order remain cur order =
     (if remain \<ge> push_bit (PAGE_SHIFT + order) 1 \<and> cur AND (push_bit (PAGE_SHIFT + order) 1 - 1) = 0
      then order
      else case order of 0 \<Rightarrow> 0 | Suc order \<Rightarrow> pmm_target_order remain cur order)"

definition pmm_add_block :: "u64 \<Rightarrow> nat \<Rightarrow> 'z pmm_t_scheme \<Rightarrow> 'z pmm_t_scheme" where
  \<comment> \<open>the tail of the loop body: link the block that starts at \<open>cur\<close>\<close>
  "pmm_add_block cur target_order s =
     (let pfn = phys_to_pfn cur;
          s = set_is_free pfn True s;
          s = s\<lparr>links := list_add_tail (PageNode pfn) (FreeHead target_order) (links s)\<rparr>;
          s = count_add target_order 1 s
      in s\<lparr>free_pages := free_pages s + push_bit target_order 1\<rparr>)"

abbreviation pool_start :: u64 where "pool_start \<equiv> push_bit PAGE_SHIFT PMM_POOL_START_PFN"

declare pmm_target_order.simps [simp del]

lemma pmm_target_order_le: "pmm_target_order remain cur order \<le> order"
  by (induction order) (subst pmm_target_order.simps; simp)+

function pmm_init_region :: "u64 \<Rightarrow> u64 \<Rightarrow> u64 \<Rightarrow> u64 \<Rightarrow> 'z pmm_t_scheme \<Rightarrow> 'z pmm_t_scheme" where
  \<comment> \<open>\<open>while (cur < end)\<close>\<close>
  "pmm_init_region array_phys array_end ende cur s =
     (if cur < ende then
        if cur \<ge> pool_start then s
        else if cur \<ge> array_phys \<and> cur < array_end then
          pmm_init_region array_phys array_end ende array_end s
        else
          let limit = (if cur < array_phys \<and> ende > array_phys then array_phys else ende);
              limit = (if limit > pool_start then pool_start else limit);
              target_order = pmm_target_order (limit - cur) cur (MAX_BUDDY_ORDER - 1)
          in pmm_init_region array_phys array_end ende
               (cur + push_bit (PAGE_SHIFT + target_order) 1) (pmm_add_block cur target_order s)
      else s)"
  by pat_completeness auto
termination
proof (relation "measure (\<lambda>(_, _, ende, cur, _). unat ende - unat cur)", goal_cases)
  case 1
  show ?case by simp
next
  case (2 a b ende cur s)
  then show ?case by (simp add: word_less_nat_alt diff_less_mono2)
next
  case (3 a b ende cur s limit limit' k)
  have k: "k \<le> 10" using 3 pmm_target_order_le [of _ cur 10] by simp
  have "unat ((2 :: u64) ^ (12 + k)) = 2 ^ (12 + k)" using k by (intro unat_exp_word) simp
  moreover have "(2 :: nat) ^ (12 + k) \<le> 2 ^ 22" using k by (intro power_increasing) auto
  moreover have "cur < 134217728" using 3 by (simp add: not_le)
  then have "unat cur < 2 ^ 27" by (simp add: word_less_nat_alt)
  moreover have "(0 :: nat) < 2 ^ (12 + k)" by simp
  ultimately have "unat cur < unat (cur + 2 ^ (12 + k))"
    by (subst unat_word_ariths(1)) (subst mod_less, auto)
  with 3 show ?case by (simp add: word_less_nat_alt push_bit_of_1)
qed

fun pmm_init_entries :: "u64 \<Rightarrow> u64 \<Rightarrow> mmap_entry_t list \<Rightarrow> 'z pmm_t_scheme \<Rightarrow> 'z pmm_t_scheme" where
  "pmm_init_entries array_phys array_end [] s = s"
| "pmm_init_entries array_phys array_end (e # es) s =
     (if mtype e = MMAP_TYPE_USABLE then
        let cur = ALIGN_UP (phys_start e) PAGE_SIZE;
            cur = (if cur < 0x100000 then 0x100000 else cur);
            ende = ALIGN_DOWN (entry_end e) PAGE_SIZE
        in pmm_init_entries array_phys array_end es (pmm_init_region array_phys array_end ende cur s)
      else pmm_init_entries array_phys array_end es s)"

definition page_zero :: page_t where
  "page_zero = \<lparr>is_free = False, owner_cpu_id = 0\<rparr>"

definition pmm_init_orders :: "nat \<Rightarrow> 'z pmm_t_scheme \<Rightarrow> 'z pmm_t_scheme" where
  \<comment> \<open>the first loop: empty free lists for the orders below \<open>n\<close>\<close>
  "pmm_init_orders n s =
     fold (\<lambda>i s. s\<lparr>free_count := (free_count s)(i := 0), links := list_init (FreeHead i) (links s)\<rparr>) [0..<n] s"

definition pmm_init :: "mmap_info_t \<Rightarrow> 'z pmm_t_scheme \<Rightarrow> int \<times> 'z pmm_t_scheme" where
  "pmm_init memory s =
     (let s = s\<lparr>free_pages := 0\<rparr>;
          s = pmm_init_orders MAX_BUDDY_ORDER s;
          s = s\<lparr>total_pages := ALIGN_UP (max_phys_addr memory) PAGE_SIZE div PAGE_SIZE\<rparr>;
          array_size = ALIGN_UP (total_pages s * 24) PAGE_SIZE;
          array_phys = pmm_find_array array_size (entries memory)
      in if array_phys = 0 then (- 1, s)
         else
           let s = s\<lparr>mem_map_phys := array_phys, mem_map_size := array_size, mem_map := (\<lambda>_. page_zero)\<rparr>
           in (0, pmm_init_entries array_phys (array_phys + array_size) (entries memory) s))"

declare pmm_init_region.simps [simp del]

end
