(* ===== verification/Buddy_Spec.thy ===== *)
theory Buddy_Spec
  imports Buddy
begin

text \<open>
  What the free lists of the page allocator mean, and the correctness of \<open>pmm_alloc_pages\<close> and
  \<open>pmm_free_pages\<close>. The block of order \<open>k\<close> around a frame is the set of frames that agree with it
  above bit \<open>k\<close>; splitting and merging are then statements about single bits.
\<close>

section \<open>Blocks of frames\<close>

definition blk :: "u64 \<Rightarrow> nat \<Rightarrow> u64 set" where
  "blk p k = {q. \<forall>n \<ge> k. bit q n = bit p n}"

definition aligned :: "u64 \<Rightarrow> nat \<Rightarrow> bool" where
  "aligned p k \<longleftrightarrow> (\<forall>n < k. \<not> bit p n)"

definition buddy_of :: "u64 \<Rightarrow> nat \<Rightarrow> u64" where
  "buddy_of p k = p XOR 2 ^ k"

lemma blk_refl [simp]: "p \<in> blk p k"
  by (simp add: blk_def)

lemma blk_iff: "q \<in> blk p k \<longleftrightarrow> drop_bit k q = drop_bit k p"
proof
  assume "q \<in> blk p k"
  then show "drop_bit k q = drop_bit k p" by (intro bit_eqI) (simp add: blk_def bit_drop_bit_eq)
next
  assume eq: "drop_bit k q = drop_bit k p"
  have "bit q (k + m) = bit p (k + m)" for m
    using arg_cong [OF eq, of "\<lambda>w. bit w m"] by (simp add: bit_drop_bit_eq)
  then show "q \<in> blk p k" by (auto simp: blk_def dest!: le_Suc_ex)
qed

lemma blk_mono: "j \<le> k \<Longrightarrow> blk p j \<subseteq> blk p k"
  by (auto simp: blk_def)

lemma blk_eq: "q \<in> blk p k \<Longrightarrow> blk q k = blk p k"
  by (auto simp: blk_def)

lemma blk_meet: "blk p j \<inter> blk q k \<noteq> {} \<Longrightarrow> j \<le> k \<Longrightarrow> blk p j \<subseteq> blk q k"
  by (auto simp: blk_def)

lemma bit_buddy_of [word_bits]: "bit (buddy_of p k) n \<longleftrightarrow> (bit p n \<noteq> (n = k \<and> k < 64))"
  by (auto simp: buddy_of_def bit_xor_iff bit_exp_word)

lemma buddy_of_neq: "k < 64 \<Longrightarrow> buddy_of p k \<noteq> p"
  by (metis bit_buddy_of)

lemma blk_step: "blk p k = {q \<in> blk p (Suc k). bit q k = bit p k}"
  by (auto simp: blk_def) (metis Suc_leI le_neq_implies_less)+

lemma blk_Suc:
  assumes k: "k < 64"
  shows "blk p (Suc k) = blk p k \<union> blk (buddy_of p k) k"
proof -
  have "blk (buddy_of p k) (Suc k) = blk p (Suc k)"
    by (auto simp: blk_def bit_buddy_of)
  then show ?thesis
    using k blk_step [of p k] blk_step [of "buddy_of p k" k] by (auto simp: bit_buddy_of)
qed

lemma blk_buddy_disjoint: "k < 64 \<Longrightarrow> blk p k \<inter> blk (buddy_of p k) k = {}"
  by (auto simp: blk_def bit_buddy_of)

lemma aligned_mono: "aligned p k \<Longrightarrow> j \<le> k \<Longrightarrow> aligned p j"
  by (simp add: aligned_def)

lemma aligned_buddy: "aligned p (Suc k) \<Longrightarrow> aligned (buddy_of p k) k"
  by (auto simp: aligned_def bit_buddy_of)

lemma aligned_eq:
  assumes "aligned p k" "aligned q k" "q \<in> blk p k"
  shows "q = p"
proof (rule bit_eqI)
  fix n
  show "bit q n = bit p n" using assms by (cases "n < k") (auto simp: aligned_def blk_def)
qed

lemma merge_cases: "k < 64 \<Longrightarrow> p AND buddy_of p k = (if bit p k then buddy_of p k else p)"
  by (rule bit_eqI) (auto simp: bit_and_iff bit_buddy_of)

lemma blk_merge: "k < 64 \<Longrightarrow> blk (p AND buddy_of p k) (Suc k) = blk p (Suc k)"
  by (rule blk_eq) (auto simp: blk_def bit_and_iff bit_buddy_of)

lemma aligned_merge: "k < 64 \<Longrightarrow> aligned p k \<Longrightarrow> aligned (p AND buddy_of p k) (Suc k)"
  by (auto simp: aligned_def bit_and_iff bit_buddy_of less_Suc_eq)

lemma card_blk: "k < 64 \<Longrightarrow> card (blk p k) = 2 ^ k"
proof (induction k arbitrary: p)
  case 0
  have "blk p 0 = {p}" by (auto simp: blk_def intro: bit_eqI)
  then show ?case by simp
next
  case (Suc k)
  then show ?case
    using blk_Suc [of k p] blk_buddy_disjoint [of k p] card_Un_disjoint [of "blk p k" "blk (buddy_of p k) k"]
    by simp
qed

section \<open>What the free lists mean\<close>

abbreviation heads :: "pmm_node set" where
  "heads \<equiv> FreeHead ` {..<MAX_BUDDY_ORDER}"

definition free_blocks :: "(pmm_node \<Rightarrow> pmm_node list) \<Rightarrow> (nat \<times> u64) set" where
  "free_blocks L = {(k, p). k < MAX_BUDDY_ORDER \<and> PageNode p \<in> set (L (FreeHead k))}"

definition free_frames :: "(pmm_node \<Rightarrow> pmm_node list) \<Rightarrow> u64 set" where
  "free_frames L = (\<Union>(k, p) \<in> free_blocks L. blk p k)"

definition lists_ok :: "'z pmm_t_scheme \<Rightarrow> (pmm_node \<Rightarrow> pmm_node list) \<Rightarrow> bool" where
  "lists_ok s L \<longleftrightarrow> dlists (links s) heads L \<and>
     (\<forall>k < MAX_BUDDY_ORDER. set (L (FreeHead k)) \<subseteq> range PageNode \<and>
        free_count s k = of_nat (length (L (FreeHead k)))) \<and>
     (\<forall>k p. (k, p) \<in> free_blocks L \<longrightarrow> aligned p k) \<and>
     (\<forall>j p k q. (j, p) \<in> free_blocks L \<longrightarrow> (k, q) \<in> free_blocks L \<longrightarrow> (j, p) \<noteq> (k, q) \<longrightarrow>
        blk p j \<inter> blk q k = {})"

definition buddy_inv :: "'z pmm_t_scheme \<Rightarrow> (pmm_node \<Rightarrow> pmm_node list) \<Rightarrow> bool" where
  "buddy_inv s L \<longleftrightarrow> lists_ok s L \<and>
     (\<forall>q. is_free (mem_map s q) \<longleftrightarrow> q \<in> snd ` free_blocks L) \<and>
     free_pages s = of_nat (card (free_frames L))"

text \<open>The state in the middle of an operation, which has the block \<open>blk p k\<close> in its hands.\<close>

definition buddy_held :: "'z pmm_t_scheme \<Rightarrow> (pmm_node \<Rightarrow> pmm_node list) \<Rightarrow> u64 \<Rightarrow> nat \<Rightarrow> bool" where
  "buddy_held s L p k \<longleftrightarrow> lists_ok s L \<and> k < MAX_BUDDY_ORDER \<and> aligned p k \<and>
     blk p k \<inter> free_frames L = {} \<and>
     (\<forall>q. q \<noteq> p \<longrightarrow> (is_free (mem_map s q) \<longleftrightarrow> q \<in> snd ` free_blocks L)) \<and>
     free_pages s = of_nat (card (free_frames L \<union> blk p k))"

section \<open>Adding and removing one block\<close>

lemma lists_okD:
  assumes "lists_ok s L"
  shows "dlists (links s) heads L"
    and "k < MAX_BUDDY_ORDER \<Longrightarrow> set (L (FreeHead k)) \<subseteq> range PageNode"
    and "k < MAX_BUDDY_ORDER \<Longrightarrow> free_count s k = of_nat (length (L (FreeHead k)))"
    and "(k, p) \<in> free_blocks L \<Longrightarrow> aligned p k"
    and "(j, p) \<in> free_blocks L \<Longrightarrow> (k, q) \<in> free_blocks L \<Longrightarrow> (j, p) \<noteq> (k, q) \<Longrightarrow> blk p j \<inter> blk q k = {}"
  using assms unfolding lists_ok_def by blast+

lemma lists_ok_cong:
  "links s' = links s \<Longrightarrow> free_count s' = free_count s \<Longrightarrow> lists_ok s' L = lists_ok s L"
  by (simp add: lists_ok_def)

lemma free_framesI: "(k, p) \<in> free_blocks L \<Longrightarrow> q \<in> blk p k \<Longrightarrow> q \<in> free_frames L"
  by (auto simp: free_frames_def)

lemma free_blocks_bound: "(k, p) \<in> free_blocks L \<Longrightarrow> k < MAX_BUDDY_ORDER"
  by (simp add: free_blocks_def)

lemma free_blocks_upd:
  "k < MAX_BUDDY_ORDER \<Longrightarrow> free_blocks (L(FreeHead k := xs)) =
     {(j, q) \<in> free_blocks L. j \<noteq> k} \<union> {k} \<times> {q. PageNode q \<in> set xs}"
  by (auto simp: free_blocks_def split: if_splits)

lemma remove_block:
  assumes ok: "lists_ok s L" and b: "(k, p) \<in> free_blocks L"
    and s': "links s' = list_del (PageNode p) (links s)" "free_count s' = (free_count s)(k := free_count s k - 1)"
    and L': "L' = L(FreeHead k := remove1 (PageNode p) (L (FreeHead k)))"
  shows "lists_ok s' L'" "free_blocks L' = free_blocks L - {(k, p)}" "free_frames L = free_frames L' \<union> blk p k"
    "blk p k \<inter> free_frames L' = {}"
proof -
  have k: "k < MAX_BUDDY_ORDER" and p: "PageNode p \<in> set (L (FreeHead k))"
    using b by (simp_all add: free_blocks_def)
  have d: "dlists (links s) heads L" using ok by (rule lists_okD)
  then have dist: "distinct (L (FreeHead k))" using k by (simp add: dlists_def dlist_def)
  show fb: "free_blocks L' = free_blocks L - {(k, p)}"
    unfolding L' using k dist by (auto simp: free_blocks_upd) (auto simp: free_blocks_def)
  show "free_frames L = free_frames L' \<union> blk p k"
    using b fb by (auto simp: free_frames_def)
  show "blk p k \<inter> free_frames L' = {}"
    using lists_okD(5) [OF ok b] fb by (auto simp: free_frames_def)
  have "dlists (links s') heads L'" unfolding s' L' using d k p by (intro dlists_del) auto
  moreover have "set (L' (FreeHead j)) \<subseteq> range PageNode" if "j < MAX_BUDDY_ORDER" for j
    using lists_okD(2) [OF ok that] set_remove1_subset [of "PageNode p" "L (FreeHead k)"] by (auto simp: L')
  moreover have "length (L (FreeHead k)) = Suc (length (remove1 (PageNode p) (L (FreeHead k))))"
    using p length_pos_if_in_set [OF p] by (simp add: length_remove1)
  then have "free_count s' j = of_nat (length (L' (FreeHead j)))" if "j < MAX_BUDDY_ORDER" for j
    using lists_okD(3) [OF ok that] by (cases "j = k") (simp_all add: s' L')
  ultimately show "lists_ok s' L'"
    using lists_okD(4,5) [OF ok] unfolding lists_ok_def fb by blast
qed

lemma add_block:
  assumes ok: "lists_ok s L" and k: "k < MAX_BUDDY_ORDER" and a: "aligned p k"
    and disj: "blk p k \<inter> free_frames L = {}"
    and d': "dlists (links s') heads L'"
    and s': "free_count s' = (free_count s)(k := free_count s k + 1)"
    and L': "L' = L(FreeHead k := xs)" and xs: "set xs = insert (PageNode p) (set (L (FreeHead k)))"
      "length xs = Suc (length (L (FreeHead k)))"
  shows "lists_ok s' L'" "free_blocks L' = insert (k, p) (free_blocks L)" "free_frames L' = free_frames L \<union> blk p k"
proof -
  show fb: "free_blocks L' = insert (k, p) (free_blocks L)"
    unfolding L' using k xs by (auto simp: free_blocks_upd) (auto simp: free_blocks_def)
  then show "free_frames L' = free_frames L \<union> blk p k" by (auto simp: free_frames_def)
  have new: "blk p k \<inter> blk q j = {}" if "(j, q) \<in> free_blocks L" for j q
    using disj that by (auto simp: free_frames_def)
  have "\<forall>j < MAX_BUDDY_ORDER. set (L' (FreeHead j)) \<subseteq> range PageNode \<and>
      free_count s' j = of_nat (length (L' (FreeHead j)))"
    using lists_okD(2,3) [OF ok] xs by (auto simp: s' L')
  moreover have "blk q i \<inter> blk r j = {}"
    if "(i, q) \<in> free_blocks L'" "(j, r) \<in> free_blocks L'" "(i, q) \<noteq> (j, r)" for i j q r
    using that new [of i q] new [of j r] lists_okD(5) [OF ok, of i q j r] unfolding fb by auto
  moreover have "aligned q j" if "(j, q) \<in> free_blocks L'" for j q
    using that a lists_okD(4) [OF ok] unfolding fb by auto
  ultimately show "lists_ok s' L'"
    using d' unfolding lists_ok_def by blast
qed

lemma fresh_node:
  assumes "lists_ok s L" "blk p k \<inter> free_frames L = {}"
  shows "PageNode p \<notin> heads" "PageNode p \<notin> members heads L" "p \<notin> snd ` free_blocks L"
proof -
  show "p \<notin> snd ` free_blocks L"
    using assms(2) free_framesI [of _ p L p] by (force simp: free_frames_def)
  then show "PageNode p \<notin> members heads L" by (force simp: members_def free_blocks_def)
qed auto

lemma card_held:
  assumes "blk p k \<inter> F = {}" "k < 64"
  shows "(of_nat (card (F \<union> blk p k)) :: u64) = of_nat (card F) + 2 ^ k"
  using assms card_Un_disjoint [of F "blk p k"] by (simp add: card_blk Int_commute)

section \<open>Allocation\<close>

lemma push_bit_one: "push_bit k (1 :: u64) = 2 ^ k"
  by (simp add: push_bit_eq_mult)

lemma set_is_free_simps [simp]:
  "links (set_is_free p v s) = links s" "free_count (set_is_free p v s) = free_count s"
  "free_pages (set_is_free p v s) = free_pages s"
  "is_free (mem_map (set_is_free p v s) q) = (if q = p then v else is_free (mem_map s q))"
  by (simp_all add: set_is_free_def)

lemma count_add_simps [simp]:
  "links (count_add k d s) = links s" "free_count (count_add k d s) = (free_count s)(k := free_count s k + d)"
  "free_pages (count_add k d s) = free_pages s" "mem_map (count_add k d s) = mem_map s"
  by (simp_all add: count_add_def)

lemma take_from_list:
  assumes "buddy_inv s L" "k < MAX_BUDDY_ORDER" "L (FreeHead k) = PageNode p # ps"
    and "s' = count_add k (- 1) (s\<lparr>links := list_del (PageNode p) (links s)\<rparr>)" "L' = L(FreeHead k := ps)"
  shows "buddy_held s' L' p k" "free_frames L' \<union> blk p k = free_frames L"
proof -
  have ok: "lists_ok s L" using assms by (simp add: buddy_inv_def)
  have b: "(k, p) \<in> free_blocks L" using assms by (simp add: free_blocks_def)
  have L': "L' = L(FreeHead k := remove1 (PageNode p) (L (FreeHead k)))" using assms by simp
  note rb = remove_block [OF ok b _ _ L', of s']
  have s': "links s' = list_del (PageNode p) (links s)" "free_count s' = (free_count s)(k := free_count s k - 1)"
    using assms by simp_all
  show "free_frames L' \<union> blk p k = free_frames L" using rb(3) [OF s'] by simp
  then show "buddy_held s' L' p k"
    using assms rb(1,2,4) [OF s'] lists_okD(4) [OF ok b]
    by (auto simp: buddy_held_def buddy_inv_def)
qed

lemma split_step:
  assumes h: "buddy_held s L p (Suc k)"
    and b: "b = buddy_of p k"
    and s': "s' = count_add k 1 ((set_is_free b True s)\<lparr>links := list_add (PageNode b) (FreeHead k) (links s)\<rparr>)"
    and L': "L' = L(FreeHead k := PageNode b # L (FreeHead k))"
  shows "buddy_held s' L' p k" "free_frames L' \<union> blk p k = free_frames L \<union> blk p (Suc k)"
proof -
  have ok: "lists_ok s L" and k: "k < MAX_BUDDY_ORDER" and al: "aligned p (Suc k)"
    and dis: "blk p (Suc k) \<inter> free_frames L = {}" using h by (auto simp: buddy_held_def)
  have halves: "blk p (Suc k) = blk p k \<union> blk b k" "blk p k \<inter> blk b k = {}" "b \<noteq> p"
    using k by (auto simp: b blk_Suc blk_buddy_disjoint buddy_of_neq)
  have disb: "blk b k \<inter> free_frames L = {}" using dis halves by auto
  have "dlists (links s') heads L'"
    unfolding s' L' using k fresh_node [OF ok disb] lists_okD(1) [OF ok] by (simp add: dlists_add)
  note ab = add_block [OF ok k aligned_buddy [OF al, folded b] disb this _ L']
  show ff: "free_frames L' \<union> blk p k = free_frames L \<union> blk p (Suc k)"
    using ab(3) halves by (auto simp: s')
  show "buddy_held s' L' p k"
    using h ab(1,2,3) ff dis halves aligned_mono [OF al]
    by (auto simp: buddy_held_def s')
qed

lemma pmm_split_correct:
  assumes "buddy_held s L p cur" "order \<le> cur"
  shows "\<exists>L'. buddy_held (pmm_split order cur p s) L' p order \<and>
    free_frames L' \<union> blk p order = free_frames L \<union> blk p cur"
  using assms
proof (induction cur arbitrary: s L)
  case 0
  then show ?case by (auto simp: pmm_split.simps)
next
  case (Suc cur)
  show ?case
  proof (cases "order \<le> cur")
    case True
    let ?b = "buddy_of p cur"
    let ?s = "count_add cur 1 ((set_is_free ?b True s)\<lparr>links := list_add (PageNode ?b) (FreeHead cur) (links s)\<rparr>)"
    note st = split_step [OF Suc.prems(1) refl refl refl]
    have "pmm_split order (Suc cur) p s = pmm_split order cur p ?s"
      using True by (subst pmm_split.simps) (simp add: Let_def buddy_of_def)
    with Suc.IH [OF st(1) True] st(2) show ?thesis by (auto simp del: fun_upd_apply)
  next
    case False
    with Suc.prems have "order = Suc cur" by simp
    with Suc.prems show ?thesis by (subst pmm_split.simps) auto
  qed
qed

lemma finish_alloc:
  assumes h: "buddy_held s L p k"
  shows "buddy_inv ((set_is_free p False s)\<lparr>free_pages := free_pages s - 2 ^ k\<rparr>) L"
proof -
  have ok: "lists_ok s L" and k: "k < MAX_BUDDY_ORDER" and dis: "blk p k \<inter> free_frames L = {}"
    using h by (auto simp: buddy_held_def)
  then show ?thesis
    using h fresh_node(3) [OF ok dis] card_held [OF dis] by (auto simp: buddy_held_def buddy_inv_def lists_ok_def)
qed

lemma alloc_scan_correct:
  assumes inv: "buddy_inv s L" and le: "order \<le> cur" "order < MAX_BUDDY_ORDER"
  shows "case pmm_alloc_scan order cur s of (a, s') \<Rightarrow>
     (if \<forall>k p. (k, p) \<in> free_blocks L \<longrightarrow> k < cur then a = 0 \<and> s' = s
      else \<exists>p L'. a = pfn_to_phys p \<and> buddy_inv s' L' \<and> aligned p order \<and> blk p order \<subseteq> free_frames L \<and>
             free_frames L' = free_frames L - blk p order)"
  using assms
proof (induction order cur s rule: pmm_alloc_scan.induct)
  case (1 order cur s)
  have ok: "lists_ok s L" using 1 by (simp add: buddy_inv_def)
  consider (over) "cur \<ge> MAX_BUDDY_ORDER" | (empty) "cur < MAX_BUDDY_ORDER" "L (FreeHead cur) = []"
    | (block) p ps where "cur < MAX_BUDDY_ORDER" "L (FreeHead cur) = PageNode p # ps"
    using lists_okD(2) [OF ok, of cur]
    by (cases "cur < MAX_BUDDY_ORDER"; cases "L (FreeHead cur)") (auto simp: not_less)
  then show ?case
  proof cases
    case over
    then have "\<forall>k p. (k, p) \<in> free_blocks L \<longrightarrow> k < cur" using free_blocks_bound by fastforce
    then show ?thesis using over by (subst pmm_alloc_scan.simps) simp
  next
    case empty
    then have e: "list_empty (FreeHead cur) (links s)"
      using lists.rep_is_empty [OF lists_okD(1) [OF ok]] by simp
    have "(\<forall>k p. (k, p) \<in> free_blocks L \<longrightarrow> k < Suc cur) \<longleftrightarrow> (\<forall>k p. (k, p) \<in> free_blocks L \<longrightarrow> k < cur)"
      using empty by (auto simp: free_blocks_def less_Suc_eq)
    then show ?thesis
      using "1.IH" [OF empty(1) e "1.prems"(1)] "1.prems" empty e by (subst pmm_alloc_scan.simps) simp
  next
    case block
    let ?s = "count_add cur (- 1) (s\<lparr>links := list_del (PageNode p) (links s)\<rparr>)"
    note pop = lists.pop [OF lists_okD(1) [OF ok] _ block(2)]
    note tk = take_from_list [OF "1.prems"(1) block refl refl]
    obtain L' where L': "buddy_held (pmm_split order cur p ?s) L' p order"
      "free_frames L' \<union> blk p order = free_frames L"
      using pmm_split_correct [OF tk(1) "1.prems"(2)] tk(2) by auto
    have "blk p order \<inter> free_frames L' = {}" using L'(1) by (simp add: buddy_held_def)
    with L' have ff: "blk p order \<subseteq> free_frames L" "free_frames L' = free_frames L - blk p order" by auto
    have some: "\<not> (\<forall>k p. (k, p) \<in> free_blocks L \<longrightarrow> k < cur)" 
      using block by (auto simp: free_blocks_def intro!: exI [of _ cur])
    have "pmm_alloc_scan order cur s = (pfn_to_phys p,
        (set_is_free p False (pmm_split order cur p ?s))\<lparr>free_pages := free_pages (pmm_split order cur p ?s) - 2 ^ order\<rparr>)"
      using pop block by (subst pmm_alloc_scan.simps) (simp add: Let_def)
    with finish_alloc [OF L'(1)] L'(1) ff some show ?thesis
      by (auto simp: buddy_held_def)
  qed
qed

section \<open>Freeing\<close>

text \<open>
  \<open>pmm_free_pages\<close> merges with the buddy whenever the buddy's first page is marked free. That is
  right only if the buddy is free as a whole: a smaller free block may start at the same page.
  \<open>merge_safe\<close> says that this does not happen on the way up from order \<open>k\<close>.
\<close>

definition base :: "u64 \<Rightarrow> nat \<Rightarrow> u64" where
  "base p k = push_bit k (drop_bit k p)"

definition merge_safe :: "(pmm_node \<Rightarrow> pmm_node list) \<Rightarrow> u64 \<Rightarrow> nat \<Rightarrow> bool" where
  "merge_safe L p k \<longleftrightarrow>
     (\<forall>j i. k \<le> j \<longrightarrow> j < MAX_BUDDY_ORDER - 1 \<longrightarrow> i < j \<longrightarrow> (i, buddy_of (base p j) j) \<notin> free_blocks L)"

lemma bit_base [word_bits]: "bit (base p k) n \<longleftrightarrow> k \<le> n \<and> bit p n"
  by (auto simp: base_def bit_simps dest: bit_imp_le_length)

lemma base_aligned: "aligned p k \<Longrightarrow> base p k = p"
  by (rule bit_eqI) (metis aligned_def bit_base not_le)

lemma base_merge: "k < j \<Longrightarrow> base (p AND buddy_of p k) j = base p j"
  by (rule bit_eqI) (auto simp: bit_base bit_and_iff bit_buddy_of)

lemma merge_safe_step:
  assumes "merge_safe L p k" "free_blocks L' \<subseteq> free_blocks L"
  shows "merge_safe L' (p AND buddy_of p k) (Suc k)"
proof -
  have "base (p AND buddy_of p k) j = base p j" if "Suc k \<le> j" for j
    using that by (intro base_merge) simp
  then show ?thesis using assms unfolding merge_safe_def by (metis Suc_leD subsetD)
qed

lemma buddy_block:
  assumes h: "buddy_held s L p k" and safe: "merge_safe L p k" and k: "k < MAX_BUDDY_ORDER - 1"
    and f: "is_free (mem_map s (buddy_of p k))"
  shows "(k, buddy_of p k) \<in> free_blocks L"
proof -
  let ?b = "buddy_of p k"
  have "?b \<noteq> p" using k by (simp add: buddy_of_neq)
  then obtain i where i: "(i, ?b) \<in> free_blocks L" using h f by (auto simp: buddy_held_def)
  have "\<not> i < k" using safe k i base_aligned [of p k] h by (auto simp: merge_safe_def buddy_held_def)
  moreover have "\<not> k < i"
  proof
    assume "k < i"
    then have "blk ?b (Suc k) \<subseteq> blk ?b i" by (intro blk_mono) simp
    moreover have "p \<in> blk ?b (Suc k)" by (auto simp: blk_def bit_buddy_of)
    ultimately have "p \<in> free_frames L" using i by (auto intro: free_framesI)
    then show False using h blk_refl by (metis buddy_held_def disjoint_iff)
  qed
  ultimately show ?thesis using i by (metis linorder_neqE_nat)
qed

lemma merge_step:
  assumes h: "buddy_held s L p k" and p: "\<not> is_free (mem_map s p)" and k: "k < MAX_BUDDY_ORDER - 1"
    and b: "b = buddy_of p k" "(k, b) \<in> free_blocks L"
    and s': "s' = count_add k (- 1) (set_is_free b False (s\<lparr>links := list_del (PageNode b) (links s)\<rparr>))"
    and L': "L' = L(FreeHead k := remove1 (PageNode b) (L (FreeHead k)))"
  shows "buddy_held s' L' (p AND b) (Suc k)" "\<not> is_free (mem_map s' (p AND b))"
    "free_frames L' \<union> blk (p AND b) (Suc k) = free_frames L \<union> blk p k" "free_blocks L' \<subseteq> free_blocks L"
proof -
  have ok: "lists_ok s L" and al: "aligned p k" and dis: "blk p k \<inter> free_frames L = {}"
    using h by (auto simp: buddy_held_def)
  note rb = remove_block [OF ok b(2) _ _ L', of s']
  have eqs: "links s' = list_del (PageNode b) (links s)" "free_count s' = (free_count s)(k := free_count s k - 1)"
    using s' by simp_all
  have join: "blk (p AND b) (Suc k) = blk p k \<union> blk b k" "b \<noteq> p" "p AND b \<in> {p, b}"
    using k blk_merge [of k p] by (auto simp: b blk_Suc buddy_of_neq merge_cases)
  show ff: "free_frames L' \<union> blk (p AND b) (Suc k) = free_frames L \<union> blk p k"
    using rb(3) [OF eqs] join by auto
  show "\<not> is_free (mem_map s' (p AND b))" using p join by (auto simp: s')
  show fb: "free_blocks L' \<subseteq> free_blocks L" using rb(2) [OF eqs] by auto
  have "p \<notin> snd ` free_blocks L" using fresh_node(3) [OF ok dis] .
  moreover have "b \<notin> snd ` free_blocks L'"
    using rb(4) [OF eqs] fresh_node(3) [OF rb(1) [OF eqs], of b k] by simp
  moreover have "q \<in> snd ` free_blocks L' \<longleftrightarrow> q \<in> snd ` free_blocks L" if "q \<noteq> b" for q
    using rb(2) [OF eqs] that by force
  ultimately have "is_free (mem_map s' q) \<longleftrightarrow> q \<in> snd ` free_blocks L'" for q
    using h p join(2) unfolding buddy_held_def s' by (cases "q = b"; cases "q = p") simp_all
  moreover have "aligned (p AND b) (Suc k)" using al k aligned_merge [of k p] by (simp add: b)
  moreover have "blk (p AND b) (Suc k) \<inter> free_frames L' = {}"
    using rb(3,4) [OF eqs] join(1) dis by auto
  moreover have "free_pages s' = of_nat (card (free_frames L' \<union> blk (p AND b) (Suc k)))"
    unfolding ff using h by (simp add: buddy_held_def s')
  ultimately show "buddy_held s' L' (p AND b) (Suc k)"
    using rb(1) [OF eqs] k by (simp add: buddy_held_def)
qed

lemma pmm_merge_correct:
  assumes "buddy_held s L p k" "\<not> is_free (mem_map s p)" "merge_safe L p k"
  shows "case pmm_merge k p s of (k', p', s') \<Rightarrow>
    \<exists>L'. buddy_held s' L' p' k' \<and> free_frames L' \<union> blk p' k' = free_frames L \<union> blk p k"
  using assms
proof (induction "MAX_BUDDY_ORDER - k" arbitrary: k p s L rule: less_induct)
  case less
  let ?b = "buddy_of p k"
  show ?case
  proof (cases "k < MAX_BUDDY_ORDER - 1 \<and> is_free (mem_map s ?b)")
    case True
    then have b: "(k, ?b) \<in> free_blocks L" using buddy_block less.prems by blast
    let ?s = "count_add k (- 1) (set_is_free ?b False (s\<lparr>links := list_del (PageNode ?b) (links s)\<rparr>))"
    note m = merge_step [OF less.prems(1,2) conjunct1 [OF True] refl b refl refl]
    have "pmm_merge k p s = pmm_merge (Suc k) (p AND ?b) ?s"
      using True by (subst pmm_merge.simps) (simp add: Let_def buddy_of_def)
    moreover have "MAX_BUDDY_ORDER - Suc k < MAX_BUDDY_ORDER - k" using True by arith
    ultimately show ?thesis
      using less.hyps [OF _ m(1,2) merge_safe_step [OF less.prems(3) m(4)]] m(3)
      by (simp del: fun_upd_apply)
  next
    case False
    then have "pmm_merge k p s = (k, p, s)" by (subst pmm_merge.simps) (auto simp: Let_def buddy_of_def)
    with less.prems show ?thesis by auto
  qed
qed

lemma finish_free:
  assumes h: "buddy_held s L p k"
    and s': "s' = count_add k 1 ((set_is_free p True s)\<lparr>links := list_add_tail (PageNode p) (FreeHead k) (links s)\<rparr>)"
    and L': "L' = L(FreeHead k := L (FreeHead k) @ [PageNode p])"
  shows "buddy_inv s' L'" "free_frames L' = free_frames L \<union> blk p k"
proof -
  have ok: "lists_ok s L" and k: "k < MAX_BUDDY_ORDER" and al: "aligned p k"
    and dis: "blk p k \<inter> free_frames L = {}" using h by (auto simp: buddy_held_def)
  have "dlists (links s') heads L'"
    unfolding s' L' using k fresh_node [OF ok dis] lists_okD(1) [OF ok] by (simp add: dlists_add_tail)
  note ab = add_block [OF ok k al dis this _ L']
  show "free_frames L' = free_frames L \<union> blk p k" using ab(3) by (simp add: s')
  then show "buddy_inv s' L'" using ab(1,2) h by (auto simp: buddy_inv_def buddy_held_def s')
qed

section \<open>The allocator as a whole\<close>

text \<open>
  Frame numbers below \<open>2 ^ 52\<close> and different from 0, so that \<open>pfn_to_phys\<close> loses nothing and no
  block is confused with \<open>NULL\<close>; \<open>pmm_init\<close> never adds a frame below 1 MiB.
\<close>

definition frames_ok :: "u64 set \<Rightarrow> bool" where
  "frames_ok F \<longleftrightarrow> (\<forall>q \<in> F. q \<noteq> 0 \<and> q < 2 ^ 52)"

lemma phys_pfn_roundtrip:
  assumes "p < 2 ^ 52"
  shows "phys_to_pfn (pfn_to_phys p) = p"
proof -
  have hi: "\<forall>n \<ge> 52. \<not> bit p n" using assms word_less_exp_iff_bits [of 52 p] by simp
  show ?thesis
  proof (rule bit_eqI)
    fix n
    show "bit (phys_to_pfn (pfn_to_phys p)) n = bit p n"
      using hi by (cases "n < 52") (auto simp: phys_to_pfn_def pfn_to_phys_def bit_simps)
  qed
qed

lemma pfn_to_phys_nonzero: "p < 2 ^ 52 \<Longrightarrow> p \<noteq> 0 \<Longrightarrow> pfn_to_phys p \<noteq> 0"
  using phys_pfn_roundtrip [of p] by (auto simp: phys_to_pfn_def)

lemma alloc_pages_correct:
  assumes inv: "buddy_inv s L" and ok: "frames_ok (free_frames L)"
    and run: "pmm_alloc_pages order s = (a, s')"
  shows "a \<noteq> 0 \<Longrightarrow> \<exists>L'. buddy_inv s' L' \<and> aligned (phys_to_pfn a) (nat order) \<and>
      blk (phys_to_pfn a) (nat order) \<subseteq> free_frames L \<and>
      free_frames L' = free_frames L - blk (phys_to_pfn a) (nat order)"
    and "a = 0 \<longleftrightarrow> order < 0 \<or> order \<ge> int MAX_BUDDY_ORDER \<or> (\<forall>k p. (k, p) \<in> free_blocks L \<longrightarrow> int k < order)"
    and "a = 0 \<Longrightarrow> s' = s"
proof -
  let ?none = "\<forall>k p. (k, p) \<in> free_blocks L \<longrightarrow> k < nat order"
  have "(a \<noteq> 0 \<longrightarrow> (\<exists>L'. buddy_inv s' L' \<and> aligned (phys_to_pfn a) (nat order) \<and>
      blk (phys_to_pfn a) (nat order) \<subseteq> free_frames L \<and>
      free_frames L' = free_frames L - blk (phys_to_pfn a) (nat order))) \<and>
      (a = 0 \<longleftrightarrow> order < 0 \<or> order \<ge> int MAX_BUDDY_ORDER \<or> ?none) \<and> (a = 0 \<longrightarrow> s' = s)"
  proof (cases "order < 0 \<or> order \<ge> int MAX_BUDDY_ORDER")
    case True
    with run show ?thesis by (auto simp: pmm_alloc_pages_def)
  next
    case False
    with run have r: "pmm_alloc_scan (nat order) (nat order) s = (a, s')" by (simp add: pmm_alloc_pages_def)
    have lt: "nat order < MAX_BUDDY_ORDER" using False by linarith
    have c: "if ?none then a = 0 \<and> s' = s
      else \<exists>p L'. a = pfn_to_phys p \<and> buddy_inv s' L' \<and> aligned p (nat order) \<and> blk p (nat order) \<subseteq> free_frames L \<and>
             free_frames L' = free_frames L - blk p (nat order)"
      using alloc_scan_correct [OF inv le_refl lt] r by simp
    show ?thesis
    proof (cases ?none)
      case True
      with c show ?thesis by simp
    next
      case nn: False
      from c obtain p L' where p: "a = pfn_to_phys p" "buddy_inv s' L'" "aligned p (nat order)"
        "blk p (nat order) \<subseteq> free_frames L" "free_frames L' = free_frames L - blk p (nat order)"
        unfolding if_not_P [OF nn] by blast
      have "p \<in> free_frames L" using p(4) blk_refl by blast
      then have "p \<noteq> 0" "p < 2 ^ 52" using ok by (auto simp: frames_ok_def)
      then have "phys_to_pfn a = p" "a \<noteq> 0" using p(1) by (simp_all add: phys_pfn_roundtrip pfn_to_phys_nonzero)
      with p nn False show ?thesis by auto
    qed
  qed
  moreover have "(\<forall>k p. (k, p) \<in> free_blocks L \<longrightarrow> int k < order) \<longleftrightarrow> ?none" if "order \<ge> 0"
    using that by (auto simp: zless_nat_eq_int_zless)
  ultimately show "a \<noteq> 0 \<Longrightarrow> \<exists>L'. buddy_inv s' L' \<and> aligned (phys_to_pfn a) (nat order) \<and>
      blk (phys_to_pfn a) (nat order) \<subseteq> free_frames L \<and>
      free_frames L' = free_frames L - blk (phys_to_pfn a) (nat order)"
    and "a = 0 \<longleftrightarrow> order < 0 \<or> order \<ge> int MAX_BUDDY_ORDER \<or> (\<forall>k p. (k, p) \<in> free_blocks L \<longrightarrow> int k < order)"
    and "a = 0 \<Longrightarrow> s' = s"
    by (auto simp: not_less)
qed

lemma upd_free_pages_commute:
  "set_is_free b v (s\<lparr>free_pages := x\<rparr>) = (set_is_free b v s)\<lparr>free_pages := x\<rparr>"
  "count_add i d (s\<lparr>free_pages := x\<rparr>) = (count_add i d s)\<lparr>free_pages := x\<rparr>"
  by (simp_all add: set_is_free_def count_add_def)

lemma pmm_merge_free_pages:
  "pmm_merge k p (s\<lparr>free_pages := x\<rparr>) = (case pmm_merge k p s of (k', p', s') \<Rightarrow> (k', p', s'\<lparr>free_pages := x\<rparr>)) \<and>
   free_pages (snd (snd (pmm_merge k p s))) = free_pages s"
proof (induction k p s rule: pmm_merge.induct)
  case (1 k p s)
  have swap: "s\<lparr>free_pages := x, links := l\<rparr> = s\<lparr>links := l, free_pages := x\<rparr>" for l by simp
  show ?case
    using "1.IH" by (subst (1 2 3) pmm_merge.simps) (simp add: Let_def swap upd_free_pages_commute)
qed

lemma free_pages_correct:
  assumes inv: "buddy_inv s L" and order: "0 \<le> order" "order < int MAX_BUDDY_ORDER"
    and p: "aligned p (nat order)" "p \<noteq> 0" "p < 2 ^ 52" "blk p (nat order) \<inter> free_frames L = {}"
    and safe: "merge_safe L p (nat order)"
  shows "\<exists>L'. buddy_inv (pmm_free_pages (pfn_to_phys p) order s) L' \<and>
    free_frames L' = free_frames L \<union> blk p (nat order)"
proof -
  let ?k = "nat order"
  let ?s = "s\<lparr>free_pages := free_pages s + 2 ^ ?k\<rparr>"
  have ok: "lists_ok s L" using inv by (simp add: buddy_inv_def)
  have nf: "p \<notin> snd ` free_blocks L" using fresh_node(3) [OF ok p(4)] .
  have "buddy_held ?s L p ?k"
    using inv order p card_held [OF p(4)] by (auto simp: buddy_inv_def buddy_held_def lists_ok_def nat_less_iff)
  moreover have "\<not> is_free (mem_map ?s p)" using inv nf by (simp add: buddy_inv_def)
  ultimately obtain k' p' s' L' where m: "pmm_merge ?k p ?s = (k', p', s')"
    "buddy_held s' L' p' k'" "free_frames L' \<union> blk p' k' = free_frames L \<union> blk p ?k"
    using pmm_merge_correct [OF _ _ safe, of ?s] by (auto split: prod.splits)
  have "pmm_free_pages (pfn_to_phys p) order s =
      count_add k' 1 ((set_is_free p' True s')\<lparr>links := list_add_tail (PageNode p') (FreeHead k') (links s')\<rparr>)"
    using order p m(1) pmm_merge_free_pages [of ?k p _ s]
    by (auto simp: pmm_free_pages_def pfn_to_phys_nonzero phys_pfn_roundtrip Let_def set_is_free_def count_add_def
        split: prod.splits)
  then show ?thesis using finish_free [OF m(2) refl refl] m(3) by auto
qed

section \<open>The contract of a page allocator\<close>

text \<open>
  What the rest of the kernel relies on: \<open>pages s F\<close> says that exactly the frames \<open>F\<close> are free.
  From the law of allocation alone, blocks handed out one after the other never overlap.
\<close>

fun alloc_all :: "(int \<Rightarrow> 's \<Rightarrow> u64 \<times> 's) \<Rightarrow> int list \<Rightarrow> 's \<Rightarrow> (u64 \<times> int) list \<times> 's" where
  \<comment> \<open>a run of requests: the blocks obtained, with their orders, and the final state\<close>
  "alloc_all alloc [] s = ([], s)"
| "alloc_all alloc (k # ks) s =
     (let (a, s) = alloc k s; (rest, s) = alloc_all alloc ks s in (if a = 0 then rest else (a, k) # rest, s))"

abbreviation handed_out :: "u64 \<times> int \<Rightarrow> u64 set" where
  "handed_out b \<equiv> blk (phys_to_pfn (fst b)) (nat (snd b))"

locale page_allocator =
  fixes pages :: "'s \<Rightarrow> u64 set \<Rightarrow> bool"
    and alloc :: "int \<Rightarrow> 's \<Rightarrow> u64 \<times> 's"
  assumes alloc_takes: "pages s F \<Longrightarrow> alloc order s = (a, s') \<Longrightarrow> a \<noteq> 0 \<Longrightarrow>
      pages s' (F - blk (phys_to_pfn a) (nat order)) \<and> blk (phys_to_pfn a) (nat order) \<subseteq> F"
    and alloc_fails: "pages s F \<Longrightarrow> alloc order s = (0, s') \<Longrightarrow> s' = s"
    and alloc_exhausted: "pages s F \<Longrightarrow> alloc 0 s = (0, s') \<Longrightarrow> F = {}"
    and alloc_page_start: "alloc order s = (a, s') \<Longrightarrow> a AND 0xFFF = 0"
begin

lemma alloc_all_disjoint:
  assumes "pages s F" "alloc_all alloc ks s = (bs, s')"
  shows "pages s' (F - (\<Union>b \<in> set bs. handed_out b)) \<and> (\<forall>b \<in> set bs. handed_out b \<subseteq> F) \<and>
    (\<forall>i < length bs. \<forall>j < i. handed_out (bs ! i) \<inter> handed_out (bs ! j) = {})"
  using assms
proof (induction ks arbitrary: s F bs)
  case Nil
  then show ?case by simp
next
  case (Cons k ks)
  obtain a s1 where a: "alloc k s = (a, s1)" by fastforce
  obtain rest where r: "alloc_all alloc ks s1 = (rest, s')" "bs = (if a = 0 then rest else (a, k) # rest)"
    using Cons.prems(2) a by (auto split: prod.splits)
  show ?case
  proof (cases "a = 0")
    case True
    then have "s1 = s" using alloc_fails [OF Cons.prems(1)] a by simp
    then show ?thesis using Cons.IH [OF Cons.prems(1)] r True by simp
  next
    case False
    let ?B = "handed_out (a, k)"
    have t: "pages s1 (F - ?B)" "?B \<subseteq> F" using alloc_takes [OF Cons.prems(1) a False] by simp_all
    note IH = Cons.IH [OF t(1) r(1)]
    have "handed_out (bs ! i) \<inter> handed_out (bs ! j) = {}" if "i < length bs" "j < i" for i j
    proof -
      from that r False obtain i' where i: "i = Suc i'" "i' < length rest" "bs ! i = rest ! i'" by (cases i) auto
      show ?thesis
      proof (cases j)
        case 0
        have "rest ! i' \<in> set rest" using i by simp
        then have "handed_out (bs ! i) \<subseteq> F - ?B" unfolding i(3) using IH by blast
        then show ?thesis using 0 r False by auto
      next
        case (Suc j')
        then show ?thesis using IH i that r False by auto
      qed
    qed
    moreover have "F - ?B - (\<Union>b \<in> set rest. handed_out b) = F - (\<Union>b \<in> set bs. handed_out b)" using r False by auto
    ultimately show ?thesis using IH t r False by auto
  qed
qed

end

definition buddy_pages :: "'z pmm_t_scheme \<Rightarrow> u64 set \<Rightarrow> bool" where
  "buddy_pages s F \<longleftrightarrow> (\<exists>L. buddy_inv s L \<and> free_frames L = F) \<and> frames_ok F"

lemma pfn_to_phys_start: "pfn_to_phys p AND 0xFFF = 0"
proof (rule bit_eqI)
  fix n
  show "bit (pfn_to_phys p AND 0xFFF) n \<longleftrightarrow> bit (0 :: u64) n"
    by (simp only: bit_and_iff bits_FFF) (auto simp: pfn_to_phys_def bit_push_bit_iff)
qed

lemma pmm_alloc_scan_start: "fst (pmm_alloc_scan order cur s) AND 0xFFF = 0"
  by (induction order cur s rule: pmm_alloc_scan.induct)
    (subst pmm_alloc_scan.simps, simp add: Let_def pfn_to_phys_start)

interpretation buddy: page_allocator "buddy_pages :: 'z pmm_t_scheme \<Rightarrow> _" pmm_alloc_pages
proof unfold_locales
  fix s s' :: "'z pmm_t_scheme" and order a
  show "pmm_alloc_pages order s = (a, s') \<Longrightarrow> a AND 0xFFF = 0"
    using pmm_alloc_scan_start [of "nat order" "nat order" s] by (auto simp: pmm_alloc_pages_def split: if_splits)
next
  fix s s' :: "'z pmm_t_scheme" and F order a
  assume p: "buddy_pages s F"
  then obtain L where L: "buddy_inv s L" "free_frames L = F" "frames_ok (free_frames L)"
    by (auto simp: buddy_pages_def)
  show "pmm_alloc_pages order s = (0, s') \<Longrightarrow> s' = s"
    by (rule alloc_pages_correct(3) [OF L(1,3)]) simp_all
  show "pmm_alloc_pages 0 s = (0, s') \<Longrightarrow> F = {}"
    using alloc_pages_correct(2) [OF L(1,3), of 0 0 s'] L(2) by (auto simp: free_frames_def)
  show "buddy_pages s' (F - blk (phys_to_pfn a) (nat order)) \<and> blk (phys_to_pfn a) (nat order) \<subseteq> F"
    if "pmm_alloc_pages order s = (a, s')" "a \<noteq> 0"
    using alloc_pages_correct(1) [OF L(1,3) that] L(2) p by (auto simp: buddy_pages_def frames_ok_def)
qed

section \<open>A small allocator state\<close>

text \<open>Freshly initialised lists, and one block of four pages at frame 256 (address 1 MiB).\<close>

definition pmm_zero :: pmm_t where
  "pmm_zero = \<lparr>links = \<lparr>nxt = (\<lambda>_. None), prv = (\<lambda>_. None), fault = False\<rparr>, free_count = (\<lambda>_. 0),
     mem_map = (\<lambda>_. page_zero), mem_map_phys = 0, mem_map_size = 0, total_pages = 0, free_pages = 0\<rparr>"

definition four_pages :: pmm_t where
  "four_pages = pmm_add_block 0x100000 2 (pmm_init_orders MAX_BUDDY_ORDER pmm_zero)"

lemma init_orders_lists:
  assumes "n \<le> MAX_BUDDY_ORDER" "\<not> fault (links s)"
  shows "dlists (links (pmm_init_orders n s)) (FreeHead ` {..<n}) (\<lambda>_. []) \<and>
    (\<forall>k < n. free_count (pmm_init_orders n s) k = 0) \<and> mem_map (pmm_init_orders n s) = mem_map s \<and>
    free_pages (pmm_init_orders n s) = free_pages s"
  using assms(1)
proof (induction n)
  case 0
  then show ?case using assms by (simp add: pmm_init_orders_def dlists_def)
next
  case (Suc n)
  let ?s = "pmm_init_orders n s"
  have "dlists (list_init (FreeHead n) (links ?s)) (insert (FreeHead n) (FreeHead ` {..<n})) ((\<lambda>_. [])(FreeHead n := []))"
    using Suc by (intro dlists_init) (auto simp: members_def)
  moreover have "insert (FreeHead n) (FreeHead ` {..<n}) = FreeHead ` {..<Suc n}"
    by (simp add: lessThan_Suc)
  moreover have "(\<lambda>_. [])(FreeHead n := []) = (\<lambda>_. [] :: pmm_node list)" by auto
  moreover have "pmm_init_orders (Suc n) s = ?s\<lparr>free_count := (free_count ?s)(n := 0), links := list_init (FreeHead n) (links ?s)\<rparr>"
    by (simp add: pmm_init_orders_def)
  ultimately show ?case using Suc by (auto simp add: less_Suc_eq)
qed

lemma empty_inv:
  assumes "\<not> fault (links s)" "\<forall>q. \<not> is_free (mem_map s q)" "free_pages s = 0"
  shows "buddy_inv (pmm_init_orders MAX_BUDDY_ORDER s) (\<lambda>_. [])"
  using init_orders_lists [OF order_refl assms(1)] assms
  by (simp add: buddy_inv_def lists_ok_def free_blocks_def free_frames_def)

lemma add_block_inv:
  assumes inv: "buddy_inv s L" and k: "k < MAX_BUDDY_ORDER" and al: "aligned p k"
    and p: "p < 2 ^ 52" "blk p k \<inter> free_frames L = {}"
    and L': "L' = L(FreeHead k := L (FreeHead k) @ [PageNode p])"
  shows "buddy_inv (pmm_add_block (pfn_to_phys p) k s) L'" "free_frames L' = free_frames L \<union> blk p k"
proof -
  let ?s = "s\<lparr>free_pages := free_pages s + 2 ^ k\<rparr>"
  have "buddy_held ?s L p k"
    using inv k al p card_held [OF p(2)] by (auto simp: buddy_inv_def buddy_held_def lists_ok_def)
  note f = finish_free [OF this refl L']
  show "free_frames L' = free_frames L \<union> blk p k" by (rule f)
  have "pmm_add_block (pfn_to_phys p) k s =
      count_add k 1 ((set_is_free p True ?s)\<lparr>links := list_add_tail (PageNode p) (FreeHead k) (links ?s)\<rparr>)"
    using p(1) by (simp add: pmm_add_block_def Let_def phys_pfn_roundtrip set_is_free_def count_add_def)
  with f(1) show "buddy_inv (pmm_add_block (pfn_to_phys p) k s) L'" by (simp only:)
qed

lemma four_pages_inv:
  "buddy_inv four_pages ((\<lambda>_. [])(FreeHead 2 := [PageNode 256]))"
  "free_frames ((\<lambda>_. [])(FreeHead 2 := [PageNode 256])) = blk 256 2"
proof -
  have e: "buddy_inv (pmm_init_orders MAX_BUDDY_ORDER pmm_zero) (\<lambda>_. [])"
    by (rule empty_inv) (simp_all add: pmm_zero_def page_zero_def)
  have al: "aligned 256 2" by (auto simp: aligned_def less_Suc_eq numeral_2_eq_2)
  have "free_frames (\<lambda>_. []) = {}" by (simp add: free_frames_def free_blocks_def)
  then show "buddy_inv four_pages ((\<lambda>_. [])(FreeHead 2 := [PageNode 256]))"
    "free_frames ((\<lambda>_. [])(FreeHead 2 := [PageNode 256])) = blk 256 2"
    using add_block_inv [OF e _ al _ _ refl] by (simp_all add: four_pages_def pfn_to_phys_def)
qed

lemma blk_256_2_ok: "frames_ok (blk 256 2)"
proof -
  have "bit q 8" "\<forall>n \<ge> 52. \<not> bit q n" if "q \<in> blk 256 2" for q
    using that bit_exp_word [of 8, where 'a = 64] by (auto simp: blk_def)
  then show ?thesis
    using word_less_exp_iff_bits [of 52, where 'a = 64] by (fastforce simp: frames_ok_def)
qed

section \<open>Properties of the page allocator\<close>

text \<open>
  C1: a successful \<open>pmm_alloc_pages\<close> returns the address of an aligned block of the requested order
  that was free before the call; exactly that block leaves the free lists, and the allocator's
  invariant (disjoint aligned free blocks, accurate counters and page flags, sound links) is kept.
\<close>

theorem pmm_alloc_exact:
  assumes "buddy_inv s L" "frames_ok (free_frames L)" "pmm_alloc_pages order s = (a, s')" "a \<noteq> 0"
  shows "\<exists>L'. buddy_inv s' L' \<and> aligned (phys_to_pfn a) (nat order) \<and>
    blk (phys_to_pfn a) (nat order) \<subseteq> free_frames L \<and>
    free_frames L' = free_frames L - blk (phys_to_pfn a) (nat order)"
  by (rule alloc_pages_correct(1) [OF assms])

lemma four_pages_blocks: "free_blocks ((\<lambda>_. [])(FreeHead 2 := [PageNode 256])) = {(2, 256)}"
  by (auto simp: free_blocks_def split: if_splits)

lemma four_pages_alloc: "0 \<le> k \<Longrightarrow> k \<le> 2 \<Longrightarrow> fst (pmm_alloc_pages k four_pages) \<noteq> 0"
  using alloc_pages_correct(2) [OF four_pages_inv(1), of k] four_pages_inv(2) blk_256_2_ok four_pages_blocks
  by (cases "pmm_alloc_pages k four_pages") (auto simp: not_less)

theorem pmm_alloc_exact_witness:
  "\<exists>a L'. pmm_alloc_pages 1 four_pages = (a, snd (pmm_alloc_pages 1 four_pages)) \<and>
     buddy_inv (snd (pmm_alloc_pages 1 four_pages)) L' \<and> blk (phys_to_pfn a) 1 \<subseteq> blk 256 2 \<and>
     free_frames L' = blk 256 2 - blk (phys_to_pfn a) 1"
proof -
  let ?a = "fst (pmm_alloc_pages 1 four_pages)"
  have "frames_ok (free_frames ((\<lambda>_. [])(FreeHead 2 := [PageNode 256])))"
    using four_pages_inv(2) blk_256_2_ok by (simp only:)
  then show ?thesis
    using pmm_alloc_exact [OF four_pages_inv(1) _ prod.collapse [symmetric], of 1] four_pages_alloc [of 1]
      four_pages_inv(2) by (intro exI [of _ ?a]) (simp del: fun_upd_apply, blast)
qed

text \<open>
  C29: \<open>pmm_alloc_pages\<close> returns \<open>NULL\<close> only when it must: for an order outside \<open>0 .. 10\<close>, or when every
  free block is smaller than the request; the allocator's state is then unchanged.
\<close>

theorem pmm_alloc_null:
  assumes "buddy_inv s L" "frames_ok (free_frames L)" "pmm_alloc_pages order s = (a, s')"
  shows "(a = 0 \<longleftrightarrow> order < 0 \<or> order \<ge> int MAX_BUDDY_ORDER \<or> (\<forall>k p. (k, p) \<in> free_blocks L \<longrightarrow> int k < order)) \<and>
    (a = 0 \<longrightarrow> s' = s)"
  using alloc_pages_correct(2,3) [OF assms] by blast

theorem pmm_alloc_null_witness: "pmm_alloc_pages 3 four_pages = (0, four_pages)"
proof -
  have "frames_ok (free_frames ((\<lambda>_. [])(FreeHead 2 := [PageNode 256])))"
    using four_pages_inv(2) blk_256_2_ok by (simp only:)
  then show ?thesis
    using pmm_alloc_null [OF four_pages_inv(1) _ prod.collapse [symmetric], of 3] four_pages_blocks
    by (auto simp: prod_eq_iff)
qed

text \<open>
  C13: blocks obtained by any sequence of successful allocations lie in the memory that was free at the
  start and are pairwise disjoint: no page is handed out twice while nothing is freed.
\<close>

theorem pmm_alloc_disjoint:
  assumes "buddy_pages s F" "alloc_all pmm_alloc_pages orders s = (bs, s')"
  shows "(\<forall>b \<in> set bs. handed_out b \<subseteq> F) \<and> buddy_pages s' (F - (\<Union>b \<in> set bs. handed_out b)) \<and>
    (\<forall>i < length bs. \<forall>j < i. handed_out (bs ! i) \<inter> handed_out (bs ! j) = {})"
  using buddy.alloc_all_disjoint [OF assms] by blast

lemma four_pages_pages: "buddy_pages four_pages (blk 256 2)"
  using four_pages_inv blk_256_2_ok by (auto simp: buddy_pages_def)

theorem pmm_alloc_disjoint_witness:
  "\<exists>bs s'. alloc_all pmm_alloc_pages [0, 1, 0] four_pages = (bs, s') \<and>
     (\<forall>i < length bs. \<forall>j < i. handed_out (bs ! i) \<inter> handed_out (bs ! j) = {})"
  using pmm_alloc_disjoint [OF four_pages_pages prod.collapse [symmetric], of "[0, 1, 0]"]
  by (intro exI [of _ "fst (alloc_all pmm_alloc_pages [0, 1, 0] four_pages)"]
      exI [of _ "snd (alloc_all pmm_alloc_pages [0, 1, 0] four_pages)"]) (simp del: alloc_all.simps)

text \<open>
  C2: \<open>pmm_free_pages\<close> of an allocated block makes exactly its frames free again and keeps the invariant,
  merging with free buddies on the way, provided no smaller free block starts where one of the
  buddies on the way up starts (\<open>merge_safe\<close>).
\<close>

theorem pmm_free_exact:
  assumes "buddy_inv s L" "0 \<le> order" "order < int MAX_BUDDY_ORDER"
    and "aligned p (nat order)" "p \<noteq> 0" "p < 2 ^ 52" "blk p (nat order) \<inter> free_frames L = {}"
    and "merge_safe L p (nat order)"
  shows "\<exists>L'. buddy_inv (pmm_free_pages (pfn_to_phys p) order s) L' \<and>
    free_frames L' = free_frames L \<union> blk p (nat order)"
  by (rule free_pages_correct [OF assms])

theorem pmm_free_exact_witness:
  "\<exists>L'. buddy_inv (pmm_free_pages (pfn_to_phys 260) 2 four_pages) L' \<and> free_frames L' = blk 256 2 \<union> blk 260 2"
proof -
  let ?L = "(\<lambda>_. [])(FreeHead 2 := [PageNode 256]) :: pmm_node \<Rightarrow> pmm_node list"
  have al: "aligned 260 2" by (auto simp: aligned_def less_Suc_eq numeral_2_eq_2)
  have "buddy_of 256 2 = 260" by (simp add: buddy_of_def)
  then have dis: "blk 260 2 \<inter> blk 256 2 = {}" using blk_buddy_disjoint [of 2 256] by auto
  have "256 \<noteq> buddy_of (base 260 j) j" if "2 < j" "j < 10" for j
  proof -
    have "j \<in> {3, 4, 5, 6, 7, 8, 9}" using that by auto
    then show ?thesis by (auto simp: buddy_of_def base_def)
  qed
  then have "merge_safe ?L 260 2" using four_pages_blocks by (auto simp: merge_safe_def simp del: fun_upd_apply)
  then show ?thesis
    using pmm_free_exact [OF four_pages_inv(1), of 2 260] al dis four_pages_inv(2) by (simp del: fun_upd_apply)
qed

text \<open>
  Without \<open>merge_safe\<close> the merge is wrong. Frame 258 is free as a single page, frame 259 is in use, and
  the block of two pages at 256 is freed: the page flag of 258 makes the code take 258 for a free
  block of two pages.
\<close>

definition one_page :: pmm_t where
  "one_page = pmm_add_block 0x102000 0 (pmm_init_orders MAX_BUDDY_ORDER pmm_zero)"

abbreviation one_page_lists :: "pmm_node \<Rightarrow> pmm_node list" where
  "one_page_lists \<equiv> (\<lambda>_. [])(FreeHead 0 := [PageNode 258])"

lemma one_page_inv: "buddy_inv one_page one_page_lists" "free_frames one_page_lists = {258}"
proof -
  have e: "buddy_inv (pmm_init_orders MAX_BUDDY_ORDER pmm_zero) (\<lambda>_. [])"
    by (rule empty_inv) (simp_all add: pmm_zero_def page_zero_def)
  have "free_frames (\<lambda>_. []) = {}" by (simp add: free_frames_def free_blocks_def)
  moreover have "blk 258 0 = {258}" using blk_iff [of _ 258 0] by auto
  ultimately show "buddy_inv one_page one_page_lists" "free_frames one_page_lists = {258}"
    using add_block_inv [OF e _ _ _ _ refl, of 0 258] by (simp_all add: one_page_def pfn_to_phys_def aligned_def)
qed

lemma one_page_free_lists:
  "dlists (links (pmm_free_pages 0x100000 1 one_page)) heads ((\<lambda>_. [])(FreeHead 2 := [PageNode 256]))"
proof -
  let ?s = "count_add 1 (- 1) (set_is_free 258 False (one_page\<lparr>links := list_del (PageNode 258) (links one_page)\<rparr>))"
  have f: "is_free (mem_map one_page q) \<longleftrightarrow> q = 258" for q
    using one_page_inv(1) by (force simp: buddy_inv_def free_blocks_def split: if_splits)
  have "pmm_merge 2 256 ?s = (2, 256, ?s)" by (subst pmm_merge.simps) (simp add: Let_def f)
  moreover have "pmm_merge 1 256 one_page = pmm_merge 2 256 ?s"
    by (subst pmm_merge.simps) (simp add: Let_def f numeral_2_eq_2)
  ultimately have fr: "links (pmm_free_pages 0x100000 1 one_page) =
      list_add_tail (PageNode 256) (FreeHead 2) (list_del (PageNode 258) (links one_page))"
    by (simp add: pmm_free_pages_def phys_to_pfn_def Let_def)
  have "dlists (list_del (PageNode 258) (links one_page)) heads (one_page_lists(FreeHead 0 := []))"
    using one_page_inv(1) by (intro lists.pop(3)) (auto simp: buddy_inv_def lists_ok_def)
  then have "dlists (list_del (PageNode 258) (links one_page)) heads (\<lambda>_. [])"
    by (simp add: fun_upd_def cong: if_cong)
  then show ?thesis
    unfolding fr using dlists_add_tail [of _ heads "\<lambda>_. []" "FreeHead 2" "PageNode 256"] by (auto simp: members_def)
qed

text \<open>
  C34: freeing can corrupt the allocator. In a state that satisfies the invariant, with frame 259
  neither free nor part of the block being freed, freeing the order-1 block at frame 256 lets the
  next allocation of order 2 return the block of frames 256 to 259, frame 259 included.
\<close>

theorem pmm_free_merges_partial_buddy:
  "buddy_inv one_page one_page_lists \<and> 259 \<notin> free_frames one_page_lists \<and> 259 \<notin> blk 256 1 \<and>
   blk 256 1 \<inter> free_frames one_page_lists = {} \<and>
   fst (pmm_alloc_pages 2 (pmm_free_pages (pfn_to_phys 256) 1 one_page)) = pfn_to_phys 256 \<and> 259 \<in> blk 256 2"
proof -
  have "259 \<in> blk 256 2" "259 \<notin> blk 256 1" "258 \<notin> blk 256 1" by (simp_all add: blk_iff)
  moreover note one_page_inv
  moreover have "fst (pmm_alloc_pages 2 (pmm_free_pages 0x100000 1 one_page)) = pfn_to_phys 256"
    using lists.pop(1,2) [OF one_page_free_lists, of "FreeHead 2"]
    by (simp add: pmm_alloc_pages_def pmm_alloc_scan.simps [of 2 2] Let_def)
  ultimately show ?thesis by (simp add: pfn_to_phys_def)
qed

end
