(* ===== verification/Memory.thy ===== *)
theory Memory
  imports Prelude
begin

text \<open>
  Byte-addressed memory and the little-endian loads and stores the compiled code performs on it.
  The locale \<open>cell_memory\<close> states what clients that see memory as an array of aligned cells (page
  tables, saved pointers) rely on; it is interpreted for 8-byte cells.
\<close>

type_synonym memory = "u64 \<Rightarrow> u8"

primrec load_le :: "nat \<Rightarrow> u64 \<Rightarrow> memory \<Rightarrow> 'a::len word" where
  "load_le 0 a m = 0"
| "load_le (Suc k) a m = ucast (m a) OR push_bit 8 (load_le k (a + 1) m)"

primrec store_le :: "nat \<Rightarrow> u64 \<Rightarrow> 'a::len word \<Rightarrow> memory \<Rightarrow> memory" where
  "store_le 0 a v m = m"
| "store_le (Suc k) a v m = store_le k (a + 1) (drop_bit 8 v) (m(a := ucast v))"

definition load16 :: "u64 \<Rightarrow> memory \<Rightarrow> u16" where "load16 a m = load_le 2 a m"
definition load32 :: "u64 \<Rightarrow> memory \<Rightarrow> u32" where "load32 a m = load_le 4 a m"
definition load64 :: "u64 \<Rightarrow> memory \<Rightarrow> u64" where "load64 a m = load_le 8 a m"
definition store64 :: "u64 \<Rightarrow> u64 \<Rightarrow> memory \<Rightarrow> memory" where "store64 a v m = store_le 8 a v m"

definition store32 :: "u64 \<Rightarrow> u32 \<Rightarrow> memory \<Rightarrow> memory" where "store32 a v m = store_le 4 a v m"

lemma load_bytes:
  "load16 a m = ucast (m a) OR push_bit 8 (ucast (m (a + 1)))"
  "load32 a m = ucast (m a) OR push_bit 8 (ucast (m (a + 1)) OR push_bit 8 (ucast (m (a + 2)) OR push_bit 8 (ucast (m (a + 3)))))"
  "load64 a m = ucast (m a) OR push_bit 8 (ucast (m (a + 1)) OR push_bit 8 (ucast (m (a + 2)) OR push_bit 8 (ucast (m (a + 3)) OR
     push_bit 8 (ucast (m (a + 4)) OR push_bit 8 (ucast (m (a + 5)) OR push_bit 8 (ucast (m (a + 6)) OR push_bit 8 (ucast (m (a + 7)))))))))"
  by (simp_all add: load16_def load32_def load64_def numeral_eq_Suc add.assoc)

lemma load_le_cong:
  "(\<And>i. i < k \<Longrightarrow> m' (a + of_nat i) = m (a + of_nat i)) \<Longrightarrow> load_le k a m' = load_le k a m"
proof (induction k arbitrary: a)
  case (Suc k)
  have "m' (a + 1 + of_nat i) = m (a + 1 + of_nat i)" if "i < k" for i
    using Suc.prems [of "Suc i"] that by (simp add: algebra_simps)
  moreover have "m' a = m a" using Suc.prems [of 0] by simp
  ultimately show ?case using Suc.IH [of "a + 1"] by simp
qed simp

lemma store_le_outside:
  "(\<And>i. i < k \<Longrightarrow> b \<noteq> a + of_nat i) \<Longrightarrow> store_le k a v m b = m b"
proof (induction k arbitrary: a v m)
  case (Suc k)
  have "b \<noteq> a + 1 + of_nat i" if "i < k" for i
    using Suc.prems [of "Suc i"] that by (simp add: algebra_simps)
  moreover have "b \<noteq> a" using Suc.prems [of 0] by simp
  ultimately show ?case using Suc.IH by simp
qed simp

lemma load_store_le:
  "k \<le> 256 \<Longrightarrow> load_le k a (store_le k a v m) = take_bit (8 * k) v"
proof (induction k arbitrary: a v m)
  case (Suc k)
  have "a \<noteq> a + 1 + of_nat i" if "i < k" for i
  proof
    assume "a = a + 1 + of_nat i"
    then have "(of_nat (Suc i) :: u64) = 0" by (simp add: algebra_simps)
    then have "unat (of_nat (Suc i) :: u64) = 0" by (simp only: unat_0)
    then show False using that Suc.prems by (simp add: unat_of_nat take_bit_nat_eq_self del: of_nat_Suc)
  qed
  then have "store_le (Suc k) a v m a = ucast v" by (simp add: store_le_outside)
  then show ?case using Suc
    by (intro bit_word_eqI) (auto simp: bit_simps)
qed simp

lemma load64_store64_same [simp]: "load64 a (store64 a v m) = v"
  by (simp add: load64_def store64_def load_store_le take_bit_word_eq_self)

text \<open>Two aligned cells are equal or disjoint.\<close>

lemma and_7: "a AND 7 = 0 \<longleftrightarrow> 8 dvd unat a" for a :: u64
proof -
  have m: "(7 :: u64) = mask 3" by (simp add: mask_eq_exp_minus_1)
  have "a AND 7 = 0 \<longleftrightarrow> unat (a AND 7) = 0" by (simp add: unat_eq_0)
  also have "unat (a AND 7) = unat a mod 8"
    unfolding m by (simp only: take_bit_eq_mask [symmetric] unsigned_take_bit_eq) (simp add: take_bit_eq_mod)
  finally show ?thesis by auto
qed

lemma unat_add_small:
  fixes a :: u64
  assumes "8 dvd unat a" "i < 8"
  shows "unat (a + of_nat i) = unat a + i"
proof -
  obtain q where q: "unat a = 8 * q" using assms(1) by blast
  then have "unat a + i < 2 ^ 64" using unat_less_64 [of a] assms(2) by simp
  moreover have "unat (of_nat i :: u64) = i" using assms(2) by (simp add: unat_of_nat take_bit_nat_eq_self)
  ultimately show ?thesis by (simp add: unat_word_ariths)
qed

lemma cells_disjoint:
  fixes a b :: u64
  assumes "a AND 7 = 0" "b AND 7 = 0" "a \<noteq> b" "i < 8" "j < 8"
  shows "a + of_nat i \<noteq> b + of_nat j"
proof
  assume e: "a + of_nat i = b + of_nat j"
  obtain p q where pq: "unat a = 8 * p" "unat b = 8 * q" using assms(1,2) unfolding and_7 by (elim dvdE) auto
  have "unat (a + of_nat i) = unat a + i" "unat (b + of_nat j) = unat b + j"
    using assms by (auto simp: and_7 intro: unat_add_small)
  with e have "unat a + i = unat b + j" by metis
  then have "8 * p + i = 8 * q + j" using pq by simp
  then have "(8 * p + i) div 8 = (8 * q + j) div 8" by simp
  then have "p = q" using assms(4,5) by simp
  then show False using pq assms(3) by (metis unsigned_word_eqI)
qed

lemma load64_store64_other:
  assumes "a AND 7 = 0" "b AND 7 = 0" "a \<noteq> b"
  shows "load64 a (store64 b v m) = load64 a m"
  unfolding load64_def store64_def
  by (rule load_le_cong) (use cells_disjoint [OF assms] in \<open>auto intro!: store_le_outside\<close>)

section \<open>Memory as an array of cells\<close>

locale cell_memory =
  fixes ld :: "'a \<Rightarrow> 'm \<Rightarrow> 'v" and st :: "'a \<Rightarrow> 'v \<Rightarrow> 'm \<Rightarrow> 'm" and cell :: "'a \<Rightarrow> bool"
  assumes ld_same: "cell a \<Longrightarrow> ld a (st a v m) = v"
    and ld_other: "cell a \<Longrightarrow> cell b \<Longrightarrow> a \<noteq> b \<Longrightarrow> ld a (st b v m) = ld a m"
begin

lemma ld_st: "cell a \<Longrightarrow> cell b \<Longrightarrow> ld a (st b v m) = (if a = b then v else ld a m)"
  using ld_same ld_other by simp

end

interpretation cells64: cell_memory load64 store64 "\<lambda>a. a AND 7 = 0"
  by unfold_locales (simp_all add: load64_store64_other)

end
