(* ===== verification/CString.thy ===== *)
theory CString
  imports Memory
begin

text \<open>
  The memory and string functions of \<^verbatim>\<open>kernel/lib/string.c\<close> (the root server links an
  identical copy, \<^verbatim>\<open>user/string.c\<close>). Memory is a map from 64-bit addresses to bytes; every
  function that returns its \<open>dest\<close> argument returns the new memory here, since that pointer
  carries nothing new. A loop bounded by a counter is a total function; a loop that
  runs until it meets a NUL byte is a partial function whose value \<open>None\<close> means that it does not
  stop. The theorems give the contents of memory after each function, for \<open>memmove\<close> with any overlap.
\<close>

section \<open>The functions of string.c\<close>

definition memset :: "u64 \<Rightarrow> int \<Rightarrow> u64 \<Rightarrow> memory \<Rightarrow> memory" where
  "memset dest ch count m = for_range 0 count (\<lambda>i m. m(dest + i := of_int ch)) m"

definition memcpy :: "u64 \<Rightarrow> u64 \<Rightarrow> u64 \<Rightarrow> memory \<Rightarrow> memory" where
  "memcpy dest src count m = for_range 0 count (\<lambda>i m. m(dest + i := m (src + i))) m"

function memmove_down :: "u64 \<Rightarrow> u64 \<Rightarrow> u64 \<Rightarrow> memory \<Rightarrow> memory" where
  \<comment> \<open>\<open>for (size_t i = count; i > 0; i--)\<close>\<close>
  "memmove_down d s i m =
     (if i > 0 then memmove_down d s (i - 1) (m(d + (i - 1) := m (s + (i - 1)))) else m)"
  by pat_completeness auto
termination
  by (relation "measure (\<lambda>(d, s, i, m). unat i)") (simp_all add: unat_dec_less)

declare memmove_down.simps [simp del]

definition memmove :: "u64 \<Rightarrow> u64 \<Rightarrow> u64 \<Rightarrow> memory \<Rightarrow> memory" where
  "memmove dest src count m =
     (if dest < src then for_range 0 count (\<lambda>i m. m(dest + i := m (src + i))) m
      else if dest > src then memmove_down dest src count m
      else m)"

function memcmp_from :: "u64 \<Rightarrow> u64 \<Rightarrow> u64 \<Rightarrow> u64 \<Rightarrow> memory \<Rightarrow> int" where
  "memcmp_from i s1 s2 n m =
     (if i < n then
        if m (s1 + i) \<noteq> m (s2 + i) then (if m (s1 + i) < m (s2 + i) then - 1 else 1)
        else memcmp_from (i + 1) s1 s2 n m
      else 0)"
  by pat_completeness auto
termination
  by (relation "measure (\<lambda>(i, s1, s2, n, m). unat n - unat i)")
    (auto simp: unat_inc word_less_nat_alt)

declare memcmp_from.simps [simp del]

definition memcmp :: "u64 \<Rightarrow> u64 \<Rightarrow> u64 \<Rightarrow> memory \<Rightarrow> int" where
  "memcmp s1 s2 n m = memcmp_from 0 s1 s2 n m"

partial_function (option) strlen_scan :: "u64 \<Rightarrow> memory \<Rightarrow> u64 option" where
  "strlen_scan p m = (if m p \<noteq> 0 then strlen_scan (p + 1) m else Some p)"

definition strlen :: "u64 \<Rightarrow> memory \<Rightarrow> u64 option" where
  "strlen s m = (case strlen_scan s m of None \<Rightarrow> None | Some p \<Rightarrow> Some (p - s))"

function strnlen_from :: "u64 \<Rightarrow> u64 \<Rightarrow> u64 \<Rightarrow> memory \<Rightarrow> u64" where
  "strnlen_from len s maxlen m =
     (if len < maxlen \<and> m (s + len) \<noteq> 0 then strnlen_from (len + 1) s maxlen m else len)"
  by pat_completeness auto
termination
  by (relation "measure (\<lambda>(len, s, maxlen, m). unat maxlen - unat len)")
    (auto simp: unat_inc word_less_nat_alt)

declare strnlen_from.simps [simp del]

definition strnlen :: "u64 \<Rightarrow> u64 \<Rightarrow> memory \<Rightarrow> u64" where
  "strnlen s maxlen m = strnlen_from 0 s maxlen m"

partial_function (option) strcpy_loop :: "u64 \<Rightarrow> u64 \<Rightarrow> memory \<Rightarrow> memory option" where
  \<comment> \<open>\<open>while ((*p++ = *src++)) { }\<close>\<close>
  "strcpy_loop p src m =
     (let c = m src; m = m(p := c)
      in if c \<noteq> 0 then strcpy_loop (p + 1) (src + 1) m else Some m)"

definition strcpy :: "u64 \<Rightarrow> u64 \<Rightarrow> memory \<Rightarrow> memory option" where
  "strcpy dest src m = strcpy_loop dest src m"

function copy_until :: "u64 \<Rightarrow> u64 \<Rightarrow> u64 \<Rightarrow> u64 \<Rightarrow> memory \<Rightarrow> u64 \<times> memory" where
  \<comment> \<open>\<open>for (; i < n && src[i] != '\0'; i++) dest[i] = src[i];\<close> in \<open>strncpy\<close> and \<open>strlcpy\<close>\<close>
  "copy_until i n dest src m =
     (if i < n \<and> m (src + i) \<noteq> 0 then copy_until (i + 1) n dest src (m(dest + i := m (src + i)))
      else (i, m))"
  by pat_completeness auto
termination
  by (relation "measure (\<lambda>(i, n, dest, src, m). unat n - unat i)")
    (auto simp: unat_inc word_less_nat_alt)

declare copy_until.simps [simp del]

definition strncpy :: "u64 \<Rightarrow> u64 \<Rightarrow> u64 \<Rightarrow> memory \<Rightarrow> memory" where
  "strncpy dest src n m =
     (let (i, m) = copy_until 0 n dest src m
      in for_range i n (\<lambda>i m. m(dest + i := 0)) m)"

definition strlcpy :: "u64 \<Rightarrow> u64 \<Rightarrow> u64 \<Rightarrow> memory \<Rightarrow> (u64 \<times> memory) option" where
  "strlcpy dest src sz m =
     (if sz = 0 then (case strlen src m of None \<Rightarrow> None | Some l \<Rightarrow> Some (l, m))
      else let (i, m) = copy_until 0 (sz - 1) dest src m;
               m = m(dest + i := 0)
           in case strlen src m of None \<Rightarrow> None | Some l \<Rightarrow> Some (l, m))"

definition byte_diff :: "u8 \<Rightarrow> u8 \<Rightarrow> int" where
  \<comment> \<open>\<open>*(const unsigned char *)s1 - *(const unsigned char *)s2\<close>\<close>
  "byte_diff a b = uint a - uint b"

partial_function (option) strcmp :: "u64 \<Rightarrow> u64 \<Rightarrow> memory \<Rightarrow> int option" where
  "strcmp s1 s2 m =
     (if m s1 \<noteq> 0 \<and> m s1 = m s2 then strcmp (s1 + 1) (s2 + 1) m
      else Some (byte_diff (m s1) (m s2)))"

function strncmp :: "u64 \<Rightarrow> u64 \<Rightarrow> u64 \<Rightarrow> memory \<Rightarrow> int" where
  "strncmp s1 s2 n m =
     (if n > 0 then
        if m s1 \<noteq> m s2 then byte_diff (m s1) (m s2)
        else if m s1 = 0 then 0
        else strncmp (s1 + 1) (s2 + 1) (n - 1) m
      else 0)"
  by pat_completeness auto
termination
  by (relation "measure (\<lambda>(s1, s2, n, m). unat n)") (simp_all add: unat_dec_less)

declare strncmp.simps [simp del]

partial_function (option) strrchr_loop :: "u64 \<Rightarrow> u8 \<Rightarrow> u64 \<Rightarrow> memory \<Rightarrow> u64 option" where
  "strrchr_loop s ch la m =
     (let la = (if m s = ch then s else la)
      in if m s \<noteq> 0 then strrchr_loop (s + 1) ch la m else Some la)"

definition strrchr :: "u64 \<Rightarrow> int \<Rightarrow> memory \<Rightarrow> u64 option" where
  \<comment> \<open>0 is the null pointer\<close>
  "strrchr s c m = strrchr_loop s (of_int c) 0 m"

section \<open>Filling and copying\<close>

text \<open>A loop that writes \<open>v i\<close> at \<open>d + i\<close> for \<open>i < n\<close> writes exactly the range it names.\<close>

definition range_upd :: "u64 \<Rightarrow> nat \<Rightarrow> (u64 \<Rightarrow> u8) \<Rightarrow> memory \<Rightarrow> memory" where
  "range_upd d n v m = (\<lambda>a. if unat (a - d) < n then v (a - d) else m a)"

lemma range_upd_0 [simp]: "range_upd d 0 v m = m"
  by (simp add: range_upd_def)

lemma range_upd_Suc:
  assumes "n < 2 ^ 64"
  shows "range_upd d (Suc n) v m = (range_upd d n v m)(d + of_nat n := v (of_nat n))"
proof
  fix a
  show "range_upd d (Suc n) v m a = ((range_upd d n v m)(d + of_nat n := v (of_nat n))) a"
  proof (cases "a = d + of_nat n")
    case True
    then have "unat (a - d) = n" using word_sub_eq [OF assms] by blast
    then show ?thesis using True by (simp add: range_upd_def)
  next
    case False
    then have "unat (a - d) \<noteq> n" using word_sub_eq [OF assms] by blast
    then show ?thesis using False by (simp add: range_upd_def less_Suc_eq)
  qed
qed

lemma range_upd_outside:
  "(\<And>i. i < n \<Longrightarrow> d + of_nat i \<noteq> a) \<Longrightarrow> range_upd d n v m a = m a"
  by (auto simp: range_upd_def) (metis add.commute diff_add_cancel unat_of_nat_self)

lemma fill_fold:
  "n \<le> 2 ^ 64 \<Longrightarrow> fold (\<lambda>i m. m(d + of_nat i := v)) [0..<n] m = range_upd d n (\<lambda>_. v) m"
  by (induction n) (simp_all add: range_upd_Suc)

lemma copy_fold:
  assumes "n \<le> 2 ^ 64"
    and "\<And>i j. i < j \<Longrightarrow> j < n \<Longrightarrow> d + of_nat i \<noteq> s + of_nat j"
  shows "fold (\<lambda>i m. m(d + of_nat i := m (s + of_nat i))) [0..<n] m
           = range_upd d n (\<lambda>i. m (s + i)) m"
  using assms
proof (induction n)
  case (Suc n)
  have "\<not> unat (s + of_nat n - d) < n"
  proof
    assume a: "unat (s + of_nat n - d) < n"
    then have "s + of_nat n = d + of_nat (unat (s + of_nat n - d))"
      by (simp add: algebra_simps)
    then show False using Suc.prems(2) [OF a] by simp
  qed
  then have "range_upd d n (\<lambda>i. m (s + i)) m (s + of_nat n) = m (s + of_nat n)"
    by (simp add: range_upd_def)
  with Suc show ?case by (simp add: range_upd_Suc del: fun_upd_apply)
qed simp

lemma range_upd_word: "range_upd d (unat n) v m = (\<lambda>a. if a - d < n then v (a - d) else m a)"
  by (simp add: range_upd_def word_less_nat_alt)

lemma memset_eq: "memset d c n m = range_upd d (unat n) (\<lambda>_. of_int c) m"
  by (simp add: memset_def for_range_fold fill_fold [OF unat_le_64])

lemma copy_range_eq:
  assumes "\<And>i j. i < j \<Longrightarrow> j < unat n \<Longrightarrow> d + of_nat i \<noteq> s + of_nat j"
  shows "for_range 0 n (\<lambda>i m. m(d + i := m (s + i))) m = range_upd d (unat n) (\<lambda>i. m (s + i)) m"
  using copy_fold [OF unat_le_64 assms] by (simp add: for_range_fold)

lemma memmove_down_eq:
  assumes "\<And>i j. j < i \<Longrightarrow> i < unat n \<Longrightarrow> d + of_nat i \<noteq> s + of_nat j"
  shows "memmove_down d s n m = range_upd d (unat n) (\<lambda>i. m (s + i)) m"
  using assms
proof (induction d s n m rule: memmove_down.induct)
  case (1 d s i m)
  show ?case
  proof (cases "i > 0")
    case True
    let ?j = "unat i - 1" and ?m = "m(d + (i - 1) := m (s + (i - 1)))"
    have u: "unat (i - 1) = ?j" using True by (simp add: unat_dec)
    have j: "i - 1 = of_nat ?j" using arg_cong [OF u, of "of_nat :: nat \<Rightarrow> u64"] by simp
    have si: "unat i = Suc ?j" using True unat_gt_0 [of i] by simp
    have jl: "?j < 2 ^ 64" using unat_le_64 [of i] si by linarith
    have ih: "memmove_down d s (i - 1) ?m = range_upd d ?j (\<lambda>k. ?m (s + k)) ?m"
      using 1 True si u by (simp del: fun_upd_apply)
    have v: "?m (s + k) = m (s + k)" if "unat k < ?j" for k
    proof -
      have "d + of_nat ?j \<noteq> s + of_nat (unat k)" by (rule 1(2)) (use that si in linarith)+
      then show ?thesis unfolding j by simp
    qed
    have "range_upd d ?j (\<lambda>k. ?m (s + k)) ?m = range_upd d (Suc ?j) (\<lambda>k. m (s + k)) m"
    proof
      fix a
      have "a = d + (i - 1) \<longleftrightarrow> unat (a - d) = ?j"
        using word_sub_eq [OF jl, of a d] j by simp
      then show "range_upd d ?j (\<lambda>k. ?m (s + k)) ?m a = range_upd d (Suc ?j) (\<lambda>k. m (s + k)) m a"
        using v [of "a - d"] by (auto simp: range_upd_def less_Suc_eq)
    qed
    then show ?thesis using True ih si by (subst memmove_down.simps) simp
  next
    case False
    then have "i = 0" by (metis word_gt_0)
    then show ?thesis by (subst memmove_down.simps) simp
  qed
qed

lemma offsets_differ:
  \<comment> \<open>in a range that does not wrap, \<open>a < b\<close> and \<open>i < j\<close> keep \<open>a + i\<close> and \<open>b + j\<close> apart\<close>
  fixes a b :: u64
  assumes "unat a < unat b" "i < j" "unat b + n \<le> 2 ^ 64" "j < n"
  shows "a + of_nat i \<noteq> b + of_nat j"
proof
  assume e: "a + of_nat i = b + of_nat j"
  have "unat (a + of_nat i) = unat a + i" "unat (b + of_nat j) = unat b + j"
    using assms by (simp_all add: unat_word_ariths unat_of_nat take_bit_nat_eq_self take_bit_eq_mod)
  with e have "unat a + i = unat b + j" by metis
  with assms show False by linarith
qed

text \<open>\<open>memset(dest, ch, count)\<close> stores the byte \<open>ch\<close> at the \<open>count\<close> addresses from \<open>dest\<close> on
  and changes no other byte.\<close>

lemma memset_spec:
  "memset dest ch count m = (\<lambda>a. if a - dest < count then of_int ch else m a)"
  by (simp add: memset_eq range_upd_word)

text \<open>C33: for source and destination ranges that do not wrap around the address space,
  \<open>memmove\<close> copies the bytes the source held before the call, however the ranges overlap, and
  changes nothing outside the destination.\<close>

theorem memmove_spec:
  assumes d: "unat dest + unat count \<le> 2 ^ 64" and s: "unat src + unat count \<le> 2 ^ 64"
  shows "memmove dest src count m
           = (\<lambda>a. if a - dest < count then m (src + (a - dest)) else m a)"
proof -
  consider "dest < src" | "dest > src" | "dest = src" by (metis linorder_less_linear)
  then have "memmove dest src count m = range_upd dest (unat count) (\<lambda>i. m (src + i)) m"
  proof cases
    case 1
    then have "dest + of_nat i \<noteq> src + of_nat j" if "i < j" "j < unat count" for i j
      using that s offsets_differ by (simp add: word_less_nat_alt)
    with 1 show ?thesis by (simp add: memmove_def copy_range_eq)
  next
    case 2
    then have "dest + of_nat i \<noteq> src + of_nat j" if "j < i" "i < unat count" for i j
      using that d offsets_differ [of src dest j i "unat count"] by (simp add: word_less_nat_alt)
    moreover have "\<not> dest < src" using 2 by simp
    ultimately show ?thesis using 2 by (simp add: memmove_def memmove_down_eq)
  next
    case 3
    then show ?thesis by (auto simp: memmove_def range_upd_def)
  qed
  then show ?thesis by (simp add: range_upd_word)
qed

theorem memmove_spec_witness:
  "memmove 0x1001 0x1000 3 (\<lambda>a. if a = 0x1000 then 7 else 0) 0x1001 = 7"
  using memmove_spec [of "0x1001" 3 "0x1000" "\<lambda>a. if a = 0x1000 then 7 else 0"] by simp

text \<open>On disjoint ranges, which is all C defines it for, \<open>memcpy\<close> copies the source.\<close>

lemma memcpy_spec:
  assumes "\<And>i j. i < count \<Longrightarrow> j < count \<Longrightarrow> dest + i \<noteq> src + j"
  shows "memcpy dest src count m = (\<lambda>a. if a - dest < count then m (src + (a - dest)) else m a)"
proof -
  have "dest + of_nat i \<noteq> src + of_nat j" if "i < j" "j < unat count" for i j
    using that assms [of "of_nat i" "of_nat j"] unat_less_64 [of count]
    by (simp add: word_less_nat_alt unat_of_nat take_bit_nat_eq_self)
  then show ?thesis by (simp add: memcpy_def copy_range_eq range_upd_word)
qed

section \<open>Comparing\<close>

lemma memcmp_from_spec:
  assumes "i \<le> n" "\<forall>j < i. m (s1 + j) = m (s2 + j)"
  shows "(memcmp_from i s1 s2 n m = 0 \<longleftrightarrow> (\<forall>j < n. m (s1 + j) = m (s2 + j))) \<and>
    (memcmp_from i s1 s2 n m < 0 \<longleftrightarrow>
       (\<exists>k < n. (\<forall>j < k. m (s1 + j) = m (s2 + j)) \<and> m (s1 + k) < m (s2 + k)))"
  using assms
proof (induction i s1 s2 n m rule: memcmp_from.induct)
  case (1 i s1 s2 n m)
  consider "\<not> i < n" | "i < n" "m (s1 + i) = m (s2 + i)" | "i < n" "m (s1 + i) \<noteq> m (s2 + i)" by blast
  then show ?case
  proof cases
    case 1
    then have "i = n" using "1.prems" by simp
    then show ?thesis using "1.prems" by (subst (1 2) memcmp_from.simps) auto
  next
    case 2
    have "j < i + 1 \<longleftrightarrow> j < i \<or> j = i" for j
      using unat_inc [OF 2(1)] by (auto simp: word_less_nat_alt less_Suc_eq dest: unsigned_word_eqI)
    moreover have "i + 1 \<le> n" using 2 unat_inc [OF 2(1)] by (simp add: word_le_nat_alt word_less_nat_alt)
    ultimately show ?thesis using 2 1 by (subst (1 2) memcmp_from.simps) auto
  next
    case 3
    have "(\<exists>k < n. (\<forall>j < k. m (s1 + j) = m (s2 + j)) \<and> m (s1 + k) < m (s2 + k)) \<longleftrightarrow> m (s1 + i) < m (s2 + i)"
    proof
      assume "\<exists>k < n. (\<forall>j < k. m (s1 + j) = m (s2 + j)) \<and> m (s1 + k) < m (s2 + k)"
      then obtain k where k: "\<forall>j < k. m (s1 + j) = m (s2 + j)" "m (s1 + k) < m (s2 + k)" by blast
      have "\<not> i < k" using k 3 by blast
      moreover have "\<not> k < i" using k "1.prems" by force
      ultimately have "k = i" by simp
      then show "m (s1 + i) < m (s2 + i)" using k by simp
    qed (use 3 "1.prems" in blast)
    with 3 show ?thesis by (subst (1 2) memcmp_from.simps) auto
  qed
qed

text \<open>\<open>memcmp\<close> returns 0 exactly when the two ranges hold the same bytes, and a negative
  value exactly when the first differing byte is smaller in the first range.\<close>

lemma memcmp_spec:
  "(memcmp s1 s2 n m = 0 \<longleftrightarrow> (\<forall>j < n. m (s1 + j) = m (s2 + j))) \<and>
   (memcmp s1 s2 n m < 0 \<longleftrightarrow>
      (\<exists>k < n. (\<forall>j < k. m (s1 + j) = m (s2 + j)) \<and> m (s1 + k) < m (s2 + k)))"
  using memcmp_from_spec [of 0 n m s1 s2] by (simp add: memcmp_def)

section \<open>NUL-terminated strings\<close>

definition cstr :: "u64 \<Rightarrow> nat \<Rightarrow> memory \<Rightarrow> bool" where
  \<comment> \<open>a string of length \<open>n\<close> starts at \<open>s\<close>\<close>
  "cstr s n m \<longleftrightarrow> n < 2 ^ 64 \<and> m (s + of_nat n) = 0 \<and> (\<forall>i < n. m (s + of_nat i) \<noteq> 0)"

lemma strlen_scan_cstr:
  "m (s + of_nat n) = 0 \<Longrightarrow> \<forall>i < n. m (s + of_nat i) \<noteq> 0 \<Longrightarrow> strlen_scan s m = Some (s + of_nat n)"
proof (induction n arbitrary: s)
  case 0
  then show ?case by (subst strlen_scan.simps) simp
next
  case (Suc n)
  have "m ((s + 1) + of_nat i) = m (s + of_nat (Suc i))" for i by (simp add: algebra_simps)
  then have "strlen_scan (s + 1) m = Some (s + 1 + of_nat n)"
    using Suc.prems by (intro Suc.IH) (auto simp: algebra_simps)
  moreover have "m s \<noteq> 0" using Suc.prems(2) by force
  ultimately show ?case by (subst strlen_scan.simps) (simp add: algebra_simps)
qed

lemma cstr_ex: "\<exists>n. cstr s n m" if "m a = 0" for a
proof -
  have e: "m (s + of_nat (unat (a - s))) = 0" using that by simp
  define n where "n = (LEAST n. m (s + of_nat n) = 0)"
  have "m (s + of_nat n) = 0" using e unfolding n_def by (rule LeastI)
  moreover have "n \<le> unat (a - s)" using e unfolding n_def by (rule Least_le)
  moreover have "m (s + of_nat i) \<noteq> 0" if "i < n" for i
    using that unfolding n_def by (rule not_less_Least)
  moreover have "unat (a - s) < 2 ^ LENGTH(64)" by (rule unsigned_less)
  ultimately show ?thesis unfolding cstr_def by (intro exI [of _ n]) simp
qed

lemma strlen_scan_nul: "strlen_scan s m = Some p \<Longrightarrow> m p = 0"
  by (rule strlen_scan.raw_induct [of "\<lambda>s m p. m p = 0"]) (auto split: if_splits)

text \<open>\<open>strlen\<close> returns the number of bytes before the first NUL byte, and runs on
  only when memory holds no NUL byte at all.\<close>

lemma strlen_spec:
  "(strlen s m = Some n \<longleftrightarrow> cstr s (unat n) m) \<and> (strlen s m = None \<longleftrightarrow> (\<forall>a. m a \<noteq> 0))"
proof (intro conjI iffI)
  show "cstr s (unat n) m \<Longrightarrow> strlen s m = Some n"
    using strlen_scan_cstr [of m s "unat n"] by (simp add: cstr_def strlen_def)
  have found: "\<exists>n. cstr s (unat n) m \<and> strlen s m = Some n" if z: "m a = 0" for a
  proof -
    obtain k where k: "cstr s k m" using cstr_ex [of m a s] z by blast
    then have "unat (of_nat k :: u64) = k" by (simp add: cstr_def unat_of_nat take_bit_nat_eq_self)
    with k show ?thesis by (intro exI [of _ "of_nat k"]) (auto simp: cstr_def strlen_def dest: strlen_scan_cstr)
  qed
  show "strlen s m = Some n \<Longrightarrow> cstr s (unat n) m"
    using found strlen_scan_nul by (fastforce simp: strlen_def split: option.splits)
  show "strlen s m = None \<Longrightarrow> \<forall>a. m a \<noteq> 0" using found by fastforce
  show "\<forall>a. m a \<noteq> 0 \<Longrightarrow> strlen s m = None"
    using strlen_scan_nul [of s m] by (cases "strlen_scan s m") (auto simp: strlen_def)
qed

lemma cstr_Suc: "cstr s (Suc n) m \<Longrightarrow> m s \<noteq> 0 \<and> cstr (s + 1) n m"
proof -
  assume c: "cstr s (Suc n) m"
  have "m (s + 1 + of_nat i) = m (s + of_nat (Suc i))" for i by (simp add: algebra_simps)
  then show ?thesis using c by (auto simp: cstr_def dest: spec [of _ "Suc _"] spec [of _ 0])
qed

lemma cstr_0: "cstr s 0 m \<longleftrightarrow> m s = 0"
  by (simp add: cstr_def)

lemma strcmp_equal:
  "cstr s1 n1 m \<Longrightarrow> cstr s2 n2 m \<Longrightarrow>
   \<exists>r. strcmp s1 s2 m = Some r \<and> (r = 0 \<longleftrightarrow> n1 = n2 \<and> (\<forall>i < n1. m (s1 + of_nat i) = m (s2 + of_nat i)))"
proof (induction n1 arbitrary: s1 s2 n2)
  case 0
  then show ?case
    by (subst strcmp.simps, cases n2) (auto simp: byte_diff_def cstr_0 uint_0_iff dest: cstr_Suc)
next
  case (Suc n)
  note c = cstr_Suc [OF Suc.prems(1)]
  have shift: "m (s + 1 + of_nat i) = m (s + of_nat (Suc i))" for s i by (simp add: algebra_simps)
  show ?case
  proof (cases n2)
    case 0
    with c Suc.prems show ?thesis
      by (subst strcmp.simps) (auto simp: byte_diff_def cstr_0 uint_0_iff)
  next
    case n2: (Suc k)
    note c2 = cstr_Suc [OF Suc.prems(2) [unfolded n2]]
    show ?thesis
    proof (cases "m s1 = m s2")
      case True
      with Suc.IH [of "s1 + 1" "s2 + 1" k] c c2 obtain r where
        "strcmp (s1 + 1) (s2 + 1) m = Some r"
        "r = 0 \<longleftrightarrow> n = k \<and> (\<forall>i < n. m (s1 + of_nat (Suc i)) = m (s2 + of_nat (Suc i)))"
        unfolding shift by blast
      with True c n2 show ?thesis
        by (subst strcmp.simps) (auto simp: less_Suc_eq_0_disj)
    next
      case False
      then show ?thesis using c n2
        by (subst strcmp.simps) (auto simp: byte_diff_def less_Suc_eq_0_disj dest: unsigned_word_eqI)
    qed
  qed
qed

text \<open>On two NUL-terminated strings \<open>strcmp\<close> stops, and returns 0 exactly when they are
  equal.\<close>

theorem strcmp_spec:
  assumes "strlen s1 m = Some n1" "strlen s2 m = Some n2"
  shows "\<exists>r. strcmp s1 s2 m = Some r \<and> (r = 0 \<longleftrightarrow> n1 = n2 \<and> (\<forall>i < n1. m (s1 + i) = m (s2 + i)))"
proof -
  have "cstr s1 (unat n1) m" "cstr s2 (unat n2) m" using assms strlen_spec by blast+
  from strcmp_equal [OF this] obtain r where r: "strcmp s1 s2 m = Some r"
    "r = 0 \<longleftrightarrow> unat n1 = unat n2 \<and> (\<forall>i < unat n1. m (s1 + of_nat i) = m (s2 + of_nat i))" by blast
  have "(\<forall>i < unat n1. m (s1 + of_nat i) = m (s2 + of_nat i)) \<longleftrightarrow> (\<forall>i < n1. m (s1 + i) = m (s2 + i))"
    using all_below_word [of n1 "\<lambda>i. m (s1 + i) = m (s2 + i)"] by simp
  with r show ?thesis by (auto dest: unsigned_word_eqI)
qed

lemma copy_until_eq:
  assumes "cstr s l m" "\<And>i j. i < unat n \<Longrightarrow> j \<le> l \<Longrightarrow> d + of_nat i \<noteq> s + of_nat j"
    and "i \<le> k" "k = min (unat n) l"
  shows "copy_until (of_nat i) n d s (range_upd d i (\<lambda>j. m (s + j)) m)
           = (of_nat k, range_upd d k (\<lambda>j. m (s + j)) m)"
  using assms(3)
proof (induction rule: inc_induct)
  case base
  have n: "\<not> of_nat k < n" if "k = unat n" using that by simp
  show ?case
  proof (cases "k = unat n")
    case True
    then show ?thesis by (subst copy_until.simps) simp
  next
    case False
    then have k: "k = l" using assms(4) by linarith
    have "range_upd d k (\<lambda>j. m (s + j)) m (s + of_nat k) = m (s + of_nat k)"
      using assms(2) k assms(4) by (intro range_upd_outside) auto
    then show ?thesis using assms(1) k by (subst copy_until.simps) (simp add: cstr_def)
  qed
next
  case (step i)
  have i: "i < unat n" "i < l" "i < 2 ^ 64" using step(1,2) assms(4) unat_le_64 [of n] by linarith+
  have src: "range_upd d i (\<lambda>j. m (s + j)) m (s + of_nat i) = m (s + of_nat i)"
    using assms(2) i by (intro range_upd_outside) auto
  have "of_nat i < n" using i by (simp add: word_less_nat_alt unat_of_nat take_bit_nat_eq_self)
  moreover have "m (s + of_nat i) \<noteq> 0" using assms(1) i by (simp add: cstr_def)
  moreover have "range_upd d (Suc i) (\<lambda>j. m (s + j)) m
      = (range_upd d i (\<lambda>j. m (s + j)) m)(d + of_nat i := range_upd d i (\<lambda>j. m (s + j)) m (s + of_nat i))"
    using src i by (simp add: range_upd_Suc del: fun_upd_apply)
  moreover have "of_nat (Suc i) = (of_nat i + 1 :: u64)" by simp
  ultimately show ?case using step.IH src
    by (subst copy_until.simps) (simp only: simp_thms if_True not_False_eq_True)
qed

theorem strcmp_spec_witness:
  "\<exists>r. strcmp 8 16 (\<lambda>a. if a = 8 \<or> a = 16 then 65 else 0) = Some r \<and> r = 0"
proof -
  let ?m = "\<lambda>a::u64. if a = 8 \<or> a = 16 then 65 else 0 :: u8"
  have l: "strlen 8 ?m = Some 1" "strlen 16 ?m = Some 1"
    using strlen_spec [of 8 ?m 1] strlen_spec [of 16 ?m 1] by (simp_all add: cstr_def)
  show ?thesis using strcmp_spec [OF l] by (auto simp: word_less_1)
qed

text \<open>With room for at least one byte and no overlap, \<open>strlcpy\<close> stores the longest prefix
  of the source that fits followed by a NUL byte, writes nothing else, and returns the length of
  the source, so that a result of at least \<open>size\<close> tells the caller of the truncation.\<close>

theorem strlcpy_spec:
  assumes l: "strlen src m = Some l" and sz: "sz > 0"
    and sep: "\<And>i j. i < sz \<Longrightarrow> j \<le> l \<Longrightarrow> dest + i \<noteq> src + j"
  shows "strlcpy dest src sz m =
    Some (l, let k = min (sz - 1) l
             in (\<lambda>a. if a - dest < k then m (src + (a - dest)) else m a)(dest + k := 0))"
proof -
  let ?k = "min (unat (sz - 1)) (unat l)"
  have c: "cstr src (unat l) m" using l strlen_spec by blast
  have sep': "dest + of_nat i \<noteq> src + of_nat j" if "i < unat sz" "j \<le> unat l" for i j
  proof (rule sep)
    have "i < 2 ^ 64" "j < 2 ^ 64" using that unat_le_64 [of sz] unat_less_64 [of l] by linarith+
    then show "of_nat i < sz" "of_nat j \<le> l"
      using that by (simp_all add: word_less_nat_alt word_le_nat_alt unat_of_nat take_bit_nat_eq_self)
  qed
  have k: "of_nat ?k = min (sz - 1) l" by (simp add: min_def word_le_nat_alt)
  have ksz: "?k < unat sz" using sz unat_dec_less [OF sz] by linarith
  have copy: "copy_until 0 (sz - 1) dest src m = (of_nat ?k, range_upd dest ?k (\<lambda>j. m (src + j)) m)"
    using copy_until_eq [OF c, of "sz - 1" dest 0 ?k] sep' unat_dec_less [OF sz] by simp
  let ?m = "(range_upd dest ?k (\<lambda>j. m (src + j)) m)(dest + of_nat ?k := 0)"
  have same: "?m (src + of_nat j) = m (src + of_nat j)" if "j \<le> unat l" for j
    using that sep' ksz by (auto intro!: range_upd_outside) (metis sep')
  have "cstr src (unat l) ?m" using c same unfolding cstr_def by (metis less_imp_le_nat order_refl)
  then have "strlen src ?m = Some l" using strlen_spec by blast
  moreover have "?m = (let k = min (sz - 1) l
             in (\<lambda>a. if a - dest < k then m (src + (a - dest)) else m a)(dest + k := 0))"
    unfolding k by (simp add: range_upd_def Let_def min_def word_le_nat_alt word_less_nat_alt)
  moreover have "sz \<noteq> 0" using sz by auto
  ultimately show ?thesis by (simp add: strlcpy_def copy del: fun_upd_apply)
qed

theorem strlcpy_spec_witness:
  "\<exists>m'. strlcpy 32 8 4 (\<lambda>a. if a = 8 then 65 else 0) = Some (1, m') \<and> m' 32 = 65 \<and> m' 33 = 0"
proof -
  let ?m = "\<lambda>a::u64. if a = 8 then 65 else 0 :: u8"
  have l: "strlen 8 ?m = Some 1" using strlen_spec [of 8 ?m 1] by (simp add: cstr_def)
  have "32 + i \<noteq> 8 + j" if "i < 4" "j \<le> 1" for i j :: u64
  proof -
    have "unat (32 + i) = 32 + unat i" "unat (8 + j) = 8 + unat j"
      using that by (simp_all add: unat_word_ariths word_less_nat_alt word_le_nat_alt)
    moreover have "unat j \<le> 1" using that by (simp add: word_le_nat_alt)
    ultimately have "unat (8 + j) < unat (32 + i)" by linarith
    then show ?thesis by auto
  qed
  with strlcpy_spec [OF l, of 4 32] show ?thesis by (simp add: Let_def)
qed

end
