(* ===== verification/Tlsf.thy ===== *)
theory Tlsf
  imports Buddy CString "HOL-Library.Monad_Syntax"
begin

text \<open>
  The kernel heap of \<^verbatim>\<open>kernel/lib/tlsf.c\<close>, a two-level segregated fit allocator. A
  \<open>block_header_t *\<close> is an address, and each field of the headers is a map from addresses, so
  that \<open>block->size\<close> is \<open>bsize s block\<close>; the control structure of a heap is found under the
  address of the \<open>control_t\<close>, whose first member \<open>block_null\<close> shares that address. A failed
  \<open>tlsf_assert\<close> halts the machine and is \<open>None\<close>, as is an index outside the arrays of
  \<open>control_t\<close>. The state extends that of the page allocator, from which pools are taken.
\<close>

section \<open>State\<close>

record control_t =
  fl_bitmap :: u32
  sl_bitmap :: "nat \<Rightarrow> u32"
  blocks :: "nat \<Rightarrow> nat \<Rightarrow> u64"

record heap_t = pmm_t +
  mem :: memory
  prev_phys_block :: "u64 \<Rightarrow> u64"
  bsize :: "u64 \<Rightarrow> u64"
  next_free :: "u64 \<Rightarrow> u64"
  prev_free :: "u64 \<Rightarrow> u64"
  controls :: "u64 \<Rightarrow> control_t"
  tlsf_ctrl :: "u32 \<Rightarrow> u64"
  pending_free_list :: "u32 \<Rightarrow> u64"

text \<open>The constants of \<open>enum tlsf_public\<close> and \<open>enum tlsf_private\<close> on a 64-bit target.\<close>

abbreviation SL_INDEX_COUNT_LOG2 :: int where "SL_INDEX_COUNT_LOG2 \<equiv> 5"
abbreviation (input) ALIGN_SIZE :: u64 where "ALIGN_SIZE \<equiv> 8"
abbreviation (input) SL_INDEX_COUNT :: int where "SL_INDEX_COUNT \<equiv> 32"
abbreviation (input) FL_INDEX_SHIFT :: int where "FL_INDEX_SHIFT \<equiv> 8"
abbreviation (input) FL_INDEX_COUNT :: int where "FL_INDEX_COUNT \<equiv> 25"
abbreviation (input) SMALL_BLOCK_SIZE :: u64 where "SMALL_BLOCK_SIZE \<equiv> 256"
abbreviation (input) block_header_free_bit :: u64 where "block_header_free_bit \<equiv> 1"
abbreviation (input) block_header_prev_free_bit :: u64 where "block_header_prev_free_bit \<equiv> 2"
abbreviation (input) block_header_overhead :: u64 where "block_header_overhead \<equiv> 8"
abbreviation (input) block_start_offset :: u64 where "block_start_offset \<equiv> 16"
abbreviation (input) sizeof_block_header :: u64 where "sizeof_block_header \<equiv> 32"
abbreviation (input) block_size_min :: u64 where "block_size_min \<equiv> 24"
abbreviation (input) block_size_max :: u64 where "block_size_max \<equiv> 0x100000000"

definition check :: "bool \<Rightarrow> unit option" where
  \<comment> \<open>\<open>tlsf_assert\<close>\<close>
  "check b = (if b then Some () else None)"

section \<open>Bit scans\<close>

definition builtin_ffs :: "u32 \<Rightarrow> int" where
  \<comment> \<open>\<open>__builtin_ffs\<close>: one plus the index of the least significant set bit, 0 for 0\<close>
  "builtin_ffs w = (case find (\<lambda>i. bit w i) [0..<32] of None \<Rightarrow> 0 | Some i \<Rightarrow> int i + 1)"

definition builtin_clz :: "u32 \<Rightarrow> int" where
  \<comment> \<open>\<open>__builtin_clz\<close>: the number of leading zero bits of a nonzero word\<close>
  "builtin_clz w = (case find (\<lambda>i. bit w i) (rev [0..<32]) of None \<Rightarrow> 32 | Some i \<Rightarrow> 31 - int i)"

definition tlsf_ffs :: "u32 \<Rightarrow> int" where
  "tlsf_ffs w = builtin_ffs w - 1"

definition tlsf_fls :: "u32 \<Rightarrow> int" where
  "tlsf_fls w = (let bt = (if w \<noteq> 0 then 32 - builtin_clz w else 0) in bt - 1)"

definition tlsf_fls_sizet :: "u64 \<Rightarrow> int" where
  "tlsf_fls_sizet sz =
     (let high = ucast (drop_bit 32 sz) :: u32
      in if high \<noteq> 0 then 32 + tlsf_fls high else tlsf_fls (ucast sz AND 0xffffffff))"

section \<open>Block headers\<close>

definition block_size :: "u64 \<Rightarrow> 'z heap_t_scheme \<Rightarrow> u64" where
  "block_size block s = bsize s block AND NOT (block_header_free_bit OR block_header_prev_free_bit)"

definition set_bsize :: "u64 \<Rightarrow> u64 \<Rightarrow> 'z heap_t_scheme \<Rightarrow> 'z heap_t_scheme" where
  "set_bsize block v s = s\<lparr>bsize := (bsize s)(block := v)\<rparr>"

definition block_set_size :: "u64 \<Rightarrow> u64 \<Rightarrow> 'z heap_t_scheme \<Rightarrow> 'z heap_t_scheme" where
  "block_set_size block sz s =
     (let oldsize = bsize s block
      in set_bsize block (sz OR (oldsize AND (block_header_free_bit OR block_header_prev_free_bit))) s)"

definition block_is_last :: "u64 \<Rightarrow> 'z heap_t_scheme \<Rightarrow> bool" where
  "block_is_last block s \<longleftrightarrow> block_size block s = 0"

definition block_is_free :: "u64 \<Rightarrow> 'z heap_t_scheme \<Rightarrow> bool" where
  "block_is_free block s \<longleftrightarrow> bsize s block AND block_header_free_bit \<noteq> 0"

definition block_set_free :: "u64 \<Rightarrow> 'z heap_t_scheme \<Rightarrow> 'z heap_t_scheme" where
  "block_set_free block s = set_bsize block (bsize s block OR block_header_free_bit) s"

definition block_set_used :: "u64 \<Rightarrow> 'z heap_t_scheme \<Rightarrow> 'z heap_t_scheme" where
  "block_set_used block s = set_bsize block (bsize s block AND NOT block_header_free_bit) s"

definition block_is_prev_free :: "u64 \<Rightarrow> 'z heap_t_scheme \<Rightarrow> bool" where
  "block_is_prev_free block s \<longleftrightarrow> bsize s block AND block_header_prev_free_bit \<noteq> 0"

definition block_set_prev_free :: "u64 \<Rightarrow> 'z heap_t_scheme \<Rightarrow> 'z heap_t_scheme" where
  "block_set_prev_free block s = set_bsize block (bsize s block OR block_header_prev_free_bit) s"

definition block_set_prev_used :: "u64 \<Rightarrow> 'z heap_t_scheme \<Rightarrow> 'z heap_t_scheme" where
  "block_set_prev_used block s = set_bsize block (bsize s block AND NOT block_header_prev_free_bit) s"

definition block_from_ptr :: "u64 \<Rightarrow> u64" where
  "block_from_ptr ptr = ptr - block_start_offset"

definition block_to_ptr :: "u64 \<Rightarrow> u64" where
  "block_to_ptr block = block + block_start_offset"

definition offset_to_block :: "u64 \<Rightarrow> u64 \<Rightarrow> u64" where
  "offset_to_block ptr sz = ptr + sz"

definition block_prev :: "u64 \<Rightarrow> 'z heap_t_scheme \<Rightarrow> u64 option" where
  "block_prev block s = do {
     _ \<leftarrow> check (block_is_prev_free block s);
     Some (prev_phys_block s block)}"

definition block_next :: "u64 \<Rightarrow> 'z heap_t_scheme \<Rightarrow> u64 option" where
  "block_next block s = do {
     let next = offset_to_block (block_to_ptr block) (block_size block s - block_header_overhead);
     _ \<leftarrow> check (\<not> block_is_last block s);
     Some next}"

definition block_link_next :: "u64 \<Rightarrow> 'z heap_t_scheme \<Rightarrow> (u64 \<times> 'z heap_t_scheme) option" where
  "block_link_next block s = do {
     next \<leftarrow> block_next block s;
     Some (next, s\<lparr>prev_phys_block := (prev_phys_block s)(next := block)\<rparr>)}"

definition block_mark_as_free :: "u64 \<Rightarrow> 'z heap_t_scheme \<Rightarrow> 'z heap_t_scheme option" where
  "block_mark_as_free block s = do {
     (next, s) \<leftarrow> block_link_next block s;
     let s = block_set_prev_free next s;
     Some (block_set_free block s)}"

definition block_mark_as_used :: "u64 \<Rightarrow> 'z heap_t_scheme \<Rightarrow> 'z heap_t_scheme option" where
  "block_mark_as_used block s = do {
     next \<leftarrow> block_next block s;
     let s = block_set_prev_used next s;
     Some (block_set_used block s)}"

definition align_up :: "u64 \<Rightarrow> u64 \<Rightarrow> u64 option" where
  "align_up x align = do {
     _ \<leftarrow> check (0 = align AND (align - 1));
     Some ((x + (align - 1)) AND NOT (align - 1))}"

definition align_down :: "u64 \<Rightarrow> u64 \<Rightarrow> u64 option" where
  "align_down x align = do {
     _ \<leftarrow> check (0 = align AND (align - 1));
     Some (x - (x AND (align - 1)))}"

definition align_ptr :: "u64 \<Rightarrow> u64 \<Rightarrow> u64 option" where
  "align_ptr ptr align = do {
     let aligned = (ptr + (align - 1)) AND NOT (align - 1);
     _ \<leftarrow> check (0 = align AND (align - 1));
     Some aligned}"

definition adjust_request_size :: "u64 \<Rightarrow> u64 \<Rightarrow> u64 option" where
  "adjust_request_size sz align =
     (if sz \<noteq> 0 then do {
        aligned \<leftarrow> align_up sz align;
        Some (if aligned < block_size_max then max aligned block_size_min else 0)}
      else Some 0)"

section \<open>Size classes\<close>

definition mapping_insert :: "u64 \<Rightarrow> int \<times> int" where
  "mapping_insert sz =
     (if sz < SMALL_BLOCK_SIZE then (0, sint (ucast sz :: u32) div 8)
      else
        let fl = tlsf_fls_sizet sz;
            sl = sint (ucast (drop_bit (nat (fl - SL_INDEX_COUNT_LOG2)) sz) :: u32) XOR 32
        in (fl - (FL_INDEX_SHIFT - 1), sl))"

definition mapping_search :: "u64 \<Rightarrow> int \<times> int" where
  "mapping_search sz =
     (let sz = (if sz \<ge> SMALL_BLOCK_SIZE
                  then sz + scast (push_bit (nat (tlsf_fls_sizet sz - SL_INDEX_COUNT_LOG2)) (1 :: u32) - 1)
                  else sz)
      in mapping_insert sz)"

section \<open>Free lists\<close>

definition in_table :: "int \<Rightarrow> int \<Rightarrow> bool" where
  \<comment> \<open>the bounds of \<open>sl_bitmap[fl]\<close> and \<open>blocks[fl][sl]\<close>\<close>
  "in_table fl sl \<longleftrightarrow> 0 \<le> fl \<and> fl < FL_INDEX_COUNT \<and> 0 \<le> sl \<and> sl < SL_INDEX_COUNT"

definition set_control :: "u64 \<Rightarrow> control_t \<Rightarrow> 'z heap_t_scheme \<Rightarrow> 'z heap_t_scheme" where
  "set_control c k s = s\<lparr>controls := (controls s)(c := k)\<rparr>"

definition set_block_head :: "int \<Rightarrow> int \<Rightarrow> u64 \<Rightarrow> control_t \<Rightarrow> control_t" where
  "set_block_head fl sl b k = k\<lparr>blocks := (blocks k)(nat fl := (blocks k (nat fl))(nat sl := b))\<rparr>"

definition search_suitable_block ::
  "u64 \<Rightarrow> int \<Rightarrow> int \<Rightarrow> 'z heap_t_scheme \<Rightarrow> (u64 \<times> int \<times> int) option" where
  "search_suitable_block c fl sl s =
     (let k = controls s c;
          sl_map = sl_bitmap k (nat fl) AND push_bit (nat sl) (NOT 0)
      in if sl_map = 0 then
           let fl_map = fl_bitmap k AND push_bit (nat (fl + 1)) (NOT 0)
           in if fl_map = 0 then Some (0, fl, sl)
              else
                let fl = tlsf_ffs fl_map;
                    sl_map = sl_bitmap k (nat fl)
                in do {
                  _ \<leftarrow> check (sl_map \<noteq> 0);
                  let sl = tlsf_ffs sl_map;
                  Some (blocks k (nat fl) (nat sl), fl, sl)}
         else
           let sl = tlsf_ffs sl_map
           in Some (blocks k (nat fl) (nat sl), fl, sl))"

definition remove_free_block :: "u64 \<Rightarrow> u64 \<Rightarrow> int \<Rightarrow> int \<Rightarrow> 'z heap_t_scheme \<Rightarrow> 'z heap_t_scheme option" where
  "remove_free_block c block fl sl s = do {
     let prev = prev_free s block;
     let next = next_free s block;
     _ \<leftarrow> check (prev \<noteq> 0);
     _ \<leftarrow> check (next \<noteq> 0);
     let s = s\<lparr>prev_free := (prev_free s)(next := prev)\<rparr>;
     let s = s\<lparr>next_free := (next_free s)(prev := next)\<rparr>;
     _ \<leftarrow> check (in_table fl sl);
     let k = controls s c;
     Some (if blocks k (nat fl) (nat sl) = block then
             let k = set_block_head fl sl next k;
                 k = (if next = c then
                        let k = k\<lparr>sl_bitmap := (sl_bitmap k)(nat fl :=
                              sl_bitmap k (nat fl) AND NOT (push_bit (nat sl) 1))\<rparr>
                        in if sl_bitmap k (nat fl) = 0
                           then k\<lparr>fl_bitmap := fl_bitmap k AND NOT (push_bit (nat fl) 1)\<rparr>
                           else k
                      else k)
             in set_control c k s
           else s)}"

definition insert_free_block :: "u64 \<Rightarrow> u64 \<Rightarrow> int \<Rightarrow> int \<Rightarrow> 'z heap_t_scheme \<Rightarrow> 'z heap_t_scheme option" where
  "insert_free_block c block fl sl s = do {
     _ \<leftarrow> check (in_table fl sl);
     let cur = blocks (controls s c) (nat fl) (nat sl);
     _ \<leftarrow> check (cur \<noteq> 0);
     _ \<leftarrow> check (block \<noteq> 0);
     let s = s\<lparr>next_free := (next_free s)(block := cur)\<rparr>;
     let s = s\<lparr>prev_free := (prev_free s)(block := c)\<rparr>;
     let s = s\<lparr>prev_free := (prev_free s)(cur := block)\<rparr>;
     aligned \<leftarrow> align_ptr (block_to_ptr block) ALIGN_SIZE;
     _ \<leftarrow> check (block_to_ptr block = aligned);
     let k = set_block_head fl sl block (controls s c);
     let k = k\<lparr>fl_bitmap := fl_bitmap k OR push_bit (nat fl) 1\<rparr>;
     let k = k\<lparr>sl_bitmap := (sl_bitmap k)(nat fl := sl_bitmap k (nat fl) OR push_bit (nat sl) 1)\<rparr>;
     Some (set_control c k s)}"

definition block_remove :: "u64 \<Rightarrow> u64 \<Rightarrow> 'z heap_t_scheme \<Rightarrow> 'z heap_t_scheme option" where
  "block_remove c block s =
     (let (fl, sl) = mapping_insert (block_size block s) in remove_free_block c block fl sl s)"

definition block_insert :: "u64 \<Rightarrow> u64 \<Rightarrow> 'z heap_t_scheme \<Rightarrow> 'z heap_t_scheme option" where
  "block_insert c block s =
     (let (fl, sl) = mapping_insert (block_size block s) in insert_free_block c block fl sl s)"

section \<open>Splitting and merging\<close>

definition block_can_split :: "u64 \<Rightarrow> u64 \<Rightarrow> 'z heap_t_scheme \<Rightarrow> bool" where
  "block_can_split block sz s \<longleftrightarrow> block_size block s \<ge> sizeof_block_header + sz"

definition block_split :: "u64 \<Rightarrow> u64 \<Rightarrow> 'z heap_t_scheme \<Rightarrow> (u64 \<times> 'z heap_t_scheme) option" where
  "block_split block sz s = do {
     let remaining = offset_to_block (block_to_ptr block) (sz - block_header_overhead);
     let remain_size = block_size block s - (sz + block_header_overhead);
     aligned \<leftarrow> align_ptr (block_to_ptr remaining) ALIGN_SIZE;
     _ \<leftarrow> check (block_to_ptr remaining = aligned);
     _ \<leftarrow> check (block_size block s = remain_size + sz + block_header_overhead);
     let s = block_set_size remaining remain_size s;
     _ \<leftarrow> check (block_size remaining s \<ge> block_size_min);
     let s = block_set_size block sz s;
     s \<leftarrow> block_mark_as_free remaining s;
     Some (remaining, s)}"

definition block_absorb :: "u64 \<Rightarrow> u64 \<Rightarrow> 'z heap_t_scheme \<Rightarrow> (u64 \<times> 'z heap_t_scheme) option" where
  "block_absorb prev block s = do {
     _ \<leftarrow> check (\<not> block_is_last prev s);
     let s = set_bsize prev (bsize s prev + (block_size block s + block_header_overhead)) s;
     (_, s) \<leftarrow> block_link_next prev s;
     Some (prev, s)}"

definition block_merge_prev :: "u64 \<Rightarrow> u64 \<Rightarrow> 'z heap_t_scheme \<Rightarrow> (u64 \<times> 'z heap_t_scheme) option" where
  "block_merge_prev c block s =
     (if block_is_prev_free block s then do {
        prev \<leftarrow> block_prev block s;
        _ \<leftarrow> check (prev \<noteq> 0);
        _ \<leftarrow> check (block_is_free prev s);
        s \<leftarrow> block_remove c prev s;
        block_absorb prev block s}
      else Some (block, s))"

definition block_merge_next :: "u64 \<Rightarrow> u64 \<Rightarrow> 'z heap_t_scheme \<Rightarrow> (u64 \<times> 'z heap_t_scheme) option" where
  "block_merge_next c block s = do {
     next \<leftarrow> block_next block s;
     _ \<leftarrow> check (next \<noteq> 0);
     if block_is_free next s then do {
       _ \<leftarrow> check (\<not> block_is_last block s);
       s \<leftarrow> block_remove c next s;
       block_absorb block next s}
     else Some (block, s)}"

definition block_trim_free :: "u64 \<Rightarrow> u64 \<Rightarrow> u64 \<Rightarrow> 'z heap_t_scheme \<Rightarrow> 'z heap_t_scheme option" where
  "block_trim_free c block sz s = do {
     _ \<leftarrow> check (block_is_free block s);
     if block_can_split block sz s then do {
       (remaining_block, s) \<leftarrow> block_split block sz s;
       (_, s) \<leftarrow> block_link_next block s;
       let s = block_set_prev_free remaining_block s;
       block_insert c remaining_block s}
     else Some s}"

definition block_trim_used :: "u64 \<Rightarrow> u64 \<Rightarrow> u64 \<Rightarrow> 'z heap_t_scheme \<Rightarrow> 'z heap_t_scheme option" where
  "block_trim_used c block sz s = do {
     _ \<leftarrow> check (\<not> block_is_free block s);
     if block_can_split block sz s then do {
       (remaining_block, s) \<leftarrow> block_split block sz s;
       let s = block_set_prev_used remaining_block s;
       (remaining_block, s) \<leftarrow> block_merge_next c remaining_block s;
       block_insert c remaining_block s}
     else Some s}"

definition block_trim_free_leading ::
  "u64 \<Rightarrow> u64 \<Rightarrow> u64 \<Rightarrow> 'z heap_t_scheme \<Rightarrow> (u64 \<times> 'z heap_t_scheme) option" where
  "block_trim_free_leading c block sz s =
     (if block_can_split block sz s then do {
        (remaining_block, s) \<leftarrow> block_split block (sz - block_header_overhead) s;
        let s = block_set_prev_free remaining_block s;
        (_, s) \<leftarrow> block_link_next block s;
        s \<leftarrow> block_insert c block s;
        Some (remaining_block, s)}
      else Some (block, s))"

definition block_locate_free :: "u64 \<Rightarrow> u64 \<Rightarrow> 'z heap_t_scheme \<Rightarrow> (u64 \<times> 'z heap_t_scheme) option" where
  "block_locate_free c sz s = do {
     (block, fl, sl) \<leftarrow>
       (if sz \<noteq> 0 then
          let (fl, sl) = mapping_search sz
          in if fl < FL_INDEX_COUNT then search_suitable_block c fl sl s else Some (0, fl, sl)
        else Some (0, 0, 0));
     if block \<noteq> 0 then do {
       _ \<leftarrow> check (block_size block s \<ge> sz);
       s \<leftarrow> remove_free_block c block fl sl s;
       Some (block, s)}
     else Some (block, s)}"

definition block_prepare_used ::
  "u64 \<Rightarrow> u64 \<Rightarrow> u64 \<Rightarrow> 'z heap_t_scheme \<Rightarrow> (u64 \<times> 'z heap_t_scheme) option" where
  "block_prepare_used c block sz s =
     (if block \<noteq> 0 then do {
        _ \<leftarrow> check (sz \<noteq> 0);
        s \<leftarrow> block_trim_free c block sz s;
        s \<leftarrow> block_mark_as_used block s;
        Some (block_to_ptr block, s)}
      else Some (0, s))"

section \<open>The interface\<close>

definition construct_lists :: "nat \<Rightarrow> nat \<Rightarrow> u64 \<Rightarrow> control_t \<Rightarrow> control_t" where
  \<comment> \<open>the two nested loops of \<open>control_construct\<close>\<close>
  "construct_lists n m c k =
     fold (\<lambda>i k.
       let k = k\<lparr>sl_bitmap := (sl_bitmap k)(i := 0)\<rparr>
       in fold (\<lambda>j k. set_block_head (int i) (int j) c k) [0..<m] k)
     [0..<n] k"

definition control_construct :: "u64 \<Rightarrow> 'z heap_t_scheme \<Rightarrow> 'z heap_t_scheme" where
  "control_construct c s =
     (let s = s\<lparr>next_free := (next_free s)(c := c)\<rparr>;
          s = s\<lparr>prev_free := (prev_free s)(c := c)\<rparr>;
          k = (controls s c)\<lparr>fl_bitmap := 0\<rparr>;
          k = construct_lists (nat FL_INDEX_COUNT) (nat SL_INDEX_COUNT) c k
      in set_control c k s)"

abbreviation (input) tlsf_size :: u64 where "tlsf_size \<equiv> 6536"
  \<comment> \<open>\<open>sizeof(control_t)\<close>: 32 + 4 + 25 * 4 + 25 * 32 * 8\<close>

definition tlsf_block_size :: "u64 \<Rightarrow> 'z heap_t_scheme \<Rightarrow> u64" where
  "tlsf_block_size ptr s = (if ptr \<noteq> 0 then block_size (block_from_ptr ptr) s else 0)"

definition tlsf_pool_overhead :: u64 where
  "tlsf_pool_overhead = 2 * block_header_overhead"

definition tlsf_alloc_overhead :: u64 where
  "tlsf_alloc_overhead = block_header_overhead"

definition tlsf_add_pool :: "u64 \<Rightarrow> u64 \<Rightarrow> u64 \<Rightarrow> 'z heap_t_scheme \<Rightarrow> (u64 \<times> 'z heap_t_scheme) option" where
  "tlsf_add_pool c m bytes s = do {
     pool_bytes \<leftarrow> align_down (bytes - tlsf_pool_overhead) ALIGN_SIZE;
     if m mod ALIGN_SIZE \<noteq> 0 then Some (0, s)
     else if pool_bytes < block_size_min \<or> pool_bytes > block_size_max then Some (0, s)
     else do {
       let block = offset_to_block m (- block_header_overhead);
       let s = block_set_size block pool_bytes s;
       let s = block_set_free block s;
       let s = block_set_prev_used block s;
       s \<leftarrow> block_insert c block s;
       (next, s) \<leftarrow> block_link_next block s;
       let s = block_set_size next 0 s;
       let s = block_set_used next s;
       let s = block_set_prev_free next s;
       Some (m, s)}}"

definition tlsf_remove_pool :: "u64 \<Rightarrow> u64 \<Rightarrow> 'z heap_t_scheme \<Rightarrow> 'z heap_t_scheme option" where
  "tlsf_remove_pool c pool s = do {
     let block = offset_to_block pool (- block_header_overhead);
     _ \<leftarrow> check (block_is_free block s);
     next \<leftarrow> block_next block s;
     _ \<leftarrow> check (\<not> block_is_free next s);
     _ \<leftarrow> check (block_size next s = 0);
     let (fl, sl) = mapping_insert (block_size block s);
     remove_free_block c block fl sl s}"

definition tlsf_create :: "u64 \<Rightarrow> 'z heap_t_scheme \<Rightarrow> u64 \<times> 'z heap_t_scheme" where
  "tlsf_create m s = (if m mod ALIGN_SIZE \<noteq> 0 then (0, s) else (m, control_construct m s))"

definition tlsf_create_with_pool :: "u64 \<Rightarrow> u64 \<Rightarrow> 'z heap_t_scheme \<Rightarrow> (u64 \<times> 'z heap_t_scheme) option" where
  "tlsf_create_with_pool m bytes s = do {
     let (tlsf, s) = tlsf_create m s;
     (_, s) \<leftarrow> tlsf_add_pool tlsf (m + tlsf_size) (bytes - tlsf_size) s;
     Some (tlsf, s)}"

definition tlsf_get_pool :: "u64 \<Rightarrow> u64" where
  "tlsf_get_pool tlsf = tlsf + tlsf_size"

definition tlsf_malloc :: "u64 \<Rightarrow> u64 \<Rightarrow> 'z heap_t_scheme \<Rightarrow> (u64 \<times> 'z heap_t_scheme) option" where
  "tlsf_malloc c sz s = do {
     adjust \<leftarrow> adjust_request_size sz ALIGN_SIZE;
     (block, s) \<leftarrow> block_locate_free c adjust s;
     block_prepare_used c block adjust s}"

definition tlsf_memalign :: "u64 \<Rightarrow> u64 \<Rightarrow> u64 \<Rightarrow> 'z heap_t_scheme \<Rightarrow> (u64 \<times> 'z heap_t_scheme) option" where
  "tlsf_memalign c align sz s = do {
     adjust \<leftarrow> adjust_request_size sz ALIGN_SIZE;
     let gap_minimum = sizeof_block_header;
     size_with_gap \<leftarrow> adjust_request_size (adjust + align + gap_minimum) align;
     let aligned_size = (if adjust \<noteq> 0 \<and> align > ALIGN_SIZE then size_with_gap else adjust);
     (block, s) \<leftarrow> block_locate_free c aligned_size s;
     _ \<leftarrow> check (sizeof_block_header = block_size_min + block_header_overhead);
     (block, s) \<leftarrow>
       (if block \<noteq> 0 then do {
          let ptr = block_to_ptr block;
          aligned \<leftarrow> align_ptr ptr align;
          let gap = aligned - ptr;
          gap \<leftarrow>
            (if gap \<noteq> 0 \<and> gap < gap_minimum then do {
               let gap_remain = gap_minimum - gap;
               let offset = max gap_remain align;
               aligned \<leftarrow> align_ptr (aligned + offset) align;
               Some (aligned - ptr)}
             else Some gap);
          if gap \<noteq> 0 then do {
            _ \<leftarrow> check (gap \<ge> gap_minimum);
            block_trim_free_leading c block gap s}
          else Some (block, s)}
        else Some (block, s));
     block_prepare_used c block adjust s}"

definition tlsf_free :: "u64 \<Rightarrow> u64 \<Rightarrow> 'z heap_t_scheme \<Rightarrow> 'z heap_t_scheme option" where
  "tlsf_free c ptr s =
     (if ptr \<noteq> 0 then do {
        let block = block_from_ptr ptr;
        _ \<leftarrow> check (\<not> block_is_free block s);
        s \<leftarrow> block_mark_as_free block s;
        (block, s) \<leftarrow> block_merge_prev c block s;
        (block, s) \<leftarrow> block_merge_next c block s;
        block_insert c block s}
      else Some s)"

definition tlsf_realloc :: "u64 \<Rightarrow> u64 \<Rightarrow> u64 \<Rightarrow> 'z heap_t_scheme \<Rightarrow> (u64 \<times> 'z heap_t_scheme) option" where
  "tlsf_realloc c ptr sz s =
     (if ptr \<noteq> 0 \<and> sz = 0 then do {
        s \<leftarrow> tlsf_free c ptr s;
        Some (0, s)}
      else if ptr = 0 then tlsf_malloc c sz s
      else do {
        let block = block_from_ptr ptr;
        next \<leftarrow> block_next block s;
        let cursize = block_size block s;
        let combined = cursize + block_size next s + block_header_overhead;
        adjust \<leftarrow> adjust_request_size sz ALIGN_SIZE;
        _ \<leftarrow> check (\<not> block_is_free block s);
        if adjust > cursize \<and> (\<not> block_is_free next s \<or> adjust > combined) then do {
          (p, s) \<leftarrow> tlsf_malloc c sz s;
          if p \<noteq> 0 then do {
            let minsize = min cursize sz;
            let s = s\<lparr>mem := memcpy p ptr minsize (mem s)\<rparr>;
            s \<leftarrow> tlsf_free c ptr s;
            Some (p, s)}
          else Some (p, s)}
        else do {
          s \<leftarrow> (if adjust > cursize then do {
                 (_, s) \<leftarrow> block_merge_next c block s;
                 block_mark_as_used block s}
               else Some s);
          s \<leftarrow> block_trim_used c block adjust s;
          Some (ptr, s)}})"

section \<open>Frees handed over from other processors\<close>

definition tlsf_ptr_to_block :: "u64 \<Rightarrow> u64" where
  "tlsf_ptr_to_block ptr = (if ptr = 0 then 0 else ptr - block_start_offset)"

partial_function (option) flush_loop :: "u64 \<Rightarrow> u64 \<Rightarrow> 'z heap_t_scheme \<Rightarrow> 'z heap_t_scheme option" where
  \<comment> \<open>the \<open>while (pending)\<close> of \<open>tlsf_flush_pending\<close>\<close>
  "flush_loop c pending s =
     (if pending \<noteq> 0 then do {
        let next = next_free s pending;
        let ptr = pending + block_start_offset;
        s \<leftarrow> tlsf_free c ptr s;
        flush_loop c next s}
      else Some s)"

definition tlsf_flush_pending :: "u32 \<Rightarrow> 'z heap_t_scheme \<Rightarrow> 'z heap_t_scheme option" where
  \<comment> \<open>\<open>cpu\<close> is the index of an element of \<open>cpus\<close>, so the pointer is not null\<close>
  "tlsf_flush_pending cpu s =
     (if tlsf_ctrl s cpu = 0 then Some s
      else
        let pending = pending_free_list s cpu;
            s = s\<lparr>pending_free_list := (pending_free_list s)(cpu := 0)\<rparr>
        in if pending = 0 then Some s else flush_loop (tlsf_ctrl s cpu) pending s)"

definition tlsf_push_pending :: "u32 \<Rightarrow> u64 \<Rightarrow> 'z heap_t_scheme \<Rightarrow> 'z heap_t_scheme" where
  \<comment> \<open>the iteration of the loop whose compare-exchange succeeds\<close>
  "tlsf_push_pending target_cpu ptr s =
     (let block = tlsf_ptr_to_block ptr;
          old_head = pending_free_list s target_cpu;
          s = s\<lparr>next_free := (next_free s)(block := old_head)\<rparr>
      in s\<lparr>pending_free_list := (pending_free_list s)(target_cpu := block)\<rparr>)"

end
