(* ===== verification/Tlsf_Spec.thy ===== *)
theory Tlsf_Spec
  imports Tlsf
begin

text \<open>
  What the size classes, bitmaps and free lists of the heap guarantee: the two bit scans find the
  lowest and highest set bit, a size is filed in a class whose minimum does not exceed it, a
  search starts at a class whose minimum is at least the request, and inserting and removing
  blocks keeps the lists, the two bitmap levels and the classes in step. Together they show that
  the search for a free block returns a block that is large enough and never fails an assertion, and that a pool of any
  admitted size but the largest is added to the lists.
\<close>

section \<open>Bit scans\<close>

lemma find_upt_Some: "find P [0..<n] = Some i \<longleftrightarrow> i < n \<and> P i \<and> (\<forall>j < i. \<not> P j)"
  by (auto simp: find_Some_iff)

lemma find_rev_upt_Some:
  "find P (rev [0..<n]) = Some i \<longleftrightarrow> i < n \<and> P i \<and> (\<forall>j. i < j \<and> j < n \<longrightarrow> \<not> P j)"
  by (induction n) (auto simp: less_Suc_eq)

lemma find_None_all: "find P xs = None \<longleftrightarrow> (\<forall>x \<in> set xs. \<not> P x)"
  by (auto simp: find_None_iff)

lemma bits32_all: "(\<forall>i < 32. \<not> bit w i) \<longleftrightarrow> w = 0" for w :: u32
  by (auto simp: bit_eq_iff dest: bit_imp_le_length)

lemma tlsf_fls_char:
  assumes "w \<noteq> 0"
  obtains k where "tlsf_fls w = int k" "k < 32" "bit w k" "\<And>j. j > k \<Longrightarrow> \<not> bit w j"
proof -
  have "find (\<lambda>i. bit w i) (rev [0..<32]) \<noteq> None"
    using assms bits32_all [of w] by (auto simp: find_None_all)
  then obtain k where k: "find (\<lambda>i. bit w i) (rev [0..<32]) = Some k" by blast
  then have "k < 32" "bit w k" "\<And>j. k < j \<and> j < 32 \<Longrightarrow> \<not> bit w j"
    by (auto simp: find_rev_upt_Some)
  moreover have "tlsf_fls w = int k" using k assms by (simp add: tlsf_fls_def builtin_clz_def)
  moreover have "\<not> bit w j" if "j \<ge> 32" for j using that bit_imp_le_length [of w j] by auto
  ultimately show thesis using that by (metis not_less)
qed

lemma tlsf_ffs_char:
  assumes "w \<noteq> 0"
  obtains k where "tlsf_ffs w = int k" "k < 32" "bit w k" "\<And>j. j < k \<Longrightarrow> \<not> bit w j"
proof -
  have "find (\<lambda>i. bit w i) [0..<32] \<noteq> None"
    using assms bits32_all [of w] by (auto simp: find_None_all)
  then obtain k where k: "find (\<lambda>i. bit w i) [0..<32] = Some k" by blast
  then have "k < 32" "bit w k" "\<And>j. j < k \<Longrightarrow> \<not> bit w j"
    by (auto simp: find_upt_Some)
  moreover have "tlsf_ffs w = int k" using k by (simp add: tlsf_ffs_def builtin_ffs_def)
  ultimately show thesis using that by blast
qed

lemma tlsf_fls_sizet_char:
  assumes "sz \<noteq> 0"
  obtains k where "tlsf_fls_sizet sz = int k" "k < 64" "bit sz k" "\<And>j. j > k \<Longrightarrow> \<not> bit sz j"
proof (cases "(ucast (drop_bit 32 sz) :: u32) = 0")
  case True
  then have hi: "\<not> bit sz (32 + i)" if "i < 32" for i
    using that by (auto simp: bit_eq_iff bit_simps)
  have hi: "\<not> bit sz j" if "32 \<le> j" for j
    using that hi [of "j - 32"] bit_imp_le_length [of sz j] by fastforce
  have lo: "bit (ucast sz :: u32) i \<longleftrightarrow> i < 32 \<and> bit sz i" for i
    by (auto simp: bit_simps)
  have m: "ucast sz AND (0xffffffff :: u32) = ucast sz"
  proof -
    have e: "(0xffffffff :: u32) = - 1" by simp
    show ?thesis unfolding e by (rule and.right_neutral)
  qed
  have "(ucast sz :: u32) \<noteq> 0"
    using assms hi by (metis bit_0_eq bit_eq_iff bot_apply bot_bool_def lo not_less)
  from tlsf_fls_char [OF this] obtain k where k: "tlsf_fls (ucast sz) = int k" "k < 32"
    "bit (ucast sz :: u32) k" "\<And>j. j > k \<Longrightarrow> \<not> bit (ucast sz :: u32) j" by blast
  show thesis
  proof (rule that)
    show "tlsf_fls_sizet sz = int k" using True k m by (simp add: tlsf_fls_sizet_def)
    show "\<not> bit sz j" if "j > k" for j using k(4) [OF that] lo hi by (metis not_less)
  qed (use k lo in auto)
next
  case False
  from tlsf_fls_char [OF False] obtain k where k: "tlsf_fls (ucast (drop_bit 32 sz)) = int k" "k < 32"
    "bit (ucast (drop_bit 32 sz) :: u32) k" "\<And>j. j > k \<Longrightarrow> \<not> bit (ucast (drop_bit 32 sz) :: u32) j" by blast
  have b: "bit (ucast (drop_bit 32 sz) :: u32) i \<longleftrightarrow> bit sz (32 + i)" for i
    using bit_imp_le_length [of sz "32 + i"] by (auto simp: bit_simps)
  show thesis
  proof (rule that)
    show "tlsf_fls_sizet sz = int (32 + k)" using False k by (simp add: tlsf_fls_sizet_def)
    show "\<not> bit sz j" if "j > 32 + k" for j using k(4) [of "j - 32"] b [of "j - 32"] that by simp
  qed (use k b in auto)
qed

lemma top_bit_bounds:
  fixes w :: u64
  assumes "k < 64" "bit w k" "\<And>j. j > k \<Longrightarrow> \<not> bit w j"
  shows "2 ^ k \<le> unat w" "unat w < 2 ^ Suc k"
proof -
  have "\<not> w < 2 ^ k" using assms word_less_exp_iff_bits [of k w] by auto
  then show "2 ^ k \<le> unat w" using assms(1) by (simp add: word_less_nat_alt unat_exp_word not_less)
  show "unat w < 2 ^ Suc k"
  proof (cases "Suc k < 64")
    case True
    then have "w < 2 ^ Suc k" using assms(3) word_less_exp_iff_bits [of "Suc k" w] by auto
    then show ?thesis using True by (simp only: word_less_nat_alt) (simp add: unat_exp_word flip: power_Suc)
  next
    case False
    then have "k = 63" using assms(1) by simp
    then show ?thesis using unat_less_64 [of w] by simp
  qed
qed

lemma fls_sizet_bounds:
  assumes "sz \<noteq> 0"
  obtains k where "tlsf_fls_sizet sz = int k" "k < 64" "2 ^ k \<le> unat sz" "unat sz < 2 ^ Suc k"
  using tlsf_fls_sizet_char [OF assms] top_bit_bounds by metis


section \<open>Size classes\<close>

text \<open>The smallest block size of the class \<open>(fl, sl)\<close>, and the class of a size.\<close>

definition class_min :: "int \<Rightarrow> int \<Rightarrow> nat" where
  "class_min fl sl = (if fl = 0 then 8 * nat sl else (32 + nat sl) * 2 ^ (nat fl + 2))"

lemma xor_32: "32 \<le> x \<Longrightarrow> x < 64 \<Longrightarrow> x XOR 32 = x - 32" for x :: int
proof -
  assume "32 \<le> x" "x < 64"
  moreover have "\<forall>x \<in> set [32..63 :: int]. x XOR 32 = x - 32" by (simp add: upto.simps)
  ultimately show ?thesis by (simp only: set_upto) auto
qed

lemma sint_small: "unat w < 2 ^ 31 \<Longrightarrow> sint (w :: u32) = int (unat w)"
proof -
  assume a: "unat w < 2 ^ 31"
  have "uint w = int (unat w)" by simp
  moreover have "int (unat w) < int (2 ^ 31)" using a by (simp only: of_nat_less_iff)
  ultimately have "signed_take_bit 31 (uint w) = uint w"
    by (intro signed_take_bit_int_eq_self order.trans [OF _ uint_ge_0]) simp_all
  then show ?thesis by (simp add: sint_uint)
qed

lemma mapping_insert_large:
  assumes "256 \<le> unat sz" "unat sz < 2 ^ 32"
  obtains k where "8 \<le> k" "k \<le> 31" "2 ^ k \<le> unat sz" "unat sz < 2 ^ Suc k"
    "mapping_insert sz = (int k - 7, int (unat sz div 2 ^ (k - 5)) - 32)"
proof -
  have "sz \<noteq> 0" using assms(1) by auto
  then obtain k where k: "tlsf_fls_sizet sz = int k" "k < 64" "2 ^ k \<le> unat sz" "unat sz < 2 ^ Suc k"
    using fls_sizet_bounds by blast
  have "k < 32"
  proof (rule ccontr)
    assume "\<not> k < 32"
    then have "(2 :: nat) ^ 32 \<le> 2 ^ k" by (intro power_increasing) auto
    then show False using k assms by linarith
  qed
  have "8 \<le> k"
  proof (rule ccontr)
    assume "\<not> 8 \<le> k"
    then have "(2 :: nat) ^ Suc k \<le> 2 ^ 8" by (intro power_increasing) auto
    then show False using k assms by simp
  qed
  define q where "q = unat sz div 2 ^ (k - 5)"
  have "(2 :: nat) ^ k = 32 * 2 ^ (k - 5)" "(2 :: nat) ^ Suc k = 64 * 2 ^ (k - 5)"
    using \<open>8 \<le> k\<close> power_add [of "2 :: nat" 5 "k - 5"] by simp_all
  then have q: "32 \<le> q" "q < 64"
    using k unfolding q_def by (auto simp: div_less_iff_less_mult less_eq_div_iff_mult_less_eq)
  have u: "unat (drop_bit (nat (int k - 5)) sz) = q"
  proof -
    have "nat (int k - 5) = k - 5" by simp
    then show ?thesis by (simp only: unat_drop_bit_eq drop_bit_eq_div [of _ "unat sz"] q_def)
  qed
  then have "unat (ucast (drop_bit (nat (int k - 5)) sz) :: u32) = q"
    using q by (simp add: unsigned_ucast_eq take_bit_nat_eq_self)
  then have "sint (ucast (drop_bit (nat (int k - 5)) sz) :: u32) = int q"
    using q by (simp add: sint_small)
  then have "mapping_insert sz = (int k - 7, int q - 32)"
    using assms(1) k q by (simp add: mapping_insert_def word_less_nat_alt Let_def xor_32)
  with \<open>8 \<le> k\<close> \<open>k < 32\<close> k show thesis by (intro that) (auto simp: q_def)
qed


lemma mapping_insert_small:
  assumes "unat sz < 256"
  shows "mapping_insert sz = (0, int (unat sz div 8))"
proof -
  have "unat (ucast sz :: u32) = unat sz"
    using assms by (simp add: unsigned_ucast_eq take_bit_nat_eq_self)
  then have "sint (ucast sz :: u32) = int (unat sz)" using assms by (simp add: sint_small)
  then show ?thesis using assms by (simp add: mapping_insert_def word_less_nat_alt zdiv_int)
qed

lemma mapping_insert_class:
  assumes "unat sz < 2 ^ 32" "mapping_insert sz = (fl, sl)"
  shows "in_table fl sl \<and> class_min fl sl \<le> unat sz"
proof (cases "unat sz < 256")
  case True
  then show ?thesis
    using assms(2) by (auto simp: mapping_insert_small in_table_def class_min_def)
next
  case False
  then obtain k where k: "8 \<le> k" "k \<le> 31" "2 ^ k \<le> unat sz" "unat sz < 2 ^ Suc k"
    "mapping_insert sz = (int k - 7, int (unat sz div 2 ^ (k - 5)) - 32)"
    using mapping_insert_large assms(1) by (metis linorder_not_less)
  define q where "q = unat sz div 2 ^ (k - 5)"
  have "(2 :: nat) ^ k = 32 * 2 ^ (k - 5)" "(2 :: nat) ^ Suc k = 64 * 2 ^ (k - 5)"
    using k(1) power_add [of "2 :: nat" 5 "k - 5"] by simp_all
  then have q: "32 \<le> q" "q < 64"
    using k unfolding q_def by (auto simp: div_less_iff_less_mult less_eq_div_iff_mult_less_eq)
  have e: "nat (int k - 7) + 2 = k - 5" "nat (int q - 32) + 32 = q" using k q by simp_all
  have "class_min fl sl = q * 2 ^ (k - 5)"
    using k assms(2) e by (auto simp: class_min_def q_def [symmetric] add.commute)
  also have "\<dots> \<le> unat sz" unfolding q_def by (rule div_times_less_eq_dividend)
  finally show ?thesis using k q assms(2) by (auto simp: in_table_def q_def)
qed


lemma search_round:
  assumes "n \<le> 26"
  shows "unat (scast (push_bit n (1 :: u32) - 1) :: u64) = 2 ^ n - 1"
proof -
  have p: "(2 :: nat) ^ n \<le> 2 ^ 26" using assms by (intro power_increasing) auto
  have "unat (push_bit n (1 :: u32)) = 2 ^ n" using assms by (simp add: unat_exp_word)
  moreover have "push_bit n (1 :: u32) > 0" using calculation by (simp only: word_less_nat_alt unat_0) simp
  ultimately have u: "unat (push_bit n (1 :: u32) - 1) = 2 ^ n - 1" by (simp add: unat_dec)
  have "unat (push_bit n (1 :: u32) - 1) < 2 ^ 31" unfolding u using p by simp
  from sint_small [OF this] have "sint (push_bit n (1 :: u32) - 1) = int (2 ^ n - 1)" by (simp only: u)
  then have "(scast (push_bit n (1 :: u32) - 1) :: u64) = of_nat (2 ^ n - 1)"
    by (metis of_int_of_nat_eq of_int_sint)
  moreover have "unat (of_nat (2 ^ n - 1) :: u64) = 2 ^ n - 1"
    using p by (simp only: unat_of_nat take_bit_nat_eq_self_iff) simp
  ultimately show ?thesis by (simp only:)
qed

lemma mapping_insert_fl_out:
  assumes "2 ^ 32 \<le> unat sz"
  shows "25 \<le> fst (mapping_insert sz)"
proof -
  obtain k where k: "tlsf_fls_sizet sz = int k" "unat sz < 2 ^ Suc k"
    using assms fls_sizet_bounds [of sz] by (metis unat_eq_zero le_zero_eq power_not_zero zero_neq_numeral)
  have "32 \<le> k"
  proof (rule ccontr)
    assume "\<not> 32 \<le> k"
    then have "(2 :: nat) ^ Suc k \<le> 2 ^ 32" by (intro power_increasing) auto
    then show False using k assms by linarith
  qed
  then show ?thesis using k assms by (simp add: mapping_insert_def word_less_nat_alt Let_def)
qed

lemma mapping_search_class:
  assumes sz: "unat sz < 2 ^ 32" "8 dvd unat sz" and m: "mapping_search sz = (fl, sl)" and fl: "fl < 25"
  shows "in_table fl sl \<and> unat sz \<le> class_min fl sl"
proof (cases "unat sz < 256")
  case True
  then have "mapping_insert sz = (fl, sl)" using m by (simp add: mapping_search_def word_le_nat_alt)
  then show ?thesis
    using True sz by (auto simp: mapping_insert_small class_min_def in_table_def)
next
  case False
  then obtain k where k: "8 \<le> k" "k \<le> 31" "2 ^ k \<le> unat sz" "unat sz < 2 ^ Suc k"
    "mapping_insert sz = (int k - 7, int (unat sz div 2 ^ (k - 5)) - 32)"
    using mapping_insert_large sz(1) by (metis linorder_not_less)
  have fls: "tlsf_fls_sizet sz = int k"
    using k(5) False by (auto simp: mapping_insert_def word_less_nat_alt Let_def)
  define sz' where "sz' = sz + scast (push_bit (k - 5) (1 :: u32) - 1)"
  have p: "(2 :: nat) ^ (k - 5) \<le> 2 ^ 26" using k by (intro power_increasing) auto
  have u: "unat sz' = unat sz + (2 ^ (k - 5) - 1)"
    using sz(1) p search_round [of "k - 5"] k by (simp add: sz'_def unat_word_ariths)
  have n: "nat (int k - 5) = k - 5" by simp
  have ms: "mapping_insert sz' = (fl, sl)"
    using m False fls by (simp add: mapping_search_def word_le_nat_alt sz'_def n)
  have lt: "unat sz' < 2 ^ 32" using mapping_insert_fl_out [of sz'] ms fl by force
  have "256 \<le> unat sz'" using u False by linarith
  from mapping_insert_large [OF this lt] obtain j where j: "8 \<le> j" "j \<le> 31"
    "2 ^ j \<le> unat sz'" "unat sz' < 2 ^ Suc j" "mapping_insert sz' = (int j - 7, int (unat sz' div 2 ^ (j - 5)) - 32)"
    by blast
  define q where "q = unat sz' div 2 ^ (j - 5)"
  have pj: "(2 :: nat) ^ j = 32 * 2 ^ (j - 5)" using j(1) power_add [of "2 :: nat" 5 "j - 5"] by simp
  then have q: "32 \<le> q" using j unfolding q_def by (auto simp: less_eq_div_iff_mult_less_eq)
  have e: "nat (int j - 7) + 2 = j - 5" "nat (int q - 32) + 32 = q" using j q by simp_all
  have cm: "class_min fl sl = q * 2 ^ (j - 5)"
    using j ms e by (auto simp: class_min_def q_def [symmetric] add.commute)
  have "k \<le> j"
  proof (rule ccontr)
    assume "\<not> k \<le> j"
    then have "(2 :: nat) ^ Suc j \<le> 2 ^ k" by (intro power_increasing) auto
    then show False using j k u by linarith
  qed
  have "unat sz \<le> class_min fl sl"
  proof (cases "j = k")
    case True
    have "unat sz' < (q + 1) * 2 ^ (k - 5)"
      unfolding q_def True by (metis Suc_eq_plus1 dividend_less_div_times mult.commute zero_less_numeral zero_less_power mult_Suc)
    then show ?thesis using cm u True by (simp add: algebra_simps)
  next
    case False
    then have "(2 :: nat) ^ Suc k \<le> 2 ^ j" using \<open>k \<le> j\<close> by (intro power_increasing) auto
    also have "2 ^ j \<le> q * 2 ^ (j - 5)" using q pj by simp
    finally show ?thesis using cm k(4) by linarith
  qed
  then show ?thesis using mapping_insert_class [OF lt ms] by blast
qed

lemma class_min_mono:
  assumes "in_table fl sl" "in_table fl' sl'" "fl < fl' \<or> fl = fl' \<and> sl \<le> sl'"
  shows "class_min fl sl \<le> class_min fl' sl'"
proof (cases "fl = fl'")
  case True
  then show ?thesis using assms by (auto simp: class_min_def in_table_def)
next
  case False
  then have lt: "nat fl < nat fl'" "0 < nat fl'" using assms by (auto simp: in_table_def)
  have "class_min fl sl \<le> 64 * 2 ^ (nat fl + 2)"
    using assms by (auto simp: class_min_def in_table_def)
  also have "(2 :: nat) ^ (nat fl + 2) \<le> 2 ^ (nat fl' + 1)" using lt by (intro power_increasing) auto
  then have "64 * 2 ^ (nat fl + 2) \<le> 32 * (2 :: nat) ^ (nat fl' + 2)" by simp
  also have "\<dots> \<le> class_min fl' sl'" using lt by (simp add: class_min_def)
  finally show ?thesis .
qed


section \<open>Headers\<close>

text \<open>The two status bits share the word with a size that is a multiple of 4.\<close>

lemma low_bits:
  "bit (3 :: u64) n \<longleftrightarrow> n = 0 \<or> n = 1" "bit (1 :: u64) n \<longleftrightarrow> n = 0" "bit (2 :: u64) n \<longleftrightarrow> n = 1"
  "bit (- 4 :: u64) n \<longleftrightarrow> n < 64 \<and> n \<noteq> 0 \<and> n \<noteq> 1" "bit (- 2 :: u64) n \<longleftrightarrow> n < 64 \<and> n \<noteq> 0"
  "bit (- 3 :: u64) n \<longleftrightarrow> n < 64 \<and> n \<noteq> 1"
proof -
  have m: "(3 :: u64) = mask 2" by (simp add: mask_eq_exp_minus_1)
  show b3: "bit (3 :: u64) n \<longleftrightarrow> n = 0 \<or> n = 1" unfolding m by (auto simp: bit_mask_iff)
  show b1: "bit (1 :: u64) n \<longleftrightarrow> n = 0" by (simp add: bit_1_iff)
  show b2: "bit (2 :: u64) n \<longleftrightarrow> n = 1" using bit_exp_word [of 1 n, where 'a = 64] by auto
  have "(- 4 :: u64) = NOT 3" "(- 2 :: u64) = NOT 1" "(- 3 :: u64) = NOT 2" by simp_all
  then show "bit (- 4 :: u64) n \<longleftrightarrow> n < 64 \<and> n \<noteq> 0 \<and> n \<noteq> 1" "bit (- 2 :: u64) n \<longleftrightarrow> n < 64 \<and> n \<noteq> 0"
    "bit (- 3 :: u64) n \<longleftrightarrow> n < 64 \<and> n \<noteq> 1"
    by (simp_all only: bit_not_iff b1 b2 b3) auto
qed

lemma no_low_bits: "x AND 3 = 0 \<Longrightarrow> bit x n \<Longrightarrow> 0 < n \<and> n \<noteq> Suc 0" for x :: u64
proof -
  assume "x AND 3 = 0" "bit x n"
  then have "\<not> bit (3 :: u64) n" by (metis bit_0_eq bit_and_iff bot_apply bot_bool_def)
  then show ?thesis using low_bits(1) [of n] by auto
qed

lemma header_bits:
  fixes w x :: u64
  shows "(w OR 1) AND - 4 = w AND - 4" "(w AND - 2) AND - 4 = w AND - 4"
    "(w OR 2) AND - 4 = w AND - 4" "(w AND - 3) AND - 4 = w AND - 4" "(w AND - 4) AND 3 = 0"
    "x AND 3 = 0 \<Longrightarrow> (x OR (w AND 3)) AND - 4 = x"
    "x AND 3 = 0 \<Longrightarrow> (x OR (w AND 3)) AND 1 = w AND 1"
    "x AND 3 = 0 \<Longrightarrow> (x OR (w AND 3)) AND 2 = w AND 2"
    "(w OR 1) AND 2 = w AND 2" "(w AND - 2) AND 2 = w AND 2" "(w OR 2) AND 1 = w AND 1"
    "(w AND - 3) AND 1 = w AND 1" "(w OR 1) AND 1 = 1" "(w OR 2) AND 2 = 2"
    "(w AND - 2) AND 1 = 0" "(w AND - 3) AND 2 = 0"
  by (rule bit_word_eqI; (simp only: low_bits bit_and_iff bit_or_iff)?; auto dest: no_low_bits)+

lemma block_size_mask: "block_size b s = bsize s b AND - 4"
  by (simp add: block_size_def)

lemma block_size_low [simp]: "block_size b s AND 3 = 0"
  by (simp only: block_size_mask header_bits)

lemma block_header_simps [simp]:
  "block_size b (set_bsize b' v s) = (if b = b' then v AND - 4 else block_size b s)"
  "block_size b (block_set_free b' s) = block_size b s"
  "block_size b (block_set_used b' s) = block_size b s"
  "block_size b (block_set_prev_free b' s) = block_size b s"
  "block_size b (block_set_prev_used b' s) = block_size b s"
  "sz AND 3 = 0 \<Longrightarrow> block_size b (block_set_size b' sz s) = (if b = b' then sz else block_size b s)"
  by (auto simp: block_size_mask set_bsize_def block_set_free_def block_set_used_def
      block_set_prev_free_def block_set_prev_used_def block_set_size_def header_bits Let_def)

section \<open>Free lists and bitmaps\<close>

text \<open>
  \<open>flist c b xs s\<close>: from block \<open>b\<close> on the \<open>next_free\<close> fields run through \<open>xs\<close> to the null
  block \<open>c\<close>, and the \<open>prev_free\<close> field of every member points to its predecessor, that of the
  first one to \<open>p\<close>.
\<close>

fun flist :: "u64 \<Rightarrow> u64 \<Rightarrow> u64 \<Rightarrow> u64 list \<Rightarrow> 'z heap_t_scheme \<Rightarrow> bool" where
  "flist c p b [] s \<longleftrightarrow> b = c"
| "flist c p b (x # xs) s \<longleftrightarrow> b = x \<and> prev_free s x = p \<and> flist c x (next_free s x) xs s"

text \<open>
  The free lists of the heap \<open>c\<close> hold the blocks \<open>F fl sl\<close>: every list is linked as above, a
  block is in at most one list and stands in the class of its size, and the bitmaps have a bit
  set exactly for the lists (rows) that hold a block.
\<close>

definition tlsf_lists :: "u64 \<Rightarrow> (nat \<Rightarrow> nat \<Rightarrow> u64 list) \<Rightarrow> 'z heap_t_scheme \<Rightarrow> bool" where
  "tlsf_lists c F s \<longleftrightarrow> c \<noteq> 0 \<and>
     (\<forall>i < 25. \<forall>j < 32. flist c c (blocks (controls s c) i j) (F i j) s \<and> distinct (F i j) \<and>
        (\<forall>b \<in> set (F i j). b \<noteq> 0 \<and> b \<noteq> c \<and> unat (block_size b s) < 2 ^ 32 \<and>
            mapping_insert (block_size b s) = (int i, int j)) \<and>
        (bit (sl_bitmap (controls s c) i) j \<longleftrightarrow> F i j \<noteq> [])) \<and>
     (\<forall>i < 25. bit (fl_bitmap (controls s c)) i \<longleftrightarrow> sl_bitmap (controls s c) i \<noteq> 0) \<and>
     (\<forall>i \<ge> 25. \<not> bit (fl_bitmap (controls s c)) i)"

lemma flist_head: "flist c p b xs s \<Longrightarrow> b = hd (xs @ [c])"
  by (cases xs) auto

lemma flist_cong:
  assumes "flist c p b xs s" "\<And>x. x \<in> set xs \<Longrightarrow> next_free s' x = next_free s x \<and> prev_free s' x = prev_free s x"
  shows "flist c p b xs s'"
  using assms by (induction c p b xs s rule: flist.induct) auto

lemma tlsf_lists_disjoint:
  assumes "tlsf_lists c F s" "i < 25" "j < 32" "i' < 25" "j' < 32" "b \<in> set (F i j)" "b \<in> set (F i' j')"
  shows "i = i' \<and> j = j'"
  using assms unfolding tlsf_lists_def by (metis Pair_inject of_nat_eq_iff)

lemma in_table_nat: "in_table fl sl \<Longrightarrow> nat fl < 25 \<and> nat sl < 32"
  unfolding in_table_def by linarith

lemma in_table_int [simp]: "in_table (int i) (int j) \<longleftrightarrow> i < 25 \<and> j < 32"
  by (simp add: in_table_def)

text \<open>
  When a search succeeds it finds the head of a nonempty list whose class is at least the class
  searched for; when it fails, no list of such a class holds a block.
\<close>

lemma search_suitable_block_spec:
  assumes L: "tlsf_lists c F s" and t: "in_table fl sl"
  shows "(search_suitable_block c fl sl s = Some (0, fl, sl) \<and>
            (\<forall>i j. in_table i j \<and> (fl < i \<or> fl = i \<and> sl \<le> j) \<longrightarrow> F (nat i) (nat j) = [])) \<or>
         (\<exists>b i j. search_suitable_block c fl sl s = Some (b, i, j) \<and> in_table i j \<and>
            (fl < i \<or> fl = i \<and> sl \<le> j) \<and> F (nat i) (nat j) \<noteq> [] \<and> b = hd (F (nat i) (nat j)))"
  (is "?none \<or> ?some")
proof -
  let ?k = "controls s c"
  let ?sm = "sl_bitmap ?k (nat fl) AND push_bit (nat sl) (NOT 0)"
  let ?fm = "fl_bitmap ?k AND push_bit (nat (fl + 1)) (NOT 0)"
  have sb: "bit ?sm j \<longleftrightarrow> nat sl \<le> j \<and> bit (sl_bitmap ?k (nat fl)) j" for j
    using bit_imp_le_length [of "sl_bitmap ?k (nat fl)" j] by (auto simp: bit_simps)
  have fb: "bit ?fm i \<longleftrightarrow> nat fl < i \<and> bit (fl_bitmap ?k) i" for i
    using bit_imp_le_length [of "fl_bitmap ?k" i] t by (auto simp: bit_simps in_table_def nat_add_distrib)
  have row: "bit (sl_bitmap ?k i) j \<longleftrightarrow> F i j \<noteq> []" if "i < 25" "j < 32" for i j
    using L that by (simp add: tlsf_lists_def)
  have head: "blocks ?k i j = hd (F i j)" if "i < 25" "j < 32" "F i j \<noteq> []" for i j
    using L that flist_head [of c c "blocks ?k i j" "F i j" s] by (simp add: tlsf_lists_def)
  have nf: "nat fl < 25" using t unfolding in_table_def by linarith
  consider "?sm \<noteq> 0" | "?sm = 0" "?fm \<noteq> 0" | "?sm = 0" "?fm = 0" by blast
  then show ?thesis
  proof cases
    case 1
    from tlsf_ffs_char [OF 1] obtain j where j: "tlsf_ffs ?sm = int j" "j < 32" "bit ?sm j" by blast
    then have "F (nat fl) j \<noteq> []" "nat sl \<le> j" using sb row [OF nf, of j] by blast+
    moreover from this have "search_suitable_block c fl sl s = Some (hd (F (nat fl) j), fl, int j)"
      using 1 j head [OF nf, of j] by (simp add: search_suitable_block_def Let_def)
    ultimately have ?some using t j by (intro exI [of _ "hd (F (nat fl) j)"] exI [of _ fl] exI [of _ "int j"]) (auto simp: in_table_def)
    then show ?thesis ..
  next
    case 2
    from tlsf_ffs_char [OF 2(2)] obtain i where i: "tlsf_ffs ?fm = int i" "bit ?fm i" by blast
    then have il: "i < 25" "sl_bitmap ?k i \<noteq> 0" "nat fl < i"
      using fb L unfolding tlsf_lists_def by (metis not_less)+
    from tlsf_ffs_char [OF il(2)] obtain j where j: "tlsf_ffs (sl_bitmap ?k i) = int j" "j < 32"
      "bit (sl_bitmap ?k i) j" by blast
    then have "F i j \<noteq> []" using row il by blast
    moreover from this have "search_suitable_block c fl sl s = Some (hd (F i j), int i, int j)"
      using 2 i j il head [of i j] by (simp add: search_suitable_block_def Let_def check_def)
    ultimately have ?some using il t j by (intro exI [of _ "hd (F i j)"] exI [of _ "int i"] exI [of _ "int j"]) (auto simp: in_table_def)
    then show ?thesis ..
  next
    case 3
    have "F (nat i) (nat j) = []" if ij: "in_table i j" "fl < i \<or> fl = i \<and> sl \<le> j" for i j
    proof (rule ccontr)
      assume "F (nat i) (nat j) \<noteq> []"
      then have b: "bit (sl_bitmap ?k (nat i)) (nat j)" using row in_table_nat [OF ij(1)] by blast
      show False
      proof (cases "fl = i")
        case True
        then have "bit ?sm (nat j)" using b sb ij t by (auto simp: in_table_def)
        then show False using 3 by simp
      next
        case False
        then have "nat fl < nat i" using ij t by (auto simp: in_table_def)
        moreover have "sl_bitmap ?k (nat i) \<noteq> 0" using b by auto
        ultimately have "bit ?fm (nat i)" using fb L in_table_nat [OF ij(1)] unfolding tlsf_lists_def by blast
        then show False using 3 by simp
      qed
    qed
    moreover have "search_suitable_block c fl sl s = Some (0, fl, sl)"
      using 3 by (simp add: search_suitable_block_def Let_def)
    ultimately show ?thesis by blast
  qed
qed


lemma flist_append:
  "flist e p h (ys @ b # zs) s \<longleftrightarrow> flist b p h ys s \<and> flist e (last (p # ys)) b (b # zs) s"
  by (induction ys arbitrary: p h) auto

lemma flist_snoc:
  "flist e p h (ys @ [y]) s \<longleftrightarrow> flist y p h ys s \<and> prev_free s y = last (p # ys) \<and> next_free s y = e"
  by (induction ys arbitrary: p h) auto

lemma flist_remove:
  assumes f: "flist c p h (ys @ b # zs) s" and d: "distinct (ys @ b # zs)" and c: "c \<notin> set (ys @ b # zs)"
    and p: "p \<notin> set (ys @ b # zs)"
    and n: "next_free s' = (next_free s)(prev_free s b := next_free s b)"
    and q: "prev_free s' = (prev_free s)(next_free s b := prev_free s b)"
  shows "flist c p (if ys = [] then next_free s b else h) (ys @ zs) s'"
proof -
  have A: "flist b p h ys s" and B: "prev_free s b = last (p # ys)" and C: "flist c b (next_free s b) zs s"
    using f by (auto simp: flist_append)
  have hd: "next_free s b = hd (zs @ [c])" using flist_head [OF C] .
  have C': "flist c (prev_free s b) (next_free s b) zs s'"
  proof (cases zs)
    case Nil
    then show ?thesis using C by simp
  next
    case (Cons z zs')
    have "prev_free s b \<notin> set zs" using B d p by (cases ys rule: rev_cases) auto
    then have z: "next_free s' z = next_free s z" using n Cons by auto
    have "flist c z (next_free s z) zs' s" using C Cons by simp
    then have "flist c z (next_free s z) zs' s'"
      by (rule flist_cong) (use n q hd Cons d \<open>prev_free s b \<notin> set zs\<close> in auto)
    then show ?thesis using Cons z hd q by simp
  qed
  show ?thesis
  proof (cases ys rule: rev_cases)
    case Nil
    then show ?thesis using C' B by simp
  next
    case (snoc us y)
    have hd': "next_free s b \<notin> set ys" using hd d c by (cases zs) auto
    have y: "prev_free s b = y" using B snoc by simp
    have "flist y p h us s" using A snoc by (simp add: flist_snoc)
    then have "flist y p h us s'"
      by (rule flist_cong) (use n q y hd' snoc d in auto)
    then have "flist (next_free s b) p h ys s'"
      using A snoc n q y hd' by (simp add: flist_snoc) auto
    then show ?thesis
      using C' y snoc hd by (cases zs) (auto simp: flist_append)
  qed
qed


definition upd2 :: "(nat \<Rightarrow> nat \<Rightarrow> 'a) \<Rightarrow> nat \<Rightarrow> nat \<Rightarrow> 'a \<Rightarrow> nat \<Rightarrow> nat \<Rightarrow> 'a" where
  "upd2 F i j v = F(i := (F i)(j := v))"

lemma upd2_apply: "upd2 F i j v i' j' = (if i' = i \<and> j' = j then v else F i' j')"
  by (simp add: upd2_def)

definition same_headers :: "'z heap_t_scheme \<Rightarrow> 'z heap_t_scheme \<Rightarrow> bool" where
  \<comment> \<open>only free-list links and the bitmaps differ\<close>
  "same_headers s s' \<longleftrightarrow>
     s' = s\<lparr>next_free := next_free s', prev_free := prev_free s', controls := controls s'\<rparr>"

lemma same_headers_fields:
  assumes "same_headers s s'"
  shows "bsize s' = bsize s" "prev_phys_block s' = prev_phys_block s" "mem s' = mem s"
    "block_size b s' = block_size b s" "block_is_free b s' = block_is_free b s"
    "block_is_prev_free b s' = block_is_prev_free b s"
  using arg_cong [OF assms [unfolded same_headers_def], of bsize]
    arg_cong [OF assms [unfolded same_headers_def], of prev_phys_block]
    arg_cong [OF assms [unfolded same_headers_def], of mem]
  by (simp_all add: block_size_def block_is_free_def block_is_prev_free_def)

lemma align_ptr_8: "align_ptr p 8 = Some ((p + 7) AND NOT 7)"
  by (simp add: align_ptr_def check_def)

lemma aligned_8: "p AND 7 = 0 \<Longrightarrow> (p + 7) AND NOT 7 = p" for p :: u64
proof -
  assume z: "p AND 7 = 0"
  then have "p + 7 = p OR 7" by (rule disjunctive_add_eq_or)
  moreover have "\<not> (bit p n \<and> bit (7 :: u64) n)" for n using z by (metis bit_0_eq bit_and_iff bot_apply bot_bool_def)
  ultimately show ?thesis by (intro bit_word_eqI) (auto simp: bit_simps simp del: bit_numeral_simps)
qed

lemma tlsf_listsD:
  assumes "tlsf_lists c F s" "i < 25" "j < 32"
  shows "c \<noteq> 0" "flist c c (blocks (controls s c) i j) (F i j) s" "distinct (F i j)"
    "\<And>b. b \<in> set (F i j) \<Longrightarrow> b \<noteq> 0 \<and> b \<noteq> c \<and> unat (block_size b s) < 2 ^ 32 \<and>
            mapping_insert (block_size b s) = (int i, int j)"
    "bit (sl_bitmap (controls s c) i) j \<longleftrightarrow> F i j \<noteq> []"
    "bit (fl_bitmap (controls s c)) i \<longleftrightarrow> sl_bitmap (controls s c) i \<noteq> 0"
  using assms unfolding tlsf_lists_def by blast+

lemma other_list:
  assumes "tlsf_lists c F s" "i < 25" "j < 32" "i' < 25" "j' < 32" "\<not> (i' = i \<and> j' = j)" "x \<in> set (F i' j')"
  shows "x \<notin> insert c (set (F i j))"
  using assms tlsf_lists_disjoint [OF assms(1-5)] tlsf_listsD(4) [OF assms(1,4,5)] by blast

text \<open>What remains to be shown when one list is changed.\<close>

lemma tlsf_lists_update:
  assumes L: "tlsf_lists c F s" and same: "same_headers s s'"
    and own: "flist c c (blocks (controls s' c) i j) bs s'" "distinct bs"
      "\<And>x. x \<in> set bs \<Longrightarrow> x \<noteq> 0 \<and> x \<noteq> c \<and> unat (block_size x s) < 2 ^ 32 \<and> mapping_insert (block_size x s) = (int i, int j)"
    and heads: "\<And>i' j'. \<not> (i' = i \<and> j' = j) \<Longrightarrow> blocks (controls s' c) i' j' = blocks (controls s c) i' j'"
    and links: "\<And>i' j' x. i' < 25 \<Longrightarrow> j' < 32 \<Longrightarrow> \<not> (i' = i \<and> j' = j) \<Longrightarrow> x \<in> set (F i' j') \<Longrightarrow>
      next_free s' x = next_free s x \<and> prev_free s' x = prev_free s x"
    and sl: "\<And>i' j'. i' < 25 \<Longrightarrow> j' < 32 \<Longrightarrow> bit (sl_bitmap (controls s' c) i') j' \<longleftrightarrow> upd2 F i j bs i' j' \<noteq> []"
    and fl: "\<And>i'. bit (fl_bitmap (controls s' c)) i' \<longleftrightarrow> i' < 25 \<and> sl_bitmap (controls s' c) i' \<noteq> 0"
  shows "tlsf_lists c (upd2 F i j bs) s'"
proof -
  have "flist c c (blocks (controls s' c) i' j') (upd2 F i j bs i' j') s' \<and> distinct (upd2 F i j bs i' j') \<and>
      (\<forall>x \<in> set (upd2 F i j bs i' j'). x \<noteq> 0 \<and> x \<noteq> c \<and> unat (block_size x s) < 2 ^ 32 \<and>
            mapping_insert (block_size x s) = (int i', int j'))" if t: "i' < 25" "j' < 32" for i' j'
  proof (cases "i' = i \<and> j' = j")
    case False
    note D = tlsf_listsD [OF L t]
    have "flist c c (blocks (controls s c) i' j') (F i' j') s'" by (rule flist_cong [OF D(2)]) (rule links [OF t False])
    moreover have "upd2 F i j bs i' j' = F i' j'" using False by (auto simp: upd2_apply)
    ultimately show ?thesis using heads [OF False] D(3,4) by simp
  qed (use own in \<open>simp add: upd2_apply\<close>)
  then show ?thesis using sl L fl unfolding tlsf_lists_def same_headers_fields(4) [OF same] by simp
qed

lemma flist_insert:
  assumes f: "flist c c cur xs s" "distinct xs" "b \<notin> set xs" "b \<noteq> c" "c \<notin> set xs"
    and n: "next_free s' = (next_free s)(b := cur)" and p: "prev_free s' = (prev_free s)(b := c, cur := b)"
  shows "flist c c b (b # xs) s'"
proof -
  have "cur \<noteq> b" using flist_head [OF f(1)] f(3,4) by (cases xs) auto
  moreover have "flist c b cur xs s'"
  proof (cases xs)
    case (Cons x ys)
    then have "flist c x (next_free s x) ys s'" using f by (intro flist_cong [of c x _ ys s s']) (auto simp: n p)
    then show ?thesis using Cons f by (auto simp: n p)
  qed (use f in simp)
  ultimately show ?thesis by (simp add: n p)
qed

lemma insert_free_block_spec:
  assumes L: "tlsf_lists c F s" and ij: "i < 25" "j < 32"
    and b: "b \<noteq> 0" "b \<noteq> c" "\<And>i j. i < 25 \<Longrightarrow> j < 32 \<Longrightarrow> b \<notin> set (F i j)" "(b + 16) AND 7 = 0"
    and sz: "unat (block_size b s) < 2 ^ 32" "mapping_insert (block_size b s) = (int i, int j)"
  shows "\<exists>s'. insert_free_block c b (int i) (int j) s = Some s' \<and>
    tlsf_lists c (upd2 F i j (b # F i j)) s' \<and> same_headers s s'"
proof -
  let ?k = "controls s c" and ?cur = "blocks (controls s c) i j"
  note D = tlsf_listsD [OF L ij]
  have cur: "?cur = hd (F i j @ [c])" by (rule flist_head [OF D(2)])
  then have ins: "?cur \<in> insert c (set (F i j))" by (cases "F i j") auto
  have nz: "?cur \<noteq> 0" unfolding cur using D(1,4) by (cases "F i j") auto
  define k where "k = ?k\<lparr>blocks := upd2 (blocks ?k) i j b, fl_bitmap := fl_bitmap ?k OR push_bit i 1,
      sl_bitmap := (sl_bitmap ?k)(i := sl_bitmap ?k i OR push_bit j 1)\<rparr>"
  define s' where "s' = s\<lparr>next_free := (next_free s)(b := ?cur),
      prev_free := (prev_free s)(b := c, ?cur := b), controls := (controls s)(c := k)\<rparr>"
  have run: "insert_free_block c b (int i) (int j) s = Some s'"
    using ij nz b aligned_8 [OF b(4)]
    by (simp add: insert_free_block_def check_def align_ptr_8 block_to_ptr_def Let_def s'_def k_def
        set_control_def set_block_head_def upd2_def)
  have same: "same_headers s s'" by (simp add: same_headers_def s'_def)
  have sl: "sl_bitmap ?k i OR push_bit j 1 \<noteq> 0"
    using ij by (auto simp: bit_eq_iff bit_simps intro!: exI [of _ j])
  have "tlsf_lists c (upd2 F i j (b # F i j)) s'"
  proof (rule tlsf_lists_update [OF L same])
    have "flist c c b (b # F i j) s'" by (rule flist_insert [OF D(2,3) b(3) [OF ij] b(2)]) (use D(4) in \<open>auto simp: s'_def\<close>)
    then show "flist c c (blocks (controls s' c) i j) (b # F i j) s'" by (simp add: s'_def k_def upd2_apply)
    show "distinct (b # F i j)" using D(3) b(3) [OF ij] by simp
    show "x \<noteq> 0 \<and> x \<noteq> c \<and> unat (block_size x s) < 2 ^ 32 \<and> mapping_insert (block_size x s) = (int i, int j)"
      if "x \<in> set (b # F i j)" for x using that b sz D(4) by auto
    fix i' j'
    show "blocks (controls s' c) i' j' = blocks ?k i' j'" if "\<not> (i' = i \<and> j' = j)"
      using that by (auto simp: s'_def k_def upd2_apply)
    show "next_free s' x = next_free s x \<and> prev_free s' x = prev_free s x"
      if t: "i' < 25" "j' < 32" "\<not> (i' = i \<and> j' = j)" "x \<in> set (F i' j')" for x
      using other_list [OF L ij t] ins b(3) [OF t(1,2)] t(4) by (auto simp: s'_def)
    show "bit (sl_bitmap (controls s' c) i') j' \<longleftrightarrow> upd2 F i j (b # F i j) i' j' \<noteq> []" if "i' < 25" "j' < 32"
      using tlsf_listsD(5) [OF L that] that ij by (auto simp: s'_def k_def upd2_apply bit_simps)
    show "bit (fl_bitmap (controls s' c)) i' \<longleftrightarrow> i' < 25 \<and> sl_bitmap (controls s' c) i' \<noteq> 0"
      using L sl ij by (cases "i' < 25") (auto simp: tlsf_lists_def s'_def k_def bit_simps)
  qed
  with run same show ?thesis by blast
qed


text \<open>The control structure after a block between \<open>ys\<close> and \<open>zs\<close> has been taken out of its list.\<close>

definition control_without :: "nat \<Rightarrow> nat \<Rightarrow> u64 list \<Rightarrow> u64 list \<Rightarrow> u64 \<Rightarrow> control_t \<Rightarrow> control_t" where
  "control_without i j ys zs n k =
     (let k1 = k\<lparr>blocks := upd2 (blocks k) i j n\<rparr>;
          k2 = k1\<lparr>sl_bitmap := (sl_bitmap k)(i := sl_bitmap k i AND NOT (push_bit j 1))\<rparr>
      in if ys \<noteq> [] then k else if zs \<noteq> [] then k1
         else if sl_bitmap k2 i = 0 then k2\<lparr>fl_bitmap := fl_bitmap k AND NOT (push_bit i 1)\<rparr> else k2)"

lemma control_without_simps:
  "blocks (control_without i j ys zs n k) i' j' = (if i' = i \<and> j' = j \<and> ys = [] then n else blocks k i' j')"
  "sl_bitmap (control_without i j ys zs n k) i' =
     (if i' = i \<and> ys = [] \<and> zs = [] then sl_bitmap k i AND NOT (push_bit j 1) else sl_bitmap k i')"
  "i < 25 \<Longrightarrow> bit (fl_bitmap (control_without i j ys zs n k)) i' \<longleftrightarrow> bit (fl_bitmap k) i' \<and>
     \<not> (i' = i \<and> ys = [] \<and> zs = [] \<and> sl_bitmap k i AND NOT (push_bit j 1) = 0)"
  using bit_imp_le_length [of "fl_bitmap k" i']
  by (auto simp: control_without_def Let_def upd2_apply bit_simps)

lemma remove_free_block_spec:
  assumes L: "tlsf_lists c F s" and ij: "i < 25" "j < 32" and b: "b \<in> set (F i j)"
  shows "\<exists>s'. remove_free_block c b (int i) (int j) s = Some s' \<and>
    tlsf_lists c (upd2 F i j (remove1 b (F i j))) s' \<and> same_headers s s'"
proof -
  let ?k = "controls s c" and ?p = "prev_free s b" and ?n = "next_free s b"
  note D = tlsf_listsD [OF L ij]
  obtain ys zs where F: "F i j = ys @ b # zs" "b \<notin> set ys" "b \<notin> set zs"
    using distinct_split_middle [OF b D(3)] .
  have f: "flist c c (blocks ?k i j) (ys @ b # zs) s" using D(2) F by simp
  then have p: "?p = last (c # ys)" and n: "?n = hd (zs @ [c])" and h: "blocks ?k i j = hd (ys @ [b])"
    using flist_head [of c b "next_free s b" zs s] flist_head [of b c "blocks ?k i j" ys s]
    by (auto simp: flist_append)
  have mem: "x \<noteq> 0 \<and> x \<noteq> c" if "x \<in> set ys \<union> set zs \<union> {b}" for x using D(4) [of x] F that by auto
  have near: "?p \<in> insert c (set (F i j))" unfolding p F(1) by (cases ys rule: rev_cases) auto
  moreover have near': "?n \<in> insert c (set (F i j))" unfolding n F(1) by (cases zs) auto
  ultimately have pn0: "?p \<noteq> 0" "?n \<noteq> 0" using D(1,4) by auto
  have ends: "blocks ?k i j = b \<longleftrightarrow> ys = []" using h F(2) by (cases ys) auto
  have ends': "?n = c \<longleftrightarrow> zs = []" using n mem by (cases zs) auto
  define s' where "s' = s\<lparr>next_free := (next_free s)(?p := ?n), prev_free := (prev_free s)(?n := ?p),
      controls := (controls s)(c := control_without i j ys zs ?n ?k)\<rparr>"
  have run: "remove_free_block c b (int i) (int j) s = Some s'" using ij pn0 ends ends'
    by (auto simp: remove_free_block_def check_def Let_def s'_def control_without_def set_control_def set_block_head_def upd2_def)
  have same: "same_headers s s'" by (simp add: same_headers_def s'_def)
  have "tlsf_lists c (upd2 F i j (ys @ zs)) s'"
  proof (rule tlsf_lists_update [OF L same])
    have "flist c c (if ys = [] then ?n else blocks ?k i j) (ys @ zs) s'"
      using D(3) F mem by (intro flist_remove [OF f]) (auto simp: s'_def)
    then show "flist c c (blocks (controls s' c) i j) (ys @ zs) s'" by (simp add: s'_def control_without_simps)
    show "distinct (ys @ zs)" using D(3) F by simp
    show "x \<noteq> 0 \<and> x \<noteq> c \<and> unat (block_size x s) < 2 ^ 32 \<and> mapping_insert (block_size x s) = (int i, int j)"
      if "x \<in> set (ys @ zs)" for x using that D(4) F by auto
    fix i' j'
    show "blocks (controls s' c) i' j' = blocks ?k i' j'" if "\<not> (i' = i \<and> j' = j)"
      using that by (auto simp: s'_def control_without_simps)
    show "next_free s' x = next_free s x \<and> prev_free s' x = prev_free s x"
      if t: "i' < 25" "j' < 32" "\<not> (i' = i \<and> j' = j)" "x \<in> set (F i' j')" for x
      using other_list [OF L ij t] near near' by (auto simp: s'_def)
    show "bit (sl_bitmap (controls s' c) i') j' \<longleftrightarrow> upd2 F i j (ys @ zs) i' j' \<noteq> []" if "i' < 25" "j' < 32"
      using D(5) tlsf_listsD(5) [OF L that] F that ij by (auto simp: upd2_apply s'_def control_without_simps bit_simps)
    show "bit (fl_bitmap (controls s' c)) i' \<longleftrightarrow> i' < 25 \<and> sl_bitmap (controls s' c) i' \<noteq> 0"
      using L ij by (cases "i' < 25") (auto simp: tlsf_lists_def s'_def control_without_simps)
  qed
  with run same F show ?thesis by (auto simp: remove1_append)
qed


lemma block_insert_spec:
  assumes L: "tlsf_lists c F s" and b: "b \<noteq> 0" "b \<noteq> c" "(b + 16) AND 7 = 0"
      "\<And>i j. i < 25 \<Longrightarrow> j < 32 \<Longrightarrow> b \<notin> set (F i j)"
    and sz: "unat (block_size b s) < 2 ^ 32"
  obtains i j s' where "mapping_insert (block_size b s) = (int i, int j)" "i < 25" "j < 32"
    "block_insert c b s = Some s'" "tlsf_lists c (upd2 F i j (b # F i j)) s'" "same_headers s s'"
proof -
  obtain fl sl where m: "mapping_insert (block_size b s) = (fl, sl)" by fastforce
  then have t: "in_table fl sl" using mapping_insert_class [OF sz] by blast
  then have e: "fl = int (nat fl)" "sl = int (nat sl)" by (auto simp: in_table_def)
  note ij = in_table_nat [OF t]
  have m': "mapping_insert (block_size b s) = (int (nat fl), int (nat sl))" using m e by simp
  from insert_free_block_spec [OF L conjunct1 [OF ij] conjunct2 [OF ij] b(1,2,4,3) sz m']
  obtain s' where "insert_free_block c b (int (nat fl)) (int (nat sl)) s = Some s'"
    "tlsf_lists c (upd2 F (nat fl) (nat sl) (b # F (nat fl) (nat sl))) s'" "same_headers s s'" by blast
  then show thesis using that [of "nat fl" "nat sl" s'] m' ij e by (simp add: block_insert_def)
qed

lemma block_remove_spec:
  assumes L: "tlsf_lists c F s" and ij: "i < 25" "j < 32" and b: "b \<in> set (F i j)"
  obtains s' where "block_remove c b s = Some s'" "tlsf_lists c (upd2 F i j (remove1 b (F i j))) s'"
    "same_headers s s'"
  using remove_free_block_spec [OF L ij b] tlsf_listsD(4) [OF L ij b]
  by (auto simp: block_remove_def)

section \<open>Fresh heaps\<close>

lemma construct_row:
  "fold (\<lambda>j k. set_block_head (int i) (int j) c k) [0..<m] k
     = k\<lparr>blocks := (blocks k)(i := \<lambda>j. if j < m then c else blocks k i j)\<rparr>"
  by (induction m) (auto simp: set_block_head_def fun_eq_iff)

lemma construct_lists_simps:
  "fl_bitmap (construct_lists n m c k) = fl_bitmap k"
  "sl_bitmap (construct_lists n m c k) i = (if i < n then 0 else sl_bitmap k i)"
  "j < m \<Longrightarrow> blocks (construct_lists n m c k) i j = (if i < n then c else blocks k i j)"
  unfolding construct_lists_def by (induction n) (auto simp: construct_row)

lemma control_construct_lists:
  assumes "c \<noteq> 0"
  shows "tlsf_lists c (\<lambda>_ _. []) (control_construct c s)"
  using assms
  by (simp add: tlsf_lists_def control_construct_def Let_def set_control_def construct_lists_simps)

lemma control_construct_bsize [simp]: "bsize (control_construct c s) = bsize s"
  by (simp add: control_construct_def set_control_def Let_def)

text \<open>A heap with one free block of 4096 bytes.\<close>

lemma one_block_heap:
  fixes s :: "'z heap_t_scheme"
  obtains F and s' :: "'z heap_t_scheme" and i j where "tlsf_lists 0x1000 F s'" "i < 25" "j < 32"
    "F i j = [0x2000]" "block_size 0x2000 s' = 4096"
proof -
  define s0 where "s0 = control_construct 0x1000 (s\<lparr>bsize := \<lambda>_. 4096\<rparr>)"
  have sz: "block_size b s0 = 4096" for b by (simp add: block_size_def s0_def)
  have L: "tlsf_lists 0x1000 (\<lambda>_ _. []) s0" unfolding s0_def by (rule control_construct_lists) simp
  have "\<exists>F s' i j. tlsf_lists 0x1000 F s' \<and> i < 25 \<and> j < 32 \<and> F i j = [0x2000] \<and>
      block_size 0x2000 (s' :: 'z heap_t_scheme) = 4096"
  proof (rule block_insert_spec [OF L, of "0x2000"])
    fix i j and s' :: "'z heap_t_scheme"
    assume "i < 25" "j < 32" "tlsf_lists 0x1000 (upd2 (\<lambda>_ _. []) i j [0x2000]) s'" "same_headers s0 s'"
    then show ?thesis using sz same_headers_fields(4) [of s0 s' "0x2000"]
      by (intro exI [of _ "upd2 (\<lambda>_ _. []) i j [0x2000]"] exI [of _ s'] exI [of _ i] exI [of _ j])
        (auto simp: upd2_apply)
  qed (simp_all add: sz)
  then show thesis using that by blast
qed

text \<open>C10: the search for a free block never trips an assertion on well-formed free lists. For
  a request of \<open>sz\<close> bytes (a positive multiple of 8 below 4 GiB) it either takes a block of at
  least \<open>sz\<close> bytes off the free lists, touching no block header, or leaves the heap alone
  because every list of the searched classes is empty.\<close>

theorem block_locate_free_good_fit:
  assumes L: "tlsf_lists c F s" and sz: "sz \<noteq> 0" "unat sz < 2 ^ 32" "8 dvd unat sz"
  shows "(\<exists>b i j s'. block_locate_free c sz s = Some (b, s') \<and> b \<noteq> 0 \<and> i < 25 \<and> j < 32 \<and>
            b \<in> set (F i j) \<and> sz \<le> block_size b s \<and>
            tlsf_lists c (upd2 F i j (remove1 b (F i j))) s' \<and> same_headers s s') \<or>
         (block_locate_free c sz s = Some (0, s) \<and>
            (\<forall>i < 25. \<forall>j < 32. \<forall>b \<in> set (F i j).
               fst (mapping_search sz) \<ge> 25 \<or> int i < fst (mapping_search sz) \<or>
               int i = fst (mapping_search sz) \<and> int j < snd (mapping_search sz)))"
  (is "?found \<or> ?failed")
proof -
  obtain fl sl where m: "mapping_search sz = (fl, sl)" by fastforce
  show ?thesis
  proof (cases "fl < 25")
    case False
    then have ?failed using sz m by (simp add: block_locate_free_def)
    then show ?thesis ..
  next
    case True
    have t: "in_table fl sl" and min: "unat sz \<le> class_min fl sl"
      using mapping_search_class [OF sz(2,3) m True] by blast+
    from search_suitable_block_spec [OF L t] show ?thesis
    proof
      assume a: "search_suitable_block c fl sl s = Some (0, fl, sl) \<and>
        (\<forall>i j. in_table i j \<and> (fl < i \<or> fl = i \<and> sl \<le> j) \<longrightarrow> F (nat i) (nat j) = [])"
      have "int i < fl \<or> int i = fl \<and> int j < sl" if "i < 25" "j < 32" "b \<in> set (F i j)" for i j b
        using a that by (metis empty_iff empty_set in_table_int linorder_not_less nat_int not_less_iff_gr_or_eq)
      then have ?failed using a sz m True by (auto simp: block_locate_free_def)
      then show ?thesis ..
    next
      assume "\<exists>b i j. search_suitable_block c fl sl s = Some (b, i, j) \<and> in_table i j \<and>
            (fl < i \<or> fl = i \<and> sl \<le> j) \<and> F (nat i) (nat j) \<noteq> [] \<and> b = hd (F (nat i) (nat j))"
      then obtain b i j where f: "search_suitable_block c fl sl s = Some (b, i, j)" "in_table i j"
        "fl < i \<or> fl = i \<and> sl \<le> j" "b \<in> set (F (nat i) (nat j))" by (metis hd_in_set)
      note ij = in_table_nat [OF f(2)]
      have e: "int (nat i) = i" "int (nat j) = j" using f(2) by (auto simp: in_table_def)
      note B = tlsf_listsD(4) [OF L conjunct1 [OF ij] conjunct2 [OF ij] f(4)]
      have "unat sz \<le> class_min i j" using min class_min_mono [OF t f(2,3)] by linarith
      also have "\<dots> \<le> unat (block_size b s)"
        using mapping_insert_class [of "block_size b s" i j] B e by simp
      finally have le: "sz \<le> block_size b s" by (simp add: word_le_nat_alt)
      from remove_free_block_spec [OF L conjunct1 [OF ij] conjunct2 [OF ij] f(4)] obtain s' where
        "remove_free_block c b i j s = Some s'" "same_headers s s'"
        "tlsf_lists c (upd2 F (nat i) (nat j) (remove1 b (F (nat i) (nat j)))) s'" using e by auto
      then have ?found using sz m True f(1,4) B le ij
        by (intro exI [of _ b] exI [of _ "nat i"] exI [of _ "nat j"] exI [of _ s'])
          (simp add: block_locate_free_def check_def)
      then show ?thesis ..
    qed
  qed
qed


theorem block_locate_free_good_fit_witness:
  "\<exists>F (s :: heap_t). tlsf_lists 0x1000 F s \<and>
     (\<exists>b s'. block_locate_free 0x1000 64 s = Some (b, s') \<and> b \<noteq> 0 \<and> 64 \<le> block_size b s)"
proof -
  obtain F i j and s :: heap_t where H: "tlsf_lists 0x1000 F s" "i < 25" "j < 32" "F i j = [0x2000]"
    "block_size 0x2000 s = 4096" using one_block_heap .
  have m: "mapping_search 64 = (0, 8)"
    using mapping_insert_small [of 64] by (simp add: mapping_search_def)
  have b: "mapping_insert 4096 = (int i, int j)" using tlsf_listsD(4) [OF H(1-3), of "0x2000"] H by simp
  have "int i = 5"
  proof (rule mapping_insert_large [of 4096])
    fix k assume k: "2 ^ k \<le> unat (4096 :: u64)" "unat (4096 :: u64) < 2 ^ Suc k"
      "mapping_insert 4096 = (int k - 7, int (unat (4096 :: u64) div 2 ^ (k - 5)) - 32)"
    have "k = 12"
    proof (rule ccontr)
      assume "k \<noteq> 12"
      then have "k \<le> 11 \<or> 13 \<le> k" by linarith
      then show False
      proof
        assume "k \<le> 11"
        then have "(2 :: nat) ^ Suc k \<le> 2 ^ 12" by (intro power_increasing) auto
        then show False using k by simp
      next
        assume "13 \<le> k"
        then have "(2 :: nat) ^ 13 \<le> 2 ^ k" by (intro power_increasing) auto
        then show False using k by simp
      qed
    qed
    then show ?thesis using k b by simp
  qed simp_all
  then have n: "\<not> (\<forall>i < 25. \<forall>j < 32. \<forall>b \<in> set (F i j).
               fst (mapping_search 64) \<ge> 25 \<or> int i < fst (mapping_search 64) \<or>
               int i = fst (mapping_search 64) \<and> int j < snd (mapping_search 64))"
    using H m by (metis fst_conv list.set_intros(1) not_numeral_le_zero of_nat_less_0_iff zero_neq_numeral)
  have sz: "(64 :: u64) \<noteq> 0" "unat (64 :: u64) < 2 ^ 32" "8 dvd unat (64 :: u64)" by simp_all
  show ?thesis using block_locate_free_good_fit [OF H(1) sz] n H(1) by blast
qed

section \<open>Adding a pool\<close>

lemma tlsf_lists_cong:
  assumes L: "tlsf_lists c F s" and e: "next_free s' = next_free s" "prev_free s' = prev_free s" "controls s' = controls s"
    and b: "\<And>i j b. i < 25 \<Longrightarrow> j < 32 \<Longrightarrow> b \<in> set (F i j) \<Longrightarrow> block_size b s' = block_size b s"
  shows "tlsf_lists c F s'"
proof -
  have "flist c p x xs s' \<longleftrightarrow> flist c p x xs s" for p x xs
    using flist_cong [of c p x xs s s'] flist_cong [of c p x xs s' s] e by auto
  then show ?thesis using L e b unfolding tlsf_lists_def by simp
qed

lemmas header_defs = set_bsize_def block_set_prev_used_def block_set_prev_free_def block_set_free_def
  block_set_used_def block_set_size_def Let_def

lemma align_down_8:
  assumes "align_down x 8 = Some p"
  shows "p AND 7 = 0" "p AND 3 = 0"
proof -
  have m: "(7 :: u64) = mask 3" by (simp add: mask_eq_exp_minus_1)
  have "p = x - (x AND 7)" using assms by (simp add: align_down_def check_def)
  then have "p = x - take_bit 3 x" by (simp only: m take_bit_eq_mask)
  then have "p = push_bit 3 (drop_bit 3 x)" using bits_ident [of 3 x] by (metis add_diff_cancel_right')
  then show "p AND 7 = 0" unfolding m by (simp flip: take_bit_eq_mask add: take_bit_push_bit)
  moreover have "p AND 3 = (p AND 7) AND 3" by (simp add: and.assoc)
  ultimately show "p AND 3 = 0" by simp
qed

lemma pool_sentinel:
  assumes L: "tlsf_lists c F s" and b: "block_size b s = p" "p \<noteq> 0"
    and n: "n = b + 8 + p" "\<And>i j. i < 25 \<Longrightarrow> j < 32 \<Longrightarrow> n \<notin> set (F i j)"
  obtains s1 s' where "block_link_next b s = Some (n, s1)"
    "s' = block_set_prev_free n (block_set_used n (block_set_size n 0 s1))" "tlsf_lists c F s'"
    "\<forall>x. block_size x s' = (if x = n then 0 else block_size x s)"
proof -
  define s1 where "s1 = s\<lparr>prev_phys_block := (prev_phys_block s)(n := b)\<rparr>"
  define s' where "s' = block_set_prev_free n (block_set_used n (block_set_size n 0 s1))"
  have link: "block_link_next b s = Some (n, s1)"
    using b by (simp add: block_link_next_def block_next_def block_is_last_def check_def
      offset_to_block_def block_to_ptr_def s1_def n(1) algebra_simps)
  have sz: "block_size x s' = (if x = n then 0 else block_size x s)" for x
    by (simp add: s'_def s1_def block_size_def [of x "s\<lparr>prev_phys_block := _\<rparr>"] block_size_def [of x s])
  have "tlsf_lists c F s'"
    by (rule tlsf_lists_cong [OF L]) (use n(2) in \<open>auto simp: sz\<close>, simp_all add: s'_def s1_def header_defs)
  then show thesis using that link sz s'_def by blast
qed

lemma add_pool_lists:
  assumes L: "tlsf_lists c F s" and m: "m AND 7 = 0" "m \<noteq> 8" "m - 8 \<noteq> c"
      "\<And>i j. i < 25 \<Longrightarrow> j < 32 \<Longrightarrow> m - 8 \<notin> set (F i j) \<and> m + p \<notin> set (F i j)"
    and p: "align_down (bytes - tlsf_pool_overhead) 8 = Some p" "24 \<le> p" "p < block_size_max"
  obtains s' i j where "mapping_insert p = (int i, int j)" "i < 25" "j < 32"
    "tlsf_add_pool c m bytes s = Some (m, s')" "tlsf_lists c (upd2 F i j ((m - 8) # F i j)) s'"
    "block_size (m - 8) s' = p"  "block_size (m + p) s' = 0"
proof -
  have al: "(8 + m) AND 7 = 0" using m(1) by (simp add: and_7 unat_word_ariths dvd_mod)
  have "unat (m mod 8) = 0" using m(1) by (simp add: and_7 unat_mod del: unat_eq_zero)
  then have m8: "m mod 8 = 0" by (rule unat_eq_zero [THEN iffD1])
  have p3: "p AND 3 = 0" by (rule align_down_8 [OF p(1)])
  have lt: "unat p < 2 ^ 32" using p(3) by (simp add: word_less_nat_alt)
  have p0: "p \<noteq> 0" using p(2) by (cases "p = 0") simp_all
  have far: "m + p \<noteq> m - 8"
  proof
    assume "m + p = m - 8"
    then have "m + p = m + - 8" by simp
    then have "p = - 8" unfolding add_left_cancel .
    then show False using p(3) by simp
  qed
  define s0 where "s0 = block_set_prev_used (m - 8) (block_set_free (m - 8) (block_set_size (m - 8) p s))"
  have bs: "block_size b s0 = (if b = m - 8 then p else block_size b s)" for b
    using p3 by (simp add: s0_def)
  have L0: "tlsf_lists c F s0"
  proof (rule tlsf_lists_cong [OF L])
    show "block_size b s0 = block_size b s" if "i < 25" "j < 32" "b \<in> set (F i j)" for i j b
      using m(4) [OF that(1,2)] that(3) by (auto simp: bs)
  qed (simp_all add: s0_def header_defs)
  obtain i j s1 where I: "mapping_insert (block_size (m - 8) s0) = (int i, int j)" "i < 25" "j < 32"
    "block_insert c (m - 8) s0 = Some s1"
    "tlsf_lists c (upd2 F i j ((m - 8) # F i j)) s1" "same_headers s0 s1"
    by (rule block_insert_spec [OF L0, of "m - 8"]) (use m al lt in \<open>simp_all add: bs\<close>)
  have sz1: "block_size b s1 = (if b = m - 8 then p else block_size b s)" for b
    using same_headers_fields(4) [OF I(6)] bs by simp
  have nl: "m + p \<notin> set (upd2 F i j ((m - 8) # F i j) i' j')" if "i' < 25" "j' < 32" for i' j'
    using m(4) [OF that] far by (auto simp: upd2_apply)
  obtain s2 s' where S: "block_link_next (m - 8) s1 = Some (m + p, s2)"
    "s' = block_set_prev_free (m + p) (block_set_used (m + p) (block_set_size (m + p) 0 s2))"
    "tlsf_lists c (upd2 F i j ((m - 8) # F i j)) s'"
    "\<forall>x. block_size x s' = (if x = m + p then 0 else block_size x s1)"
    by (rule pool_sentinel [OF I(5) sz1 [of "m - 8", simplified] p0 _ nl]) simp_all
  have "\<not> p < 24" "\<not> block_size_max < p" using p(2,3) by (simp_all add: not_less)
  then have "tlsf_add_pool c m bytes s = Some (m, s')"
    using m8 by (simp add: tlsf_add_pool_def p(1) offset_to_block_def I(4) [unfolded s0_def] S(1,2) Let_def)
  then show thesis using that I(1-3) S(3,4) sz1 [of "m - 8"] far by (simp add: bs)
qed



end
