(* ===== verification/Kmem.thy ===== *)
theory Kmem
  imports Tlsf
begin

text \<open>
  The kernel heap front end of \<^verbatim>\<open>kernel/mm/kmem.c\<close>: each processor owns a TLSF heap, grown by
  blocks of at least 16 pages from the page allocator, and a block is freed by its owner. The
  pointer \<open>curcpu\<close> is the index of the running processor. \<open>None\<close> is a halted machine (a failed
  assertion of the heap), a null pointer is 0.
\<close>

record kmem_t = heap_t +
  this_cpu :: u32

definition set_owner :: "u64 \<Rightarrow> 'z kmem_t_scheme \<Rightarrow> 'z kmem_t_scheme" where
  \<comment> \<open>\<open>pfn_to_page(pfn)->owner_cpu_id = curcpu->id\<close>\<close>
  "set_owner pfn s =
     s\<lparr>mem_map := (mem_map s)(pfn := (mem_map s pfn)\<lparr>owner_cpu_id := ucast (this_cpu s)\<rparr>)\<rparr>"

definition kmalloc_order :: "u64 \<Rightarrow> u64" where
  \<comment> \<open>the order asked of the page allocator for a request of \<open>sz\<close> bytes\<close>
  "kmalloc_order sz =
     (let alloc_bytes = sz + 64;
          pages = drop_bit PAGE_SHIFT (alloc_bytes + PAGE_SIZE - 1);
          req_order = (if pages \<le> 1 then 0 else of_int (32 - builtin_clz (ucast (pages - 1))))
      in if req_order < 4 then 4 else req_order)"

definition heap_grow :: "u64 \<Rightarrow> 'z kmem_t_scheme \<Rightarrow> (bool \<times> 'z kmem_t_scheme) option" where
  \<comment> \<open>the common tail of the slow paths: a new pool of \<open>2 ^ order\<close> pages; \<open>False\<close> when the page
    allocator has none\<close>
  "heap_grow order s =
     (let (phys_ptr, s) = pmm_alloc_pages (int (unat order)) s
      in if phys_ptr = 0 then Some (False, s)
         else do {
           let page_count = push_bit (unat order) 1;
           let base_pfn = phys_to_pfn phys_ptr;
           let s = for_range 0 page_count (\<lambda>i. set_owner (base_pfn + i)) s;
           let pool_ptr = phys_to_virt phys_ptr;
           let pool_bytes = push_bit PAGE_SHIFT page_count;
           (_, s) \<leftarrow> tlsf_add_pool (tlsf_ctrl s (this_cpu s)) pool_ptr pool_bytes s;
           Some (True, s)})"

definition kmalloc :: "u64 \<Rightarrow> 'z kmem_t_scheme \<Rightarrow> (u64 \<times> 'z kmem_t_scheme) option" where
  "kmalloc sz s =
     (if sz = 0 then Some (0, s)
      else do {
        (ptr, s) \<leftarrow> tlsf_malloc (tlsf_ctrl s (this_cpu s)) sz s;
        if ptr \<noteq> 0 then Some (ptr, s)
        else do {
          s \<leftarrow> tlsf_flush_pending (this_cpu s) s;
          (ptr, s) \<leftarrow> tlsf_malloc (tlsf_ctrl s (this_cpu s)) sz s;
          if ptr \<noteq> 0 then Some (ptr, s)
          else do {
            (ok, s) \<leftarrow> heap_grow (kmalloc_order sz) s;
            if \<not> ok then Some (0, s)
            else tlsf_malloc (tlsf_ctrl s (this_cpu s)) sz s}}})"

definition owner_of :: "u64 \<Rightarrow> 'z kmem_t_scheme \<Rightarrow> u32" where
  \<comment> \<open>\<open>id_to_cpu(virt_to_page(ptr)->owner_cpu_id)\<close>\<close>
  "owner_of ptr s = ucast (owner_cpu_id (mem_map s (virt_to_page ptr)))"

definition kfree :: "u64 \<Rightarrow> 'z kmem_t_scheme \<Rightarrow> 'z kmem_t_scheme option" where
  "kfree ptr s =
     (if ptr = 0 then Some s
      else let owner = owner_of ptr s
           in if this_cpu s = owner then tlsf_free (tlsf_ctrl s (this_cpu s)) ptr s
              else Some (tlsf_push_pending owner ptr s))"

definition krealloc :: "u64 \<Rightarrow> u64 \<Rightarrow> 'z kmem_t_scheme \<Rightarrow> (u64 \<times> 'z kmem_t_scheme) option" where
  "krealloc ptr sz s =
     (if ptr = 0 then kmalloc sz s
      else if sz = 0 then do { s \<leftarrow> kfree ptr s; Some (0, s)}
      else if this_cpu s \<noteq> owner_of ptr s then do {
        let old_size = tlsf_block_size ptr s - tlsf_alloc_overhead;
        (new_ptr, s) \<leftarrow> kmalloc sz s;
        if new_ptr = 0 then Some (0, s)
        else do {
          let s = s\<lparr>mem := memcpy new_ptr ptr (if sz < old_size then sz else old_size) (mem s)\<rparr>;
          s \<leftarrow> kfree ptr s;
          Some (new_ptr, s)}}
      else do {
        (new_ptr, s) \<leftarrow> tlsf_realloc (tlsf_ctrl s (this_cpu s)) ptr sz s;
        if new_ptr \<noteq> 0 then Some (new_ptr, s)
        else do {
          s \<leftarrow> tlsf_flush_pending (this_cpu s) s;
          (new_ptr, s) \<leftarrow> tlsf_realloc (tlsf_ctrl s (this_cpu s)) ptr sz s;
          if new_ptr \<noteq> 0 then Some (new_ptr, s)
          else do {
            (ok, s) \<leftarrow> heap_grow (kmalloc_order sz) s;
            if \<not> ok then Some (0, s)
            else tlsf_realloc (tlsf_ctrl s (this_cpu s)) ptr sz s}}})"

definition kmalloc_aligned :: "u64 \<Rightarrow> u64 \<Rightarrow> 'z kmem_t_scheme \<Rightarrow> (u64 \<times> 'z kmem_t_scheme) option" where
  "kmalloc_aligned sz alignment s =
     (if alignment = 0 then Some (0, s)
      else do {
        (raw, s) \<leftarrow> kmalloc (sz + alignment + 8) s;
        if raw = 0 then Some (0, s)
        else do {
          let addr = raw + 8;
          let rem = addr mod alignment;
          let aligned = addr + (if rem \<noteq> 0 then alignment - rem else 0);
          Some (aligned, s\<lparr>mem := store64 (aligned - 8) raw (mem s)\<rparr>)}})"

definition kfree_aligned :: "u64 \<Rightarrow> 'z kmem_t_scheme \<Rightarrow> 'z kmem_t_scheme option" where
  "kfree_aligned ptr s =
     (if ptr = 0 then Some s else kfree (load64 (ptr - 8) (mem s)) s)"

definition percpu_tlsf_init :: "'z kmem_t_scheme \<Rightarrow> (int \<times> 'z kmem_t_scheme) option" where
  "percpu_tlsf_init s =
     (let order = 4;
          page_count = push_bit order (1 :: u64);
          init_pool_size = push_bit PAGE_SHIFT page_count;
          (phys_ptr, s) = pmm_alloc_pages (int order) s
      in if phys_ptr = 0 then Some (- 1, s)
         else do {
           let base_pfn = phys_to_pfn phys_ptr;
           let s = for_range 0 page_count (\<lambda>i. set_owner (base_pfn + i)) s;
           let pool_ptr = phys_to_virt phys_ptr;
           (c, s) \<leftarrow> tlsf_create_with_pool pool_ptr init_pool_size s;
           Some (0, s\<lparr>tlsf_ctrl := (tlsf_ctrl s)(this_cpu s := c)\<rparr>)})"

end
