(* ===== verification/Kernel_State.thy ===== *)
theory Kernel_State
  imports Kmem
begin

text \<open>
  The state of the kernel above the memory allocators. A \<open>struct thread *\<close>, \<open>pmap_t *\<close>,
  \<open>struct futex_waitq *\<close> or \<open>struct grant_entry *\<close> is the address its allocator returned; the
  objects of one type form a map from addresses to records, and the list nodes embedded in
  them are names built from the address of the object and the field. The queues that share no nodes are kept in separate
  link stores: run queues (\<open>sched_list\<close>), endpoint queues (\<open>ipc_list\<close> and \<open>ipc_wait_list\<close>),
  futex buckets and waiters, and grant lists. Page tables are ordinary memory (\<open>mem\<close>).
  The kernel runs on one processor here; the locks that protect the structures against others
  are verified on their own.
\<close>

section \<open>Constants of the headers\<close>

abbreviation (input) MLFQ_LEVELS :: nat where "MLFQ_LEVELS \<equiv> 4"
abbreviation (input) BOOST_PERIOD :: u64 where "BOOST_PERIOD \<equiv> 50"
abbreviation (input) IPC_MSG_WORDS :: nat where "IPC_MSG_WORDS \<equiv> 5"
abbreviation (input) THREAD_KSTACK_SIZE :: u64 where "THREAD_KSTACK_SIZE \<equiv> 16384"
abbreviation (input) USER_STACK_TOP :: u64 where "USER_STACK_TOP \<equiv> 0x7ffffffff000"
abbreviation (input) PROT_READ :: u32 where "PROT_READ \<equiv> 1"
abbreviation (input) PROT_WRITE :: u32 where "PROT_WRITE \<equiv> 2"
abbreviation (input) PROT_EXEC :: u32 where "PROT_EXEC \<equiv> 4"
abbreviation (input) PROT_USER :: u32 where "PROT_USER \<equiv> 8"
abbreviation (input) PROT_WC :: u32 where "PROT_WC \<equiv> 0x10"
abbreviation (input) PROT_GLOBAL :: u32 where "PROT_GLOBAL \<equiv> 0x20"
abbreviation (input) PROT_HUGE :: u32 where "PROT_HUGE \<equiv> 0x40"

section \<open>Threads\<close>

datatype thread_state_t = THREAD_CREATED | THREAD_READY | THREAD_RUNNING | THREAD_BLOCKED | THREAD_TERMINATED

datatype ipc_endpoint_state_t = IPC_EP_INACTIVE | IPC_EP_WAIT_SEND | IPC_EP_WAIT_RECV

record trapframe =
  r15 :: u64
  r14 :: u64
  r13 :: u64
  r12 :: u64
  r11 :: u64
  r10 :: u64
  r9 :: u64
  r8 :: u64
  rbp :: u64
  rdi :: u64
  rsi :: u64
  rdx :: u64
  rcx :: u64
  rbx :: u64
  rax :: u64
  vector :: u64
  error :: u64
  rip :: u64
  cs :: u64
  rflags :: u64
  rsp :: u64
  ss :: u64

record thread =
  arch_rsp :: u64
  fs_base :: u64
  xsaves_area :: u64
  t_pmap :: u64
  tf :: trapframe
  tid :: u64
  pid :: u64
  state :: thread_state_t
  current_level :: u32
  time_quantum_left :: u32
  total_cpu_time :: u64
  cpu_affinity :: u32
  ep_state :: ipc_endpoint_state_t
  home_cpu :: u32
  ipc_msg :: "u64 list"
  ipc_sender :: u64
  ipc_prev_seq :: u64
  ipc_call_seq :: u64
  pager_tid :: u64
  utcb :: u64
  exception_pager_tid :: u64

section \<open>The other kernel objects\<close>

record pmap_t =
  pm_root_virt :: u64
  pm_root_phys :: u64

record grant_entry =
  ge_pfn :: u64
  ge_rights :: u8

datatype sched_node = RunqHead nat | SchedNode u64

datatype ipc_node = EpHead u64 | IpcNode u64 | IpcWaitNode u64

datatype futex_node = BucketHead nat | HashNode u64 | WaitersHead u64 | FutexNode u64

datatype grant_node = GrantHead u64 | GrantNode u64

record kernel = kmem_t +
  threads :: "u64 \<Rightarrow> thread"
  current :: u64
  runq :: "sched_node dlinks"
  sched_ticks :: u64
  g_threads :: "u64 list"
  g_threads_ptr :: u64
  g_next_tid :: u32
  ipcq :: "ipc_node dlinks"
  futexq :: "futex_node dlinks"
  wq_phys :: "u64 \<Rightarrow> u64"
  pmaps :: "u64 \<Rightarrow> pmap_t"
  kernel_pmap :: u64
  cr3 :: u64
  kstack_top :: u64
  grantq :: "grant_node dlinks"
  grants :: "u64 \<Rightarrow> grant_entry"
  g_root_pmap :: u64
  g_frames :: u64
  g_refs :: "u64 \<Rightarrow> u16"
  g_maps :: "u64 \<Rightarrow> u16"
  g_pool :: u64
  xsave_size :: u32
  console :: "u8 list"

definition upd_thread :: "u64 \<Rightarrow> (thread \<Rightarrow> thread) \<Rightarrow> kernel \<Rightarrow> kernel" where
  \<comment> \<open>assignments to fields of \<open>*t\<close>\<close>
  "upd_thread t f s = s\<lparr>threads := (threads s)(t := f (threads s t))\<rparr>"

section \<open>The state before initialisation\<close>

text \<open>Static storage is zero when the kernel is entered: all integers 0, all pointers null.\<close>

definition tf_zero :: trapframe where
  "tf_zero = \<lparr>r15 = 0, r14 = 0, r13 = 0, r12 = 0, r11 = 0, r10 = 0, r9 = 0, r8 = 0, rbp = 0, rdi = 0,
     rsi = 0, rdx = 0, rcx = 0, rbx = 0, rax = 0, vector = 0, error = 0, rip = 0, cs = 0, rflags = 0,
     rsp = 0, ss = 0\<rparr>"

definition thread_zero :: thread where
  \<comment> \<open>a \<open>struct thread\<close> after \<open>memset(t, 0, sizeof(*t))\<close>\<close>
  "thread_zero = \<lparr>arch_rsp = 0, fs_base = 0, xsaves_area = 0, t_pmap = 0, tf = tf_zero, tid = 0, pid = 0,
     state = THREAD_CREATED, current_level = 0, time_quantum_left = 0, total_cpu_time = 0,
     cpu_affinity = 0, ep_state = IPC_EP_INACTIVE, home_cpu = 0, ipc_msg = replicate IPC_MSG_WORDS 0,
     ipc_sender = 0, ipc_prev_seq = 0, ipc_call_seq = 0, pager_tid = 0, utcb = 0, exception_pager_tid = 0\<rparr>"

definition links_zero :: "'n dlinks" where
  "links_zero = \<lparr>nxt = (\<lambda>_. None), prv = (\<lambda>_. None), fault = False\<rparr>"

definition control_zero :: control_t where
  "control_zero = \<lparr>fl_bitmap = 0, sl_bitmap = (\<lambda>_. 0), blocks = (\<lambda>_ _. 0)\<rparr>"

definition kernel_zero :: kernel where
  "kernel_zero = \<lparr>links = links_zero, free_count = (\<lambda>_. 0), mem_map = (\<lambda>_. page_zero), mem_map_phys = 0,
     mem_map_size = 0, total_pages = 0, free_pages = 0,
     mem = (\<lambda>_. 0), prev_phys_block = (\<lambda>_. 0), bsize = (\<lambda>_. 0), next_free = (\<lambda>_. 0), prev_free = (\<lambda>_. 0),
     controls = (\<lambda>_. control_zero), tlsf_ctrl = (\<lambda>_. 0), pending_free_list = (\<lambda>_. 0), this_cpu = 0,
     threads = (\<lambda>_. thread_zero), current = 0, runq = links_zero, sched_ticks = 0, g_threads = [],
     g_threads_ptr = 0, g_next_tid = 0, ipcq = links_zero, futexq = links_zero, wq_phys = (\<lambda>_. 0),
     pmaps = (\<lambda>_. \<lparr>pm_root_virt = 0, pm_root_phys = 0\<rparr>), kernel_pmap = 0, cr3 = 0, kstack_top = 0, grantq = links_zero,
     grants = (\<lambda>_. \<lparr>ge_pfn = 0, ge_rights = 0\<rparr>), g_root_pmap = 0, g_frames = 0, g_refs = (\<lambda>_. 0),
     g_maps = (\<lambda>_. 0), g_pool = 0, xsave_size = 0, console = []\<rparr>"

lemma no_lists [simp]: "dlists links_zero {} L"
  by (simp add: dlists_def links_zero_def)

lemma init_many:
  \<comment> \<open>initialising the heads of a table of lists one after the other\<close>
  assumes "dlists st {} L" "inj f"
  shows "dlists (fold (\<lambda>i. list_init (f i)) [0..<n] st) (f ` {..<n}) (\<lambda>_. [])"
proof (induction n)
  case 0
  then show ?case using assms by (simp add: dlists_def)
next
  case (Suc n)
  then show ?case
    using dlists_init [OF Suc, of "f n"] assms(2)
    by (auto simp: members_def lessThan_Suc inj_def fun_upd_idem)
qed

end
