(* ===== verification/Kmem_Spec.thy ===== *)
theory Kmem_Spec
  imports Kernel_State Tlsf_Spec
begin

text \<open>
  What the heap front end leaves alone, and what it returns. \<open>rest\<close> and \<open>krest\<close> forget the parts
  of the state that the heap (the heap and the page allocator) may change; every operation keeps
  what remains, in particular memory and all other kernel objects. On top of it stand the
  alignment contract of \<open>kmalloc_aligned\<close>, its round trip through \<open>kfree_aligned\<close>, and a request
  that fails although the heap has just been grown for it.
\<close>

section \<open>The frame of the heap\<close>

definition rest :: "'z heap_t_scheme \<Rightarrow> 'z heap_t_scheme" where
  "rest s = s\<lparr>prev_phys_block := (\<lambda>_. 0), bsize := (\<lambda>_. 0), next_free := (\<lambda>_. 0), prev_free := (\<lambda>_. 0),
     controls := (\<lambda>_. \<lparr>fl_bitmap = 0, sl_bitmap = (\<lambda>_. 0), blocks = (\<lambda>_ _. 0)\<rparr>)\<rparr>"

lemma rest_simps [simp]:
  "rest (s\<lparr>prev_phys_block := a\<rparr>) = rest s" "rest (s\<lparr>bsize := b\<rparr>) = rest s"
  "rest (s\<lparr>next_free := f\<rparr>) = rest s" "rest (s\<lparr>prev_free := g\<rparr>) = rest s" "rest (s\<lparr>controls := k\<rparr>) = rest s"
  by (simp_all add: rest_def)

lemma rest_total [simp]:
  "rest (set_bsize block v s) = rest s" "rest (block_set_size block sz s) = rest s"
  "rest (block_set_free block s) = rest s" "rest (block_set_used block s) = rest s"
  "rest (block_set_prev_free block s) = rest s" "rest (block_set_prev_used block s) = rest s"
  "rest (set_control c k s) = rest s" "rest (control_construct c s) = rest s"
  by (simp_all add: set_bsize_def block_set_size_def block_set_free_def block_set_used_def block_set_prev_free_def
      block_set_prev_used_def set_control_def control_construct_def Let_def)

named_theorems frames

lemmas frame_splits = Option.bind_splits if_splits prod.splits

lemma block_link_next_rest [frames]: "block_link_next b s = Some (n, s') \<Longrightarrow> rest s' = rest s"
  by (auto simp: block_link_next_def split: frame_splits)

lemma block_marks_rest [frames]:
  "block_mark_as_free b s = Some s' \<Longrightarrow> rest s' = rest s"
  "block_mark_as_used b s = Some s' \<Longrightarrow> rest s' = rest s"
  by (auto simp: block_mark_as_free_def block_mark_as_used_def Let_def split: frame_splits dest!: frames)

lemma free_block_rest [frames]:
  "remove_free_block c b fl sl s = Some s' \<Longrightarrow> rest s' = rest s"
  "insert_free_block c b fl sl s = Some s' \<Longrightarrow> rest s' = rest s"
  by (auto simp: remove_free_block_def insert_free_block_def Let_def split: frame_splits dest!: frames)

lemma block_lists_rest [frames]:
  "block_remove c b s = Some s' \<Longrightarrow> rest s' = rest s"
  "block_insert c b s = Some s' \<Longrightarrow> rest s' = rest s"
  by (auto simp: block_remove_def block_insert_def split: frame_splits dest!: frames)

lemma block_split_rest [frames]: "block_split b sz s = Some (r, s') \<Longrightarrow> rest s' = rest s"
  by (auto simp: block_split_def Let_def split: frame_splits dest!: frames)

lemma block_absorb_rest [frames]: "block_absorb p b s = Some (r, s') \<Longrightarrow> rest s' = rest s"
  by (auto simp: block_absorb_def Let_def split: frame_splits dest!: frames)

lemma block_merge_rest [frames]:
  "block_merge_prev c b s = Some (r, s') \<Longrightarrow> rest s' = rest s"
  "block_merge_next c b s = Some (r, s') \<Longrightarrow> rest s' = rest s"
  by (auto simp: block_merge_prev_def block_merge_next_def Let_def split: frame_splits dest!: frames)

lemma block_trim_rest [frames]:
  "block_trim_free c b sz s = Some s' \<Longrightarrow> rest s' = rest s"
  "block_trim_used c b sz s = Some s' \<Longrightarrow> rest s' = rest s"
  by (auto simp: block_trim_free_def block_trim_used_def Let_def split: frame_splits dest!: frames)

lemma block_locate_free_rest [frames]: "block_locate_free c sz s = Some (b, s') \<Longrightarrow> rest s' = rest s"
  by (auto simp: block_locate_free_def Let_def split: frame_splits dest!: frames)

lemma block_prepare_used_rest [frames]: "block_prepare_used c b sz s = Some (p, s') \<Longrightarrow> rest s' = rest s"
  by (auto simp: block_prepare_used_def Let_def split: frame_splits dest!: frames)

lemma tlsf_malloc_rest [frames]: "tlsf_malloc c sz s = Some (p, s') \<Longrightarrow> rest s' = rest s"
  by (auto simp: tlsf_malloc_def Let_def split: frame_splits dest!: frames)

lemma tlsf_free_rest [frames]: "tlsf_free c p s = Some s' \<Longrightarrow> rest s' = rest s"
  by (auto simp: tlsf_free_def Let_def split: frame_splits dest!: frames)

lemma tlsf_add_pool_rest [frames]: "tlsf_add_pool c m n s = Some (p, s') \<Longrightarrow> rest s' = rest s"
  by (auto simp: tlsf_add_pool_def Let_def split: frame_splits dest!: frames)


lemma tlsf_create_with_pool_rest [frames]:
  "tlsf_create_with_pool m n s = Some (p, s') \<Longrightarrow> rest s' = rest s"
  by (auto simp: tlsf_create_with_pool_def tlsf_create_def Let_def split: frame_splits dest!: frames)

lemma flush_loop_rest [frames]: "flush_loop c p s = Some s' \<Longrightarrow> rest s' = rest s"
proof (rule flush_loop.raw_induct [of "\<lambda>c p s s'. rest s' = rest s"])
  fix fl c p and s s' :: "'a heap_t_scheme"
  assume "\<And>c p s s'. fl c p s = Some s' \<Longrightarrow> rest s' = rest s"
    and "(if p \<noteq> 0 then do {
        let next = next_free s p;
        let ptr = p + block_start_offset;
        s \<leftarrow> tlsf_free c ptr s;
        fl c next s}
      else Some s) = Some s'"
  then show "rest s' = rest s" by (auto simp: Let_def split: frame_splits dest!: frames)
qed

section \<open>The frame of the page allocator\<close>

definition pmm_rest :: "'z pmm_t_scheme \<Rightarrow> 'z pmm_t_scheme" where
  "pmm_rest s = s\<lparr>links := \<lparr>nxt = (\<lambda>_. None), prv = (\<lambda>_. None), fault = False\<rparr>, free_count := (\<lambda>_. 0),
     mem_map := (\<lambda>_. page_zero), free_pages := 0\<rparr>"

lemma pmm_rest_simps [simp]:
  "pmm_rest (s\<lparr>links := l\<rparr>) = pmm_rest s" "pmm_rest (s\<lparr>free_count := n\<rparr>) = pmm_rest s"
  "pmm_rest (s\<lparr>mem_map := m\<rparr>) = pmm_rest s" "pmm_rest (s\<lparr>free_pages := k\<rparr>) = pmm_rest s"
  "pmm_rest (set_is_free p v s) = pmm_rest s" "pmm_rest (count_add k' d s) = pmm_rest s"
  by (simp_all add: pmm_rest_def set_is_free_def count_add_def)

lemma pmm_split_rest [simp]: "pmm_rest (pmm_split order cur pfn s) = pmm_rest s"
  by (induction order cur pfn s rule: pmm_split.induct) (subst pmm_split.simps, simp add: Let_def)

lemma pmm_alloc_scan_rest [simp]: "pmm_rest (snd (pmm_alloc_scan order cur s)) = pmm_rest s"
  by (induction order cur s rule: pmm_alloc_scan.induct) (subst pmm_alloc_scan.simps, simp add: Let_def)

lemma pmm_alloc_rest [frames]: "pmm_alloc_pages order s = (p, s') \<Longrightarrow> pmm_rest s' = pmm_rest s"
  using pmm_alloc_scan_rest [of "nat order" "nat order" s]
  by (simp add: pmm_alloc_pages_def split: if_splits) (metis snd_conv pmm_alloc_scan_rest)

lemma pmm_merge_rest: "pmm_merge cur pfn s = (c, p, s') \<Longrightarrow> pmm_rest s' = pmm_rest s"
  by (induction cur pfn s rule: pmm_merge.induct)
    (subst (asm) (2) pmm_merge.simps, auto simp: Let_def split: if_splits)

lemma pmm_free_rest [simp]: "pmm_rest (pmm_free_pages a order s) = pmm_rest s"
  by (auto simp: pmm_free_pages_def Let_def split: prod.splits dest: pmm_merge_rest)

section \<open>The frame of the front end\<close>

definition krest :: "'z heap_t_scheme \<Rightarrow> 'z heap_t_scheme" where
  "krest s = (pmm_rest (rest s))\<lparr>pending_free_list := (\<lambda>_. 0)\<rparr>"

lemma krest_alt: "krest s = (rest (pmm_rest s))\<lparr>pending_free_list := (\<lambda>_. 0)\<rparr>"
  by (simp add: krest_def pmm_rest_def rest_def)

lemma krest_simps [simp]:
  "krest (s\<lparr>pending_free_list := p\<rparr>) = krest s" "krest (s\<lparr>mem_map := m\<rparr>) = krest s"
  "krest (s\<lparr>next_free := f\<rparr>) = krest s"
  by (simp_all add: krest_def rest_def pmm_rest_def)

lemma krest_rest: "rest s' = rest s \<Longrightarrow> krest s' = krest s" by (simp add: krest_def)

lemma krest_pmm: "pmm_rest s' = pmm_rest s \<Longrightarrow> krest s' = krest s" by (simp add: krest_alt)

lemma set_owners_krest [simp]: "krest (for_range 0 n (\<lambda>i. set_owner (b + i)) s) = krest s"
  by (rule for_range_keeps) (simp add: set_owner_def)

lemma heap_grow_krest: "heap_grow order s = Some (ok, s') \<Longrightarrow> krest s' = krest s"
  by (auto simp: heap_grow_def Let_def split: frame_splits dest!: tlsf_add_pool_rest [THEN krest_rest]
     pmm_alloc_rest [THEN krest_pmm])

lemma tlsf_flush_pending_krest: "tlsf_flush_pending cpu s = Some s' \<Longrightarrow> krest s' = krest s"
  by (auto simp: tlsf_flush_pending_def Let_def split: if_splits dest!: flush_loop_rest [THEN krest_rest])

lemma kmalloc_krest: "kmalloc sz s = Some (p, s') \<Longrightarrow> krest s' = krest s"
  by (auto simp: kmalloc_def Let_def split: frame_splits dest!: tlsf_malloc_rest [THEN krest_rest]
      tlsf_flush_pending_krest heap_grow_krest)

lemma kfree_krest: "kfree p s = Some s' \<Longrightarrow> krest s' = krest s"
  by (auto simp: kfree_def tlsf_push_pending_def Let_def split: if_splits dest!: tlsf_free_rest [THEN krest_rest])


section \<open>Growing the heap\<close>

lemma pmm_rest_fields:
  assumes "pmm_rest s' = pmm_rest (s :: 'z heap_t_scheme)"
  shows "next_free s' = next_free s" "prev_free s' = prev_free s" "controls s' = controls s" "bsize s' = bsize s"
    "heap_t.more s' = heap_t.more s" "tlsf_ctrl s' = tlsf_ctrl s" "pending_free_list s' = pending_free_list s"
    "mem s' = mem s"
  using arg_cong [OF assms, of next_free] arg_cong [OF assms, of prev_free] arg_cong [OF assms, of controls]
    arg_cong [OF assms, of bsize] arg_cong [OF assms, of heap_t.more] arg_cong [OF assms, of tlsf_ctrl]
    arg_cong [OF assms, of pending_free_list] arg_cong [OF assms, of mem]
  by (simp_all add: pmm_rest_def)

lemma tlsf_malloc_fails:
  assumes L: "tlsf_lists c F s" and e: "\<And>i j. 9 \<le> i \<Longrightarrow> i < 25 \<Longrightarrow> j < 32 \<Longrightarrow> F i j = []"
  shows "tlsf_malloc c 65000 s = Some (0, s)"
proof -
  have m: "mapping_search 65000 = (9, 0)" by code_simp
  have a: "adjust_request_size 65000 8 = Some 65000" by code_simp
  have t: "in_table 9 0" by (simp add: in_table_def)
  have "F (nat i) (nat j) = []" if "in_table i j" "9 < i \<or> 9 = i \<and> 0 \<le> j" for i j
    by (rule e) (use that in \<open>auto simp: in_table_def\<close>)
  then have "search_suitable_block c 9 0 s = Some (0, 9, 0)"
    using search_suitable_block_spec [OF L t] by blast
  then show ?thesis by (simp add: tlsf_malloc_def a block_locate_free_def m block_prepare_used_def)
qed

lemma rest_fields:
  assumes "rest s' = rest s"
  shows "links s' = links s" "free_pages s' = free_pages s" "mem_map s' = mem_map s" "mem s' = mem s"
    "tlsf_ctrl s' = tlsf_ctrl s" "heap_t.more s' = heap_t.more s"
  using arg_cong [OF assms, of links] arg_cong [OF assms, of free_pages] arg_cong [OF assms, of mem_map]
    arg_cong [OF assms, of mem] arg_cong [OF assms, of tlsf_ctrl] arg_cong [OF assms, of heap_t.more]
  by (simp_all add: rest_def)

lemma new_pool:
  assumes L: "tlsf_lists c F s" and m: "m AND 7 = 0" "m \<noteq> 8" "m - 8 \<noteq> c"
      "\<And>i j. i < 25 \<Longrightarrow> j < 32 \<Longrightarrow> m - 8 \<notin> set (F i j) \<and> m + 65520 \<notin> set (F i j)"
  obtains s' where "tlsf_add_pool c m 65536 s = Some (m, s')" "tlsf_lists c (upd2 F 8 31 ((m - 8) # F 8 31)) s'"
    "block_size (m - 8) s' = 65520"
proof -
  have mi: "mapping_insert 65520 = (8, 31)" by code_simp
  have ad: "align_down (65536 - tlsf_pool_overhead) 8 = Some 65520" by code_simp
  obtain s' i j where "mapping_insert 65520 = (int i, int j)" "tlsf_add_pool c m 65536 s = Some (m, s')"
    "tlsf_lists c (upd2 F i j ((m - 8) # F i j)) s'" "block_size (m - 8) s' = 65520"
    by (rule add_pool_lists [OF L m ad]) simp_all
  then show thesis using that mi by simp
qed


lemma set_owners_pmm_rest: "pmm_rest (for_range 0 n (\<lambda>i. set_owner (b + i)) s) = pmm_rest s"
  by (rule for_range_keeps) (simp add: set_owner_def)

lemma set_owners_free_pages [simp]: "free_pages (for_range 0 n (\<lambda>i. set_owner (b + i)) s) = free_pages s"
  by (rule for_range_keeps) (simp add: set_owner_def)

lemma more_this_cpu: "heap_t.more s' = heap_t.more s \<Longrightarrow> this_cpu s' = this_cpu s"
  by (cases s; cases s') simp

text \<open>A request of 65000 bytes that finds the heap without a block of the classes searched
  (first-level classes 9 and up) fails even though the page allocator has the 16 pages that
  \<open>kmalloc\<close> asks it for: the pages become a free block of 65520 bytes, large enough for the
  request, but in class (8, 31), while the search rounds the request up to class (9, 0). The
  pages stay with the heap.\<close>

theorem kmalloc_grows_in_vain:
  fixes s :: "'z kmem_t_scheme"
  defines "c \<equiv> tlsf_ctrl s (this_cpu s)"
  assumes L: "tlsf_lists c F s" and small: "\<And>i j. 9 \<le> i \<Longrightarrow> i < 25 \<Longrightarrow> j < 32 \<Longrightarrow> F i j = []"
    and idle: "pending_free_list s (this_cpu s) = 0"
    and pages: "pmm_alloc_pages 4 s = (ph, s1)" "ph \<noteq> 0" "ph AND 7 = 0" "phys_to_virt ph \<noteq> 8"
    and new: "phys_to_virt ph - 8 \<noteq> c" "\<And>i j. i < 25 \<Longrightarrow> j < 32 \<Longrightarrow>
      phys_to_virt ph - 8 \<notin> set (F i j) \<and> phys_to_virt ph + 65520 \<notin> set (F i j)"
  shows "\<exists>s'. kmalloc 65000 s = Some (0, s') \<and> free_pages s' = free_pages s1 \<and>
    block_size (phys_to_virt ph - 8) s' = 65520"
proof -
  have ord: "kmalloc_order 65000 = 4" by code_simp
  have none: "tlsf_malloc c 65000 s = Some (0, s)" by (rule tlsf_malloc_fails [OF L small])
  have flush: "tlsf_flush_pending (this_cpu s) s = Some s" 
    using idle by (simp add: tlsf_flush_pending_def Let_def fun_upd_idem)
  define s2 where "s2 = for_range 0 16 (\<lambda>i. set_owner (phys_to_pfn ph + i)) s1"
  have r: "pmm_rest s2 = pmm_rest s" using pmm_alloc_rest [OF pages(1)] by (simp add: s2_def set_owners_pmm_rest)
  note f = pmm_rest_fields [OF r]
  have cpu2: "this_cpu s2 = this_cpu s" using f(5) by (rule more_this_cpu)
  have c2: "tlsf_ctrl s2 (this_cpu s2) = c" using f(6) cpu2 by (simp add: c_def)
  have al: "phys_to_virt ph AND 7 = 0"
    using pages(3) by (simp add: and_7 phys_to_virt_def unat_word_ariths dvd_mod)
  have L2: "tlsf_lists c F s2"
    by (rule tlsf_lists_cong [OF L f(1-3)]) (simp add: block_size_def f(4))
  obtain s3 where P: "tlsf_add_pool c (phys_to_virt ph) 65536 s2 = Some (phys_to_virt ph, s3)"
    "tlsf_lists c (upd2 F 8 31 ((phys_to_virt ph - 8) # F 8 31)) s3" "block_size (phys_to_virt ph - 8) s3 = 65520"
    by (rule new_pool [OF L2 al pages(4) new])
  have grow: "heap_grow 4 s = Some (True, s3)"
    using pages(1,2) P(1) c2 by (simp add: heap_grow_def s2_def)
  note g = rest_fields [OF tlsf_add_pool_rest [OF P(1)]]
  have c3: "tlsf_ctrl s3 (this_cpu s3) = c" using g(5) more_this_cpu [OF g(6)] c2 by simp
  have none3: "tlsf_malloc c 65000 s3 = Some (0, s3)"
    by (rule tlsf_malloc_fails [OF P(2)]) (simp add: upd2_apply small)
  have "kmalloc 65000 s = Some (0, s3)"
    using none flush grow none3 c3 unfolding c_def by (simp add: kmalloc_def ord)
  moreover have "free_pages s3 = free_pages s1" using g(2) by (simp add: s2_def)
  ultimately show ?thesis using P(3) by blast
qed

section \<open>Aligned allocation\<close>

text \<open>C32: a pointer returned by \<open>kmalloc_aligned\<close> is a multiple of the alignment, the \<open>sz\<close> bytes
  behind it lie inside the block that \<open>kmalloc\<close> returned, the address of that block is stored in
  the eight bytes in front of it (which also lie in the block), and \<open>kfree_aligned\<close> frees exactly
  that block. The block must not wrap around the address space.\<close>

theorem kmalloc_aligned_spec:
  assumes r: "kmalloc_aligned sz al s = Some (p, s')" and p: "p \<noteq> 0"
    and nowrap: "\<And>raw s1. kmalloc (sz + al + 8) s = Some (raw, s1) \<Longrightarrow> unat raw + unat sz + unat al + 8 < 2 ^ 64"
  shows "\<exists>raw s1. kmalloc (sz + al + 8) s = Some (raw, s1) \<and> raw \<noteq> 0 \<and> p mod al = 0 \<and> raw + 8 \<le> p \<and>
    unat p + unat sz \<le> unat raw + unat (sz + al + 8) \<and> load64 (p - 8) (mem s') = raw \<and>
    kfree_aligned p s' = kfree raw s'"
proof -
  from r p obtain raw s1 where k: "kmalloc (sz + al + 8) s = Some (raw, s1)" "raw \<noteq> 0" and al: "al \<noteq> 0"
    and ps: "p = raw + 8 + (if (raw + 8) mod al \<noteq> 0 then al - (raw + 8) mod al else 0)"
      "s' = s1\<lparr>mem := store64 (p - 8) raw (mem s1)\<rparr>"
    by (auto simp: kmalloc_aligned_def Let_def split: frame_splits)
  note nw = nowrap [OF k(1)]
  have u8: "unat (raw + 8) = unat raw + 8" using nw by (simp add: unat_word_ariths)
  have usz: "unat (sz + al + 8) = unat sz + unat al + 8" using nw by (simp add: unat_word_ariths)
  have al': "0 < unat al" using al by (simp add: unat_gt_0)
  define m where "m = (unat raw + 8) mod unat al"
  have m: "unat ((raw + 8) mod al) = m" by (simp add: unat_mod u8 m_def)
  have m_lt: "m < unat al" using al' by (simp add: m_def)
  have up: "unat p = unat raw + 8 + (if m \<noteq> 0 then unat al - m else 0)"
  proof (cases "m = 0")
    case True
    then have "(raw + 8) mod al = 0" using m by (metis unat_eq_zero)
    then show ?thesis using True u8 by (simp add: ps(1))
  next
    case False
    then have "(raw + 8) mod al \<noteq> 0" using m by (metis unat_0)
    moreover have "unat (al - (raw + 8) mod al) = unat al - m"
      using m m_lt by (simp add: unat_sub word_le_nat_alt)
    ultimately show ?thesis using nw u8 m_lt False by (simp add: ps(1) unat_word_ariths)
  qed
  have "unat p mod unat al = 0" using up round_up_mod [OF al', of "unat raw + 8"] by (simp only: m_def)
  then have a: "p mod al = 0" by (metis unat_mod unat_eq_zero)
  have le: "raw + 8 \<le> p" using up u8 by (simp add: word_le_nat_alt)
  have fit: "unat p + unat sz \<le> unat raw + unat (sz + al + 8)" using up usz m_lt by simp
  have ld: "load64 (p - 8) (mem s') = raw" by (simp add: ps(2) load64_store64_same)
  have "kfree_aligned p s' = kfree raw s'" using p ld by (simp add: kfree_aligned_def)
  then show ?thesis using k a le fit ld by (intro exI conjI)
qed


section \<open>Concrete heaps\<close>

definition heap_4k :: kernel where
  \<comment> \<open>a heap at \<open>0x10000\<close> whose only free block, of 4096 bytes, is at \<open>0x20000\<close>\<close>
  "heap_4k = kernel_zero\<lparr>
     bsize := (\<lambda>_. 0)(0x20000 := 4097, 0x21008 := 2),
     next_free := (\<lambda>_. 0)(0x20000 := 0x10000), prev_free := (\<lambda>_. 0)(0x20000 := 0x10000),
     controls := (\<lambda>_. \<lparr>fl_bitmap = 32, sl_bitmap = (\<lambda>_. 0)(5 := 1),
       blocks = (\<lambda>_ _. 0x10000)(5 := (\<lambda>_. 0x10000)(0 := 0x20000))\<rparr>),
     tlsf_ctrl := (\<lambda>_. 0x10000)\<rparr>"

definition pages_16 :: kernel where
  \<comment> \<open>a fresh heap, and one free block of 16 pages\<close>
  "pages_16 = control_construct 0x10000 (kernel_zero\<lparr>
     links := \<lparr>nxt = Some (FreeHead 4 := Some (PageNode 0x100), PageNode 0x100 := Some (FreeHead 4)),
       prv = Some (FreeHead 4 := Some (PageNode 0x100), PageNode 0x100 := Some (FreeHead 4)), fault = False\<rparr>,
     free_pages := 16, tlsf_ctrl := (\<lambda>_. 0x10000)\<rparr>)"

lemma pages_16_fields:
  "links pages_16 = \<lparr>nxt = Some (FreeHead 4 := Some (PageNode 0x100), PageNode 0x100 := Some (FreeHead 4)),
     prv = Some (FreeHead 4 := Some (PageNode 0x100), PageNode 0x100 := Some (FreeHead 4)), fault = False\<rparr>"
  "free_pages pages_16 = 16" "tlsf_ctrl pages_16 = (\<lambda>_. 0x10000)" "pending_free_list pages_16 = (\<lambda>_. 0)"
  by (simp_all add: pages_16_def control_construct_def set_control_def kernel_zero_def Let_def)

lemma pages_16_alloc: "\<exists>s1. pmm_alloc_pages 4 pages_16 = (0x100000, s1) \<and> free_pages s1 = 0"
  by (simp add: pmm_alloc_pages_def, subst pmm_alloc_scan.simps)
    (simp add: pages_16_fields list_empty_def pmm_split.simps set_is_free_def count_add_def pfn_to_phys_def Let_def)

theorem kmalloc_grows_in_vain_witness:
  "\<exists>s'. kmalloc 65000 pages_16 = Some (0, s') \<and> free_pages s' = 0 \<and>
     block_size (phys_to_virt 0x100000 - 8) s' = 65520"
proof -
  obtain s1 where a: "pmm_alloc_pages 4 pages_16 = (0x100000, s1)" "free_pages s1 = 0"
    using pages_16_alloc by blast
  have L: "tlsf_lists 0x10000 (\<lambda>_ _. []) pages_16" unfolding pages_16_def by (rule control_construct_lists) simp
  show ?thesis
    using kmalloc_grows_in_vain [of pages_16 "\<lambda>_ _. []", OF _ _ _ a(1)] a(2) L
    by (simp add: pages_16_fields phys_to_virt_def)
qed

lemma heap_4k_alloc: "map_option fst (kmalloc 56 heap_4k) = Some 0x20010" by code_simp

lemma heap_4k_alloc_aligned: "map_option fst (kmalloc_aligned 32 16 heap_4k) = Some 0x20020" by code_simp

theorem kmalloc_aligned_spec_witness:
  "\<exists>s'. kmalloc_aligned 32 16 heap_4k = Some (0x20020, s') \<and> kfree_aligned 0x20020 s' = kfree 0x20010 s'"
proof -
  obtain s' where a: "kmalloc_aligned 32 16 heap_4k = Some (0x20020, s')" using heap_4k_alloc_aligned by auto
  obtain s1 where k: "kmalloc 56 heap_4k = Some (0x20010, s1)" using heap_4k_alloc by auto
  show ?thesis using kmalloc_aligned_spec [OF a] a k by auto
qed

end
