(* ===== verification/Sched.thy ===== *)
theory Sched
  imports Kernel_State
begin

text \<open>
  The multi-level feedback scheduler of \<^verbatim>\<open>kernel/task/sched.c\<close>, translated as it stands.
  \<open>None\<close> is the value of an operation after which the kernel does not go on: it halts because no
  thread is runnable, or it reads a table outside its bounds or takes a list head for a thread.
\<close>

section \<open>Helpers\<close>

definition QUANTUM_TICKS :: "u32 \<Rightarrow> u32 option" where
  "QUANTUM_TICKS level = (if level < 4 then Some ([1, 2, 4, 8] ! unat level) else None)"

fun sched_container :: "sched_node option \<Rightarrow> u64 option" where
  \<comment> \<open>\<open>container_of(n, struct thread, sched_list)\<close>\<close>
  "sched_container (Some (SchedNode t)) = Some t"
| "sched_container _ = None"

definition switch_to :: "u64 \<Rightarrow> u64 \<Rightarrow> kernel \<Rightarrow> kernel" where
  \<comment> \<open>the part of \<open>switch.S\<close> that is visible in the state: address space and kernel stack\<close>
  "switch_to prev next s =
     s\<lparr>cr3 := pm_root_phys (pmaps s (t_pmap (threads s next))),
       kstack_top := next + 0x98 + THREAD_KSTACK_SIZE\<rparr>"

definition enqueue_at :: "u64 \<Rightarrow> u32 \<Rightarrow> kernel \<Rightarrow> kernel" where
  \<comment> \<open>\<open>list_add_tail(&t->sched_list, &curcpu->runq[level])\<close>\<close>
  "enqueue_at t level s = s\<lparr>runq := list_add_tail (SchedNode t) (RunqHead (unat level)) (runq s)\<rparr>"

section \<open>Boosting and picking\<close>

partial_function (option) boost_level :: "nat \<Rightarrow> kernel \<Rightarrow> kernel option" where
  \<comment> \<open>\<open>while (!list_empty(q))\<close> of \<open>sched_boost\<close>\<close>
  "boost_level level s =
     (if list_empty (RunqHead level) (runq s) then Some s
      else do {
        let n = nxt (runq s) (RunqHead level);
        t \<leftarrow> sched_container n;
        let s = s\<lparr>runq := list_del (SchedNode t) (runq s)\<rparr>;
        let s = upd_thread t (\<lambda>t. t\<lparr>current_level := 0, time_quantum_left := 1\<rparr>) s;
        let s = enqueue_at t 0 s;
        boost_level level s})"

definition sched_boost :: "kernel \<Rightarrow> kernel option" where
  "sched_boost s = do {
     let cur = current s;
     let s = (if cur \<noteq> 0 then upd_thread cur (\<lambda>t. t\<lparr>current_level := 0, time_quantum_left := 1\<rparr>) s else s);
     s \<leftarrow> boost_level 1 s;
     s \<leftarrow> boost_level 2 s;
     boost_level 3 s}"

function sched_pick_from :: "nat \<Rightarrow> kernel \<Rightarrow> (u64 \<times> kernel) option" where
  "sched_pick_from level s =
     (if level < MLFQ_LEVELS then
        if list_empty (RunqHead level) (runq s) then sched_pick_from (Suc level) s
        else do {
          let n = nxt (runq s) (RunqHead level);
          t \<leftarrow> sched_container n;
          Some (t, s\<lparr>runq := list_del (SchedNode t) (runq s)\<rparr>)}
      else Some (0, s))"
  by pat_completeness auto
termination by (relation "measure (\<lambda>(level, s). MLFQ_LEVELS - level)") auto

declare sched_pick_from.simps [simp del]

definition sched_pick :: "kernel \<Rightarrow> (u64 \<times> kernel) option" where
  "sched_pick s = sched_pick_from 0 s"

section \<open>Ticks, yielding and blocking\<close>

definition run_next :: "u64 \<Rightarrow> u64 \<Rightarrow> kernel \<Rightarrow> kernel" where
  \<comment> \<open>\<open>curcpu->current = next; next->state = THREAD_RUNNING; switch_to(cur, next);\<close>\<close>
  "run_next cur next s =
     (let s = s\<lparr>current := next\<rparr>;
          s = upd_thread next (\<lambda>t. t\<lparr>state := THREAD_RUNNING\<rparr>) s
      in switch_to cur next s)"

definition tick_account :: "kernel \<Rightarrow> (bool \<times> kernel) option" where
  \<comment> \<open>the first half of \<open>sched_tick\<close>: charge the running thread\<close>
  "tick_account s =
     (let cur = current s
      in if cur \<noteq> 0 \<and> state (threads s cur) = THREAD_RUNNING then
           let s = upd_thread cur (\<lambda>t. t\<lparr>total_cpu_time := total_cpu_time t + 1,
                                          time_quantum_left := time_quantum_left t - 1\<rparr>) s
           in if time_quantum_left (threads s cur) = 0 then do {
                let s = (if current_level (threads s cur) < of_nat (MLFQ_LEVELS - 1)
                         then upd_thread cur (\<lambda>t. t\<lparr>current_level := current_level t + 1\<rparr>) s else s);
                q \<leftarrow> QUANTUM_TICKS (current_level (threads s cur));
                let s = upd_thread cur (\<lambda>t. t\<lparr>time_quantum_left := q, state := THREAD_READY\<rparr>) s;
                Some (True, enqueue_at cur (current_level (threads s cur)) s)}
              else Some (False, s)
         else Some (False, s))"

definition sched_tick :: "kernel \<Rightarrow> kernel option" where
  \<comment> \<open>the acknowledgement of the interrupt controller is not modelled\<close>
  "sched_tick s = do {
     let cur = current s;
     (cur_exhausted, s) \<leftarrow> tick_account s;
     let old = sched_ticks s;
     let s = s\<lparr>sched_ticks := old + 1\<rparr>;
     s \<leftarrow> (if old mod BOOST_PERIOD = BOOST_PERIOD - 1 then sched_boost s else Some s);
     if \<not> cur_exhausted then Some s
     else do {
       (next, s) \<leftarrow> sched_pick s;
       if next = 0 then Some s
       else if next = cur then Some (upd_thread cur (\<lambda>t. t\<lparr>state := THREAD_RUNNING\<rparr>) s)
       else Some (run_next cur next s)}}"

definition sched_yield :: "kernel \<Rightarrow> kernel option" where
  "sched_yield s = do {
     let cur = current s;
     q \<leftarrow> QUANTUM_TICKS (current_level (threads s cur));
     let s = upd_thread cur (\<lambda>t. t\<lparr>time_quantum_left := q, state := THREAD_READY\<rparr>) s;
     let s = enqueue_at cur (current_level (threads s cur)) s;
     (next, s) \<leftarrow> sched_pick s;
     if next = 0 \<or> next = cur then Some (upd_thread cur (\<lambda>t. t\<lparr>state := THREAD_RUNNING\<rparr>) s)
     else Some (run_next cur next s)}"

definition leave_cpu :: "thread_state_t \<Rightarrow> kernel \<Rightarrow> kernel option" where
  \<comment> \<open>the common body of \<open>sched_block\<close> and \<open>sched_exit\<close>\<close>
  "leave_cpu st s = do {
     let cur = current s;
     let s = upd_thread cur (\<lambda>t. t\<lparr>state := st\<rparr>) s;
     (next, s) \<leftarrow> sched_pick s;
     if next = 0 then None
     else Some (run_next cur next s)}"

definition sched_block :: "kernel \<Rightarrow> kernel option" where
  "sched_block s = leave_cpu THREAD_BLOCKED s"

definition sched_exit :: "kernel \<Rightarrow> kernel option" where
  "sched_exit s = leave_cpu THREAD_TERMINATED s"

section \<open>Queue operations for other parts of the kernel\<close>

definition sched_enqueue :: "u64 \<Rightarrow> kernel \<Rightarrow> kernel" where
  "sched_enqueue t s =
     enqueue_at t 0 (upd_thread t (\<lambda>t. t\<lparr>current_level := 0, state := THREAD_READY, time_quantum_left := 1\<rparr>) s)"

definition sched_dequeue :: "u64 \<Rightarrow> kernel \<Rightarrow> kernel" where
  "sched_dequeue t s = s\<lparr>runq := list_del (SchedNode t) (runq s)\<rparr>"

definition sched_wakeup :: "u64 \<Rightarrow> kernel \<Rightarrow> kernel" where
  "sched_wakeup t s = sched_enqueue t s"

definition sched_boot :: "kernel \<Rightarrow> kernel option" where
  \<comment> \<open>starting the timer and enabling interrupts are not modelled\<close>
  "sched_boot s = do {
     (fst, s) \<leftarrow> sched_pick s;
     if fst = 0 then Some s
     else
       let s = s\<lparr>current := fst\<rparr>;
           s = upd_thread fst (\<lambda>t. t\<lparr>state := THREAD_RUNNING\<rparr>) s
       in Some (switch_to 0 fst s)}"

definition sched_init :: "kernel \<Rightarrow> int \<times> kernel" where
  "sched_init s = (0, fold (\<lambda>i s. s\<lparr>runq := list_init (RunqHead i) (runq s)\<rparr>) [0..<MLFQ_LEVELS] s)"

end
