(* ===== verification/Ipc.thy ===== *)
theory Ipc
  imports Sched
begin

text \<open>
  Synchronous message passing, \<^verbatim>\<open>kernel/task/ipc.c\<close>, and the thread table it looks callers up
  in (\<open>thread_lookup\<close> of \<^verbatim>\<open>kernel/task/thread.c\<close>). An operation that blocks is split where it calls
  \<open>sched_block\<close>: \<open>ipc_recv\<close> is everything up to the switch to the next thread, \<open>ipc_recv_resume\<close>
  what the thread does when it runs again. The result of the first part says whether the call
  is finished (\<open>Done\<close> with the value returned and the message) or has blocked. Messages are
  lists of five words; the endpoint locks are elided (one processor, interrupts off).
\<close>

section \<open>Looking up threads\<close>

definition thread_lookup :: "u64 \<Rightarrow> kernel \<Rightarrow> u64" where
  "thread_lookup n s =
     (if g_threads_ptr s \<noteq> 0 \<and> unat n < length (g_threads s) then g_threads s ! unat n else 0)"

section \<open>Delivering and accepting messages\<close>

datatype ipc_result = Done u64 "u64 list" | Blocked

definition ep_del_first :: "u64 \<Rightarrow> kernel \<Rightarrow> kernel option" where
  \<comment> \<open>\<open>list_del(ep->ipc_waitqueue.next)\<close>\<close>
  "ep_del_first recv s =
     (case nxt (ipcq s) (EpHead recv) of None \<Rightarrow> None
      | Some n \<Rightarrow> Some (s\<lparr>ipcq := list_del n (ipcq s)\<rparr>))"

definition ep_idle_if_empty :: "u64 \<Rightarrow> kernel \<Rightarrow> kernel" where
  \<comment> \<open>\<open>if (list_empty(&ep->ipc_waitqueue)) ep->state = IPC_EP_INACTIVE;\<close>\<close>
  "ep_idle_if_empty recv s =
     (if list_empty (EpHead recv) (ipcq s) then upd_thread recv (\<lambda>t. t\<lparr>ep_state := IPC_EP_INACTIVE\<rparr>) s else s)"

definition wake_if_blocked :: "u64 \<Rightarrow> kernel \<Rightarrow> kernel" where
  "wake_if_blocked t s = (if state (threads s t) = THREAD_BLOCKED then sched_wakeup t s else s)"

definition ipc_deliver_msg :: "u64 \<Rightarrow> u64 \<Rightarrow> u64 list \<Rightarrow> u64 \<Rightarrow> kernel \<Rightarrow> kernel option" where
  "ipc_deliver_msg recv sender_tid words prev_seq s = do {
     s \<leftarrow> ep_del_first recv s;
     let s = upd_thread recv (\<lambda>t. t\<lparr>ipc_msg := words, ipc_sender := sender_tid, ipc_prev_seq := prev_seq\<rparr>) s;
     let s = ep_idle_if_empty recv s;
     Some (wake_if_blocked recv s)}"

definition ipc_deliver_reply :: "u64 \<Rightarrow> u64 \<Rightarrow> u64 list \<Rightarrow> kernel \<Rightarrow> kernel option" where
  "ipc_deliver_reply recv sender_tid words s = do {
     s \<leftarrow> ep_del_first recv s;
     let s = upd_thread recv (\<lambda>t. t\<lparr>ipc_msg := words, ipc_sender := sender_tid\<rparr>) s;
     let s = ep_idle_if_empty recv s;
     Some (wake_if_blocked recv s)}"

fun ipc_container :: "ipc_node option \<Rightarrow> u64 option" where
  \<comment> \<open>\<open>container_of(n, struct thread, ipc_list)\<close>; any other node would be misread as a thread\<close>
  "ipc_container (Some (IpcNode t)) = Some t"
| "ipc_container _ = None"

definition ipc_accept :: "u64 \<Rightarrow> kernel \<Rightarrow> (u64 \<times> u64 list \<times> kernel) option" where
  "ipc_accept recv s = do {
     sndr \<leftarrow> ipc_container (nxt (ipcq s) (EpHead recv));
     let sender_tid = tid (threads s sndr);
     let s = s\<lparr>ipcq := list_del (IpcNode sndr) (ipcq s)\<rparr>;
     let msg = ipc_msg (threads s sndr);
     let is_call = (ep_state (threads s sndr) = IPC_EP_WAIT_RECV);
     let seq = (if is_call then ipc_call_seq (threads s sndr) else 0);
     let s = upd_thread recv (\<lambda>t. t\<lparr>ipc_msg := msg, ipc_sender := sender_tid, ipc_prev_seq := seq\<rparr>) s;
     let s = ep_idle_if_empty recv s;
     let s = (if ep_state (threads s sndr) \<noteq> IPC_EP_WAIT_RECV \<and> state (threads s sndr) = THREAD_BLOCKED
              then sched_wakeup sndr s else s);
     Some (sender_tid, ipc_msg (threads s recv), s)}"

section \<open>The four operations\<close>

definition ep_join :: "ipc_node \<Rightarrow> u64 \<Rightarrow> ipc_endpoint_state_t \<Rightarrow> kernel \<Rightarrow> kernel" where
  \<comment> \<open>\<open>ep->state = st; list_add_tail(n, &ep->ipc_waitqueue);\<close>\<close>
  "ep_join n ep st s =
     (let s = upd_thread ep (\<lambda>t. t\<lparr>ep_state := st\<rparr>) s
      in s\<lparr>ipcq := list_add_tail n (EpHead ep) (ipcq s)\<rparr>)"

definition ipc_send :: "u64 \<Rightarrow> u64 list \<Rightarrow> kernel \<Rightarrow> (ipc_result \<times> kernel) option" where
  "ipc_send target words s =
     (let cur = current s
      in if ep_state (threads s target) = IPC_EP_WAIT_RECV then do {
           s \<leftarrow> ipc_deliver_msg target (tid (threads s cur)) words 0 s;
           Some (Done 0 [], s)}
         else do {
           let s = upd_thread cur (\<lambda>t. t\<lparr>ipc_msg := words\<rparr>) s;
           let s = ep_join (IpcNode cur) target IPC_EP_WAIT_SEND s;
           s \<leftarrow> sched_block s;
           Some (Blocked, s)})"

definition ipc_wait :: "kernel \<Rightarrow> (ipc_result \<times> kernel) option" where
  \<comment> \<open>the common tail of \<open>ipc_recv\<close> and \<open>ipc_reply_recv\<close> on the caller's own endpoint\<close>
  "ipc_wait s =
     (let cur = current s
      in if ep_state (threads s cur) = IPC_EP_WAIT_SEND then do {
           (sender, out, s) \<leftarrow> ipc_accept cur s;
           Some (Done sender out, s)}
         else do {
           let s = ep_join (IpcNode cur) cur IPC_EP_WAIT_RECV s;
           s \<leftarrow> sched_block s;
           Some (Blocked, s)})"

definition ipc_recv :: "kernel \<Rightarrow> (ipc_result \<times> kernel) option" where
  "ipc_recv s = ipc_wait s"

definition ipc_recv_resume :: "kernel \<Rightarrow> ipc_result" where
  \<comment> \<open>what the receiver returns with once it runs again\<close>
  "ipc_recv_resume s = Done (ipc_sender (threads s (current s))) (ipc_msg (threads s (current s)))"

definition ipc_call :: "u64 \<Rightarrow> u64 list \<Rightarrow> kernel \<Rightarrow> (u64 \<times> ipc_result \<times> kernel) option" where
  \<comment> \<open>the first component is \<open>saved_sender\<close>, a local of the blocked call\<close>
  "ipc_call target inp s = do {
     let cur = current s;
     let s = upd_thread cur (\<lambda>t. t\<lparr>ipc_call_seq := ipc_call_seq t + 1\<rparr>) s;
     let seq = ipc_call_seq (threads s cur);
     let saved_sender = ipc_sender (threads s cur);
     let s = ep_join (IpcWaitNode cur) cur IPC_EP_WAIT_RECV s;
     s \<leftarrow> (if ep_state (threads s target) = IPC_EP_WAIT_RECV
           then ipc_deliver_msg target (tid (threads s cur)) inp seq s
           else
             let s = upd_thread cur (\<lambda>t. t\<lparr>ipc_msg := inp\<rparr>) s
             in Some (ep_join (IpcNode cur) target IPC_EP_WAIT_SEND s));
     s \<leftarrow> sched_block s;
     Some (saved_sender, Blocked, s)}"

definition ipc_call_resume :: "u64 \<Rightarrow> kernel \<Rightarrow> ipc_result \<times> kernel" where
  "ipc_call_resume saved_sender s =
     (let cur = current s;
          out = ipc_msg (threads s cur);
          sender = ipc_sender (threads s cur)
      in (Done sender out, upd_thread cur (\<lambda>t. t\<lparr>ipc_sender := saved_sender\<rparr>) s))"

definition ipc_reply :: "u64 list \<Rightarrow> kernel \<Rightarrow> kernel option" where
  \<comment> \<open>the first half of \<open>ipc_reply_recv\<close>: reply to the previous caller\<close>
  "ipc_reply reply s =
     (let cur = current s;
          prev_sender = ipc_sender (threads s cur);
          caller = thread_lookup prev_sender s
      in if ipc_prev_seq (threads s cur) \<noteq> 0 \<and> caller \<noteq> 0 \<and> caller \<noteq> cur \<and>
            ipc_call_seq (threads s caller) = ipc_prev_seq (threads s cur) then
           if ep_state (threads s caller) = IPC_EP_WAIT_RECV \<and> \<not> list_empty (EpHead caller) (ipcq s)
           then ipc_deliver_reply caller (tid (threads s cur)) reply s
           else Some s
         else Some s)"

definition ipc_reply_recv :: "u64 list \<Rightarrow> kernel \<Rightarrow> (ipc_result \<times> kernel) option" where
  "ipc_reply_recv reply s = do {
     s \<leftarrow> ipc_reply reply s;
     ipc_wait s}"

end
