(* ===== verification/Sched_Spec.thy ===== *)
theory Sched_Spec
  imports Sched
begin

text \<open>
  The scheduler against sequences of threads: a family \<open>Q\<close> gives the threads of each level in
  order. The invariant \<open>sched_ok\<close> is kept by ticks, yields, blocking and wakeups, the thread that
  runs next is the first of the highest nonempty level, no thread is lost, and the periodic boost
  brings every thread back to the top level.
\<close>

section \<open>Run queues as sequences of threads\<close>

fun runq_lists :: "(nat \<Rightarrow> u64 list) \<Rightarrow> sched_node \<Rightarrow> sched_node list" where
  "runq_lists Q (RunqHead l) = map SchedNode (Q l)"
| "runq_lists Q (SchedNode t) = []"

abbreviation runq_heads :: "sched_node set" where "runq_heads \<equiv> RunqHead ` {..<4}"

definition runq_rep :: "kernel \<Rightarrow> (nat \<Rightarrow> u64 list) \<Rightarrow> bool" where
  "runq_rep s Q \<longleftrightarrow> dlists (runq s) runq_heads (runq_lists Q)"

definition queued :: "(nat \<Rightarrow> u64 list) \<Rightarrow> u64 set" where
  "queued Q = (\<Union>l < 4. set (Q l))"

lemma runq_lists_upd:
  "(runq_lists Q)(RunqHead l := map SchedNode ts) = runq_lists (Q(l := ts))"
proof
  fix h show "((runq_lists Q)(RunqHead l := map SchedNode ts)) h = runq_lists (Q(l := ts)) h"
    by (cases h) auto
qed

lemma members_runq: "members runq_heads (runq_lists Q) = SchedNode ` queued Q"
  by (auto simp: members_def queued_def)

lemma queued_upd: "l < 4 \<Longrightarrow> queued (Q(l := ts)) = set ts \<union> (\<Union>j \<in> {..<4} - {l}. set (Q j))"
  by (auto simp: queued_def split: if_splits)

lemma runq_rep_cong: "runq s' = runq s \<Longrightarrow> runq_rep s' Q \<longleftrightarrow> runq_rep s Q"
  by (simp add: runq_rep_def)

lemma upd_thread_fields [simp]:
  "runq (upd_thread t f s) = runq s" "current (upd_thread t f s) = current s"
  "sched_ticks (upd_thread t f s) = sched_ticks s"
  "threads (upd_thread t f s) = (threads s)(t := f (threads s t))"
  by (simp_all add: upd_thread_def)

lemma switch_to_fields [simp]:
  "runq (switch_to p n s) = runq s" "current (switch_to p n s) = current s"
  "sched_ticks (switch_to p n s) = sched_ticks s" "threads (switch_to p n s) = threads s"
  by (simp_all add: switch_to_def)

lemma enqueue_at_fields [simp]:
  "threads (enqueue_at t l s) = threads s" "current (enqueue_at t l s) = current s"
  "sched_ticks (enqueue_at t l s) = sched_ticks s"
  by (simp_all add: enqueue_at_def)

lemma runq_rep_simps [simp]:
  "runq_rep (upd_thread t f s) Q \<longleftrightarrow> runq_rep s Q" "runq_rep (switch_to p n s) Q \<longleftrightarrow> runq_rep s Q"
  "runq_rep (s\<lparr>current := c\<rparr>) Q \<longleftrightarrow> runq_rep s Q" "runq_rep (s\<lparr>sched_ticks := k\<rparr>) Q \<longleftrightarrow> runq_rep s Q"
  by (simp_all add: runq_rep_def)

lemma runq_pop:
  assumes "runq_rep s Q" "l < 4" "Q l = t # ts"
  shows "\<not> list_empty (RunqHead l) (runq s)" "nxt (runq s) (RunqHead l) = Some (SchedNode t)"
    "runq_rep (s\<lparr>runq := list_del (SchedNode t) (runq s)\<rparr>) (Q(l := ts))" "t \<notin> queued (Q(l := ts))"
proof -
  have d: "dlists (runq s) runq_heads (runq_lists Q)" "RunqHead l \<in> runq_heads"
    "runq_lists Q (RunqHead l) = SchedNode t # map SchedNode ts"
    using assms by (auto simp: runq_rep_def)
  show "\<not> list_empty (RunqHead l) (runq s)" "nxt (runq s) (RunqHead l) = Some (SchedNode t)"
    "runq_rep (s\<lparr>runq := list_del (SchedNode t) (runq s)\<rparr>) (Q(l := ts))"
    using lists.pop [OF d] by (simp_all add: runq_rep_def runq_lists_upd)
  show "t \<notin> queued (Q(l := ts))"
    using lists.pop_fresh(2) [OF d] by (auto simp: runq_lists_upd members_runq)
qed

lemma runq_empty: "runq_rep s Q \<Longrightarrow> l < 4 \<Longrightarrow> list_empty (RunqHead l) (runq s) \<longleftrightarrow> Q l = []"
  using lists.rep_is_empty [of "runq s" runq_heads "runq_lists Q" "RunqHead l"] by (simp add: runq_rep_def)

lemma runq_enqueue:
  assumes "runq_rep s Q" "unat l < 4" "t \<notin> queued Q"
  shows "runq_rep (enqueue_at t l s) (Q(unat l := Q (unat l) @ [t]))"
proof -
  have "dlists (list_add_tail (SchedNode t) (RunqHead (unat l)) (runq s)) runq_heads
      ((runq_lists Q)(RunqHead (unat l) := runq_lists Q (RunqHead (unat l)) @ [SchedNode t]))"
    using assms by (intro lists.rep_add_last) (auto simp: runq_rep_def members_runq)
  then show ?thesis
    using runq_lists_upd [of Q "unat l" "Q (unat l) @ [t]"] by (simp add: runq_rep_def enqueue_at_def)
qed

lemma runq_dequeue:
  assumes "runq_rep s Q" "l < 4" "t \<in> set (Q l)"
  shows "runq_rep (sched_dequeue t s) (Q(l := remove1 t (Q l)))"
proof -
  have "dlists (list_del (SchedNode t) (runq s)) runq_heads
      ((runq_lists Q)(RunqHead l := remove1 (SchedNode t) (runq_lists Q (RunqHead l))))"
    using assms by (intro lists.rep_unlink) (auto simp: runq_rep_def)
  moreover have "remove1 (SchedNode t) (map SchedNode (Q l)) = map SchedNode (remove1 t (Q l))"
    by (rule remove1_map) (simp add: inj_def)
  ultimately show ?thesis
    using runq_lists_upd [of Q l "remove1 t (Q l)"] by (simp add: runq_rep_def sched_dequeue_def)
qed

lemma runq_distinct:
  assumes "runq_rep s Q" "l < 4"
  shows "distinct (Q l)"
  using lists.rep_distinct [of "runq s" runq_heads "runq_lists Q" "RunqHead l"] assms
  by (auto simp: runq_rep_def distinct_map)

lemma runq_disjoint:
  assumes "runq_rep s Q" "l < 4" "l' < 4" "t \<in> set (Q l)" "t \<in> set (Q l')"
  shows "l = l'"
  using lists.rep_disjoint [of "runq s" runq_heads "runq_lists Q" "RunqHead l" "RunqHead l'" "SchedNode t"] assms
  by (auto simp: runq_rep_def)

section \<open>Picking\<close>

lemma sched_pick_from_spec:
  assumes "runq_rep s Q"
  shows "(\<forall>j. k \<le> j \<and> j < 4 \<longrightarrow> Q j = []) \<and> sched_pick_from k s = Some (0, s) \<or>
    (\<exists>l t ts. k \<le> l \<and> l < 4 \<and> (\<forall>j. k \<le> j \<and> j < l \<longrightarrow> Q j = []) \<and> Q l = t # ts \<and>
       sched_pick_from k s = Some (t, s\<lparr>runq := list_del (SchedNode t) (runq s)\<rparr>))"
proof (induction "4 - k" arbitrary: k)
  case 0
  then show ?case by (subst (1) sched_pick_from.simps) auto
next
  case (Suc n)
  then have k: "k < 4" by linarith
  show ?case
  proof (cases "Q k")
    case Nil
    then have "sched_pick_from k s = sched_pick_from (Suc k) s"
      using k runq_empty [OF assms k] by (subst sched_pick_from.simps) simp
    moreover have e: "(\<forall>j. k \<le> j \<and> j < m \<longrightarrow> Q j = []) \<longleftrightarrow> (\<forall>j. Suc k \<le> j \<and> j < m \<longrightarrow> Q j = [])" for m
      using Nil by (metis Suc_leD Suc_leI le_eq_less_or_eq)
    moreover have "n = 4 - Suc k" using Suc.hyps(2) by simp
    note IH = Suc.hyps(1) [OF this]
    ultimately show ?thesis using IH unfolding e by (simp only:) (auto dest: Suc_leD)
  next
    case (Cons t ts)
    then have "sched_pick_from k s = Some (t, s\<lparr>runq := list_del (SchedNode t) (runq s)\<rparr>)"
      using k runq_pop [OF assms k Cons] by (subst sched_pick_from.simps) simp
    then show ?thesis using k Cons by (intro disjI2 exI [of _ k] exI [of _ t] exI [of _ ts]) auto
  qed
qed

lemma sched_pick_spec:
  assumes "runq_rep s Q"
  obtains (none) "queued Q = {}" "sched_pick s = Some (0, s)"
  | (some) l t ts where "l < 4" "\<And>j. j < l \<Longrightarrow> Q j = []" "Q l = t # ts"
      "sched_pick s = Some (t, s\<lparr>runq := list_del (SchedNode t) (runq s)\<rparr>)"
      "runq_rep (s\<lparr>runq := list_del (SchedNode t) (runq s)\<rparr>) (Q(l := ts))"
      "t \<notin> queued (Q(l := ts))" "queued Q = insert t (queued (Q(l := ts)))"
proof -
  from sched_pick_from_spec [OF assms, of 0] show thesis
  proof (elim disjE exE conjE)
    assume "\<forall>j. 0 \<le> j \<and> j < 4 \<longrightarrow> Q j = []" "sched_pick_from 0 s = Some (0, s)"
    then show thesis by (intro none) (auto simp: sched_pick_def queued_def)
  next
    fix l t ts assume a: "l < 4" "\<forall>j. 0 \<le> j \<and> j < l \<longrightarrow> Q j = []" "Q l = t # ts"
      "sched_pick_from 0 s = Some (t, s\<lparr>runq := list_del (SchedNode t) (runq s)\<rparr>)"
    note p = runq_pop [OF assms a(1,3)]
    have "queued Q = insert t (queued (Q(l := ts)))"
      using queued_upd [OF a(1), of Q ts] queued_upd [OF a(1), of Q "t # ts"] fun_upd_idem [of Q l, OF a(3)] by auto
    then show thesis using a p by (intro some [of l t ts]) (auto simp: sched_pick_def)
  qed
qed


section \<open>Boosting\<close>

definition boosted :: "u64 set \<Rightarrow> (u64 \<Rightarrow> thread) \<Rightarrow> u64 \<Rightarrow> thread" where
  "boosted T th = (\<lambda>t. if t \<in> T then (th t)\<lparr>current_level := 0, time_quantum_left := 1\<rparr> else th t)"

lemma boosted_boosted [simp]: "boosted A (boosted B th) = boosted (A \<union> B) th"
  by (auto simp: boosted_def)

lemma boosted_upd: "(boosted T th)(t := (boosted T th t)\<lparr>current_level := 0, time_quantum_left := 1\<rparr>) = boosted (insert t T) th"
  by (auto simp: boosted_def)

lemma boost_level_spec:
  assumes "runq_rep s Q" "0 < l" "l < 4"
  shows "\<exists>s'. boost_level l s = Some s' \<and> runq_rep s' (Q(0 := Q 0 @ Q l, l := [])) \<and>
    threads s' = boosted (set (Q l)) (threads s) \<and> current s' = current s \<and> sched_ticks s' = sched_ticks s"
  using assms(1)
proof (induction "Q l" arbitrary: Q s)
  case Nil
  then have "boost_level l s = Some s" using runq_empty [OF Nil(2) assms(3)] by (subst boost_level.simps) simp
  moreover have "Q(0 := Q 0 @ Q l, l := []) = Q" using Nil by (auto simp: fun_eq_iff)
  ultimately show ?case using Nil by (auto simp: boosted_def)
next
  case (Cons t ts)
  note p = runq_pop [OF Cons.prems assms(3) Cons(2) [symmetric]]
  define s1 where "s1 = enqueue_at t 0 (upd_thread t (\<lambda>t. t\<lparr>current_level := 0, time_quantum_left := 1\<rparr>)
      (s\<lparr>runq := list_del (SchedNode t) (runq s)\<rparr>))"
  let ?Q = "(Q(l := ts))(0 := Q 0 @ [t])"
  have step: "boost_level l s = boost_level l s1"
    using p by (subst boost_level.simps) (simp add: s1_def)
  have "runq_rep s1 ((Q(l := ts))(unat (0 :: u32) := (Q(l := ts)) (unat (0 :: u32)) @ [t]))"
    unfolding s1_def using p by (intro runq_enqueue) auto
  then have r: "runq_rep s1 ?Q" using assms(2) by simp
  have "ts = ?Q l" using assms(2) by simp
  from Cons(1) [OF this r] obtain s' where s': "boost_level l s1 = Some s'"
    "runq_rep s' (?Q(0 := ?Q 0 @ ?Q l, l := []))" "threads s' = boosted (set (?Q l)) (threads s1)"
    "current s' = current s1" "sched_ticks s' = sched_ticks s1" by blast
  have "?Q(0 := ?Q 0 @ ?Q l, l := []) = Q(0 := Q 0 @ Q l, l := [])"
    using assms(2) Cons(2) [symmetric] by (auto simp: fun_eq_iff)
  moreover have "threads s' = boosted (set (Q l)) (threads s)"
    using s'(3) assms(2) Cons(2) [symmetric] by (auto simp: s1_def boosted_def)
  ultimately show ?case using s' step by (auto simp: s1_def)
qed

lemma sched_boost_spec:
  assumes "runq_rep s Q" "current s \<noteq> 0"
  shows "\<exists>s'. sched_boost s = Some s' \<and> runq_rep s' (\<lambda>l. if l = 0 then Q 0 @ Q 1 @ Q 2 @ Q 3 else if l < 4 then [] else Q l) \<and>
    threads s' = boosted (insert (current s) (set (Q 1) \<union> set (Q 2) \<union> set (Q 3))) (threads s) \<and>
    current s' = current s \<and> sched_ticks s' = sched_ticks s"
proof -
  define s0 where "s0 = upd_thread (current s) (\<lambda>t. t\<lparr>current_level := 0, time_quantum_left := 1\<rparr>) s"
  have r0: "runq_rep s0 Q" using assms by (simp add: s0_def)
  obtain s1 where s1: "boost_level 1 s0 = Some s1" "runq_rep s1 (Q(0 := Q 0 @ Q 1, 1 := []))"
    "threads s1 = boosted (set (Q 1)) (threads s0)" "current s1 = current s0" "sched_ticks s1 = sched_ticks s0"
    using boost_level_spec [OF r0, of 1] by auto
  obtain s2 where s2: "boost_level 2 s1 = Some s2"
    "runq_rep s2 (Q(0 := Q 0 @ Q 1 @ Q 2, 1 := [], 2 := []))"
    "threads s2 = boosted (set (Q 2)) (threads s1)" "current s2 = current s1" "sched_ticks s2 = sched_ticks s1"
    using boost_level_spec [OF s1(2), of 2] by (auto simp: fun_upd_twist)
  obtain s3 where s3: "boost_level 3 s2 = Some s3"
    "runq_rep s3 (Q(0 := Q 0 @ Q 1 @ Q 2 @ Q 3, 1 := [], 2 := [], 3 := []))"
    "threads s3 = boosted (set (Q 3)) (threads s2)" "current s3 = current s2" "sched_ticks s3 = sched_ticks s2"
    using boost_level_spec [OF s2(2), of 3] by (auto simp: fun_upd_twist)
  have "Q(0 := Q 0 @ Q 1 @ Q 2 @ Q 3, 1 := [], 2 := [], 3 := [])
      = (\<lambda>l. if l = 0 then Q 0 @ Q 1 @ Q 2 @ Q 3 else if l < 4 then [] else Q l)"
    by (auto simp: fun_eq_iff numeral_eq_Suc less_Suc_eq)
  moreover have "sched_boost s = Some s3"
    using s1 s2 s3 assms(2) by (simp add: sched_boost_def s0_def)
  moreover have "threads s0 = boosted {current s} (threads s)"
    by (auto simp: s0_def boosted_def)
  ultimately show ?thesis
    using s1 s2 s3 by (intro exI [of _ s3]) (simp add: s0_def Un_ac insert_commute)
qed


section \<open>The scheduler invariant\<close>

text \<open>
  Every thread on run queue \<open>l\<close> is ready and at level \<open>l\<close>; the current thread is running, at a
  valid level, and on no queue.
\<close>

definition queues_ok :: "kernel \<Rightarrow> (nat \<Rightarrow> u64 list) \<Rightarrow> bool" where
  "queues_ok s Q \<longleftrightarrow> runq_rep s Q \<and>
     (\<forall>l < 4. \<forall>t \<in> set (Q l). t \<noteq> 0 \<and> state (threads s t) = THREAD_READY \<and>
        unat (current_level (threads s t)) = l)"

definition sched_ok :: "kernel \<Rightarrow> (nat \<Rightarrow> u64 list) \<Rightarrow> bool" where
  "sched_ok s Q \<longleftrightarrow> queues_ok s Q \<and> current s \<noteq> 0 \<and> current s \<notin> queued Q \<and>
     state (threads s (current s)) = THREAD_RUNNING \<and> current_level (threads s (current s)) < 4"

lemma quantum_defined: "l < 4 \<Longrightarrow> QUANTUM_TICKS l = Some (2 ^ unat l)"
proof -
  assume "l < 4"
  then have "unat l = 0 \<or> unat l = 1 \<or> unat l = 2 \<or> unat l = 3" by (simp add: word_less_nat_alt) linarith
  then show ?thesis using \<open>l < 4\<close> by (auto simp: QUANTUM_TICKS_def)
qed

lemma queues_ok_enqueue:
  assumes "queues_ok s Q" "t \<notin> queued Q" "t \<noteq> 0" "unat l < 4"
    and "threads s' = (threads s)(t := th)" "runq s' = runq s"
    and "state th = THREAD_READY" "current_level th = l"
  shows "queues_ok (enqueue_at t l s') (Q(unat l := Q (unat l) @ [t]))"
proof -
  have "runq_rep s' Q" using assms(1,6) by (simp add: queues_ok_def runq_rep_def)
  then have "runq_rep (enqueue_at t l s') (Q(unat l := Q (unat l) @ [t]))"
    using assms by (intro runq_enqueue)
  moreover have "x \<noteq> t" if "j < 4" "x \<in> set (Q j)" for j x using that assms(2) by (auto simp: queued_def)
  ultimately show ?thesis using assms by (auto simp: queues_ok_def)
qed

lemma queues_ok_thread_upd:
  "queues_ok s Q \<Longrightarrow> t \<notin> queued Q \<Longrightarrow> queues_ok (upd_thread t f s) Q"
  unfolding queues_ok_def by (auto simp: queued_def)

lemma queues_ok_fields [simp]:
  "queues_ok (s\<lparr>sched_ticks := k\<rparr>) Q \<longleftrightarrow> queues_ok s Q" "queues_ok (s\<lparr>current := c\<rparr>) Q \<longleftrightarrow> queues_ok s Q"
  "queues_ok (switch_to p n s) Q \<longleftrightarrow> queues_ok s Q"
  by (simp_all add: queues_ok_def)

text \<open>Picking a thread and running it restores the invariant.\<close>

lemma pick_and_run:
  assumes "queues_ok s Q" "l < 4" "Q l = t # ts"
  defines "s1 \<equiv> s\<lparr>runq := list_del (SchedNode t) (runq s)\<rparr>"
  shows "sched_ok (run_next c t s1) (Q(l := ts))" "current (run_next c t s1) = t"
    "t = c \<Longrightarrow> current s = t \<Longrightarrow> sched_ok (upd_thread t (\<lambda>t. t\<lparr>state := THREAD_RUNNING\<rparr>) s1) (Q(l := ts))"
proof -
  have r: "runq_rep s Q" using assms(1) by (simp add: queues_ok_def)
  note p = runq_pop [OF r assms(2,3)]
  have t: "t \<noteq> 0" "unat (current_level (threads s t)) = l"
    using assms(1-3) unfolding queues_ok_def by (metis list.set_intros(1))+
  then have lt: "current_level (threads s t) < 4" using assms(2) by (simp add: word_less_nat_alt)
  have "queues_ok s1 (Q(l := ts))"
    using assms(1-3) p unfolding queues_ok_def s1_def by auto
  then have q: "queues_ok (upd_thread t f s1) (Q(l := ts))" for f
    using p(4) by (rule queues_ok_thread_upd)
  then show "sched_ok (run_next c t s1) (Q(l := ts))"
    using p t lt q [of "\<lambda>t. t\<lparr>state := THREAD_RUNNING\<rparr>"]
    by (simp add: sched_ok_def run_next_def Let_def s1_def upd_thread_def queues_ok_def runq_rep_def switch_to_def)
  show "current (run_next c t s1) = t" by (simp add: run_next_def Let_def)
  show "sched_ok (upd_thread t (\<lambda>t. t\<lparr>state := THREAD_RUNNING\<rparr>) s1) (Q(l := ts))" if "t = c" "current s = t"
    using p t lt q that by (simp add: sched_ok_def s1_def)
qed

section \<open>Leaving the processor\<close>

lemma sched_block_cases:
  assumes "sched_ok s Q"
  obtains (halt) "queued Q = {}" "sched_block s = None"
  | (switch) l t ts s' where "l < 4" "\<And>j. j < l \<Longrightarrow> Q j = []" "Q l = t # ts" "sched_block s = Some s'"
      "current s' = t" "sched_ok s' (Q(l := ts))" "state (threads s' (current s)) = THREAD_BLOCKED"
      "t \<in> queued Q"
proof -
  define s0 where "s0 = upd_thread (current s) (\<lambda>t. t\<lparr>state := THREAD_BLOCKED\<rparr>) s"
  have c: "current s \<notin> queued Q" "queues_ok s Q" using assms by (simp_all add: sched_ok_def)
  then have q: "queues_ok s0 Q" unfolding s0_def by (intro queues_ok_thread_upd)
  then have r: "runq_rep s0 Q" by (simp add: queues_ok_def)
  show thesis
  proof (rule sched_pick_spec [OF r])
    assume "queued Q = {}" "sched_pick s0 = Some (0, s0)"
    then show thesis by (intro halt) (simp_all add: sched_block_def leave_cpu_def s0_def Let_def)
  next
    fix l t ts
    assume a: "l < 4" "\<And>j. j < l \<Longrightarrow> Q j = []" "Q l = t # ts"
      "sched_pick s0 = Some (t, s0\<lparr>runq := list_del (SchedNode t) (runq s0)\<rparr>)"
      "queued Q = insert t (queued (Q(l := ts)))"
    note pr = pick_and_run [OF q a(1,3), of "current s"]
    have t: "t \<noteq> 0" "t \<noteq> current s" using q a(1,3,5) c unfolding queues_ok_def by auto
    let ?s' = "run_next (current s) t (s0\<lparr>runq := list_del (SchedNode t) (runq s0)\<rparr>)"
    have "sched_block s = Some ?s'"
      using a(4) t by (simp add: sched_block_def leave_cpu_def s0_def Let_def)
    moreover have "state (threads ?s' (current s)) = THREAD_BLOCKED"
      using t by (simp add: run_next_def Let_def s0_def)
    ultimately show thesis using a pr by (intro switch [of l t ts ?s']) auto
  qed
qed

text \<open>A blocking thread hands the processor to the first thread of the highest nonempty
  level, which leaves its queue; all other queues stay as they are, the thread itself is blocked, and the
  kernel halts only when no thread at all is ready.\<close>

theorem sched_block_spec:
  assumes "sched_ok s Q"
  shows "(queued Q = {} \<and> sched_block s = None) \<or>
    (\<exists>l t ts s'. l < 4 \<and> (\<forall>j < l. Q j = []) \<and> Q l = t # ts \<and> sched_block s = Some s' \<and>
       current s' = t \<and> sched_ok s' (Q(l := ts)) \<and>
       state (threads s' (current s)) = THREAD_BLOCKED)"
  by (rule sched_block_cases [OF assms]) blast+

text \<open>
  After the current thread \<open>c\<close> has been queued, picking a thread always succeeds; either \<open>c\<close>
  itself goes on or another thread takes over.
\<close>

definition resume :: "u64 \<Rightarrow> kernel \<Rightarrow> kernel option" where
  "resume c s = do {
     (next, s) \<leftarrow> sched_pick s;
     if next = 0 \<or> next = c then Some (upd_thread c (\<lambda>t. t\<lparr>state := THREAD_RUNNING\<rparr>) s)
     else Some (run_next c next s)}"

lemma resume_spec:
  assumes q: "queues_ok s Q" and c: "c \<in> queued Q" "current s = c"
  obtains l t ts s' where "l < 4" "\<And>j. j < l \<Longrightarrow> Q j = []" "Q l = t # ts" "resume c s = Some s'"
    "current s' = t" "sched_ok s' (Q(l := ts))" "queued Q = insert t (queued (Q(l := ts)))"
    "\<And>x. x \<noteq> t \<Longrightarrow> threads s' x = threads s x" "sched_ticks s' = sched_ticks s"
    "threads s' t = (threads s t)\<lparr>state := THREAD_RUNNING\<rparr>"
    "\<exists>u. sched_pick s = Some (t, u) \<and> t \<noteq> 0 \<and>
       s' = (if t = c then upd_thread c (\<lambda>t. t\<lparr>state := THREAD_RUNNING\<rparr>) u else run_next c t u)"
proof -
  have r: "runq_rep s Q" using q by (simp add: queues_ok_def)
  show thesis
  proof (rule sched_pick_spec [OF r])
    assume "queued Q = {}" then show thesis using c by simp
  next
    fix l t ts
    assume a: "l < 4" "\<And>j. j < l \<Longrightarrow> Q j = []" "Q l = t # ts"
      "sched_pick s = Some (t, s\<lparr>runq := list_del (SchedNode t) (runq s)\<rparr>)"
      "queued Q = insert t (queued (Q(l := ts)))"
    note pr = pick_and_run [OF q a(1,3), of c]
    have t: "t \<noteq> 0" using q a(1,3) unfolding queues_ok_def by auto
    let ?u = "s\<lparr>runq := list_del (SchedNode t) (runq s)\<rparr>"
    show thesis
    proof (cases "t = c")
      case True
      then show thesis using a t pr(3) c
        by (intro that [of l t ts "upd_thread c (\<lambda>t. t\<lparr>state := THREAD_RUNNING\<rparr>) ?u"])
          (auto simp: resume_def)
    next
      case False
      then show thesis using a t pr(1,2)
        by (intro that [of l t ts "run_next c t ?u"])
          (auto simp: resume_def run_next_def Let_def)
    qed
  qed
qed

text \<open>\<open>sched_yield\<close> never halts: it puts the current thread behind the others of its level
  with a full quantum and runs the first thread of the highest nonempty level; no thread is
  lost and the invariant is kept.\<close>

theorem sched_yield_spec:
  assumes "sched_ok s Q"
  defines "l0 \<equiv> unat (current_level (threads s (current s)))"
  shows "\<exists>l t ts s'. sched_yield s = Some s' \<and> current s' = t \<and> l < 4 \<and>
     (\<forall>j < l. (Q(l0 := Q l0 @ [current s])) j = []) \<and> (Q(l0 := Q l0 @ [current s])) l = t # ts \<and>
     sched_ok s' (Q(l0 := Q l0 @ [current s], l := ts)) \<and>
     time_quantum_left (threads s' (current s)) = 2 ^ l0 \<and>
     insert (current s') (queued (Q(l0 := Q l0 @ [current s], l := ts))) = insert (current s) (queued Q) \<and>
     (\<forall>x. x \<notin> insert (current s) (queued Q) \<longrightarrow> threads s' x = threads s x)"
proof -
  let ?c = "current s" and ?lv = "current_level (threads s (current s))"
  let ?Q = "Q(l0 := Q l0 @ [?c])"
  have c: "?c \<noteq> 0" "?c \<notin> queued Q" "queues_ok s Q" "?lv < 4" using assms(1) by (simp_all add: sched_ok_def)
  have l0: "l0 < 4" using c(4) by (simp add: l0_def word_less_nat_alt)
  define s0 where "s0 = upd_thread ?c (\<lambda>t. t\<lparr>time_quantum_left := 2 ^ l0, state := THREAD_READY\<rparr>) s"
  have q: "queues_ok (enqueue_at ?c ?lv s0) ?Q"
    unfolding l0_def using c l0
    by (intro queues_ok_enqueue [where s = s and th = "threads s0 (current s)"]) (auto simp: s0_def l0_def)
  have cq: "?c \<in> queued ?Q" using l0 by (auto simp: queued_def)
  have qq: "queued ?Q = insert ?c (queued Q)" using l0 by (auto simp: queued_def split: if_splits)
  have run: "sched_yield s = resume ?c (enqueue_at ?c ?lv s0)"
    using quantum_defined [OF c(4)] by (simp add: sched_yield_def resume_def s0_def l0_def Let_def)
  show ?thesis
  proof (rule resume_spec [OF q cq], goal_cases)
    case (2 l t ts s')
    have "time_quantum_left (threads s' ?c) = 2 ^ l0"
      using 2(8,10) by (cases "?c = t") (auto simp: s0_def)
    moreover have "insert (current s') (queued (?Q(l := ts))) = insert ?c (queued Q)"
      using 2(5,7) qq by simp
    moreover have "threads s' x = threads s x" if "x \<notin> insert ?c (queued Q)" for x
    proof -
      have "x \<noteq> t" "x \<noteq> ?c" using that 2(7) qq by auto
      then show ?thesis using 2(8) [of x] by (simp add: s0_def)
    qed
    ultimately show ?thesis using 2(1-6) run
      by (intro exI [of _ l] exI [of _ t] exI [of _ ts] exI [of _ s']) simp
  qed (simp add: s0_def)
qed


section \<open>Timer ticks\<close>

lemma queues_ok_boost:
  assumes "queues_ok s Q" "current s \<noteq> 0"
  obtains s' where "sched_boost s = Some s'"
    "queues_ok s' (\<lambda>l. if l = 0 then Q 0 @ Q 1 @ Q 2 @ Q 3 else if l < 4 then [] else Q l)"
    "threads s' = boosted (insert (current s) (set (Q 1) \<union> set (Q 2) \<union> set (Q 3))) (threads s)"
    "current s' = current s" "sched_ticks s' = sched_ticks s"
proof -
  let ?Q = "\<lambda>l. if l = 0 then Q 0 @ Q 1 @ Q 2 @ Q 3 else if l < 4 then [] else Q l"
  have r: "runq_rep s Q" using assms by (simp add: queues_ok_def)
  from sched_boost_spec [OF r assms(2)] obtain s' where s': "sched_boost s = Some s'" "runq_rep s' ?Q"
    "threads s' = boosted (insert (current s) (set (Q 1) \<union> set (Q 2) \<union> set (Q 3))) (threads s)"
    "current s' = current s" "sched_ticks s' = sched_ticks s" by blast
  have "t \<noteq> 0 \<and> state (threads s' t) = THREAD_READY \<and> unat (current_level (threads s' t)) = 0"
    if "t \<in> set (Q 0 @ Q 1 @ Q 2 @ Q 3)" for t
  proof -
    have ok: "t \<in> set (Q l) \<Longrightarrow> t \<noteq> 0 \<and> state (threads s t) = THREAD_READY \<and>
        unat (current_level (threads s t)) = l" if "l < 4" for l
      using assms(1) that unfolding queues_ok_def by blast
    show ?thesis using that ok [of 0] ok [of 1] ok [of 2] ok [of 3] s'(3) by (auto simp: boosted_def)
  qed
  then have "queues_ok s' ?Q" using s'(2) by (auto simp: queues_ok_def)
  then show thesis using s' that by blast
qed

lemma queued_boost: "queued (\<lambda>l. if l = 0 then Q 0 @ Q 1 @ Q 2 @ Q 3 else if l < 4 then [] else Q l) = queued Q"
  by (auto simp: queued_def numeral_eq_Suc less_Suc_eq lessThan_Suc)

text \<open>The level a thread drops to when its quantum runs out.\<close>

definition demote :: "u32 \<Rightarrow> u32" where
  "demote l = (if l < 3 then l + 1 else l)"

lemma demote_bound: "l < 4 \<Longrightarrow> demote l < 4"
  using unat_inc [of l 3] by (auto simp: demote_def word_less_nat_alt)

lemma tick_account_spec:
  assumes ok: "sched_ok s Q"
  defines "c \<equiv> current s" and "th \<equiv> threads s (current s)"
  defines "l \<equiv> demote (current_level (threads s (current s)))"
  shows "time_quantum_left th \<noteq> 1 \<Longrightarrow> tick_account s = Some (False, upd_thread c
      (\<lambda>t. t\<lparr>total_cpu_time := total_cpu_time t + 1, time_quantum_left := time_quantum_left t - 1\<rparr>) s)"
    "time_quantum_left th = 1 \<Longrightarrow> \<exists>s1. tick_account s = Some (True, s1) \<and>
       queues_ok s1 (Q(unat l := Q (unat l) @ [c])) \<and> current s1 = c \<and> sched_ticks s1 = sched_ticks s \<and>
       threads s1 = (threads s)(c := th\<lparr>total_cpu_time := total_cpu_time th + 1, current_level := l,
         time_quantum_left := 2 ^ unat l, state := THREAD_READY\<rparr>)"
proof -
  have c: "c \<noteq> 0" "c \<notin> queued Q" "queues_ok s Q" "current_level th < 4" "state th = THREAD_RUNNING"
    using ok by (simp_all add: sched_ok_def c_def th_def)
  show "tick_account s = Some (False, upd_thread c
      (\<lambda>t. t\<lparr>total_cpu_time := total_cpu_time t + 1, time_quantum_left := time_quantum_left t - 1\<rparr>) s)"
    if "time_quantum_left th \<noteq> 1"
    using c that by (simp add: tick_account_def Let_def c_def th_def)
  have l: "l < 4" unfolding l_def using demote_bound c(4) by (simp add: th_def)
  show "\<exists>s1. tick_account s = Some (True, s1) \<and>
       queues_ok s1 (Q(unat l := Q (unat l) @ [c])) \<and> current s1 = c \<and> sched_ticks s1 = sched_ticks s \<and>
       threads s1 = (threads s)(c := th\<lparr>total_cpu_time := total_cpu_time th + 1, current_level := l,
         time_quantum_left := 2 ^ unat l, state := THREAD_READY\<rparr>)" if tq: "time_quantum_left th = 1"
  proof -
    define s0 where "s0 = s\<lparr>threads := (threads s)(c := th\<lparr>total_cpu_time := total_cpu_time th + 1,
        current_level := l, time_quantum_left := 2 ^ unat l, state := THREAD_READY\<rparr>)\<rparr>"
    have q: "QUANTUM_TICKS (demote (current_level th)) = Some (2 ^ unat l)"
      using quantum_defined [OF l] by (simp add: l_def th_def)
    have "tick_account s = Some (True, enqueue_at c l s0)"
      using c(1,5) tq q
      by (auto simp: tick_account_def Let_def c_def th_def l_def demote_def s0_def upd_thread_def)
    moreover have "queues_ok (enqueue_at c l s0) (Q(unat l := Q (unat l) @ [c]))"
      using c l by (intro queues_ok_enqueue [where s = s and th = "threads s0 c"])
        (auto simp: s0_def word_less_nat_alt)
    ultimately show ?thesis by (auto simp: s0_def c_def)
  qed
qed

lemma queued_snoc: "l < 4 \<Longrightarrow> queued (Q(l := Q l @ [c])) = insert c (queued Q)"
  by (auto simp: queued_def split: if_splits)


lemma maybe_boost:
  assumes "queues_ok s Q" "current s \<noteq> 0"
  obtains s' Q' where "(if b then sched_boost s else Some s) = Some s'" "queues_ok s' Q'"
    "queued Q' = queued Q" "current s' = current s" "sched_ticks s' = sched_ticks s"
    "\<And>x. state (threads s' x) = state (threads s x)"
    "b \<Longrightarrow> \<forall>l. 0 < l \<and> l < 4 \<longrightarrow> Q' l = []"
    "current_level (threads s' (current s)) = (if b then 0 else current_level (threads s (current s)))"
proof (cases b)
  case True
  from queues_ok_boost [OF assms] obtain s' where s': "sched_boost s = Some s'"
    "queues_ok s' (\<lambda>l. if l = 0 then Q 0 @ Q 1 @ Q 2 @ Q 3 else if l < 4 then [] else Q l)"
    "threads s' = boosted (insert (current s) (set (Q 1) \<union> set (Q 2) \<union> set (Q 3))) (threads s)"
    "current s' = current s" "sched_ticks s' = sched_ticks s" .
  show thesis by (rule that [OF _ s'(2)]) (use True s' in \<open>auto simp: queued_boost boosted_def\<close>)
qed (use assms in \<open>auto intro: that\<close>)

definition ticked :: "kernel \<Rightarrow> (nat \<Rightarrow> u64 list) \<Rightarrow> kernel \<Rightarrow> (nat \<Rightarrow> u64 list) \<Rightarrow> bool" where
  \<comment> \<open>what a tick does: no thread is lost, the others keep their state, every fiftieth tick brings all to the top level\<close>
  "ticked s Q s' Q' \<longleftrightarrow> sched_ok s' Q' \<and> sched_ticks s' = sched_ticks s + 1 \<and>
     insert (current s') (queued Q') = insert (current s) (queued Q) \<and>
     (\<forall>x. x \<notin> insert (current s) (queued Q) \<longrightarrow> state (threads s' x) = state (threads s x)) \<and>
     (sched_ticks s mod 50 = 49 \<longrightarrow> (\<forall>l. 0 < l \<and> l < 4 \<longrightarrow> Q' l = []) \<and>
       (\<forall>t \<in> insert (current s') (queued Q'). current_level (threads s' t) = 0))"

lemma all_at_top:
  assumes "queues_ok s Q" "\<forall>l. 0 < l \<and> l < 4 \<longrightarrow> Q l = []" "t \<in> queued Q"
  shows "current_level (threads s t) = 0"
proof -
  obtain l where l: "l < 4" "t \<in> set (Q l)" using assms(3) by (auto simp: queued_def)
  then have "l = 0" using assms(2) by (cases l) auto
  then have "unat (current_level (threads s t)) = 0" using assms(1) l unfolding queues_ok_def by blast
  then show ?thesis by (simp add: unat_eq_0)
qed

lemma tick_continues:
  assumes ok: "sched_ok s Q" and left: "time_quantum_left (threads s (current s)) \<noteq> 1"
  shows "\<exists>s' Q'. sched_tick s = Some s' \<and> ticked s Q s' Q'"
proof -
  let ?c = "current s" and ?b = "sched_ticks s mod 50 = 49"
  have c: "?c \<noteq> 0" "?c \<notin> queued Q" "queues_ok s Q" "current_level (threads s ?c) < 4"
      "state (threads s ?c) = THREAD_RUNNING" using ok by (simp_all add: sched_ok_def)
  define s1 where "s1 = upd_thread ?c (\<lambda>t. t\<lparr>total_cpu_time := total_cpu_time t + 1,
      time_quantum_left := time_quantum_left t - 1\<rparr>) s"
  have acc: "tick_account s = Some (False, s1)" using tick_account_spec(1) [OF ok left] by (simp add: s1_def)
  let ?t = "s1\<lparr>sched_ticks := sched_ticks s + 1\<rparr>"
  have q1: "queues_ok ?t Q" using queues_ok_thread_upd [OF c(3,2)] by (simp add: s1_def)
  have c1: "current ?t \<noteq> 0" using c by (simp add: s1_def)
  obtain s' Q' where
    m: "(if ?b then sched_boost ?t else Some ?t) = Some s'" "queues_ok s' Q'" "queued Q' = queued Q"
    "current s' = current ?t" "sched_ticks s' = sched_ticks ?t"
    "\<And>x. state (threads s' x) = state (threads ?t x)"
    "?b \<Longrightarrow> \<forall>l. 0 < l \<and> l < 4 \<longrightarrow> Q' l = []"
    "current_level (threads s' (current ?t)) = (if ?b then 0 else current_level (threads ?t (current ?t)))"
    by (rule maybe_boost [OF q1 c1, of ?b]) blast
  have s': "current s' = ?c" "sched_ticks s' = sched_ticks s + 1" "\<And>x. state (threads s' x) = state (threads s x)"
    "current_level (threads s' ?c) = (if ?b then 0 else current_level (threads s ?c))"
    using m(4-6,8) by (simp_all add: s1_def upd_thread_def)
  have "sched_ticks s1 = sched_ticks s" by (simp add: s1_def)
  then have "sched_tick s = Some s'" using acc m(1) by (auto simp: sched_tick_def Let_def split: if_splits)
  moreover have "sched_ok s' Q'" using s' m(2,3) c by (auto simp: sched_ok_def)
  ultimately show ?thesis using s' m(3,7) all_at_top [OF m(2) m(7)]
    by (intro exI [of _ s'] exI [of _ Q']) (auto simp: ticked_def)
qed

lemma tick_switches:
  assumes ok: "sched_ok s Q" and last: "time_quantum_left (threads s (current s)) = 1"
  shows "\<exists>s' Q'. sched_tick s = Some s' \<and> ticked s Q s' Q'"
proof -
  let ?c = "current s" and ?b = "sched_ticks s mod 50 = 49"
  have c: "?c \<noteq> 0" "?c \<notin> queued Q" "current_level (threads s ?c) < 4" using ok by (simp_all add: sched_ok_def)
  define l where "l = demote (current_level (threads s ?c))"
  have l: "unat l < 4" using demote_bound [OF c(3)] by (simp add: l_def word_less_nat_alt)
  from tick_account_spec(2) [OF ok last] obtain s1 where acc: "tick_account s = Some (True, s1)"
    and q1: "queues_ok s1 (Q(unat l := Q (unat l) @ [?c]))" and c1: "current s1 = ?c" "sched_ticks s1 = sched_ticks s"
      "\<And>x. x \<noteq> ?c \<Longrightarrow> threads s1 x = threads s x"
    by (auto simp: l_def)
  let ?t = "s1\<lparr>sched_ticks := sched_ticks s + 1\<rparr>"
  have q2: "queues_ok ?t (Q(unat l := Q (unat l) @ [?c]))" "current ?t \<noteq> 0" using q1 c c1 by simp_all
  obtain s2 Q2 where
    m: "(if ?b then sched_boost ?t else Some ?t) = Some s2" "queues_ok s2 Q2"
    "queued Q2 = queued (Q(unat l := Q (unat l) @ [?c]))" "current s2 = current ?t"
    "sched_ticks s2 = sched_ticks ?t" "\<And>x. state (threads s2 x) = state (threads ?t x)" "?b \<Longrightarrow> \<forall>l. 0 < l \<and> l < 4 \<longrightarrow> Q2 l = []"
    by (rule maybe_boost [OF q2, of ?b]) blast
  have s2: "queued Q2 = insert ?c (queued Q)" "current s2 = ?c" using m(3,4) c1 queued_snoc [OF l] by simp_all
  obtain k t ts s' where
    r: "k < 4" "Q2 k = t # ts" "current s' = t" "sched_ok s' (Q2(k := ts))"
    "queued Q2 = insert t (queued (Q2(k := ts)))" "sched_ticks s' = sched_ticks s2"
    "threads s' t = (threads s2 t)\<lparr>state := THREAD_RUNNING\<rparr>" "\<And>x. x \<noteq> t \<Longrightarrow> threads s' x = threads s2 x"
    "\<exists>u. sched_pick s2 = Some (t, u) \<and> t \<noteq> 0 \<and>
       s' = (if t = ?c then upd_thread ?c (\<lambda>t. t\<lparr>state := THREAD_RUNNING\<rparr>) u else run_next ?c t u)"
    by (rule resume_spec [OF m(2) _ s2(2)]) (use s2(1) in blast)+
  have "sched_tick s = Some s'" using acc m(1) r(9) c1 by (auto simp: sched_tick_def Let_def)
  moreover have "state (threads s' x) = state (threads s x)" if "x \<notin> insert ?c (queued Q)" for x
  proof -
    have "x \<noteq> t" using that s2(1) r(5) by auto
    then show ?thesis using r(8) m(6) c1(3) that by simp
  qed
  moreover have "(\<forall>l. 0 < l \<and> l < 4 \<longrightarrow> (Q2(k := ts)) l = []) \<and>
     (\<forall>x \<in> insert (current s') (queued (Q2(k := ts))). current_level (threads s' x) = 0)" if b: ?b
  proof -
    have k: "k = 0" using m(7) [OF b] r(1,2) by (metis gr0I list.distinct(1))
    then have e: "\<forall>l. 0 < l \<and> l < 4 \<longrightarrow> (Q2(k := ts)) l = []" using m(7) [OF b] by simp
    have "t \<in> queued Q2" using r(5) by blast
    then have "current_level (threads s' t) = 0" using all_at_top [OF m(2) m(7) [OF b]] r(7) by simp
    moreover have "queues_ok s' (Q2(k := ts))" using r(4) by (simp add: sched_ok_def)
    ultimately show ?thesis using e all_at_top [OF _ e] r(3) by blast
  qed
  moreover have "sched_ticks s' = sched_ticks s + 1" "insert (current s') (queued (Q2(k := ts))) = insert ?c (queued Q)"
    using r(3,5,6) m(5) s2(1) by simp_all
  ultimately show ?thesis using r(4) unfolding ticked_def by blast
qed

lemma sched_tick_ok: "sched_ok s Q \<Longrightarrow> \<exists>s' Q'. sched_tick s = Some s' \<and> ticked s Q s' Q'"
  using tick_continues tick_switches by blast

text \<open>C8: a timer tick never halts the kernel, keeps the scheduler invariant and loses no
  thread: the running and queued threads after the tick are those before it. Every fiftieth tick
  leaves every one of them at the top level, so that none starves.\<close>

theorem sched_tick_invariant:
  assumes ok: "sched_ok s Q"
  shows "\<exists>s' Q'. sched_tick s = Some s' \<and> sched_ok s' Q' \<and> sched_ticks s' = sched_ticks s + 1 \<and>
    insert (current s') (queued Q') = insert (current s) (queued Q) \<and>
    (sched_ticks s mod 50 = 49 \<longrightarrow> (\<forall>l. 0 < l \<and> l < 4 \<longrightarrow> Q' l = []) \<and>
       (\<forall>t \<in> insert (current s') (queued Q'). current_level (threads s' t) = 0))"
  using sched_tick_ok [OF ok] unfolding ticked_def by blast

section \<open>Waking and stopping threads\<close>

lemma sched_wakeup_ok:
  assumes "sched_ok s Q" "t \<noteq> 0" "t \<noteq> current s" "t \<notin> queued Q"
  shows "sched_ok (sched_wakeup t s) (Q(0 := Q 0 @ [t]))"
proof -
  let ?s0 = "upd_thread t (\<lambda>t. t\<lparr>current_level := 0, state := THREAD_READY, time_quantum_left := 1\<rparr>) s"
  have q: "queues_ok s Q" using assms by (simp add: sched_ok_def)
  have "queues_ok (enqueue_at t 0 ?s0) (Q(unat (0 :: u32) := Q (unat (0 :: u32)) @ [t]))"
    using assms by (intro queues_ok_enqueue [OF q, where th = "threads ?s0 t"]) auto
  then have w: "queues_ok (sched_wakeup t s) (Q(0 := Q 0 @ [t]))" by (simp add: sched_wakeup_def sched_enqueue_def)
  have o: "threads (sched_wakeup t s) (current s) = threads s (current s)"
    "current (sched_wakeup t s) = current s" using assms by (simp_all add: sched_wakeup_def sched_enqueue_def)
  show ?thesis using w o assms queued_snoc [of 0 Q t] by (simp add: sched_ok_def)
qed

text \<open>Waking or starting a thread that is on no queue appends it to the top level and keeps
  the invariant; dequeuing a ready thread removes exactly it, so that doing one after the
  other leaves the queues as they were.\<close>

theorem sched_wakeup_dequeue:
  assumes "sched_ok s Q" "t \<noteq> 0" "t \<noteq> current s" "t \<notin> queued Q"
  shows "sched_ok (sched_wakeup t s) (Q(0 := Q 0 @ [t])) \<and>
    sched_ok (sched_dequeue t (sched_wakeup t s)) Q"
proof -
  let ?Q = "Q(0 := Q 0 @ [t])"
  have q: "queues_ok s Q" using assms by (simp add: sched_ok_def)
  have w: "sched_ok (sched_wakeup t s) ?Q" by (rule sched_wakeup_ok [OF assms])
  have o: "current (sched_wakeup t s) = current s" by (simp add: sched_wakeup_def sched_enqueue_def)
  have "runq_rep (sched_dequeue t (sched_wakeup t s)) (?Q(0 := remove1 t (?Q 0)))"
    using w by (intro runq_dequeue) (auto simp: sched_ok_def queues_ok_def)
  moreover have "t \<notin> set (Q 0)" using assms by (auto simp: queued_def)
  then have "?Q(0 := remove1 t (?Q 0)) = Q" by (simp add: remove1_append)
  moreover have "threads (sched_dequeue t (sched_wakeup t s)) x = threads s x" if "x \<noteq> t" for x
    using that by (simp add: sched_dequeue_def sched_wakeup_def sched_enqueue_def)
  moreover have "x \<noteq> t" if "l < 4" "x \<in> set (Q l)" for l x using that assms by (auto simp: queued_def)
  ultimately show ?thesis using q w assms o
    by (simp add: sched_ok_def queues_ok_def) (simp add: sched_dequeue_def)
qed

lemma sched_ok_cong:
  "threads s' = threads s \<Longrightarrow> current s' = current s \<Longrightarrow> runq s' = runq s \<Longrightarrow> sched_ok s' Q \<longleftrightarrow> sched_ok s Q"
  by (simp add: sched_ok_def queues_ok_def runq_rep_def)

section \<open>What a scheduler promises to those who put threads to sleep\<close>

locale scheduler =
  fixes ok :: "'s \<Rightarrow> (nat \<Rightarrow> 't list) \<Rightarrow> bool"
    and wakeup :: "'t \<Rightarrow> 's \<Rightarrow> 's"
    and asleep :: "'s \<Rightarrow> 't \<Rightarrow> bool"
  assumes wakeup_ok: "ok s Q \<Longrightarrow> asleep s t \<Longrightarrow> ok (wakeup t s) (Q(0 := Q 0 @ [t]))"
    and wakeup_asleep: "asleep s t \<Longrightarrow> asleep (wakeup t s) u \<longleftrightarrow> asleep s u \<and> u \<noteq> t"
begin

lemma wake_many_asleep: "distinct ts \<Longrightarrow> \<forall>t \<in> set ts. asleep s t \<Longrightarrow> asleep (fold wakeup ts s) u \<longleftrightarrow> asleep s u \<and> u \<notin> set ts"
proof (induction ts arbitrary: s)
  case (Cons t ts)
  then have "\<forall>u \<in> set ts. asleep (wakeup t s) u" by (auto simp: wakeup_asleep)
  with Cons show ?case by (auto simp: wakeup_asleep)
qed simp

lemma wake_many: "ok s Q \<Longrightarrow> distinct ts \<Longrightarrow> \<forall>t \<in> set ts. asleep s t \<Longrightarrow> ok (fold wakeup ts s) (Q(0 := Q 0 @ ts))"
proof (induction ts arbitrary: s Q)
  case (Cons t ts)
  have "ok (wakeup t s) (Q(0 := Q 0 @ [t]))" using Cons.prems by (intro wakeup_ok) auto
  moreover have "\<forall>u \<in> set ts. asleep (wakeup t s) u" using Cons.prems by (auto simp: wakeup_asleep)
  ultimately have "ok (fold wakeup ts (wakeup t s)) ((Q(0 := Q 0 @ [t]))(0 := (Q(0 := Q 0 @ [t])) 0 @ ts))"
    using Cons.prems(2) by (intro Cons.IH) (auto simp del: fun_upd_apply)
  then show ?case by (simp add: fun_upd_same del: fun_upd_apply)
qed simp

end

definition asleep :: "kernel \<Rightarrow> u64 \<Rightarrow> bool" where
  "asleep s t \<longleftrightarrow> t \<noteq> 0 \<and> state (threads s t) = THREAD_BLOCKED"

lemma asleep_off: "sched_ok s Q \<Longrightarrow> asleep s t \<Longrightarrow> t \<noteq> current s \<and> t \<notin> queued Q"
  by (auto simp: sched_ok_def queues_ok_def queued_def asleep_def)

interpretation mlfq: scheduler sched_ok sched_wakeup asleep
proof
  show "sched_ok (sched_wakeup t s) (Q(0 := Q 0 @ [t]))" if "sched_ok s Q" "asleep s t" for s Q t
    using that asleep_off [OF that] by (intro sched_wakeup_ok) (auto simp: asleep_def)
  show "asleep (sched_wakeup t s) u \<longleftrightarrow> asleep s u \<and> u \<noteq> t" if "asleep s t" for s t u
    by (simp add: asleep_def sched_wakeup_def sched_enqueue_def)
qed

section \<open>A running example\<close>

lemma sched_init_eq:
  "snd (sched_init s) = s\<lparr>runq := fold (\<lambda>i. list_init (RunqHead i)) [0..<4] (runq s)\<rparr>"
proof -
  have "fold (\<lambda>i s. s\<lparr>runq := list_init (RunqHead i) (runq s)\<rparr>) [0..<n] s
      = s\<lparr>runq := fold (\<lambda>i. list_init (RunqHead i)) [0..<n] (runq s)\<rparr>" for n
    by (induction n) simp_all
  then show ?thesis by (simp add: sched_init_def)
qed

lemma sched_init_rep:
  assumes "dlists (runq s) {} L"
  shows "fst (sched_init s) = 0" "runq_rep (snd (sched_init s)) (\<lambda>_. [])"
proof -
  have "dlists (runq (snd (sched_init s))) runq_heads (\<lambda>_. [])"
    using init_many [OF assms, of RunqHead 4] by (simp add: sched_init_eq inj_def)
  moreover have "runq_lists (\<lambda>_. []) = (\<lambda>_. [])"
    using runq_lists.elims by (metis list.map_disc_iff)
  ultimately show "runq_rep (snd (sched_init s)) (\<lambda>_. [])" by (simp add: runq_rep_def)
  show "fst (sched_init s) = 0" by (simp add: sched_init_def)
qed

text \<open>One running thread at address \<open>0x1000\<close>, and a second one ready behind it.\<close>

definition one_thread :: kernel where
  "one_thread = (snd (sched_init kernel_zero))\<lparr>current := 0x1000,
     threads := (\<lambda>_. thread_zero)(0x1000 := thread_zero\<lparr>state := THREAD_RUNNING, time_quantum_left := 1\<rparr>)\<rparr>"

definition two_threads :: kernel where
  "two_threads = sched_wakeup 0x8000 one_thread"

lemma one_thread_ok: "sched_ok one_thread (\<lambda>_. [])"
proof -
  have "runq_rep (snd (sched_init kernel_zero)) (\<lambda>_. [])"
    by (rule sched_init_rep(2)) (simp add: kernel_zero_def)
  then show ?thesis
    by (simp add: sched_ok_def queues_ok_def runq_rep_def one_thread_def queued_def thread_zero_def)
qed

lemma one_thread_fields:
  "current one_thread = 0x1000" "sched_ticks one_thread = 0"
  "threads one_thread 0x1000 = thread_zero\<lparr>state := THREAD_RUNNING, time_quantum_left := 1\<rparr>"
  by (simp_all add: one_thread_def sched_init_eq kernel_zero_def)

lemma two_threads_ok: "sched_ok two_threads ((\<lambda>_. [])(0 := [0x8000]))"
  using sched_wakeup_ok [OF one_thread_ok, of "0x8000"]
  by (simp add: two_threads_def one_thread_fields queued_def)

lemma two_threads_fields:
  "current two_threads = 0x1000" "sched_ticks two_threads = 0"
  "threads two_threads 0x1000 = thread_zero\<lparr>state := THREAD_RUNNING, time_quantum_left := 1\<rparr>"
  by (simp_all add: two_threads_def sched_wakeup_def sched_enqueue_def one_thread_fields)

theorem sched_block_spec_witness:
  "\<exists>s'. sched_block two_threads = Some s' \<and> current s' = 0x8000"
  using sched_block_spec [OF two_threads_ok] by (auto simp: queued_def split: if_splits)

theorem sched_yield_spec_witness:
  "\<exists>s'. sched_yield two_threads = Some s' \<and> current s' = 0x8000"
proof -
  have "unat (current_level (threads two_threads (current two_threads))) = 0"
    by (simp add: two_threads_fields thread_zero_def)
  then show ?thesis using sched_yield_spec [OF two_threads_ok] by (auto split: if_splits)
qed

theorem sched_tick_invariant_witness:
  "\<exists>s' Q'. sched_tick two_threads = Some s' \<and> sched_ok s' Q' \<and> sched_ticks s' = 1 \<and>
     insert (current s') (queued Q') = {0x1000, 0x8000}"
proof -
  have "queued ((\<lambda>_. [])(0 := [0x8000])) = {0x8000}" by (auto simp: queued_def split: if_splits)
  then show ?thesis using sched_tick_invariant [OF two_threads_ok] by (auto simp: two_threads_fields)
qed

theorem sched_wakeup_dequeue_witness:
  "sched_ok (sched_wakeup 0x8000 one_thread) ((\<lambda>_. [])(0 := [0x8000])) \<and>
   sched_ok (sched_dequeue 0x8000 (sched_wakeup 0x8000 one_thread)) (\<lambda>_. [])"
  using sched_wakeup_dequeue [OF one_thread_ok, of "0x8000"] by (simp add: one_thread_fields queued_def)

end
