(* ===== verification/Ipc_Spec.thy ===== *)
theory Ipc_Spec
  imports Ipc Sched_Spec
begin

text \<open>
  Message passing against sequences: \<open>ipc_rep s T E\<close> says that the endpoint of every thread of
  \<open>T\<close> holds the nodes \<open>E t\<close>. Shown are the rendezvous, the queueing of senders, the order of
  receipt, and a complete call with its reply; three further
  theorems show where a plain message is taken for a reply, where the reply to a call that has
  returned is delivered all the same, and where a reply unlinks a sender.
\<close>

section \<open>What the scheduler leaves alone\<close>

text \<open>The fields of a thread that message passing uses, apart from its scheduling state.\<close>

definition ipc_view :: "thread \<Rightarrow> ipc_endpoint_state_t \<times> u64 list \<times> u64 \<times> u64 \<times> u64 \<times> u64" where
  "ipc_view t = (ep_state t, ipc_msg t, ipc_sender t, ipc_prev_seq t, ipc_call_seq t, tid t)"

lemma ipc_view_simps [simp]:
  "ipc_view (t\<lparr>state := x\<rparr>) = ipc_view t" "ipc_view (t\<lparr>current_level := l\<rparr>) = ipc_view t"
  "ipc_view (t\<lparr>time_quantum_left := q\<rparr>) = ipc_view t"
  by (simp_all add: ipc_view_def)

lemma sched_pick_runq: "sched_pick s = Some (t, s') \<Longrightarrow> \<exists>r. s' = s\<lparr>runq := r\<rparr>"
proof -
  have "sched_pick_from k s = Some (t, s') \<Longrightarrow> \<exists>r. s' = s\<lparr>runq := r\<rparr>" for k
  proof (induction k s rule: sched_pick_from.induct)
    case (1 level s)
    from 1(2) show ?case
      by (subst (asm) sched_pick_from.simps) (auto split: if_splits Option.bind_splits intro: 1(1) exI [of _ "runq s"])
  qed
  then show "sched_pick s = Some (t, s') \<Longrightarrow> ?thesis" by (simp add: sched_pick_def)
qed

lemma sched_block_frame:
  assumes "sched_block s = Some s'"
  shows "ipcq s' = ipcq s" "g_threads s' = g_threads s" "g_threads_ptr s' = g_threads_ptr s"
    "ipc_view (threads s' t) = ipc_view (threads s t)"
  using assms sched_pick_runq
  by (auto simp: sched_block_def leave_cpu_def run_next_def switch_to_def upd_thread_def Let_def
      split: if_splits Option.bind_splits dest!: sched_pick_runq)

lemma sched_wakeup_frame [simp]:
  "ipcq (sched_wakeup t s) = ipcq s" "g_threads (sched_wakeup t s) = g_threads s"
  "g_threads_ptr (sched_wakeup t s) = g_threads_ptr s" "current (sched_wakeup t s) = current s"
  "ipc_view (threads (sched_wakeup t s) x) = ipc_view (threads s x)"
  by (simp_all add: sched_wakeup_def sched_enqueue_def enqueue_at_def upd_thread_def)

section \<open>Endpoint queues as sequences\<close>

fun ep_lists :: "(u64 \<Rightarrow> ipc_node list) \<Rightarrow> ipc_node \<Rightarrow> ipc_node list" where
  "ep_lists E (EpHead t) = E t"
| "ep_lists E _ = []"

definition ipc_rep :: "kernel \<Rightarrow> u64 set \<Rightarrow> (u64 \<Rightarrow> ipc_node list) \<Rightarrow> bool" where
  "ipc_rep s T E \<longleftrightarrow> dlists (ipcq s) (EpHead ` T) (ep_lists E)"

lemma ep_lists_upd: "(ep_lists E)(EpHead t := xs) = ep_lists (E(t := xs))"
proof
  fix h show "((ep_lists E)(EpHead t := xs)) h = ep_lists (E(t := xs)) h" by (cases h) auto
qed

lemma ipc_rep_cong: "ipcq s' = ipcq s \<Longrightarrow> ipc_rep s' T E \<longleftrightarrow> ipc_rep s T E"
  by (simp add: ipc_rep_def)

lemma ipc_pop:
  assumes "ipc_rep s T E" "t \<in> T" "E t = n # ns"
  shows "nxt (ipcq s) (EpHead t) = Some n" "ipc_rep (s\<lparr>ipcq := list_del n (ipcq s)\<rparr>) T (E(t := ns))"
proof -
  have d: "dlists (ipcq s) (EpHead ` T) (ep_lists E)" "EpHead t \<in> EpHead ` T" "ep_lists E (EpHead t) = n # ns"
    using assms by (auto simp: ipc_rep_def)
  show "nxt (ipcq s) (EpHead t) = Some n" "ipc_rep (s\<lparr>ipcq := list_del n (ipcq s)\<rparr>) T (E(t := ns))"
    using lists.pop [OF d] by (simp_all add: ipc_rep_def ep_lists_upd)
qed

lemma ipc_empty: "ipc_rep s T E \<Longrightarrow> t \<in> T \<Longrightarrow> list_empty (EpHead t) (ipcq s) \<longleftrightarrow> E t = []"
  using lists.rep_is_empty [of "ipcq s" "EpHead ` T" "ep_lists E" "EpHead t"] by (simp add: ipc_rep_def)

definition on_queue :: "u64 set \<Rightarrow> (u64 \<Rightarrow> ipc_node list) \<Rightarrow> ipc_node set" where
  "on_queue T E = (\<Union>t \<in> T. set (E t))"

lemma ipc_join:
  assumes "ipc_rep s T E" "t \<in> T" "n \<notin> on_queue T E" "\<And>x. n \<noteq> EpHead x"
  shows "ipc_rep (ep_join n t st s) T (E(t := E t @ [n]))"
proof -
  have "dlists (list_add_tail n (EpHead t) (ipcq s)) (EpHead ` T)
      ((ep_lists E)(EpHead t := ep_lists E (EpHead t) @ [n]))"
    using assms by (intro lists.rep_add_last) (auto simp: ipc_rep_def members_def on_queue_def)
  then show ?thesis
    using ep_lists_upd [of E t "E t @ [n]"] by (simp add: ipc_rep_def ep_join_def upd_thread_def Let_def)
qed


section \<open>Delivery\<close>

lemma sched_ok_upd:
  "sched_ok s Q \<Longrightarrow> t \<notin> queued Q \<Longrightarrow> t \<noteq> current s \<Longrightarrow> sched_ok (upd_thread t f s) Q"
  by (simp add: sched_ok_def queues_ok_thread_upd)

lemma sched_ok_ipcq [simp]: "sched_ok (s\<lparr>ipcq := q\<rparr>) Q \<longleftrightarrow> sched_ok s Q"
  by (simp add: sched_ok_def queues_ok_def runq_rep_def)

lemma sched_ok_view:
  \<comment> \<open>a change of the message-passing fields does not concern the scheduler\<close>
  assumes "sched_ok s Q"
    and "\<And>t. state (f t) = state t \<and> current_level (f t) = current_level t"
  shows "sched_ok (upd_thread t f s) Q"
  using assms unfolding sched_ok_def queues_ok_def runq_rep_def by auto

lemma ep_join_fields [simp]:
  "current (ep_join n t st s) = current s"
  "threads (ep_join n t st s) = (threads s)(t := (threads s t)\<lparr>ep_state := st\<rparr>)"
  "g_threads (ep_join n t st s) = g_threads s" "g_threads_ptr (ep_join n t st s) = g_threads_ptr s"
  by (simp_all add: ep_join_def Let_def upd_thread_def)

lemma ep_join_ok: "sched_ok s Q \<Longrightarrow> sched_ok (ep_join n t st s) Q"
  unfolding ep_join_def Let_def sched_ok_ipcq by (intro sched_ok_view) auto

definition got_msg :: "u64 \<Rightarrow> u64 list \<Rightarrow> u64 \<Rightarrow> bool \<Rightarrow> thread \<Rightarrow> thread" where
  \<comment> \<open>a blocked receiver after a message: ready at the top level, its endpoint idle if nobody waits\<close>
  "got_msg fr words seq idle t = t\<lparr>ipc_msg := words, ipc_sender := fr, ipc_prev_seq := seq,
     ep_state := (if idle then IPC_EP_INACTIVE else ep_state t),
     current_level := 0, state := THREAD_READY, time_quantum_left := 1\<rparr>"

lemma deliver_spec:
  assumes E: "ipc_rep s T E" "r \<in> T" "E r = n # ns" and b: "state (threads s r) = THREAD_BLOCKED"
    and q: "sched_ok s Q" "r \<noteq> 0" "r \<noteq> current s" "r \<notin> queued Q"
    and f: "f = (\<lambda>t. t\<lparr>ipc_msg := words, ipc_sender := fr, ipc_prev_seq := seq t\<rparr>)"
    and s': "s' = wake_if_blocked r (ep_idle_if_empty r (upd_thread r f (s\<lparr>ipcq := list_del n (ipcq s)\<rparr>)))"
  shows "ipc_rep s' T (E(r := ns))" "sched_ok s' (Q(0 := Q 0 @ [r]))" "current s' = current s"
    "threads s' = (threads s)(r := got_msg fr words (seq (threads s r)) (ns = []) (threads s r))"
    "g_threads s' = g_threads s" "g_threads_ptr s' = g_threads_ptr s"
proof -
  define s1 where "s1 = upd_thread r f (s\<lparr>ipcq := list_del n (ipcq s)\<rparr>)"
  define s2 where "s2 = ep_idle_if_empty r s1"
  have p: "ipc_rep s1 T (E(r := ns))"
    using ipc_pop(2) [OF E] by (simp add: s1_def ipc_rep_def upd_thread_def)
  have e: "list_empty (EpHead r) (ipcq s1) \<longleftrightarrow> ns = []" using ipc_empty [OF p E(2)] by simp
  have s2: "s2 = upd_thread r (\<lambda>t. t\<lparr>ep_state := (if ns = [] then IPC_EP_INACTIVE else ep_state t)\<rparr>) s1"
    using e by (simp add: s2_def ep_idle_if_empty_def upd_thread_def)
  have ok: "sched_ok s2 Q" unfolding s2 s1_def using q by (intro sched_ok_upd) (auto simp: f)
  have st: "state (threads s2 r) = THREAD_BLOCKED" "current s2 = current s"
    using b by (simp_all add: s2 s1_def f)
  have s': "s' = sched_wakeup r s2" using s' st by (simp add: s2_def s1_def wake_if_blocked_def)
  show "ipc_rep s' T (E(r := ns))"
    using p by (simp add: s' s2 ipc_rep_def upd_thread_def)
  show "sched_ok s' (Q(0 := Q 0 @ [r]))" unfolding s' using ok q st by (intro sched_wakeup_ok) auto
  show "current s' = current s" using st by (simp add: s')
  show "threads s' = (threads s)(r := got_msg fr words (seq (threads s r)) (ns = []) (threads s r))"
    by (auto simp: s' s2 s1_def f sched_wakeup_def sched_enqueue_def got_msg_def)
  show "g_threads s' = g_threads s" "g_threads_ptr s' = g_threads_ptr s"
    by (simp_all add: s' s2 s1_def upd_thread_def)
qed

lemma ipc_deliver_msg_spec:
  assumes "ipc_rep s T E" "r \<in> T" "E r = n # ns" "state (threads s r) = THREAD_BLOCKED"
    and "sched_ok s Q" "r \<noteq> 0" "r \<noteq> current s" "r \<notin> queued Q"
  obtains s' where "ipc_deliver_msg r fr words seq s = Some s'" "ipc_rep s' T (E(r := ns))"
    "sched_ok s' (Q(0 := Q 0 @ [r]))" "current s' = current s"
    "threads s' = (threads s)(r := got_msg fr words seq (ns = []) (threads s r))"
    "g_threads s' = g_threads s" "g_threads_ptr s' = g_threads_ptr s"
  using that deliver_spec [OF assms, where seq = "\<lambda>_. seq" and words = words and fr = fr, OF refl refl]
    ipc_pop(1) [OF assms(1-3)]
  by (simp add: ipc_deliver_msg_def ep_del_first_def)

lemma ipc_deliver_reply_spec:
  assumes "ipc_rep s T E" "r \<in> T" "E r = n # ns" "state (threads s r) = THREAD_BLOCKED"
    and "sched_ok s Q" "r \<noteq> 0" "r \<noteq> current s" "r \<notin> queued Q"
  obtains s' where "ipc_deliver_reply r fr words s = Some s'" "ipc_rep s' T (E(r := ns))"
    "sched_ok s' (Q(0 := Q 0 @ [r]))" "current s' = current s"
    "threads s' = (threads s)(r := got_msg fr words (ipc_prev_seq (threads s r)) (ns = []) (threads s r))"
    "g_threads s' = g_threads s" "g_threads_ptr s' = g_threads_ptr s"
proof -
  have "(\<lambda>t. t\<lparr>ipc_msg := words, ipc_sender := fr\<rparr>) =
      (\<lambda>t :: thread. t\<lparr>ipc_msg := words, ipc_sender := fr, ipc_prev_seq := ipc_prev_seq t\<rparr>)" by auto
  from deliver_spec [OF assms this] show thesis
    using that ipc_pop(1) [OF assms(1-3)] by (simp add: ipc_deliver_reply_def ep_del_first_def)
qed

text \<open>A message sent to a thread that waits for one is handed over at once: the sender goes
  on running, the receiver becomes ready with exactly the words sent, the sender's thread id and
  no reply token, leaves the queue of its endpoint, and no other thread changes.\<close>

theorem ipc_send_rendezvous:
  assumes "ipc_rep s T E" "r \<in> T" "E r = [IpcNode r]" "state (threads s r) = THREAD_BLOCKED"
    and "ep_state (threads s r) = IPC_EP_WAIT_RECV"
    and "sched_ok s Q" "r \<noteq> 0" "r \<noteq> current s" "r \<notin> queued Q"
  shows "\<exists>s'. ipc_send r words s = Some (Done 0 [], s') \<and> current s' = current s \<and>
    ipc_rep s' T (E(r := [])) \<and> sched_ok s' (Q(0 := Q 0 @ [r])) \<and>
    threads s' = (threads s)(r := got_msg (tid (threads s (current s))) words 0 True (threads s r))"
proof (rule ipc_deliver_msg_spec [OF assms(1-4,6-9), of "tid (threads s (current s))" words 0])
  fix s' assume d: "ipc_deliver_msg r (tid (threads s (current s))) words 0 s = Some s'"
    "ipc_rep s' T (E(r := []))" "sched_ok s' (Q(0 := Q 0 @ [r]))" "current s' = current s"
    "threads s' = (threads s)(r := got_msg (tid (threads s (current s))) words 0 ([] = []) (threads s r))"
  then show ?thesis using assms(5) by (intro exI [of _ s']) (simp add: ipc_send_def)
qed

text \<open>A message sent to a thread that does not wait is kept by the sender, who queues up
  last on the endpoint and blocks; the next ready thread runs.\<close>

theorem ipc_send_blocks:
  assumes E: "ipc_rep s T E" "r \<in> T" "IpcNode (current s) \<notin> on_queue T E"
    and st: "ep_state (threads s r) \<noteq> IPC_EP_WAIT_RECV" and q: "sched_ok s Q" "queued Q \<noteq> {}"
  shows "\<exists>s'. ipc_send r words s = Some (Blocked, s') \<and>
    ipc_rep s' T (E(r := E r @ [IpcNode (current s)])) \<and>
    ep_state (threads s' r) = IPC_EP_WAIT_SEND \<and> ipc_msg (threads s' (current s)) = words \<and>
    state (threads s' (current s)) = THREAD_BLOCKED \<and> current s' \<in> queued Q"
proof -
  let ?c = "current s"
  define s1 where "s1 = ep_join (IpcNode ?c) r IPC_EP_WAIT_SEND (upd_thread ?c (\<lambda>t. t\<lparr>ipc_msg := words\<rparr>) s)"
  have th: "threads s1 x = (threads s x)\<lparr>ipc_msg := (if x = ?c then words else ipc_msg (threads s x)),
      ep_state := (if x = r then IPC_EP_WAIT_SEND else ep_state (threads s x))\<rparr>" for x
    by (simp add: s1_def ep_join_def Let_def)
  have "ipc_rep (upd_thread ?c (\<lambda>t. t\<lparr>ipc_msg := words\<rparr>) s) T E" using E(1) by (simp add: ipc_rep_def upd_thread_def)
  then have r1: "ipc_rep s1 T (E(r := E r @ [IpcNode ?c]))" unfolding s1_def using E by (intro ipc_join) auto
  have ok: "sched_ok s1 Q" unfolding s1_def ep_join_def Let_def sched_ok_ipcq using q(1)
    by (intro sched_ok_view) auto
  have c1: "current s1 = ?c" by (simp add: s1_def ep_join_def Let_def)
  obtain t s' where b: "sched_block s1 = Some s'" "current s' \<in> queued Q"
      "state (threads s' ?c) = THREAD_BLOCKED"
    by (rule sched_block_cases [OF ok]) (use q c1 in auto)
  have "ep_state (threads s' r) = IPC_EP_WAIT_SEND" "ipc_msg (threads s' ?c) = words"
    using sched_block_frame(4) [OF b(1), of r] sched_block_frame(4) [OF b(1), of ?c] th
    by (simp_all add: ipc_view_def)
  moreover have "ipc_rep s' T (E(r := E r @ [IpcNode ?c]))"
    using r1 sched_block_frame(1) [OF b(1)] by (simp add: ipc_rep_def)
  ultimately show ?thesis using b st by (simp add: ipc_send_def s1_def Let_def)
qed


section \<open>Receiving\<close>

text \<open>C23: a receiver with senders waiting takes the message of the one that came first, returns
  its thread id and words, and records the call token of a caller (0 for a plain sender); a
  plain sender is woken, a caller stays blocked until the reply.\<close>

theorem ipc_recv_fifo:
  assumes E: "ipc_rep s T E" "current s \<in> T" "E (current s) = IpcNode p # ns"
    and st: "ep_state (threads s (current s)) = IPC_EP_WAIT_SEND" "p \<noteq> current s"
    and q: "sched_ok s Q" "p \<noteq> 0" "p \<notin> queued Q" "state (threads s p) = THREAD_BLOCKED"
  defines "is_call \<equiv> ep_state (threads s p) = IPC_EP_WAIT_RECV"
  shows "\<exists>s'. ipc_recv s = Some (Done (tid (threads s p)) (ipc_msg (threads s p)), s') \<and>
    current s' = current s \<and> ipc_rep s' T (E(current s := ns)) \<and>
    ipc_sender (threads s' (current s)) = tid (threads s p) \<and>
    ipc_prev_seq (threads s' (current s)) = (if is_call then ipc_call_seq (threads s p) else 0) \<and>
    ep_state (threads s' (current s)) = (if ns = [] then IPC_EP_INACTIVE else IPC_EP_WAIT_SEND) \<and>
    sched_ok s' (if is_call then Q else Q(0 := Q 0 @ [p]))"
proof -
  let ?c = "current s" and ?seq = "if is_call then ipc_call_seq (threads s p) else 0"
  let ?s0 = "s\<lparr>ipcq := list_del (IpcNode p) (ipcq s)\<rparr>"
  define u where "u = upd_thread ?c (\<lambda>t. t\<lparr>ipc_msg := ipc_msg (threads s p), ipc_sender := tid (threads s p),
      ipc_prev_seq := ?seq\<rparr>) ?s0"
  define s1 where "s1 = upd_thread ?c (\<lambda>t. t\<lparr>ep_state := (if ns = [] then IPC_EP_INACTIVE else ep_state t)\<rparr>) u"
  have p1: "ipc_rep s1 T (E(?c := ns))"
    using ipc_pop(2) [OF E] by (simp add: s1_def u_def ipc_rep_def upd_thread_def)
  have "ipcq u = ipcq s1" by (simp add: s1_def upd_thread_def)
  then have e: "list_empty (EpHead ?c) (ipcq u) \<longleftrightarrow> ns = []" using ipc_empty [OF p1 E(2)] by simp
  have idle: "ep_idle_if_empty ?c u = s1"
    using e by (simp add: ep_idle_if_empty_def s1_def upd_thread_def)
  have ok: "sched_ok s1 Q" unfolding s1_def u_def using q(1) by (intro sched_ok_view) auto
  have c1: "ep_state (threads s1 ?c) = (if ns = [] then IPC_EP_INACTIVE else IPC_EP_WAIT_SEND)"
    "ipc_sender (threads s1 ?c) = tid (threads s p)" "ipc_prev_seq (threads s1 ?c) = ?seq"
    "ipc_msg (threads s1 ?c) = ipc_msg (threads s p)" "threads s1 p = threads s p"
    using st by (simp_all add: s1_def u_def)
  have cs1: "current s1 = ?c" by (simp add: s1_def u_def)
  define s' where "s' = (if is_call then s1 else sched_wakeup p s1)"
  have msg: "ipc_msg (threads s' ?c) = ipc_msg (threads s p)"
    using c1(4) st(2) by (simp add: s'_def sched_wakeup_def sched_enqueue_def)
  have acc: "ipc_accept ?c s = Some (tid (threads s p), ipc_msg (threads s p), s')"
    using ipc_pop(1) [OF E] msg idle q(4) c1(5)
    by (cases is_call) (simp_all add: ipc_accept_def is_call_def s'_def u_def Let_def)
  then have run: "ipc_recv s = Some (Done (tid (threads s p)) (ipc_msg (threads s p)), s')"
    using st by (simp add: ipc_recv_def ipc_wait_def)
  have "sched_ok s' (if is_call then Q else Q(0 := Q 0 @ [p]))"
    using ok sched_wakeup_ok [OF ok q(2)] q(3) st(2) cs1 by (simp add: s'_def)
  moreover have "ipc_rep s' T (E(?c := ns))" using p1 by (simp add: s'_def ipc_rep_def)
  moreover have "ipc_view (threads s' ?c) = ipc_view (threads s1 ?c)" by (simp add: s'_def)
  then have "ipc_sender (threads s' ?c) = tid (threads s p)" "ipc_prev_seq (threads s' ?c) = ?seq"
    "ep_state (threads s' ?c) = (if ns = [] then IPC_EP_INACTIVE else IPC_EP_WAIT_SEND)"
    using c1 by (simp_all add: ipc_view_def)
  moreover have "current s' = ?c" by (simp add: s'_def s1_def u_def)
  ultimately show ?thesis using run by blast
qed

section \<open>Calls and replies\<close>

definition call_slot :: "u64 \<Rightarrow> kernel \<Rightarrow> kernel" where
  \<comment> \<open>the caller after it has drawn its token and reserved its reply slot\<close>
  "call_slot c s = ep_join (IpcWaitNode c) c IPC_EP_WAIT_RECV
     (upd_thread c (\<lambda>t. t\<lparr>ipc_call_seq := ipc_call_seq t + 1\<rparr>) s)"

lemma ipc_call_eq:
  "ipc_call r m s = do {
     s1 \<leftarrow> (if ep_state (threads (call_slot (current s) s) r) = IPC_EP_WAIT_RECV
        then ipc_deliver_msg r (tid (threads (call_slot (current s) s) (current s))) m
               (ipc_call_seq (threads s (current s)) + 1) (call_slot (current s) s)
        else Some (ep_join (IpcNode (current s)) r IPC_EP_WAIT_SEND
               (upd_thread (current s) (\<lambda>t. t\<lparr>ipc_msg := m\<rparr>) (call_slot (current s) s))));
     s' \<leftarrow> sched_block s1;
     Some (ipc_sender (threads s (current s)), Blocked, s')}"
  by (simp add: ipc_call_def call_slot_def Let_def)

lemma ipc_call_spec:
  assumes E: "ipc_rep s T E" "current s \<in> T" "r \<in> T" "E r = [IpcNode r]" "E (current s) = []"
      "IpcWaitNode (current s) \<notin> on_queue T E"
    and r: "r \<noteq> 0" "r \<noteq> current s" "r \<notin> queued Q" "state (threads s r) = THREAD_BLOCKED"
      "ep_state (threads s r) = IPC_EP_WAIT_RECV"
    and q: "sched_ok s Q"
  obtains s1 where
    "ipc_call r m s = do { s' \<leftarrow> sched_block s1; Some (ipc_sender (threads s (current s)), Blocked, s') }"
    "ipc_rep s1 T (E(current s := [IpcWaitNode (current s)], r := []))" "sched_ok s1 (Q(0 := Q 0 @ [r]))"
    "current s1 = current s" "g_threads s1 = g_threads s" "g_threads_ptr s1 = g_threads_ptr s"
    "threads s1 = (threads s)
       (current s := (threads s (current s))\<lparr>ipc_call_seq := ipc_call_seq (threads s (current s)) + 1,
          ep_state := IPC_EP_WAIT_RECV\<rparr>,
        r := got_msg (tid (threads s (current s))) m (ipc_call_seq (threads s (current s)) + 1) True (threads s r))"
proof -
  let ?c = "current s"
  define s0 where "s0 = call_slot ?c s"
  have th0: "threads s0 = (threads s)(?c := (threads s ?c)\<lparr>ipc_call_seq := ipc_call_seq (threads s ?c) + 1,
      ep_state := IPC_EP_WAIT_RECV\<rparr>)" by (simp add: s0_def call_slot_def ep_join_def Let_def)
  have "ipc_rep (upd_thread ?c (\<lambda>t. t\<lparr>ipc_call_seq := ipc_call_seq t + 1\<rparr>) s) T E"
    using E(1) by (simp add: ipc_rep_def upd_thread_def)
  then have "ipc_rep s0 T (E(?c := E ?c @ [IpcWaitNode ?c]))" unfolding s0_def call_slot_def using E by (intro ipc_join) auto
  then have r0: "ipc_rep s0 T (E(?c := [IpcWaitNode ?c]))" using E(5) by simp
  have ok0: "sched_ok s0 Q" unfolding s0_def call_slot_def ep_join_def Let_def sched_ok_ipcq using q
    by (intro sched_ok_view) auto
  have c0: "current s0 = ?c" "g_threads s0 = g_threads s" "g_threads_ptr s0 = g_threads_ptr s"
    by (simp_all add: s0_def call_slot_def ep_join_def Let_def upd_thread_def)
  have Er: "(E(?c := [IpcWaitNode ?c])) r = [IpcNode r]" using E(4) r(2) by simp
  have rb: "state (threads s0 r) = THREAD_BLOCKED" "r \<noteq> current s0" using r c0 by (simp_all add: th0)
  show thesis
  proof (rule ipc_deliver_msg_spec [OF r0 E(3) Er rb(1) ok0 r(1) rb(2) r(3),
        of "tid (threads s ?c)" m "ipc_call_seq (threads s ?c) + 1"])
    fix s1 assume d: "ipc_deliver_msg r (tid (threads s ?c)) m (ipc_call_seq (threads s ?c) + 1) s0 = Some s1"
      "ipc_rep s1 T (E(?c := [IpcWaitNode ?c], r := []))" "sched_ok s1 (Q(0 := Q 0 @ [r]))"
      "current s1 = current s0" "g_threads s1 = g_threads s0" "g_threads_ptr s1 = g_threads_ptr s0"
      "threads s1 = (threads s0)(r := got_msg (tid (threads s ?c)) m (ipc_call_seq (threads s ?c) + 1) ([] = []) (threads s0 r))"
    have e: "ep_state (threads s0 r) = IPC_EP_WAIT_RECV" "threads s0 r = threads s r"
      "ipc_sender (threads s0 ?c) = ipc_sender (threads s ?c)"
      "ipc_call_seq (threads s0 ?c) = ipc_call_seq (threads s ?c) + 1" "tid (threads s0 ?c) = tid (threads s ?c)"
      using r by (simp_all add: th0)
    have call: "ipc_call r m s = do { s' \<leftarrow> sched_block s1; Some (ipc_sender (threads s ?c), Blocked, s') }"
      using d(1) e unfolding ipc_call_eq s0_def [symmetric] by simp
    have th1: "threads s1 = (threads s)(?c := (threads s ?c)\<lparr>ipc_call_seq := ipc_call_seq (threads s ?c) + 1,
        ep_state := IPC_EP_WAIT_RECV\<rparr>,
        r := got_msg (tid (threads s ?c)) m (ipc_call_seq (threads s ?c) + 1) True (threads s r))"
      unfolding d(7) e(2) th0 using r(2) by simp
    show thesis
      by (rule that [OF call d(2,3) _ _ _ th1]) (simp_all only: d(4-6) c0)
  qed
qed


lemma ipc_reply_spec:
  assumes E: "ipc_rep s T E" "c \<in> T" "E c = n # ns" and c: "c \<noteq> 0" "c \<noteq> current s" "c \<notin> queued Q"
      "state (threads s c) = THREAD_BLOCKED" "ep_state (threads s c) = IPC_EP_WAIT_RECV"
    and m: "thread_lookup (ipc_sender (threads s (current s))) s = c"
      "ipc_prev_seq (threads s (current s)) \<noteq> 0"
      "ipc_call_seq (threads s c) = ipc_prev_seq (threads s (current s))"
    and q: "sched_ok s Q"
  obtains s' where "ipc_reply reply s = Some s'" "ipc_rep s' T (E(c := ns))"
    "sched_ok s' (Q(0 := Q 0 @ [c]))" "current s' = current s"
    "threads s' = (threads s)(c := got_msg (tid (threads s (current s))) reply
        (ipc_prev_seq (threads s c)) (ns = []) (threads s c))"
    "g_threads s' = g_threads s" "g_threads_ptr s' = g_threads_ptr s"
proof (rule ipc_deliver_reply_spec [OF E c(4) q c(1-3), of "tid (threads s (current s))" reply])
  fix s' assume d: "ipc_deliver_reply c (tid (threads s (current s))) reply s = Some s'" "ipc_rep s' T (E(c := ns))"
    "sched_ok s' (Q(0 := Q 0 @ [c]))" "current s' = current s"
    "threads s' = (threads s)(c := got_msg (tid (threads s (current s))) reply
        (ipc_prev_seq (threads s c)) (ns = []) (threads s c))"
    "g_threads s' = g_threads s" "g_threads_ptr s' = g_threads_ptr s"
  have "ipc_reply reply s = Some s'"
    using d(1) m c E ipc_empty [OF E(1,2)] by (simp add: ipc_reply_def Let_def)
  then show thesis using d(2-7) by (rule that)
qed

lemma sched_ok_ready: "sched_ok s Q \<Longrightarrow> t \<in> queued Q \<Longrightarrow> state (threads s t) = THREAD_READY"
  by (auto simp: sched_ok_def queues_ok_def queued_def)

text \<open>Blocking hands over to the first thread of the highest nonempty level.\<close>

lemma sched_block_at:
  assumes "sched_ok s Q" "l < 4" "\<And>j. j < l \<Longrightarrow> Q j = []" "Q l = t # ts"
  obtains s' where "sched_block s = Some s'" "current s' = t" "sched_ok s' (Q(l := ts))"
    "state (threads s' (current s)) = THREAD_BLOCKED"
proof (rule sched_block_cases [OF assms(1)])
  assume "queued Q = {}" then show thesis using assms(2,4) by (auto simp: queued_def)
next
  fix l' u us s'
  assume a: "l' < 4" "\<And>j. j < l' \<Longrightarrow> Q j = []" "Q l' = u # us" "sched_block s = Some s'" "current s' = u"
    "sched_ok s' (Q(l' := us))" "state (threads s' (current s)) = THREAD_BLOCKED"
  have "l' = l" using a(2) [of l] a(3) assms(3) [of l'] assms(4) by (cases l' l rule: linorder_cases) auto
  then show thesis using a assms(4) that by auto
qed

text \<open>Blocking hands over to the only thread of the top level.\<close>

lemma sched_block_single:
  assumes "sched_ok s (Q(0 := [t]))" "Q 0 = []"
  obtains s' where "sched_block s = Some s'" "current s' = t" "sched_ok s' Q"
    "state (threads s' (current s)) = THREAD_BLOCKED"
  using sched_block_at [OF assms(1), of 0 t "[]"] assms(2) by (auto simp: fun_upd_idem)

text \<open>The first half of a call: the message reaches the waiting receiver, which runs.\<close>

lemma call_reaches_server:
  assumes E: "ipc_rep s T E" "c \<in> T" "r \<in> T" "E r = [IpcNode r]" "E c = []" "IpcWaitNode c \<notin> on_queue T E"
    and r: "r \<noteq> 0" "r \<noteq> c" "state (threads s r) = THREAD_BLOCKED" "ep_state (threads s r) = IPC_EP_WAIT_RECV"
    and c: "current s = c" "sched_ok s Q" "thread_lookup (tid (threads s c)) s = c"
      "ipc_call_seq (threads s c) + 1 \<noteq> 0" "Q 0 = []"
  obtains s' where "ipc_call r m s = Some (ipc_sender (threads s c), Blocked, s')" "current s' = r" "sched_ok s' Q"
    "ipc_rep s' T (E(c := [IpcWaitNode c], r := []))" "state (threads s' c) = THREAD_BLOCKED"
    "ep_state (threads s' c) = IPC_EP_WAIT_RECV" "ep_state (threads s' r) = IPC_EP_INACTIVE"
    "ipc_sender (threads s' r) = tid (threads s c)" "ipc_msg (threads s' r) = m"
    "ipc_prev_seq (threads s' r) = ipc_call_seq (threads s' c)" "ipc_call_seq (threads s' c) \<noteq> 0"
    "tid (threads s' r) = tid (threads s r)" "thread_lookup (tid (threads s c)) s' = c"
proof -
  have rq: "r \<notin> queued Q" using sched_ok_ready [OF c(2), of r] r(3) by auto
  obtain s1 where
    call: "ipc_call r m s = do { s' \<leftarrow> sched_block s1; Some (ipc_sender (threads s c), Blocked, s') }" and
    s1: "ipc_rep s1 T (E(c := [IpcWaitNode c], r := []))" "sched_ok s1 (Q(0 := [r]))"
    "current s1 = c" "g_threads s1 = g_threads s" "g_threads_ptr s1 = g_threads_ptr s"
    "threads s1 = (threads s)
       (c := (threads s c)\<lparr>ipc_call_seq := ipc_call_seq (threads s c) + 1, ep_state := IPC_EP_WAIT_RECV\<rparr>,
        r := got_msg (tid (threads s c)) m (ipc_call_seq (threads s c) + 1) True (threads s r))"
    by (rule ipc_call_spec [of s T E r Q m]) (use E r c rq in \<open>simp_all\<close>)
  obtain s2 where b: "sched_block s1 = Some s2" "current s2 = r" "sched_ok s2 Q"
    "state (threads s2 c) = THREAD_BLOCKED" using sched_block_single [OF s1(2) c(5)] s1(3) by auto
  note v2 = sched_block_frame [OF b(1)]
  show thesis
    by (rule that [of s2])
      (use call b v2(1) v2(4) [of c] v2(4) [of r] r(2) c(3,4) s1(1,4,5) v2(2,3) in
        \<open>auto simp: ipc_view_def s1(6) got_msg_def ipc_rep_def thread_lookup_def split: if_splits\<close>)
qed

text \<open>The second half: the reply reaches the caller, which runs, and the server waits again.\<close>

lemma reply_reaches_caller:
  assumes E: "ipc_rep s T (E(c := [IpcWaitNode c], r := []))" "c \<in> T" "r \<in> T" "E r = [IpcNode r]" "E c = []"
      "\<And>x. x \<in> T \<Longrightarrow> x \<noteq> r \<Longrightarrow> IpcNode r \<notin> set (E x)"
    and r: "r \<noteq> c" "current s = r" "sched_ok s Q" "ep_state (threads s r) = IPC_EP_INACTIVE" "Q 0 = []"
    and c: "c \<noteq> 0" "thread_lookup (ipc_sender (threads s r)) s = c" "state (threads s c) = THREAD_BLOCKED"
      "ep_state (threads s c) = IPC_EP_WAIT_RECV" "ipc_prev_seq (threads s r) = ipc_call_seq (threads s c)"
      "ipc_call_seq (threads s c) \<noteq> 0"
  obtains s' where "ipc_reply_recv reply s = Some (Blocked, s')" "current s' = c" "sched_ok s' Q" "ipc_rep s' T E"
    "state (threads s' r) = THREAD_BLOCKED" "ep_state (threads s' r) = IPC_EP_WAIT_RECV"
    "ipc_msg (threads s' c) = reply" "ipc_sender (threads s' c) = tid (threads s r)"
proof -
  have cq: "c \<notin> queued Q" using sched_ok_ready [OF r(3), of c] c(3) by auto
  have look: "thread_lookup (ipc_sender (threads s (current s))) s = c" using c(2) r(2) by simp
  obtain s3 where rp: "ipc_reply reply s = Some s3"
    "ipc_rep s3 T ((E(c := [IpcWaitNode c], r := []))(c := []))" "sched_ok s3 (Q(0 := [c]))"
    "current s3 = current s"
    "threads s3 = (threads s)(c := got_msg (tid (threads s (current s))) reply
        (ipc_prev_seq (threads s c)) ([] = []) (threads s c))"
    by (rule ipc_reply_spec [OF E(1,2) _ c(1) _ cq c(3,4) look _ _ r(3), of "IpcWaitNode c" "[]" reply])
      (use c r in \<open>simp_all\<close>)
  define s4 where "s4 = ep_join (IpcNode r) r IPC_EP_WAIT_RECV s3"
  have Eq: "(E(c := [IpcWaitNode c], r := []))(c := []) = E(r := [])" using E(5) r(1) by (auto simp: fun_eq_iff)
  have "IpcNode r \<notin> on_queue T (E(r := []))" using E(6) by (auto simp: on_queue_def)
  from ipc_join [OF rp(2) [unfolded Eq] E(3) this, of IPC_EP_WAIT_RECV] have rep4: "ipc_rep s4 T E"
    using E(4) by (simp add: s4_def fun_upd_idem)
  have ok4: "sched_ok s4 (Q(0 := [c]))"
    unfolding s4_def ep_join_def Let_def sched_ok_ipcq using rp(3) by (intro sched_ok_view) auto
  have c4: "current s4 = r" using rp(4) r(2) by (simp add: s4_def ep_join_def Let_def)
  obtain s5 where b5: "sched_block s4 = Some s5" "current s5 = c" "sched_ok s5 Q"
    "state (threads s5 r) = THREAD_BLOCKED" using sched_block_single [OF ok4 r(5)] c4 by auto
  note v5 = sched_block_frame [OF b5(1)]
  have wait: "ipc_reply_recv reply s = Some (Blocked, s5)"
    using rp(1,4) r b5(1) by (simp add: ipc_reply_recv_def ipc_wait_def s4_def rp(5))
  have "ipc_msg (threads s5 c) = reply" "ipc_sender (threads s5 c) = tid (threads s r)" "ep_state (threads s5 r) = IPC_EP_WAIT_RECV"
    using v5(4) [of c] v5(4) [of r] r(1,2) by (auto simp: ipc_view_def s4_def ep_join_def Let_def rp(5) got_msg_def)
  moreover have "ipc_rep s5 T E" using rep4 v5(1) by (simp add: ipc_rep_def)
  ultimately show thesis using that wait b5 by blast
qed

text \<open>C3: a complete remote procedure call while no other thread is ready at the top level of the scheduler (threads may be ready at
  the lower levels): a client with nothing queued at its endpoint calls a server that waits for requests;
  the server runs and returns from its receive with the client's id and message; when it replies
  and waits again, the client runs and returns from its call with the server's id and the reply,
  its own pending sender restored (the client's counter of calls must not be about to wrap around to 0). The endpoint queues, the run queues and the scheduler are then as before the
  call, so that the next call can follow. A thread that is ready at the top level may run in between and
  take the place of the server: \<open>ipc_send_answers_call\<close> below.\<close>

theorem ipc_call_round_trip:
  assumes E: "ipc_rep s T E" "c \<in> T" "r \<in> T" "E r = [IpcNode r]" "E c = []"
      "IpcWaitNode c \<notin> on_queue T E" "\<And>x. x \<in> T \<Longrightarrow> x \<noteq> r \<Longrightarrow> IpcNode r \<notin> set (E x)"
    and r: "r \<noteq> 0" "r \<noteq> c" "state (threads s r) = THREAD_BLOCKED" "ep_state (threads s r) = IPC_EP_WAIT_RECV"
    and c: "current s = c" "sched_ok s Q" "thread_lookup (tid (threads s c)) s = c"
      "ipc_call_seq (threads s c) + 1 \<noteq> 0" "Q 0 = []"
  shows "\<exists>s1 s2 s3. ipc_call r m s = Some (ipc_sender (threads s c), Blocked, s1) \<and>
      current s1 = r \<and> ipc_recv_resume s1 = Done (tid (threads s c)) m \<and>
      ipc_reply_recv reply s1 = Some (Blocked, s2) \<and> current s2 = c \<and>
      ipc_call_resume (ipc_sender (threads s c)) s2 = (Done (tid (threads s r)) reply, s3) \<and>
      ipc_sender (threads s3 c) = ipc_sender (threads s c) \<and>
      ipc_rep s3 T E \<and> sched_ok s3 Q \<and> current s3 = c \<and>
      state (threads s3 r) = THREAD_BLOCKED \<and> ep_state (threads s3 r) = IPC_EP_WAIT_RECV"
proof -
  have c0: "c \<noteq> 0" using c by (auto simp: sched_ok_def)
  obtain s1 where s1: "ipc_call r m s = Some (ipc_sender (threads s c), Blocked, s1)" "current s1 = r" "sched_ok s1 Q"
    "ipc_rep s1 T (E(c := [IpcWaitNode c], r := []))" "state (threads s1 c) = THREAD_BLOCKED"
    "ep_state (threads s1 c) = IPC_EP_WAIT_RECV" "ep_state (threads s1 r) = IPC_EP_INACTIVE"
    "ipc_sender (threads s1 r) = tid (threads s c)" "ipc_msg (threads s1 r) = m"
    "ipc_prev_seq (threads s1 r) = ipc_call_seq (threads s1 c)" "ipc_call_seq (threads s1 c) \<noteq> 0"
    "tid (threads s1 r) = tid (threads s r)" "thread_lookup (tid (threads s c)) s1 = c"
    by (rule call_reaches_server [OF E(1-6) r c, where m = m])
  obtain s2 where s2: "ipc_reply_recv reply s1 = Some (Blocked, s2)" "current s2 = c" "sched_ok s2 Q" "ipc_rep s2 T E"
    "state (threads s2 r) = THREAD_BLOCKED" "ep_state (threads s2 r) = IPC_EP_WAIT_RECV"
    "ipc_msg (threads s2 c) = reply" "ipc_sender (threads s2 c) = tid (threads s1 r)"
    by (rule reply_reaches_caller [OF s1(4) E(2-5,7) r(2) s1(2,3,7) c(5) c0, where reply = reply]) (use s1 in simp_all)
  let ?s3 = "upd_thread c (\<lambda>t. t\<lparr>ipc_sender := ipc_sender (threads s c)\<rparr>) s2"
  have "ipc_call_resume (ipc_sender (threads s c)) s2 = (Done (tid (threads s r)) reply, ?s3)"
    using s2 s1(12) by (simp add: ipc_call_resume_def Let_def)
  moreover have "ipc_rep ?s3 T E" using s2(4) by (simp add: ipc_rep_def upd_thread_def)
  moreover have "sched_ok ?s3 Q" using s2(3) by (intro sched_ok_view) auto
  moreover have "ipc_recv_resume s1 = Done (tid (threads s c)) m" using s1 by (simp add: ipc_recv_resume_def)
  ultimately show ?thesis using s1(1,2) s2 r(2)
    by (intro exI [of _ s1] exI [of _ s2] exI [of _ ?s3]) simp
qed


section \<open>Where the protocol goes wrong\<close>

text \<open>A thread blocked in \<open>ipc_call\<close> has the same endpoint state as one blocked in
  \<open>ipc_recv\<close>, so a plain message of any third thread is delivered to it as if it were the reply:
  when the caller runs again its call returns with that thread's id and words.\<close>

theorem ipc_send_answers_call:
  assumes "ipc_rep s T E" "c \<in> T" "E c = [IpcWaitNode c]" "state (threads s c) = THREAD_BLOCKED"
    and "ep_state (threads s c) = IPC_EP_WAIT_RECV"
    and "sched_ok s Q" "c \<noteq> 0" "c \<noteq> current s" "c \<notin> queued Q"
  shows "\<exists>s'. ipc_send c words s = Some (Done 0 [], s') \<and> state (threads s' c) = THREAD_READY \<and>
    fst (ipc_call_resume saved (s'\<lparr>current := c\<rparr>)) = Done (tid (threads s (current s))) words"
proof (rule ipc_deliver_msg_spec [OF assms(1-4,6-9), of "tid (threads s (current s))" words 0])
  fix s' assume "ipc_deliver_msg c (tid (threads s (current s))) words 0 s = Some s'"
    "threads s' = (threads s)(c := got_msg (tid (threads s (current s))) words 0 ([] = []) (threads s c))"
  then show ?thesis using assms(5)
    by (intro exI [of _ s']) (simp add: ipc_send_def ipc_call_resume_def Let_def got_msg_def)
qed

text \<open>A plain message ends a call: when the caller runs, its call returns with the message.\<close>

lemma send_ends_call:
  assumes E: "ipc_rep s T E" "c \<in> T" "E c = [IpcWaitNode c]"
    and c: "c \<noteq> 0" "state (threads s c) = THREAD_BLOCKED" "ep_state (threads s c) = IPC_EP_WAIT_RECV"
    and q: "sched_ok s Q" "Q 0 = []"
  obtains s1 s2 s3 where "ipc_send c words s = Some (Done 0 [], s1)" "sched_block s1 = Some s2" "current s2 = c"
    "ipc_call_resume saved s2 = (Done (tid (threads s (current s))) words, s3)" "current s3 = c" "sched_ok s3 Q" "ipc_rep s3 T (E(c := []))"
    "ep_state (threads s3 c) = IPC_EP_INACTIVE" "ipc_call_seq (threads s3 c) = ipc_call_seq (threads s c)"
    "\<forall>t. t \<noteq> c \<longrightarrow> ipc_view (threads s3 t) = ipc_view (threads s t)" "\<forall>i. thread_lookup i s3 = thread_lookup i s"
proof -
  let ?x = "current s"
  have ne: "c \<noteq> ?x" "c \<notin> queued Q" using c(2) q(1) sched_ok_ready [OF q(1), of c] by (auto simp: sched_ok_def)
  obtain s1 where s1: "ipc_deliver_msg c (tid (threads s ?x)) words 0 s = Some s1" "ipc_rep s1 T (E(c := []))"
    "sched_ok s1 (Q(0 := Q 0 @ [c]))" "current s1 = ?x"
    "threads s1 = (threads s)(c := got_msg (tid (threads s ?x)) words 0 True (threads s c))"
    "g_threads s1 = g_threads s" "g_threads_ptr s1 = g_threads_ptr s"
    by (rule ipc_deliver_msg_spec [OF E(1-3) c(2) q(1) c(1) ne(1,2), of "tid (threads s ?x)" words 0, unfolded simp_thms])
  obtain s2 where s2: "sched_block s1 = Some s2" "current s2 = c" "sched_ok s2 Q"
    using sched_block_single [OF s1(3) [unfolded q(2) append_Nil] q(2)] by blast
  note v2 = sched_block_frame [OF s2(1)]
  define s3 where "s3 = upd_thread c (\<lambda>t. t\<lparr>ipc_sender := saved\<rparr>) s2"
  show thesis
  proof (rule that)
    show "ipc_send c words s = Some (Done 0 [], s1)" using c(3) s1(1) by (simp add: ipc_send_def)
    show "ipc_call_resume saved s2 = (Done (tid (threads s ?x)) words, s3)"
      using v2(4) [of c] s2(2) by (simp add: ipc_call_resume_def s3_def ipc_view_def s1(5) got_msg_def Let_def)
    show "sched_ok s3 Q" unfolding s3_def using s2(3) by (intro sched_ok_view) auto
    show "ipc_rep s3 T (E(c := []))" using s1(2) v2(1) by (simp add: s3_def ipc_rep_def upd_thread_def)
    show "ep_state (threads s3 c) = IPC_EP_INACTIVE" "ipc_call_seq (threads s3 c) = ipc_call_seq (threads s c)"
      using v2(4) [of c] by (simp_all add: s3_def ipc_view_def s1(5) got_msg_def)
    show "\<forall>t. t \<noteq> c \<longrightarrow> ipc_view (threads s3 t) = ipc_view (threads s t)" using v2(4) by (simp add: s3_def s1(5))
    show "\<forall>i. thread_lookup i s3 = thread_lookup i s" using s1(6,7) v2(2,3) by (simp add: thread_lookup_def s3_def upd_thread_def)
  qed (use s2 in \<open>simp_all add: s3_def\<close>)
qed

text \<open>C26: a reply to a call that has already returned is delivered. A client \<open>c\<close> is blocked in a call to a server \<open>r\<close>, which is
  ready, and no thread is ready above it. A third thread sends \<open>c\<close> a message and blocks; the call of \<open>c\<close> returns
  with that message, and \<open>c\<close> goes on to wait for any message in \<open>ipc_recv\<close>. Then the server runs and replies to the call: the number of the call is
  still the one it recorded, so the reply is delivered to \<open>c\<close> as a message. The comment at the
  head of \<^verbatim>\<open>ipc.c\<close> says that a reply is only delivered when the caller is blocked on exactly that call.\<close>

theorem stale_reply_delivered:
  assumes E: "ipc_rep s T E" "c \<in> T" "E c = [IpcWaitNode c]" "IpcNode c \<notin> on_queue T E"
    and c: "c \<noteq> 0" "state (threads s c) = THREAD_BLOCKED" "ep_state (threads s c) = IPC_EP_WAIT_RECV"
      "thread_lookup (tid (threads s c)) s = c" "ipc_call_seq (threads s c) \<noteq> 0"
    and r: "ipc_sender (threads s r) = tid (threads s c)" "ipc_prev_seq (threads s r) = ipc_call_seq (threads s c)"
    and q: "sched_ok s Q" "0 < l" "l < 4" "\<And>j. j < l \<Longrightarrow> Q j = []" "Q l = r # rs"
  shows "\<exists>s1 s2 s3 s4 s5. ipc_send c words s = Some (Done 0 [], s1) \<and> sched_block s1 = Some s2 \<and> current s2 = c \<and>
    ipc_call_resume saved s2 = (Done (tid (threads s (current s))) words, s3) \<and>
    ipc_recv s3 = Some (Blocked, s4) \<and> current s4 = r \<and> ipc_reply reply s4 = Some s5 \<and>
    state (threads s5 c) = THREAD_READY \<and> ipc_recv_resume (s5\<lparr>current := c\<rparr>) = Done (tid (threads s r)) reply"
proof -
  have "r \<in> queued Q" using q(3,5) by (force simp: queued_def)
  then have ne: "r \<noteq> c" using c(2) sched_ok_ready [OF q(1), of r] by auto
  have q0: "Q 0 = []" using q(2,4) by blast
  obtain s1 s2 s3 where s3: "ipc_send c words s = Some (Done 0 [], s1)" "sched_block s1 = Some s2" "current s2 = c"
    "ipc_call_resume saved s2 = (Done (tid (threads s (current s))) words, s3)" "current s3 = c" "sched_ok s3 Q" "ipc_rep s3 T (E(c := []))"
    "ep_state (threads s3 c) = IPC_EP_INACTIVE" "ipc_call_seq (threads s3 c) = ipc_call_seq (threads s c)"
    "\<forall>t. t \<noteq> c \<longrightarrow> ipc_view (threads s3 t) = ipc_view (threads s t)" "\<forall>i. thread_lookup i s3 = thread_lookup i s"
    by (rule send_ends_call [OF E(1-3) c(1-3) q(1) q0, where words = words and saved = saved])
  define s3' where "s3' = ep_join (IpcNode c) c IPC_EP_WAIT_RECV s3"
  have "IpcNode c \<notin> on_queue T (E(c := []))" using E(4) by (auto simp: on_queue_def split: if_splits)
  with s3(7) have rep3: "ipc_rep s3' T (E(c := [IpcNode c]))"
    using ipc_join [of s3 T "E(c := [])" c "IpcNode c" IPC_EP_WAIT_RECV] E(2) by (simp add: s3'_def)
  have ok3: "sched_ok s3' Q" "current s3' = c" using ep_join_ok [OF s3(6)] s3(5) by (simp_all add: s3'_def)
  obtain s4 where s4: "sched_block s3' = Some s4" "current s4 = r" "sched_ok s4 (Q(l := rs))" "state (threads s4 (current s3')) = THREAD_BLOCKED"
    by (rule sched_block_at [OF ok3(1) q(3,4,5)])
  note v4 = sched_block_frame [OF s4(1)]
  have recv: "ipc_recv s3 = Some (Blocked, s4)" using s4(1) s3(5,8) by (simp add: ipc_recv_def ipc_wait_def s3'_def)
  have f4: "ipc_sender (threads s4 r) = tid (threads s c)" "ipc_prev_seq (threads s4 r) = ipc_call_seq (threads s c)" "tid (threads s4 r) = tid (threads s r)"
    "ep_state (threads s4 c) = IPC_EP_WAIT_RECV" "ipc_call_seq (threads s4 c) = ipc_call_seq (threads s c)"
    using v4(4) [of r] v4(4) [of c] s3(9,10) ne r by (auto simp: ipc_view_def s3'_def)
  have "thread_lookup i s4 = thread_lookup i s3" for i using v4(2,3) by (simp add: thread_lookup_def s3'_def)
  then have look: "thread_lookup (ipc_sender (threads s4 (current s4))) s4 = c" using c(4) f4(1) s4(2) s3(11) by simp
  have rep4: "ipc_rep s4 T (E(c := [IpcNode c]))" using rep3 v4(1) by (simp add: ipc_rep_def)
  have c4: "state (threads s4 c) = THREAD_BLOCKED" "c \<noteq> current s4" using s4(2,4) ok3(2) ne by auto
  have cq: "c \<notin> queued (Q(l := rs))" using sched_ok_ready [OF s4(3), of c] c4(1) by auto
  obtain s5 where s5: "ipc_reply reply s4 = Some s5"
    "threads s5 = (threads s4)(c := got_msg (tid (threads s4 (current s4))) reply (ipc_prev_seq (threads s4 c)) ([] = []) (threads s4 c))"
    by (rule ipc_reply_spec [OF rep4 E(2) _ c(1) c4(2) cq c4(1) f4(4) look _ _ s4(3), of "IpcNode c" "[]" reply])
      (use f4 c(5) s4(2) in simp_all)
  have "state (threads s5 c) = THREAD_READY" "ipc_recv_resume (s5\<lparr>current := c\<rparr>) = Done (tid (threads s r)) reply"
    using f4(3) s4(2) by (simp_all add: s5(2) got_msg_def ipc_recv_resume_def)
  then show ?thesis using s3(1-4) recv s4(2) s5(1) by blast
qed

text \<open>C35: a reply unlinks the first node of the caller's endpoint queue, whatever it is. When a
  sender \<open>p\<close> had queued up before the call, it is \<open>p\<close> that leaves the queue: the caller's reply
  slot stays behind, the endpoint stays in the waiting state, and \<open>p\<close> is blocked while no queue
  holds it any more.\<close>

theorem ipc_reply_drops_sender:
  assumes E: "ipc_rep s T E" "c \<in> T" "E c = [IpcNode p, IpcWaitNode c]"
    and c: "c \<noteq> 0" "c \<noteq> current s" "c \<notin> queued Q"
      "state (threads s c) = THREAD_BLOCKED" "ep_state (threads s c) = IPC_EP_WAIT_RECV"
    and p: "p \<noteq> c" "state (threads s p) = THREAD_BLOCKED"
      "\<And>x. x \<in> T \<Longrightarrow> x \<noteq> c \<Longrightarrow> IpcNode p \<notin> set (E x)"
    and m: "thread_lookup (ipc_sender (threads s (current s))) s = c"
      "ipc_prev_seq (threads s (current s)) \<noteq> 0"
      "ipc_call_seq (threads s c) = ipc_prev_seq (threads s (current s))"
    and q: "sched_ok s Q"
  shows "\<exists>s' E'. ipc_reply reply s = Some s' \<and> ipc_rep s' T E' \<and> E' c = [IpcWaitNode c] \<and>
    ep_state (threads s' c) = IPC_EP_WAIT_RECV \<and> state (threads s' c) = THREAD_READY \<and>
    IpcNode p \<notin> on_queue T E' \<and> state (threads s' p) = THREAD_BLOCKED"
proof (rule ipc_reply_spec [OF E c m q, of reply])
  fix s' assume d: "ipc_reply reply s = Some s'" "ipc_rep s' T (E(c := [IpcWaitNode c]))"
    "threads s' = (threads s)(c := got_msg (tid (threads s (current s))) reply
        (ipc_prev_seq (threads s c)) ([IpcWaitNode c] = []) (threads s c))"
  have "IpcNode p \<notin> on_queue T (E(c := [IpcWaitNode c]))" using p(3) by (auto simp: on_queue_def)
  then show ?thesis using d c p
    by (intro exI [of _ s'] exI [of _ "E(c := [IpcWaitNode c])"]) (simp add: got_msg_def)
qed

section \<open>Examples\<close>

text \<open>Three threads, the first one running, the others blocked; all endpoints idle.\<close>

definition three_threads :: kernel where
  "three_threads = one_thread\<lparr>
     ipcq := list_init (EpHead 0x3000) (list_init (EpHead 0x2000) (list_init (EpHead 0x1000) links_zero)),
     threads := (\<lambda>a. thread_zero\<lparr>tid := a div 0x1000 - 1, state := THREAD_BLOCKED\<rparr>)
       (0x1000 := thread_zero\<lparr>state := THREAD_RUNNING, time_quantum_left := 1\<rparr>),
     g_threads := [0x1000, 0x2000, 0x3000], g_threads_ptr := 1\<rparr>"

abbreviation (input) three :: "u64 set" where "three \<equiv> {0x1000, 0x2000, 0x3000}"

lemma three_threads_rep: "ipc_rep three_threads three (\<lambda>_. [])"
proof -
  have e: "ep_lists (\<lambda>_. []) = (\<lambda>_. [])"
  proof
    fix h show "ep_lists (\<lambda>_. []) h = []" by (cases h) simp_all
  qed
  have 1: "dlists (list_init (EpHead 0x1000) links_zero) {EpHead 0x1000} (\<lambda>_. [])"
    using dlists_init [OF no_lists, of "EpHead 0x1000" "\<lambda>_. []"] by (simp add: members_def fun_upd_idem)
  have 2: "dlists (list_init (EpHead 0x2000) (list_init (EpHead 0x1000) links_zero))
      {EpHead 0x2000, EpHead 0x1000} (\<lambda>_. [])"
    using dlists_init [OF 1, of "EpHead 0x2000"] by (simp add: members_def fun_upd_idem)
  have "dlists (list_init (EpHead 0x3000) (list_init (EpHead 0x2000) (list_init (EpHead 0x1000) links_zero)))
      {EpHead 0x3000, EpHead 0x2000, EpHead 0x1000} (\<lambda>_. [])"
    using dlists_init [OF 2, of "EpHead 0x3000"] by (simp add: members_def fun_upd_idem)
  then show ?thesis by (simp add: ipc_rep_def three_threads_def e insert_commute)
qed

lemma three_threads_ok: "sched_ok three_threads (\<lambda>_. [])"
  using one_thread_ok
  by (simp add: sched_ok_def queues_ok_def runq_rep_def three_threads_def one_thread_fields queued_def
      thread_zero_def)

lemma three_threads_fields:
  "current three_threads = 0x1000"
  "threads three_threads = (\<lambda>a. thread_zero\<lparr>tid := a div 0x1000 - 1, state := THREAD_BLOCKED\<rparr>)
     (0x1000 := thread_zero\<lparr>state := THREAD_RUNNING, time_quantum_left := 1\<rparr>)"
  "g_threads three_threads = [0x1000, 0x2000, 0x3000]" "g_threads_ptr three_threads = 1"
  by (simp_all add: three_threads_def one_thread_fields)

text \<open>The second thread waits for requests.\<close>

definition server_waits :: kernel where
  "server_waits = ep_join (IpcNode 0x2000) 0x2000 IPC_EP_WAIT_RECV three_threads"

lemma server_waits_rep: "ipc_rep server_waits three ((\<lambda>_. [])(0x2000 := [IpcNode 0x2000]))"
  using ipc_join [OF three_threads_rep, of "0x2000" "IpcNode 0x2000"]
  by (simp add: server_waits_def on_queue_def)

lemma server_waits_ok: "sched_ok server_waits (\<lambda>_. [])"
  unfolding server_waits_def by (rule ep_join_ok [OF three_threads_ok])

theorem ipc_send_rendezvous_witness:
  "\<exists>s'. ipc_send 0x2000 [1, 2, 3, 4, 5] server_waits = Some (Done 0 [], s') \<and>
     ipc_msg (threads s' 0x2000) = [1, 2, 3, 4, 5]"
proof -
  have "state (threads server_waits 0x2000) = THREAD_BLOCKED"
    "ep_state (threads server_waits 0x2000) = IPC_EP_WAIT_RECV" "0x2000 \<noteq> current server_waits"
    by (simp_all add: server_waits_def three_threads_fields)
  then show ?thesis
    using ipc_send_rendezvous [OF server_waits_rep, of "0x2000" "\<lambda>_. []" "[1, 2, 3, 4, 5]"] server_waits_ok
    by (auto simp: queued_def got_msg_def)
qed

theorem ipc_call_round_trip_witness:
  "\<exists>s1 s2 s3. ipc_call 0x2000 [1, 2, 3, 4, 5] server_waits = Some (0, Blocked, s1) \<and>
     ipc_reply_recv [6, 7, 8, 9, 10] s1 = Some (Blocked, s2) \<and>
     ipc_call_resume 0 s2 = (Done 1 [6, 7, 8, 9, 10], s3)"
proof -
  have f: "state (threads server_waits 0x2000) = THREAD_BLOCKED"
    "ep_state (threads server_waits 0x2000) = IPC_EP_WAIT_RECV" "current server_waits = 0x1000"
    "thread_lookup (tid (threads server_waits 0x1000)) server_waits = 0x1000"
    "ipc_call_seq (threads server_waits 0x1000) + 1 \<noteq> 0" "ipc_sender (threads server_waits 0x1000) = 0"
    "tid (threads server_waits 0x2000) = 1"
    by (simp_all add: server_waits_def three_threads_fields thread_lookup_def thread_zero_def)
  show ?thesis
    using ipc_call_round_trip [where Q = "\<lambda>_. []", OF server_waits_rep, of "0x1000" "0x2000" "[1, 2, 3, 4, 5]" "[6, 7, 8, 9, 10]"]
      f server_waits_ok by (auto simp: on_queue_def)
qed


theorem ipc_send_blocks_witness:
  "\<exists>s'. ipc_send 0x2000 [1, 2, 3, 4, 5] (sched_wakeup 0x3000 three_threads) = Some (Blocked, s') \<and>
     ipc_msg (threads s' 0x1000) = [1, 2, 3, 4, 5]"
proof -
  let ?s = "sched_wakeup 0x3000 three_threads"
  have ok: "sched_ok ?s ((\<lambda>_. [])(0 := [0x3000]))"
    using sched_wakeup_ok [OF three_threads_ok, of "0x3000"] by (simp add: three_threads_fields queued_def)
  have rep: "ipc_rep ?s three (\<lambda>_. [])" using three_threads_rep by (simp add: ipc_rep_def)
  have "ipc_view (threads ?s 0x2000) = ipc_view (threads three_threads 0x2000)" by simp
  then have "ep_state (threads ?s 0x2000) \<noteq> IPC_EP_WAIT_RECV"
    by (simp add: ipc_view_def three_threads_fields thread_zero_def)
  then show ?thesis using ipc_send_blocks [OF rep _ _ _ ok, of "0x2000" "[1, 2, 3, 4, 5]"]
    by (auto simp: on_queue_def queued_def three_threads_fields)
qed

theorem ipc_recv_fifo_witness:
  "\<exists>s'. ipc_recv (ep_join (IpcNode 0x2000) 0x1000 IPC_EP_WAIT_SEND three_threads)
     = Some (Done 1 [0, 0, 0, 0, 0], s')"
proof -
  let ?s = "ep_join (IpcNode 0x2000) 0x1000 IPC_EP_WAIT_SEND three_threads"
  have rep: "ipc_rep ?s three ((\<lambda>_. [])(0x1000 := [IpcNode 0x2000]))"
    using ipc_join [OF three_threads_rep, of "0x1000" "IpcNode 0x2000"] by (simp add: on_queue_def)
  have msg: "replicate 5 (0 :: u64) = [0, 0, 0, 0, 0]" by (simp add: numeral_eq_Suc)
  have f: "tid (threads ?s 0x2000) = 1" "ipc_msg (threads ?s 0x2000) = [0, 0, 0, 0, 0]" "current ?s = 0x1000"
    using msg by (simp_all add: three_threads_fields thread_zero_def)
  show ?thesis
    using ipc_recv_fifo [OF rep, of "0x2000" "[]" "\<lambda>_. []"] ep_join_ok [OF three_threads_ok] f
    by (auto simp: three_threads_fields queued_def)
qed

theorem ipc_send_answers_call_witness:
  "\<exists>s'. ipc_send 0x2000 [1, 2, 3, 4, 5] (ep_join (IpcWaitNode 0x2000) 0x2000 IPC_EP_WAIT_RECV three_threads)
       = Some (Done 0 [], s') \<and>
     fst (ipc_call_resume 0 (s'\<lparr>current := 0x2000\<rparr>)) = Done 0 [1, 2, 3, 4, 5]"
proof -
  let ?s = "ep_join (IpcWaitNode 0x2000) 0x2000 IPC_EP_WAIT_RECV three_threads"
  have rep: "ipc_rep ?s three ((\<lambda>_. [])(0x2000 := [IpcWaitNode 0x2000]))"
    using ipc_join [OF three_threads_rep, of "0x2000" "IpcWaitNode 0x2000"] by (simp add: on_queue_def)
  have "tid (threads ?s (current ?s)) = 0" by (simp add: three_threads_fields thread_zero_def)
  then show ?thesis
    using ipc_send_answers_call [OF rep, of "0x2000" "\<lambda>_. []" "[1, 2, 3, 4, 5]" 0] ep_join_ok [OF three_threads_ok]
    by (auto simp: three_threads_fields queued_def)
qed

theorem ipc_reply_drops_sender_witness:
  "\<exists>(s :: kernel) s'. ipc_reply [1, 2, 3, 4, 5] s = Some s' \<and> state (threads s' 0x3000) = THREAD_BLOCKED"
proof -
  define s0 where "s0 = ep_join (IpcNode 0x3000) 0x2000 IPC_EP_WAIT_SEND three_threads"
  define s1 where "s1 = ep_join (IpcWaitNode 0x2000) 0x2000 IPC_EP_WAIT_RECV s0"
  define s where "s = upd_thread 0x2000 (\<lambda>t. t\<lparr>ipc_call_seq := 1\<rparr>)
      (upd_thread 0x1000 (\<lambda>t. t\<lparr>ipc_sender := 1, ipc_prev_seq := 1\<rparr>) s1)"
  have "ipc_rep s0 three ((\<lambda>_. [])(0x2000 := [IpcNode 0x3000]))"
    using ipc_join [OF three_threads_rep, of "0x2000" "IpcNode 0x3000"] by (simp add: s0_def on_queue_def)
  from ipc_join [OF this, of "0x2000" "IpcWaitNode 0x2000"]
  have "ipc_rep s1 three ((\<lambda>_. [])(0x2000 := [IpcNode 0x3000, IpcWaitNode 0x2000]))"
    by (simp add: s1_def on_queue_def)
  then have rep: "ipc_rep s three ((\<lambda>_. [])(0x2000 := [IpcNode 0x3000, IpcWaitNode 0x2000]))"
    by (simp add: s_def ipc_rep_def upd_thread_def)
  have ok: "sched_ok s (\<lambda>_. [])"
    unfolding s_def s1_def s0_def using ep_join_ok [OF ep_join_ok [OF three_threads_ok]]
    by (intro sched_ok_view) auto
  have f: "current s = 0x1000" "threads s 0x3000 = threads three_threads 0x3000"
    "state (threads s 0x2000) = THREAD_BLOCKED" "ep_state (threads s 0x2000) = IPC_EP_WAIT_RECV"
    "ipc_call_seq (threads s 0x2000) = 1" "ipc_prev_seq (threads s 0x1000) = 1"
    "ipc_sender (threads s 0x1000) = 1" "g_threads s = [0x1000, 0x2000, 0x3000]" "g_threads_ptr s = 1"
    by (simp_all add: s_def s1_def s0_def three_threads_fields) (simp_all add: upd_thread_def three_threads_fields)
  show ?thesis
    using ipc_reply_drops_sender [OF rep, of "0x2000" "0x3000" "\<lambda>_. []" "[1, 2, 3, 4, 5]"] ok f
    by (auto simp: three_threads_fields queued_def thread_lookup_def)
qed

definition answered_twice :: kernel where
  \<comment> \<open>the second thread is blocked in a call to the third, which is ready at level 1\<close>
  "answered_twice = enqueue_at 0x3000 1 (upd_thread 0x3000 (\<lambda>t. t\<lparr>state := THREAD_READY, current_level := 1, ipc_sender := 1, ipc_prev_seq := 7\<rparr>)
     (upd_thread 0x2000 (\<lambda>t. t\<lparr>ipc_call_seq := 7\<rparr>) (ep_join (IpcWaitNode 0x2000) 0x2000 IPC_EP_WAIT_RECV three_threads)))"

theorem stale_reply_delivered_witness:
  "\<exists>s1 s2 s3 s4 s5. ipc_send 0x2000 [1, 2, 3, 4, 5] answered_twice = Some (Done 0 [], s1) \<and> sched_block s1 = Some s2 \<and>
    ipc_call_resume 0 s2 = (Done 0 [1, 2, 3, 4, 5], s3) \<and> ipc_recv s3 = Some (Blocked, s4) \<and> ipc_reply [6, 7, 8, 9, 10] s4 = Some s5 \<and>
    ipc_recv_resume (s5\<lparr>current := 0x2000\<rparr>) = Done 2 [6, 7, 8, 9, 10]"
proof -
  let ?s0 = "upd_thread 0x2000 (\<lambda>t. t\<lparr>ipc_call_seq := 7\<rparr>) (ep_join (IpcWaitNode 0x2000) 0x2000 IPC_EP_WAIT_RECV three_threads)"
  have ok0: "sched_ok ?s0 (\<lambda>_. [])" by (rule sched_ok_view [OF ep_join_ok [OF three_threads_ok]]) auto
  then have "queues_ok answered_twice ((\<lambda>_. [])(unat (1 :: u32) := [] @ [0x3000]))"
    unfolding answered_twice_def
    by (intro queues_ok_enqueue [of ?s0 "\<lambda>_. []" "0x3000" 1, where th = "threads answered_twice 0x3000"])
      (auto simp: sched_ok_def queued_def answered_twice_def upd_thread_def enqueue_at_def)
  then have ok: "sched_ok answered_twice ((\<lambda>_. [])(1 := [0x3000]))"
    using ok0 by (auto simp: sched_ok_def answered_twice_def enqueue_at_def upd_thread_def queued_def three_threads_fields)
  have rep: "ipc_rep answered_twice three ((\<lambda>_. [])(0x2000 := [IpcWaitNode 0x2000]))"
    using ipc_join [OF three_threads_rep, of "0x2000" "IpcWaitNode 0x2000"]
    by (simp add: on_queue_def answered_twice_def ipc_rep_def upd_thread_def enqueue_at_def)
  have f: "current answered_twice = 0x1000" "tid (threads answered_twice 0x1000) = 0" "tid (threads answered_twice 0x3000) = 2"
    "state (threads answered_twice 0x2000) = THREAD_BLOCKED" "ep_state (threads answered_twice 0x2000) = IPC_EP_WAIT_RECV"
    "tid (threads answered_twice 0x2000) = 1" "ipc_call_seq (threads answered_twice 0x2000) = 7" "thread_lookup 1 answered_twice = 0x2000"
    "ipc_sender (threads answered_twice 0x3000) = 1" "ipc_prev_seq (threads answered_twice 0x3000) = 7"
    by (simp_all add: answered_twice_def enqueue_at_def upd_thread_def three_threads_fields thread_lookup_def thread_zero_def)
  have "\<exists>s1 s2 s3 s4 s5. ipc_send 0x2000 [1, 2, 3, 4, 5] answered_twice = Some (Done 0 [], s1) \<and> sched_block s1 = Some s2 \<and> current s2 = 0x2000 \<and>
    ipc_call_resume 0 s2 = (Done (tid (threads answered_twice (current answered_twice))) [1, 2, 3, 4, 5], s3) \<and> ipc_recv s3 = Some (Blocked, s4) \<and>
    current s4 = 0x3000 \<and> ipc_reply [6, 7, 8, 9, 10] s4 = Some s5 \<and> state (threads s5 0x2000) = THREAD_READY \<and>
    ipc_recv_resume (s5\<lparr>current := 0x2000\<rparr>) = Done (tid (threads answered_twice 0x3000)) [6, 7, 8, 9, 10]"
    by (rule stale_reply_delivered [OF rep, where Q = "(\<lambda>_. [])(1 := [0x3000])" and l = 1]) (use f ok in \<open>auto simp: on_queue_def split: if_splits\<close>)
  then show ?thesis using f by auto
qed

end
