(* ===== verification/Pmap.thy ===== *)
theory Pmap
  imports Kernel_State
begin

text \<open>
  Address spaces: the four-level page tables of \<^verbatim>\<open>kernel/arch/x86_64/pmap.c\<close>, which live in
  memory and are read and written through the direct map. A \<open>pmap_t *\<close> is an address (0 is
  null); \<open>kernel_pmap\<close> is the address of the static \<open>g_kernel_pmap\<close>. The translation caches of the
  processor are not modelled, so the flushes are not either. Loops over address ranges that could
  run past the end of the address space are partial functions: \<open>None\<close> means they do not return.
\<close>

section \<open>Entries and indices\<close>

abbreviation (input) PTE_ADDR_MASK :: u64 where "PTE_ADDR_MASK \<equiv> 0x000FFFFFFFFFF000"
abbreviation (input) HUGE_ADDR_MASK :: u64 where "HUGE_ADDR_MASK \<equiv> 0x000FFFFFFFE00000"
abbreviation (input) PTE_PRESENT :: u64 where "PTE_PRESENT \<equiv> 1"
abbreviation (input) PTE_WRITABLE :: u64 where "PTE_WRITABLE \<equiv> 2"
abbreviation (input) PTE_USER :: u64 where "PTE_USER \<equiv> 4"
abbreviation (input) PTE_PAT :: u64 where "PTE_PAT \<equiv> 0x80"
abbreviation (input) PTE_GLOBAL :: u64 where "PTE_GLOBAL \<equiv> 0x100"
abbreviation (input) PTE_NX :: u64 where "PTE_NX \<equiv> 0x8000000000000000"
abbreviation (input) PDE_HUGE :: u64 where "PDE_HUGE \<equiv> 0x80"
abbreviation (input) PDE_PAT :: u64 where "PDE_PAT \<equiv> 0x1000"

definition PML4_INDEX :: "u64 \<Rightarrow> u64" where "PML4_INDEX va = drop_bit 39 va AND 0x1FF"
definition PDPT_INDEX :: "u64 \<Rightarrow> u64" where "PDPT_INDEX va = drop_bit 30 va AND 0x1FF"
definition PD_INDEX :: "u64 \<Rightarrow> u64" where "PD_INDEX va = drop_bit 21 va AND 0x1FF"
definition PT_INDEX :: "u64 \<Rightarrow> u64" where "PT_INDEX va = drop_bit 12 va AND 0x1FF"

definition entry :: "u64 \<Rightarrow> u64 \<Rightarrow> memory \<Rightarrow> u64" where
  \<comment> \<open>\<open>table[idx]\<close>\<close>
  "entry table idx m = load64 (table + 8 * idx) m"

definition set_entry :: "u64 \<Rightarrow> u64 \<Rightarrow> u64 \<Rightarrow> 'z heap_t_scheme \<Rightarrow> 'z heap_t_scheme" where
  "set_entry table idx v s = s\<lparr>mem := store64 (table + 8 * idx) v (mem s)\<rparr>"

definition is_present :: "u64 \<Rightarrow> bool" where "is_present e \<longleftrightarrow> e AND PTE_PRESENT \<noteq> 0"
definition is_huge :: "u64 \<Rightarrow> bool" where "is_huge e \<longleftrightarrow> e AND PDE_HUGE \<noteq> 0"

definition table_of :: "u64 \<Rightarrow> u64" where
  \<comment> \<open>\<open>phys_to_virt(e & PTE_ADDR_MASK)\<close>\<close>
  "table_of e = phys_to_virt (e AND PTE_ADDR_MASK)"

definition is_table_empty :: "u64 \<Rightarrow> memory \<Rightarrow> bool" where
  "is_table_empty table m \<longleftrightarrow> list_all (\<lambda>i. \<not> is_present (entry table (of_nat i) m)) [0..<512]"

section \<open>Mapping one page\<close>

definition ensure_table :: "u64 \<Rightarrow> u64 \<Rightarrow> 'z heap_t_scheme \<Rightarrow> bool \<times> 'z heap_t_scheme" where
  \<comment> \<open>the block \<open>if (!(t[idx] & PTE_PRESENT)) \<dots>\<close>, once per level; \<open>False\<close> is \<open>return -1\<close>\<close>
  "ensure_table table idx s =
     (if is_present (entry table idx (mem s)) then (True, s)
      else
        let (phys, s) = pmm_alloc_pages 0 s
        in if phys = 0 then (False, s)
           else
             let s = s\<lparr>mem := memset (phys_to_virt phys) 0 PAGE_SIZE (mem s)\<rparr>
             in (True, set_entry table idx (phys OR PTE_PRESENT OR PTE_WRITABLE OR PTE_USER) s))"

definition pte_flags_of :: "u32 \<Rightarrow> u64" where
  "pte_flags_of flags =
     (let f = PTE_PRESENT;
          f = (if flags AND PROT_WRITE \<noteq> 0 then f OR PTE_WRITABLE else f);
          f = (if flags AND PROT_USER \<noteq> 0 then f OR PTE_USER else f);
          f = (if flags AND PROT_GLOBAL \<noteq> 0 then f OR PTE_GLOBAL else f)
      in if flags AND PROT_EXEC = 0 then f OR PTE_NX else f)"

definition pmap_map_page :: "u64 \<Rightarrow> u64 \<Rightarrow> u64 \<Rightarrow> u32 \<Rightarrow> 'z heap_t_scheme \<Rightarrow> int \<times> 'z heap_t_scheme" where
  \<comment> \<open>the first argument is \<open>pmap->pm_root_virt\<close>, all that the function uses of the \<open>pmap\<close>\<close>
  "pmap_map_page pml4 va pa flags s =
     (let (ok, s) = ensure_table pml4 (PML4_INDEX va) s
      in if \<not> ok then (- 1, s)
      else let pdpt = table_of (entry pml4 (PML4_INDEX va) (mem s));
               (ok, s) = ensure_table pdpt (PDPT_INDEX va) s
      in if \<not> ok then (- 1, s)
      else let pd = table_of (entry pdpt (PDPT_INDEX va) (mem s));
               pte_flags = pte_flags_of flags
      in if flags AND PROT_HUGE \<noteq> 0 then
           let idx = PD_INDEX va;
               e = entry pd idx (mem s);
               s = (if is_present e \<and> \<not> is_huge e then pmm_free_pages (e AND PTE_ADDR_MASK) 0 s else s);
               pte_flags = pte_flags OR PDE_HUGE;
               pte_flags = (if flags AND PROT_WC \<noteq> 0 then pte_flags OR PDE_PAT else pte_flags)
           in (0, set_entry pd idx ((pa AND HUGE_ADDR_MASK) OR pte_flags) s)
         else
           let (ok, s) = ensure_table pd (PD_INDEX va) s
           in if \<not> ok then (- 1, s)
           else let pt = table_of (entry pd (PD_INDEX va) (mem s));
                    pte_flags = (if flags AND PROT_WC \<noteq> 0 then pte_flags OR PTE_PAT else pte_flags)
           in (0, set_entry pt (PT_INDEX va) ((pa AND PTE_ADDR_MASK) OR pte_flags) s))"

section \<open>Unmapping one page\<close>

definition pmap_unmap_page :: "u64 \<Rightarrow> u64 \<Rightarrow> bool \<Rightarrow> 'z heap_t_scheme \<Rightarrow> u64 \<times> bool \<times> 'z heap_t_scheme" where
  "pmap_unmap_page pml4 va freed s =
     (let l4 = PML4_INDEX va; e4 = entry pml4 l4 (mem s)
      in if \<not> is_present e4 then (PAGE_SIZE, freed, s)
      else let pdpt = table_of e4; l3 = PDPT_INDEX va; e3 = entry pdpt l3 (mem s)
      in if \<not> is_present e3 \<or> is_huge e3 then (PAGE_SIZE, freed, s)
      else let pd = table_of e3; l2 = PD_INDEX va; e2 = entry pd l2 (mem s)
      in if \<not> is_present e2 then (PAGE_SIZE, freed, s)
      else if is_huge e2 then (PAGE_SIZE_HUGE, freed, set_entry pd l2 0 s)
      else let pt = table_of e2; l1 = PT_INDEX va
      in if \<not> is_present (entry pt l1 (mem s)) then (PAGE_SIZE, freed, s)
      else let s = set_entry pt l1 0 s
      in if is_table_empty pt (mem s) then
           let s = pmm_free_pages (entry pd l2 (mem s) AND PTE_ADDR_MASK) 0 s;
               s = set_entry pd l2 0 s;
               s = (if is_table_empty pd (mem s) then
                      let s = pmm_free_pages (entry pdpt l3 (mem s) AND PTE_ADDR_MASK) 0 s;
                          s = set_entry pdpt l3 0 s
                      in if is_table_empty pdpt (mem s) then
                           let s = pmm_free_pages (entry pml4 l4 (mem s) AND PTE_ADDR_MASK) 0 s
                           in set_entry pml4 l4 0 s
                         else s
                    else s)
           in (PAGE_SIZE, True, s)
         else (PAGE_SIZE, freed, s))"

section \<open>Ranges\<close>

partial_function (option) map_range ::
  "u64 \<Rightarrow> u64 \<Rightarrow> u64 \<Rightarrow> u64 \<Rightarrow> u64 \<Rightarrow> u32 \<Rightarrow> kernel \<Rightarrow> (int \<times> kernel) option" where
  \<comment> \<open>\<open>for (va = va_start; va < va_end; va += step, pa += step)\<close>\<close>
  "map_range root va va_end pa step flags s =
     (if va < va_end then
        let (err, s) = pmap_map_page root va pa flags s
        in if err \<noteq> 0 then Some (err, s)
           else map_range root (va + step) va_end (pa + step) step flags s
      else Some (0, s))"

definition pmap_map :: "u64 \<Rightarrow> u64 \<Rightarrow> u64 \<Rightarrow> u64 \<Rightarrow> u32 \<Rightarrow> kernel \<Rightarrow> (int \<times> kernel) option" where
  "pmap_map pmap virt phys sz flags s =
     (if pmap = 0 \<or> sz = 0 then Some (- 1, s)
      else
        let step = (if flags AND PROT_HUGE \<noteq> 0 then PAGE_SIZE_HUGE else PAGE_SIZE);
            msk = step - 1;
            va_start = virt AND NOT msk;
            va_end = (virt + sz + msk) AND NOT msk;
            pa = phys AND NOT msk
        in map_range (pm_root_virt (pmaps s pmap)) va_start va_end pa step flags s)"

partial_function (option) unmap_range ::
  "u64 \<Rightarrow> u64 \<Rightarrow> u64 \<Rightarrow> bool \<Rightarrow> kernel \<Rightarrow> kernel option" where
  "unmap_range root va va_end freed s =
     (if va < va_end then
        let (n, freed, s) = pmap_unmap_page root va freed s
        in unmap_range root (va + n) va_end freed s
      else Some s)"

definition pmap_unmap :: "u64 \<Rightarrow> u64 \<Rightarrow> u64 \<Rightarrow> kernel \<Rightarrow> kernel option" where
  "pmap_unmap pmap virt sz s =
     (if pmap = 0 \<or> sz = 0 then Some s
      else
        let va_start = virt AND NOT 0xFFF;
            va_end = (virt + sz + 0xFFF) AND NOT 0xFFF
        in unmap_range (pm_root_virt (pmaps s pmap)) va_start va_end False s)"

definition extract_from :: "u64 \<Rightarrow> u64 \<Rightarrow> memory \<Rightarrow> u64" where
  \<comment> \<open>the walk of \<open>pmap_extract\<close> from the root table\<close>
  "extract_from pml4 va m =
     (let e4 = entry pml4 (PML4_INDEX va) m
      in if \<not> is_present e4 then 0
      else let pdpt = table_of e4; e3 = entry pdpt (PDPT_INDEX va) m
      in if \<not> is_present e3 then 0
      else let pd = table_of e3; e2 = entry pd (PD_INDEX va) m
      in if \<not> is_present e2 then 0
      else if is_huge e2 then (e2 AND HUGE_ADDR_MASK) + (va AND 0x1FFFFF)
      else let pt = table_of e2; e1 = entry pt (PT_INDEX va) m
      in if \<not> is_present e1 then 0
      else (e1 AND PTE_ADDR_MASK) + (va AND 0xFFF))"

definition pmap_extract :: "u64 \<Rightarrow> u64 \<Rightarrow> kernel \<Rightarrow> u64" where
  "pmap_extract pmap va s =
     (if pmap = 0 then 0 else extract_from (pm_root_virt (pmaps s pmap)) va (mem s))"

section \<open>Creating and destroying address spaces\<close>

abbreviation (input) sizeof_pmap :: u64 where "sizeof_pmap \<equiv> 48"

definition pmap_create :: "kernel \<Rightarrow> (u64 \<times> kernel) option" where
  \<comment> \<open>the result of \<open>pmm_alloc_pages\<close> is used unchecked\<close>
  "pmap_create s = do {
     (pmap, s) \<leftarrow> kmalloc sizeof_pmap s;
     if pmap = 0 then Some (0, s)
     else do {
       let (pml4_phys, s) = pmm_alloc_pages 0 s;
       let pml4_virt = phys_to_virt pml4_phys;
       let s = s\<lparr>mem := memset pml4_virt 0 PAGE_SIZE (mem s)\<rparr>;
       let s = s\<lparr>mem := memcpy (pml4_virt + 8 * 256)
                   (pm_root_virt (pmaps s (kernel_pmap s)) + 8 * 256) (256 * 8) (mem s)\<rparr>;
       let s = s\<lparr>pmaps := (pmaps s)(pmap := \<lparr>pm_root_virt = pml4_virt, pm_root_phys = pml4_phys\<rparr>)\<rparr>;
       let s = s\<lparr>grantq := list_init (GrantHead pmap) (grantq s)\<rparr>;
       Some (pmap, s)}}"

definition destroy_pd :: "u64 \<Rightarrow> kernel \<Rightarrow> kernel" where
  \<comment> \<open>the innermost loop of \<open>pmap_destroy\<close>\<close>
  "destroy_pd pd s =
     fold (\<lambda>k s.
       let e = entry pd (of_nat k) (mem s)
       in if \<not> is_present e \<or> is_huge e then s else pmm_free_pages (e AND PTE_ADDR_MASK) 0 s)
     [0..<512] s"

definition destroy_pdpt :: "u64 \<Rightarrow> kernel \<Rightarrow> kernel" where
  "destroy_pdpt pdpt s =
     fold (\<lambda>j s.
       let e = entry pdpt (of_nat j) (mem s)
       in if \<not> is_present e \<or> is_huge e then s
          else let pd_phys = e AND NOT 0xFFF;
                   s = destroy_pd (phys_to_virt pd_phys) s
               in pmm_free_pages pd_phys 0 s)
     [0..<512] s"

definition pmap_destroy :: "u64 \<Rightarrow> kernel \<Rightarrow> kernel option" where
  "pmap_destroy pmap s =
     (if pmap = 0 \<or> pmap = kernel_pmap s then Some s
      else
        let pml4 = pm_root_virt (pmaps s pmap);
            s = fold (\<lambda>i s.
                  let e = entry pml4 (of_nat i) (mem s)
                  in if \<not> is_present e then s
                     else let pdpt_phys = e AND PTE_ADDR_MASK;
                              s = destroy_pdpt (phys_to_virt pdpt_phys) s
                          in pmm_free_pages pdpt_phys 0 s)
                [0..<256] s;
            s = pmm_free_pages (pm_root_phys (pmaps s pmap)) 0 s
        in kfree pmap s)"

definition pmap_activate :: "u64 \<Rightarrow> kernel \<Rightarrow> kernel" where
  "pmap_activate pmap s =
     (if pmap = 0 \<or> pm_root_phys (pmaps s pmap) = 0 then s else s\<lparr>cr3 := pm_root_phys (pmaps s pmap)\<rparr>)"

definition pmap_init :: "kernel \<Rightarrow> int \<times> kernel" where
  "pmap_init s =
     (let (pml4_phys, s) = pmm_alloc_pages 0 s
      in if pml4_phys = 0 then (- 1, s)
         else
           let pml4_virt = phys_to_virt pml4_phys;
               s = s\<lparr>mem := memset pml4_virt 0 PAGE_SIZE (mem s)\<rparr>
           in (0, s\<lparr>pmaps := (pmaps s)(kernel_pmap s := \<lparr>pm_root_virt = pml4_virt, pm_root_phys = pml4_phys\<rparr>)\<rparr>))"

end
