(* ===== verification/Page_Table.thy ===== *)
theory Page_Table
  imports Pmap CString
begin

text \<open>
  Page tables as trees. The words of memory seen as slots of page-aligned tables form a map from
  tables and indices to entries (\<open>slots\<close>); writing an entry and clearing a page are updates of
  this map. An address space is a tree of tables below its root (\<open>tree\<close>), and translating an
  address is a walk from the root (\<open>resolve\<close>, which \<open>extract_from\<close> computes). Shown is what adding
  an empty table and writing a last-level or a large-page entry do to every translation.
\<close>

section \<open>Slots of page-aligned tables\<close>

definition page_aligned :: "u64 \<Rightarrow> bool" where "page_aligned t \<longleftrightarrow> t AND 0xFFF = 0"

lemma page_aligned_iff: "page_aligned t \<longleftrightarrow> 4096 dvd unat t"
proof -
  have m: "(0xFFF :: u64) = mask 12" by (simp add: mask_eq_exp_minus_1)
  have "t AND 0xFFF = 0 \<longleftrightarrow> unat (t AND 0xFFF) = 0" by (simp add: unat_eq_0)
  also have "unat (t AND 0xFFF) = unat t mod 4096"
    unfolding m by (simp only: take_bit_eq_mask [symmetric] unsigned_take_bit_eq) (simp add: take_bit_eq_mod)
  finally show ?thesis by (auto simp: page_aligned_def)
qed

lemma page_alignedE:
  assumes "page_aligned t"
  obtains q where "unat t = 4096 * q"
  using assms by (auto simp: page_aligned_iff)

lemma unat_slot:
  assumes "page_aligned t" "i < 512"
  shows "unat (t + 8 * i) = unat t + 8 * unat i"
proof -
  obtain q where q: "unat t = 4096 * q" using assms(1) by (auto simp: page_aligned_iff)
  have "unat i < 512" using assms(2) by (simp add: word_less_nat_alt)
  moreover from this have "unat t + 8 * unat i < 2 ^ 64" using q unat_less_64 [of t] by simp
  ultimately show ?thesis by (simp add: unat_word_ariths)
qed

lemma slot_cell: "page_aligned t \<Longrightarrow> i < 512 \<Longrightarrow> (t + 8 * i) AND 7 = 0"
  unfolding and_7 by (simp add: unat_slot) (erule page_alignedE, presburger)

lemma slot_inj:
  assumes "page_aligned t" "page_aligned t'" "i < 512" "j < 512" "t + 8 * i = t' + 8 * j"
  shows "t = t' \<and> i = j"
proof -
  obtain p q where pq: "unat t = 4096 * p" "unat t' = 4096 * q" using assms(1,2) by (elim page_alignedE) blast
  have "unat i < 512" "unat j < 512" using assms(3,4) by (simp_all add: word_less_nat_alt)
  moreover have "4096 * p + 8 * unat i = 4096 * q + 8 * unat j"
    using unat_slot [OF assms(1,3)] unat_slot [OF assms(2,4)] assms(5) pq by simp
  ultimately have e: "4096 * p + 8 * unat i = 4096 * q + 8 * unat j" "8 * unat i < 4096" "8 * unat j < 4096" by simp_all
  then have "(4096 * p + 8 * unat i) div 4096 = (4096 * q + 8 * unat j) div 4096" by simp
  then have "p = q" using e(2,3) by simp
  with e pq have "unat t = unat t'" "unat i = unat j" by simp_all
  then show ?thesis by (simp add: word_unat_eq_iff)
qed

text \<open>What the slots of the page tables hold.\<close>

type_synonym slots = "u64 \<Rightarrow> u64 \<Rightarrow> u64"

definition slots :: "memory \<Rightarrow> slots" where
  "slots m t i = (if page_aligned t \<and> i < 512 then entry t i m else 0)"

definition put :: "u64 \<Rightarrow> u64 \<Rightarrow> u64 \<Rightarrow> slots \<Rightarrow> slots" where
  "put t i v E = E(t := (E t)(i := v))"

lemma put_apply: "put t i v E u j = (if u = t \<and> j = i then v else E u j)"
  by (simp add: put_def)

lemma slots_store:
  assumes "page_aligned t" "i < 512"
  shows "slots (store64 (t + 8 * i) v m) = put t i v (slots m)"
proof (intro ext)
  fix u j
  show "slots (store64 (t + 8 * i) v m) u j = put t i v (slots m) u j"
    using assms slot_inj [of u t j i] cells64.ld_st [OF slot_cell slot_cell, of u j t i v m]
    by (auto simp: slots_def entry_def put_apply)
qed

lemma load_le_zero: "(\<And>i. i < k \<Longrightarrow> m (a + of_nat i) = 0) \<Longrightarrow> load_le k a m = 0"
proof (induction k arbitrary: a)
  case (Suc k)
  have "m (a + 1 + of_nat i) = 0" if "i < k" for i
    using Suc.prems [of "Suc i"] that by (simp add: algebra_simps)
  moreover have "m a = 0" using Suc.prems [of 0] by simp
  ultimately show ?case using Suc.IH [of "a + 1"] by simp
qed simp

lemma page_offset:
  assumes "page_aligned t" "page_aligned p" "i < 512" "b < 8"
  shows "t + 8 * i + of_nat b - p < 4096 \<longleftrightarrow> t = p"
proof -
  have i: "unat i < 512" using assms(3) by (simp add: word_less_nat_alt)
  have ob: "unat (of_nat b :: u64) = b" using assms(4) by (simp add: unat_of_nat take_bit_nat_eq_self)
  obtain x y where xy: "unat t = 4096 * x" "unat p = 4096 * y" using assms(1,2) by (elim page_alignedE) blast
  have xb: "x < 2 ^ 52" "y < 2 ^ 52" using xy unat_less_64 [of t] unat_less_64 [of p] by auto
  let ?o = "8 * unat i + b"
  have ua: "unat (t + 8 * i + of_nat b) = 4096 * x + ?o"
    using unat_slot [OF assms(1,3)] i ob xy(1) xb assms(4) by (subst unat_word_ariths) simp
  have o: "?o < 4096" using i assms(4) by simp
  show ?thesis
  proof
    assume "t + 8 * i + of_nat b - p < 4096"
    then have l: "unat (t + 8 * i + of_nat b - p) < 4096" by (simp add: word_less_nat_alt)
    have "x = y"
    proof (cases "p \<le> t + 8 * i + of_nat b")
      case True
      then have "unat (t + 8 * i + of_nat b - p) = 4096 * x + ?o - 4096 * y" "4096 * y \<le> 4096 * x + ?o"
        using ua xy by (simp_all add: unat_sub word_le_nat_alt)
      then show ?thesis using l o by linarith
    next
      case False
      then have lt: "4096 * x + ?o < 4096 * y" using ua xy by (simp add: word_le_nat_alt)
      then have "unat (t + 8 * i + of_nat b - p) = 2 ^ 64 + (4096 * x + ?o) - 4096 * y"
        using ua xy unat_sub_if_size [of "t + 8 * i + of_nat b" p] by (simp add: word_size)
      then show ?thesis using l xb by simp
    qed
    then show "t = p" using xy by (metis unsigned_word_eqI)
  next
    assume "t = p"
    then have "t + 8 * i + of_nat b - p = 8 * i + of_nat b" by simp
    moreover have "unat (8 * i + of_nat b) = ?o" using i ob assms(4) by (simp add: unat_word_ariths)
    ultimately show "t + 8 * i + of_nat b - p < 4096" using o by (simp add: word_less_nat_alt)
  qed
qed

lemma slots_memset:
  assumes "page_aligned p"
  shows "slots (memset p 0 PAGE_SIZE m) = (slots m)(p := \<lambda>_. 0)"
proof (intro ext)
  fix t j
  show "slots (memset p 0 PAGE_SIZE m) t j = ((slots m)(p := \<lambda>_. 0)) t j"
  proof (cases "page_aligned t \<and> j < 512")
    case True
    then have off: "t + 8 * j + of_nat b - p < 4096 \<longleftrightarrow> t = p" if "b < 8" for b
      using page_offset [OF _ assms, of t j b] that by blast
    show ?thesis
    proof (cases "t = p")
      case eq: True
      then have "load64 (t + 8 * j) (memset p 0 PAGE_SIZE m) = 0"
        using off unfolding load64_def by (intro load_le_zero) (simp add: memset_spec)
      then show ?thesis using eq by (simp add: slots_def entry_def)
    next
      case False
      then have "load64 (t + 8 * j) (memset p 0 PAGE_SIZE m) = load64 (t + 8 * j) m"
        using off unfolding load64_def by (intro load_le_cong) (simp add: memset_spec)
      then show ?thesis using False by (simp add: slots_def entry_def)
    qed
  qed (auto simp: slots_def)
qed

section \<open>Trees of tables\<close>

definition child :: "slots \<Rightarrow> u64 \<Rightarrow> u64 \<Rightarrow> u64 option" where
  "child E t i = (if is_present (E t i) \<and> \<not> is_huge (E t i) then Some (table_of (E t i)) else None)"

primrec walk :: "slots \<Rightarrow> u64 \<Rightarrow> u64 list \<Rightarrow> u64 option" where
  "walk E t [] = Some t"
| "walk E t (i # p) = (case child E t i of None \<Rightarrow> None | Some u \<Rightarrow> walk E u p)"

definition tables :: "slots \<Rightarrow> u64 \<Rightarrow> u64 set" where
  "tables E r = {t. \<exists>p. length p \<le> 3 \<and> walk E r p = Some t}"

definition tree :: "slots \<Rightarrow> u64 \<Rightarrow> bool" where
  "tree E r \<longleftrightarrow> page_aligned r \<and>
     (\<forall>p q t. length p \<le> 3 \<longrightarrow> length q \<le> 3 \<longrightarrow> walk E r p = Some t \<longrightarrow> walk E r q = Some t \<longrightarrow> p = q) \<and>
     (\<forall>p t i. length p \<le> 1 \<longrightarrow> walk E r p = Some t \<longrightarrow> is_present (E t i) \<longrightarrow> \<not> is_huge (E t i))"

lemma walk_snoc: "walk E t (p @ [i]) = (case walk E t p of None \<Rightarrow> None | Some u \<Rightarrow> child E u i)"
  by (induction p arbitrary: t) (auto split: option.splits)

lemma tree_unique:
  "tree E r \<Longrightarrow> length p \<le> 3 \<Longrightarrow> length q \<le> 3 \<Longrightarrow> walk E r p = Some t \<Longrightarrow> walk E r q = Some t \<Longrightarrow> p = q"
  unfolding tree_def by blast

lemma tree_no_huge: "tree E r \<Longrightarrow> length p \<le> 1 \<Longrightarrow> walk E r p = Some t \<Longrightarrow> is_present (E t i) \<Longrightarrow> \<not> is_huge (E t i)"
  unfolding tree_def by blast

lemma tablesI: "length p \<le> 3 \<Longrightarrow> walk E r p = Some t \<Longrightarrow> t \<in> tables E r"
  by (auto simp: tables_def)

lemma not_present_0 [simp]: "\<not> is_present 0" by (simp add: is_present_def)

lemma put_new: "put t i v (E(n := \<lambda>_. 0)) u j = (if u = t \<and> j = i then v else if u = n then 0 else E u j)"
  by (simp add: put_def)

lemma walk_insert:
  assumes T: "tree E r" and q: "walk E r q = Some t" "length q \<le> 2" and free: "\<not> is_present (E t i)"
    and n: "n \<notin> tables E r" and v: "table_of v = n" "is_present v" "\<not> is_huge v"
    and E': "E' = put t i v (E(n := \<lambda>_. 0))" and x: "length x \<le> 3"
  shows "walk E' r x = (if x = q @ [i] then Some n else walk E r x)"
  using x
proof (induction x rule: rev_induct)
  case (snoc j x)
  have tn: "t \<noteq> n" using q n by (auto simp: tables_def)
  have oi: "walk E r (q @ [i]) = None" using q free by (simp add: walk_snoc child_def)
  have IH: "walk E' r x = (if x = q @ [i] then Some n else walk E r x)" using snoc.IH snoc.prems by simp
  have new: "child E' n j = None" using tn by (simp add: child_def E' put_new)
  show ?case
  proof (cases "walk E r x")
    case None
    then show ?thesis using IH new oi q(1) by (auto simp: walk_snoc)
  next
    case (Some u)
    then have u: "u \<noteq> n" "x \<noteq> q @ [i]" using n snoc.prems oi by (auto simp: tables_def)
    have "u = t \<longleftrightarrow> x = q" using tree_unique [OF T _ _ Some, of q] q snoc.prems Some by auto
    then have "child E' u j = (if x = q \<and> j = i then Some n else child E u j)"
      using u v by (auto simp: child_def E' put_new)
    then show ?thesis using IH u Some by (auto simp: walk_snoc)
  qed
qed simp

lemma tree_insert:
  assumes T: "tree E r" and q: "walk E r q = Some t" "length q \<le> 2" and free: "\<not> is_present (E t i)"
    and n: "n \<notin> tables E r" and v: "table_of v = n" "is_present v" "\<not> is_huge v"
    and E': "E' = put t i v (E(n := \<lambda>_. 0))"
  shows "tree E' r" "tables E' r \<subseteq> insert n (tables E r)"
proof -
  note W = walk_insert [OF assms]
  have old: "walk E r p \<noteq> Some n" if "length p \<le> 3" for p using n that by (auto simp: tables_def)
  have "p = p'" if "length p \<le> 3" "length p' \<le> 3" "walk E' r p = Some u" "walk E' r p' = Some u" for p p' u
    using that W [OF that(1)] W [OF that(2)] old [OF that(1)] old [OF that(2)] tree_unique [OF T, of p p' u]
    by (auto split: if_splits)
  moreover have "\<not> is_huge (E' u j)" if "length p \<le> 1" "walk E' r p = Some u" "is_present (E' u j)" for p u j
    using that W [of p] v tree_no_huge [OF T, of p u j] by (auto simp: E' put_new split: if_splits)
  ultimately show "tree E' r" using T unfolding tree_def by blast
  show "tables E' r \<subseteq> insert n (tables E r)"
    using W by (auto simp: tables_def split: if_splits)
qed

section \<open>Translations\<close>

definition vpage :: "u64 \<Rightarrow> u64 list" where
  "vpage va = [PML4_INDEX va, PDPT_INDEX va, PD_INDEX va, PT_INDEX va]"

definition pde :: "slots \<Rightarrow> u64 \<Rightarrow> u64 \<Rightarrow> u64" where
  "pde E r va = (case walk E r [PML4_INDEX va, PDPT_INDEX va] of None \<Rightarrow> 0 | Some pd \<Rightarrow> E pd (PD_INDEX va))"

definition pte :: "slots \<Rightarrow> u64 \<Rightarrow> u64 \<Rightarrow> u64" where
  "pte E r va = (case walk E r [PML4_INDEX va, PDPT_INDEX va, PD_INDEX va] of None \<Rightarrow> 0 | Some pt \<Rightarrow> E pt (PT_INDEX va))"

definition huge_at :: "slots \<Rightarrow> u64 \<Rightarrow> u64 \<Rightarrow> bool" where
  "huge_at E r va \<longleftrightarrow> is_present (pde E r va) \<and> is_huge (pde E r va)"

definition resolve :: "slots \<Rightarrow> u64 \<Rightarrow> u64 \<Rightarrow> u64" where
  "resolve E r va =
     (if huge_at E r va then (pde E r va AND HUGE_ADDR_MASK) + (va AND 0x1FFFFF)
      else if is_present (pte E r va) then (pte E r va AND PTE_ADDR_MASK) + (va AND 0xFFF) else 0)"

lemma index_less [simp]:
  "PML4_INDEX va < 512" "PDPT_INDEX va < 512" "PD_INDEX va < 512" "PT_INDEX va < 512"
  unfolding PML4_INDEX_def PDPT_INDEX_def PD_INDEX_def PT_INDEX_def
  by (rule le_less_trans [OF word_and_le1], simp)+

lemma page_aligned_bits: "page_aligned t \<longleftrightarrow> (\<forall>n < 12. \<not> bit t n)"
proof
  assume "page_aligned t"
  then have z: "\<not> bit (t AND 0xFFF) n" for n by (simp add: page_aligned_def)
  show "\<forall>n < 12. \<not> bit t n" using z unfolding bit_and_iff bits_FFF by blast
next
  assume a: "\<forall>n < 12. \<not> bit t n"
  have "t AND 0xFFF = 0" by (rule bit_word_eqI) (use a in \<open>simp only: bit_and_iff bits_FFF, auto\<close>)
  then show "page_aligned t" by (simp add: page_aligned_def)
qed

lemma page_aligned_add: "page_aligned a \<Longrightarrow> page_aligned b \<Longrightarrow> page_aligned (a + b)"
  by (simp add: page_aligned_iff unat_word_ariths dvd_mod)

lemma table_of_aligned [simp]: "page_aligned (table_of e)"
proof -
  have "page_aligned (0x000FFFFFFFFFF000 :: u64)" by (simp add: page_aligned_def)
  then have "page_aligned (e AND PTE_ADDR_MASK)" by (simp add: page_aligned_bits bit_and_iff)
  moreover have "page_aligned HHDM_OFFSET" by (simp add: page_aligned_def)
  ultimately show ?thesis unfolding table_of_def phys_to_virt_def by (rule page_aligned_add)
qed

lemma slots_entry: "page_aligned t \<Longrightarrow> i < 512 \<Longrightarrow> slots m t i = entry t i m"
  by (simp add: slots_def)

lemma extract_resolve:
  assumes T: "tree (slots m) r"
  shows "extract_from r va m = resolve (slots m) r va"
proof -
  have r: "page_aligned r" using T by (simp add: tree_def)
  let ?e4 = "entry r (PML4_INDEX va) m" let ?e3 = "entry (table_of ?e4) (PDPT_INDEX va) m"
  have e4: "\<not> is_huge ?e4" if "is_present ?e4"
    using tree_no_huge [OF T, of "[]" r "PML4_INDEX va"] that r by (simp add: slots_entry)
  have e3: "\<not> is_huge ?e3" if "is_present ?e4" "is_present ?e3"
    using tree_no_huge [OF T, of "[PML4_INDEX va]" "table_of ?e4" "PDPT_INDEX va"] that r e4
    by (simp add: slots_entry child_def)
  show ?thesis using e4 e3 r
    by (auto simp: extract_from_def resolve_def huge_at_def pde_def pte_def Let_def child_def slots_entry)
qed


lemma resolve_insert:
  assumes T: "tree E r" and q: "walk E r q = Some t" "length q \<le> 2" and free: "\<not> is_present (E t i)"
    and n: "n \<notin> tables E r" and v: "table_of v = n" "is_present v" "\<not> is_huge v"
    and E': "E' = put t i v (E(n := \<lambda>_. 0))"
  shows "resolve E' r va = resolve E r va" "huge_at E' r va = huge_at E r va"
    "length q \<le> 1 \<Longrightarrow> pde E' r va = pde E r va"
proof -
  note W = walk_insert [OF assms]
  have tn: "t \<noteq> n" using q n by (auto simp: tables_def)
  have oi: "walk E r (q @ [i]) = None" using q free by (simp add: walk_snoc child_def)
  have old: "walk E r p \<noteq> Some n" if "length p \<le> 3" for p using n that by (auto simp: tables_def)
  have pte: "pte E' r va = pte E r va"
  proof -
    let ?p = "[PML4_INDEX va, PDPT_INDEX va, PD_INDEX va]"
    have "walk E r ?p \<noteq> Some t" using tree_unique [OF T, of ?p q t] q by auto
    then show ?thesis using W [of ?p] oi old [of ?p] tn unfolding pte_def
      by (cases "?p = q @ [i]") (auto simp: E' put_new simp del: walk.simps split: option.splits)
  qed
  have pde: "pde E' r va = pde E r va \<or> \<not> is_present (pde E r va) \<and> \<not> is_huge (pde E' r va)"
  proof -
    let ?p = "[PML4_INDEX va, PDPT_INDEX va]"
    show ?thesis using W [of ?p] oi old [of ?p] tn free v unfolding pde_def
      by (cases "?p = q @ [i]") (auto simp: E' put_new simp del: walk.simps split: option.splits)
  qed
  show "pde E' r va = pde E r va" if "length q \<le> 1"
  proof -
    let ?p = "[PML4_INDEX va, PDPT_INDEX va]"
    have "walk E r ?p \<noteq> Some t" using tree_unique [OF T, of ?p q t] q that by auto
    then show ?thesis using W [of ?p] oi old [of ?p] tn unfolding pde_def
      by (cases "?p = q @ [i]") (auto simp: E' put_new simp del: walk.simps split: option.splits)
  qed
  show h: "huge_at E' r va = huge_at E r va" using pde by (auto simp: huge_at_def)
  show "resolve E' r va = resolve E r va" using pte pde h by (auto simp: resolve_def huge_at_def)
qed

text \<open>Writing the last level.\<close>

lemma walk_leaf:
  assumes T: "tree E r" and q: "walk E r q = Some t" "length q = 3" and x: "length x \<le> 3"
    and E': "E' = put t i v E"
  shows "walk E' r x = walk E r x"
  using x
proof (induction x rule: rev_induct)
  case (snoc j x)
  have IH: "walk E' r x = walk E r x" using snoc.IH snoc.prems by simp
  show ?case
  proof (cases "walk E r x")
    case (Some u)
    then have "u \<noteq> t" using tree_unique [OF T _ _ Some, of q] q snoc.prems by auto
    then have "child E' u j = child E u j" by (simp add: child_def E' put_apply)
    then show ?thesis using IH Some by (simp add: walk_snoc)
  qed (simp add: IH walk_snoc)
qed simp

lemma tree_leaf:
  assumes T: "tree E r" and q: "walk E r q = Some t" "length q = 3" and E': "E' = put t i v E"
  shows "tree E' r" "tables E' r = tables E r"
proof -
  note W = walk_leaf [OF T q _ E']
  have "\<not> is_huge (E' u j)" if "length p \<le> 1" "walk E' r p = Some u" "is_present (E' u j)" for p u j
  proof -
    have "walk E r p = Some u" using W [of p] that by simp
    moreover from this have "u \<noteq> t" using tree_unique [OF T, of p q u] q that(1) by auto
    ultimately show ?thesis using tree_no_huge [OF T that(1), of u j] that(3) by (simp add: E' put_apply)
  qed
  then show "tree E' r" using T W unfolding tree_def by auto
  show "tables E' r = tables E r" using W by (auto simp: tables_def)
qed

lemma resolve_leaf:
  assumes T: "tree E r" and q: "walk E r [PML4_INDEX va, PDPT_INDEX va, PD_INDEX va] = Some t"
    and v: "is_present v" and E': "E' = put t (PT_INDEX va) v E"
  shows "resolve E' r x = (if vpage x = vpage va then (v AND PTE_ADDR_MASK) + (x AND 0xFFF) else resolve E r x)"
    "huge_at E' r x = huge_at E r x"
proof -
  note W = walk_leaf [OF T q _ _ E']
  let ?p = "[PML4_INDEX x, PDPT_INDEX x]" and ?p3 = "[PML4_INDEX x, PDPT_INDEX x, PD_INDEX x]"
  have "walk E r ?p \<noteq> Some t" using tree_unique [OF T _ _ q, of ?p] by auto
  then have pde: "pde E' r x = pde E r x"
    using W [of ?p] unfolding pde_def by (auto simp: E' put_apply simp del: walk.simps split: option.splits)
  have same: "walk E r ?p3 = Some t \<longleftrightarrow> ?p3 = [PML4_INDEX va, PDPT_INDEX va, PD_INDEX va]"
    using tree_unique [OF T _ _ q, of ?p3] q by (auto simp del: walk.simps)
  have pte: "pte E' r x = (if vpage x = vpage va then v else pte E r x)"
    using W [of ?p3] same unfolding pte_def
    by (auto simp: E' put_apply vpage_def simp del: walk.simps split: option.splits)
  have no: "\<not> huge_at E r x" if "vpage x = vpage va"
  proof -
    have "walk E r (?p @ [PD_INDEX x]) = Some t" using q that by (simp add: vpage_def)
    then show ?thesis unfolding huge_at_def pde_def walk_snoc by (auto simp: child_def split: option.splits if_splits)
  qed
  show h: "huge_at E' r x = huge_at E r x" by (simp add: huge_at_def pde)
  show "resolve E' r x = (if vpage x = vpage va then (v AND PTE_ADDR_MASK) + (x AND 0xFFF) else resolve E r x)"
    using h pde pte no v by (auto simp: resolve_def)
qed


text \<open>Changes that keep every table where it is.\<close>

lemma walk_frame:
  assumes "\<And>u j. u \<in> tables E r \<Longrightarrow> child E' u j = child E u j" "length x \<le> 3"
  shows "walk E' r x = walk E r x"
  using assms(2)
proof (induction x rule: rev_induct)
  case (snoc j x)
  then show ?case using assms(1) tablesI [of x E r] by (cases "walk E r x") (auto simp: walk_snoc)
qed simp

lemma tree_frame:
  assumes T: "tree E r" and c: "\<And>u j. u \<in> tables E r \<Longrightarrow> child E' u j = child E u j"
    and up: "\<And>p u j. length p \<le> 1 \<Longrightarrow> walk E r p = Some u \<Longrightarrow> E' u j = E u j"
  shows "tree E' r" "tables E' r = tables E r"
proof -
  have w: "walk E' r x = walk E r x" if "length x \<le> 3" for x by (rule walk_frame) (use c that in auto)
  show "tree E' r"
    unfolding tree_def
  proof (intro conjI allI impI)
    show "p = q" if "length p \<le> 3" "length q \<le> 3" "walk E' r p = Some t" "walk E' r q = Some t" for p q t
      using that tree_unique [OF T, of p q t] w by simp
    show "\<not> is_huge (E' t i)" if "length p \<le> 1" "walk E' r p = Some t" "is_present (E' t i)" for p t i
      using that w [of p] up [of p t i] tree_no_huge [OF T that(1), of t i] by simp
  qed (use T in \<open>simp add: tree_def\<close>)
  show "tables E' r = tables E r" using w by (auto simp: tables_def)
qed

definition vregion :: "u64 \<Rightarrow> u64 list" where
  \<comment> \<open>the 2 MiB region of an address\<close>
  "vregion va = [PML4_INDEX va, PDPT_INDEX va, PD_INDEX va]"

lemma huge_leaf:
  assumes T: "tree E r" and q: "walk E r [PML4_INDEX va, PDPT_INDEX va] = Some pd" and free: "\<not> is_present (pde E r va)"
    and v: "is_present v" "is_huge v" and E': "E' = put pd (PD_INDEX va) v E"
  shows "tree E' r" "tables E' r = tables E r"
    "resolve E' r x = (if vregion x = vregion va then (v AND HUGE_ADDR_MASK) + (x AND 0x1FFFFF) else resolve E r x)"
    "pde E' r x = (if vregion x = vregion va then v else pde E r x)" "length y \<le> 3 \<Longrightarrow> walk E' r y = walk E r y"
proof -
  have fr: "\<not> is_present (E pd (PD_INDEX va))" using free q by (simp add: pde_def del: walk.simps)
  have c: "child E' u j = child E u j" for u j using v fr by (auto simp: child_def E' put_apply)
  have up: "E' u j = E u j" if "length p \<le> 1" "walk E r p = Some u" for p u j
    using tree_unique [OF T, of p "[PML4_INDEX va, PDPT_INDEX va]" u] that q by (auto simp: E' put_apply simp del: walk.simps)
  show "tree E' r" "tables E' r = tables E r" using tree_frame [OF T c] up by blast+
  show w: "walk E' r x = walk E r x" if "length x \<le> 3" for x by (rule walk_frame) (use c that in auto)
  let ?p = "[PML4_INDEX x, PDPT_INDEX x]" and ?p3 = "[PML4_INDEX x, PDPT_INDEX x, PD_INDEX x]"
  have same: "walk E r ?p = Some pd \<longleftrightarrow> ?p = [PML4_INDEX va, PDPT_INDEX va]"
    using tree_unique [OF T _ _ q, of ?p] q by (auto simp del: walk.simps)
  show pde: "pde E' r x = (if vregion x = vregion va then v else pde E r x)"
    using w [of ?p] same q unfolding pde_def vregion_def by (auto simp: E' put_apply simp del: walk.simps split: option.splits)
  have "walk E r ?p3 \<noteq> Some pd" using tree_unique [OF T _ _ q, of ?p3] by auto
  then have pte: "pte E' r x = pte E r x"
    using w [of ?p3] unfolding pte_def by (auto simp: E' put_apply simp del: walk.simps split: option.splits)
  show "resolve E' r x = (if vregion x = vregion va then (v AND HUGE_ADDR_MASK) + (x AND 0x1FFFFF) else resolve E r x)"
    using pde pte v by (auto simp: resolve_def huge_at_def)
qed

end
