(* ===== verification/Pmap_Spec.thy ===== *)
theory Pmap_Spec
  imports Page_Table Buddy_Spec Kmem_Spec
begin

text \<open>
  The address-space operations against translations. The invariant \<open>vm_ok\<close> ties an address space to
  the page allocator: its tables form a tree and none of them lies in a free frame. Mapping one
  page changes the translation of exactly that page; mapping a range does so for every page of
  it, keeps the invariant, and fails only when memory is exhausted.
\<close>

section \<open>Entries\<close>

lemma bits_addr_mask: "bit (0x000FFFFFFFFFF000 :: u64) n \<longleftrightarrow> 12 \<le> n \<and> n < 52"
proof -
  have "(0x000FFFFFFFFFF000 :: u64) = push_bit 12 (mask 40)" by (simp add: mask_eq_exp_minus_1 push_bit_eq_mult)
  then show ?thesis by (simp only: bit_push_bit_iff bit_mask_iff) auto
qed

lemma present_bit: "is_present e \<longleftrightarrow> bit e 0"
  by (simp add: is_present_def and_one_eq bit_0 odd_iff_mod_2_eq_one)

lemma huge_bit: "is_huge e \<longleftrightarrow> bit e 7"
proof -
  have "(0x80 :: u64) = 2 ^ 7" by simp
  then show ?thesis unfolding is_huge_def by (metis and_exp_eq_0_iff_not_bit)
qed

lemma bits_7: "bit (7 :: u64) n \<longleftrightarrow> n < 3"
  using bit_mask_iff [of 3 n, where ?'a = "64 word"] by (auto simp: mask_eq_exp_minus_1)

lemma table_entry:
  assumes "page_aligned a" "a < 2 ^ 52"
  shows "table_of (a OR PTE_PRESENT OR PTE_WRITABLE OR PTE_USER) = phys_to_virt a"
    "is_present (a OR PTE_PRESENT OR PTE_WRITABLE OR PTE_USER)"
    "\<not> is_huge (a OR PTE_PRESENT OR PTE_WRITABLE OR PTE_USER)"
proof -
  have seven: "a OR PTE_PRESENT OR PTE_WRITABLE OR PTE_USER = a OR 7" by (simp add: or.assoc)
  have lo: "\<not> bit a n" if "n < 12" for n using assms(1) that by (simp add: page_aligned_bits)
  have hi: "\<not> bit a n" if "52 \<le> n" for n using assms(2) that word_less_exp_iff_bits [of 52 a] by simp
  have "(a OR 7) AND PTE_ADDR_MASK = a"
    by (rule bit_word_eqI) (use lo hi in \<open>auto simp only: bit_and_iff bit_or_iff bits_addr_mask bits_7 not_less [symmetric]\<close>)
  then show "table_of (a OR PTE_PRESENT OR PTE_WRITABLE OR PTE_USER) = phys_to_virt a"
    by (simp only: seven table_of_def)
  show "is_present (a OR PTE_PRESENT OR PTE_WRITABLE OR PTE_USER)" "\<not> is_huge (a OR PTE_PRESENT OR PTE_WRITABLE OR PTE_USER)"
    using lo unfolding seven present_bit huge_bit bit_or_iff bits_7 by simp_all
qed


section \<open>The invariant of an address space\<close>

definition vm_ok :: "u64 \<Rightarrow> u64 set \<Rightarrow> 'z heap_t_scheme \<Rightarrow> bool" where
  "vm_ok r F s \<longleftrightarrow> buddy_pages s F \<and> (\<forall>q \<in> F. q < 2 ^ 40) \<and> tree (slots (mem s)) r \<and>
     (\<forall>q \<in> F. phys_to_virt (pfn_to_phys q) \<notin> tables (slots (mem s)) r)"

lemma buddy_pages_mem [simp]: "buddy_pages (s\<lparr>mem := m\<rparr>) F \<longleftrightarrow> buddy_pages s F"
  by (simp add: buddy_pages_def buddy_inv_def lists_ok_def)

lemma buddy_pages_mem_update [simp]: "buddy_pages (mem_update f s) F \<longleftrightarrow> buddy_pages s F"
  by (simp add: buddy_pages_def buddy_inv_def lists_ok_def)

lemma page_frame:
  assumes "page_aligned a" "phys_to_pfn a < 2 ^ 40"
  shows "a < 2 ^ 52" "pfn_to_phys (phys_to_pfn a) = a"
proof -
  have lo: "\<not> bit a n" if "n < 12" for n using assms(1) that by (simp add: page_aligned_bits)
  have "\<not> bit (phys_to_pfn a) n" if "40 \<le> n" for n using assms(2) that word_less_exp_iff_bits [of 40 "phys_to_pfn a"] by simp
  then have hi: "\<not> bit a (12 + n)" if "40 \<le> n" for n using that by (simp add: phys_to_pfn_def bit_drop_bit_eq)
  have "\<not> bit a n" if "52 \<le> n" for n using hi [of "n - 12"] that by simp
  then show "a < 2 ^ 52" using word_less_exp_iff_bits [of 52 a] by simp
  show "pfn_to_phys (phys_to_pfn a) = a"
  proof (rule bit_word_eqI)
    fix n
    show "bit (pfn_to_phys (phys_to_pfn a)) n = bit a n" if "n < LENGTH(64)"
      using lo [of n] that by (cases "n < 12") (simp_all add: pfn_to_phys_def phys_to_pfn_def bit_push_bit_iff bit_drop_bit_eq)
  qed
qed

lemma table_aligned:
  assumes "tree E r" "walk E r p = Some t"
  shows "page_aligned t"
proof (cases p rule: rev_cases)
  case Nil
  then show ?thesis using assms by (simp add: tree_def)
next
  case (snoc p i)
  then show ?thesis using assms(2) by (auto simp: walk_snoc child_def split: option.splits if_splits)
qed

lemma phys_to_virt_aligned: "page_aligned a \<Longrightarrow> page_aligned (phys_to_virt a)"
  unfolding phys_to_virt_def by (rule page_aligned_add) (simp_all add: page_aligned_def)

lemma phys_to_virt_inj: "phys_to_virt a = phys_to_virt b \<longleftrightarrow> a = b"
  by (simp add: phys_to_virt_def)

lemma fresh_page:
  assumes ok: "vm_ok r F s" and a: "pmm_alloc_pages 0 s = (a, s1)" "a \<noteq> 0"
  shows "page_aligned a" "a < 2 ^ 52" "phys_to_pfn a \<in> F" "phys_to_virt a \<notin> tables (slots (mem s)) r"
    "buddy_pages s1 (F - {phys_to_pfn a})" "card F \<le> card (F - {phys_to_pfn a}) + 1"
    "\<And>q. q \<in> F - {phys_to_pfn a} \<Longrightarrow> phys_to_virt (pfn_to_phys q) \<noteq> phys_to_virt a"
proof -
  show al: "page_aligned a" using buddy.alloc_page_start [OF a(1)] by (simp add: page_aligned_def)
  have single: "blk (phys_to_pfn a) 0 = {phys_to_pfn a}" by (auto simp: blk_iff)
  then show "buddy_pages s1 (F - {phys_to_pfn a})" and F: "phys_to_pfn a \<in> F"
    using buddy.alloc_takes [OF _ a, of F] ok by (auto simp: vm_ok_def)
  have fr: "a < 2 ^ 52" "pfn_to_phys (phys_to_pfn a) = a" using page_frame [OF al] F ok by (auto simp: vm_ok_def)
  then show "a < 2 ^ 52" "phys_to_virt a \<notin> tables (slots (mem s)) r" using F ok by (metis vm_ok_def)+
  show "card F \<le> card (F - {phys_to_pfn a}) + 1" using F card_Suc_Diff1 [of F "phys_to_pfn a"] by simp
  show "phys_to_virt (pfn_to_phys q) \<noteq> phys_to_virt a" if "q \<in> F - {phys_to_pfn a}" for q
    using that phys_pfn_roundtrip [of q] ok fr by (auto simp: phys_to_virt_inj vm_ok_def buddy_pages_def frames_ok_def)
qed

text \<open>Allocating and clearing a page for a table.\<close>

lemma ensure_table_spec:
  assumes ok: "vm_ok r F s" and q: "walk (slots (mem s)) r q = Some t" "length q \<le> 2" and i: "i < 512"
    and nh: "\<not> (is_present (slots (mem s) t i) \<and> is_huge (slots (mem s) t i))"
    and run: "ensure_table t i s = (done, s')"
  shows "if done then
      (\<exists>F' \<subseteq> F. card F \<le> card F' + 1 \<and> vm_ok r F' s') \<and> heap_t.more s' = heap_t.more s \<and>
      walk (slots (mem s')) r (q @ [i]) = Some (table_of (entry t i (mem s'))) \<and>
      (\<forall>p u. length p \<le> 3 \<longrightarrow> walk (slots (mem s)) r p = Some u \<longrightarrow> walk (slots (mem s')) r p = Some u) \<and>
      (\<forall>x. resolve (slots (mem s')) r x = resolve (slots (mem s)) r x \<and>
           huge_at (slots (mem s')) r x = huge_at (slots (mem s)) r x \<and>
           (length q \<le> 1 \<longrightarrow> pde (slots (mem s')) r x = pde (slots (mem s)) r x))
    else s' = s \<and> F = {}"
proof -
  let ?E = "slots (mem s)"
  have T: "tree ?E r" and t: "page_aligned t" using ok q table_aligned by (auto simp: vm_ok_def)
  show ?thesis
  proof (cases "is_present (entry t i (mem s))")
    case True
    then have "s' = s" "done" using run by (simp_all add: ensure_table_def)
    moreover have "card F \<le> card F + 1" by simp
    moreover have "walk ?E r (q @ [i]) = Some (table_of (entry t i (mem s)))"
      using q nh True t i by (simp add: walk_snoc child_def slots_entry)
    ultimately show ?thesis using ok by auto
  next
    case False
    obtain a s1 where a: "pmm_alloc_pages 0 s = (a, s1)" by fastforce
    have m1: "mem s1 = mem s" "heap_t.more s1 = heap_t.more s"
      using pmm_rest_fields [OF pmm_alloc_rest [OF a]] by simp_all
    show ?thesis
    proof (cases "a = 0")
      case True
      then have "s' = s" "\<not> done" "F = {}"
        using run False a buddy.alloc_fails [of s F 0 s1] buddy.alloc_exhausted [of s F s1] ok
        by (auto simp: ensure_table_def vm_ok_def)
      then show ?thesis by simp
    next
      case nz: False
      note fp = fresh_page [OF ok a nz]
      let ?n = "phys_to_virt a" and ?v = "a OR PTE_PRESENT OR PTE_WRITABLE OR PTE_USER"
      note v = table_entry [OF fp(1,2)]
      let ?m = "store64 (t + 8 * i) ?v (memset ?n 0 PAGE_SIZE (mem s))"
      have s': "s' = s1\<lparr>mem := ?m\<rparr>" "done"
        using run False a nz m1 by (simp_all add: ensure_table_def set_entry_def)
      have E': "slots (mem s') = put t i ?v (?E(?n := \<lambda>_. 0))"
        using s'(1) slots_store [OF t i] slots_memset [OF phys_to_virt_aligned [OF fp(1)]] by simp
      have free: "\<not> is_present (?E t i)" using False t i by (simp add: slots_entry)
      note I = T q free fp(4) v E'
      let ?F = "F - {phys_to_pfn a}"
      have "vm_ok r ?F s'"
        using fp(5,7) ok tree_insert [OF I] s'(1) unfolding vm_ok_def by (auto simp: subset_iff)
      moreover have "walk (slots (mem s')) r (q @ [i]) = Some (table_of (entry t i (mem s')))"
        using walk_insert [OF I, of "q @ [i]"] q(2) v(1) s'(1) by (simp add: entry_def del: or.assoc)
      moreover have "walk (slots (mem s')) r p = Some u" if "length p \<le> 3" "walk ?E r p = Some u" for p u
        using walk_insert [OF I that(1)] that(2) free q(1) by (auto simp: walk_snoc child_def)
      ultimately show ?thesis
        using s' m1 resolve_insert [OF I] fp(6) by (auto intro!: exI [of _ ?F])
    qed
  qed
qed


lemma pte_flags:
  "is_present (pte_flags_of fl)" "(pte_flags_of fl) AND PTE_ADDR_MASK = 0"
  unfolding pte_flags_of_def Let_def is_present_def by (simp_all add: bit_simps)


lemma pde_walk: "walk E r [PML4_INDEX va, PDPT_INDEX va] = Some pd \<Longrightarrow> pde E r va = E pd (PD_INDEX va)"
  by (simp add: pde_def del: walk.simps)

definition same_map :: "u64 \<Rightarrow> 'z heap_t_scheme \<Rightarrow> 'z heap_t_scheme \<Rightarrow> bool" where
  "same_map r s s' \<longleftrightarrow> heap_t.more s' = heap_t.more s \<and>
     (\<forall>x. resolve (slots (mem s')) r x = resolve (slots (mem s)) r x \<and>
          huge_at (slots (mem s')) r x = huge_at (slots (mem s)) r x)"

lemma same_map_trans: "same_map r s s1 \<Longrightarrow> same_map r s1 s2 \<Longrightarrow> same_map r s s2"
  by (simp add: same_map_def)

lemma ensure_table_cases:
  assumes "vm_ok r F s" "walk (slots (mem s)) r q = Some t" "length q \<le> 2" "i < 512"
    "\<not> (is_present (slots (mem s) t i) \<and> is_huge (slots (mem s) t i))" "ensure_table t i s = (done, s')"
  obtains (full) "\<not> done" "s' = s" "F = {}"
  | (table) F' where "done" "F' \<subseteq> F" "card F \<le> card F' + 1" "vm_ok r F' s'" "same_map r s s'"
      "walk (slots (mem s')) r (q @ [i]) = Some (table_of (entry t i (mem s')))"
      "length q \<le> 1 \<Longrightarrow> \<forall>x. pde (slots (mem s')) r x = pde (slots (mem s)) r x"
  using ensure_table_spec [OF assms] unfolding same_map_def by (cases "done") auto

lemma no_mapping_added:
  assumes "vm_ok r F' s'" "same_map r s s'" "tree (slots (mem s)) r"
  shows "heap_t.more s' = heap_t.more s \<and>
    (\<forall>x. huge_at (slots (mem s')) r x = huge_at (slots (mem s)) r x) \<and>
    (\<forall>x. extract_from r x (mem s') = extract_from r x (mem s))"
  using assms by (auto simp: same_map_def extract_resolve vm_ok_def)

definition mapped :: "u64 \<Rightarrow> u64 \<Rightarrow> u64 \<Rightarrow> memory \<Rightarrow> memory \<Rightarrow> bool" where
  \<comment> \<open>the translation of the page of \<open>va\<close>, and no other, now leads to the frame of \<open>pa\<close>\<close>
  "mapped r va pa m m' \<longleftrightarrow> (\<forall>x. extract_from r x m' =
     (if vpage x = vpage va then (pa AND PTE_ADDR_MASK) + (x AND 0xFFF) else extract_from r x m))"

lemma masked_or:
  fixes m fl pa :: u64
  assumes "fl AND m = 0"
  shows "((pa AND m) OR fl) AND m = pa AND m"
proof -
  have "\<not> (bit fl n \<and> bit m n)" for n
    using arg_cong [OF assms, of "\<lambda>w. bit w n"] unfolding bit_and_iff by simp
  then show ?thesis by (intro bit_word_eqI) (auto simp only: bit_and_iff bit_or_iff)
qed

lemma last_level:
  assumes ok: "vm_ok r F s" and w: "walk (slots (mem s)) r [PML4_INDEX va, PDPT_INDEX va, PD_INDEX va] = Some pt"
    and s': "s' = set_entry pt (PT_INDEX va) ((pa AND PTE_ADDR_MASK) OR fl) s" and fl: "is_present fl" "fl AND PTE_ADDR_MASK = 0"
  shows "vm_ok r F s'" "mapped r va pa (mem s) (mem s')" "heap_t.more s' = heap_t.more s"
    "huge_at (slots (mem s')) r x = huge_at (slots (mem s)) r x"
proof -
  have T: "tree (slots (mem s)) r" using ok by (simp add: vm_ok_def)
  have pt: "page_aligned pt" by (rule table_aligned [OF T w])
  have E': "slots (mem s') = put pt (PT_INDEX va) ((pa AND PTE_ADDR_MASK) OR fl) (slots (mem s))"
    by (simp add: s' set_entry_def slots_store [OF pt])
  have v: "is_present ((pa AND PTE_ADDR_MASK) OR fl)" using fl(1) by (simp add: present_bit bit_or_iff)
  have m: "((pa AND PTE_ADDR_MASK) OR fl) AND PTE_ADDR_MASK = pa AND PTE_ADDR_MASK" by (rule masked_or [OF fl(2)])
  note L = tree_leaf [OF T w _ E'] and R = resolve_leaf [OF T w v E']
  show "vm_ok r F s'" using ok L by (simp add: vm_ok_def s' set_entry_def)
  show "mapped r va pa (mem s) (mem s')"
    using R(1) m L(1) T by (simp add: mapped_def extract_resolve)
  show "heap_t.more s' = heap_t.more s" by (simp add: s' set_entry_def)
  show "huge_at (slots (mem s')) r x = huge_at (slots (mem s)) r x" by (rule R(2))
qed

lemma upper_levels:
  assumes ok: "vm_ok r F s" and run: "pmap_map_page r va pa flags s = (err, s')"
  obtains (full) "err = - 1" "card F \<le> 1" "vm_ok r {} s'" "same_map r s s'"
  | (dir) s1 s2 F2 pd where "ensure_table r (PML4_INDEX va) s = (True, s1)"
      "ensure_table (table_of (entry r (PML4_INDEX va) (mem s1))) (PDPT_INDEX va) s1 = (True, s2)"
      "pd = table_of (entry (table_of (entry r (PML4_INDEX va) (mem s1))) (PDPT_INDEX va) (mem s2))"
      "F2 \<subseteq> F" "card F \<le> card F2 + 2" "vm_ok r F2 s2" "same_map r s s2"
      "walk (slots (mem s2)) r [PML4_INDEX va, PDPT_INDEX va] = Some pd"
      "\<forall>x. pde (slots (mem s2)) r x = pde (slots (mem s)) r x"
proof -
  let ?i4 = "PML4_INDEX va" and ?i3 = "PDPT_INDEX va"
  have T: "tree (slots (mem s)) r" using ok by (simp add: vm_ok_def)
  obtain d4 s1 where e4: "ensure_table r ?i4 s = (d4, s1)" by fastforce
  have n4: "\<not> (is_present (slots (mem s) r ?i4) \<and> is_huge (slots (mem s) r ?i4))"
    using tree_no_huge [OF T, of "[]" r ?i4] by auto
  show thesis
  proof (rule ensure_table_cases [OF ok _ _ _ n4 e4, of "[]"])
    assume "\<not> d4" "s1 = s" "F = {}"
    then show thesis using run e4 ok by (intro full) (auto simp: pmap_map_page_def same_map_def)
  next
    fix F1 assume A: "d4" "F1 \<subseteq> F" "card F \<le> card F1 + 1" "vm_ok r F1 s1" "same_map r s s1"
      and w1: "walk (slots (mem s1)) r ([] @ [?i4]) = Some (table_of (entry r ?i4 (mem s1)))"
      and p1: "length ([] :: u64 list) \<le> 1 \<Longrightarrow> \<forall>x. pde (slots (mem s1)) r x = pde (slots (mem s)) r x"
    let ?pdpt = "table_of (entry r ?i4 (mem s1))"
    have T1: "tree (slots (mem s1)) r" using A by (simp add: vm_ok_def)
    obtain d3 s2 where e3: "ensure_table ?pdpt ?i3 s1 = (d3, s2)" by fastforce
    have n3: "\<not> (is_present (slots (mem s1) ?pdpt ?i3) \<and> is_huge (slots (mem s1) ?pdpt ?i3))"
      using tree_no_huge [OF T1, of "[?i4]" ?pdpt ?i3] w1 by (auto simp del: walk.simps)
    show thesis
    proof (rule ensure_table_cases [OF A(4) w1 _ _ n3 e3])
      assume "\<not> d3" "s2 = s1" "F1 = {}"
      then show thesis using run e4 e3 A by (intro full) (auto simp: pmap_map_page_def)
    next
      fix F2 assume B: "d3" "F2 \<subseteq> F1" "card F1 \<le> card F2 + 1" "vm_ok r F2 s2" "same_map r s1 s2"
        and w2: "walk (slots (mem s2)) r (([] @ [?i4]) @ [?i3]) = Some (table_of (entry ?pdpt ?i3 (mem s2)))"
        and p2: "length ([] @ [?i4]) \<le> 1 \<Longrightarrow> \<forall>x. pde (slots (mem s2)) r x = pde (slots (mem s1)) r x"
      show thesis
        using A B e4 e3 w2 p1 p2 same_map_trans [OF A(5) B(5)]
        by (intro dir [of s1 s2 "table_of (entry ?pdpt ?i3 (mem s2))" F2]) (auto simp del: walk.simps)
    qed simp_all
  qed simp_all
qed

lemma map_page_4k:
  assumes ok: "vm_ok r F s" and fl: "flags AND PROT_HUGE = 0" and nh: "\<not> huge_at (slots (mem s)) r va"
    and run: "pmap_map_page r va pa flags s = (err, s')"
  shows "\<exists>F' \<subseteq> F. card F \<le> card F' + 3 \<and> vm_ok r F' s' \<and> heap_t.more s' = heap_t.more s \<and>
    (\<forall>x. huge_at (slots (mem s')) r x = huge_at (slots (mem s)) r x) \<and>
    (if err = 0 then mapped r va pa (mem s) (mem s')
     else err = - 1 \<and> F' = {} \<and> (\<forall>x. extract_from r x (mem s') = extract_from r x (mem s)))"
proof -
  have T: "tree (slots (mem s)) r" using ok by (simp add: vm_ok_def)
  from ok run show ?thesis
  proof (cases rule: upper_levels)
    case full
    then show ?thesis using no_mapping_added [OF full(3,4) T] by auto
  next
    case (dir s1 s2 F2 pd)
    obtain d2 s3 where e2: "ensure_table pd (PD_INDEX va) s2 = (d2, s3)" by fastforce
    have "\<not> huge_at (slots (mem s2)) r va" using nh dir(7) by (simp add: same_map_def)
    then have n2: "\<not> (is_present (slots (mem s2) pd (PD_INDEX va)) \<and> is_huge (slots (mem s2) pd (PD_INDEX va)))"
      using pde_walk [OF dir(8)] by (simp add: huge_at_def)
    show ?thesis
    proof (rule ensure_table_cases [OF dir(6,8) _ _ n2 e2])
      assume C: "\<not> d2" "s3 = s2" "F2 = {}"
      then have "err = - 1" "s' = s2" using run dir(1-3) e2 fl by (auto simp: pmap_map_page_def)
      then show ?thesis using no_mapping_added [OF dir(6,7) T] dir C by auto
    next
      fix F3 assume C: "d2" "F3 \<subseteq> F2" "card F2 \<le> card F3 + 1" "vm_ok r F3 s3" "same_map r s2 s3"
        and w3: "walk (slots (mem s3)) r ([PML4_INDEX va, PDPT_INDEX va] @ [PD_INDEX va]) = Some (table_of (entry pd (PD_INDEX va) (mem s3)))"
      have M3: "same_map r s s3" using same_map_trans [OF dir(7) C(5)] .
      let ?pt = "table_of (entry pd (PD_INDEX va) (mem s3))"
      let ?fl = "if flags AND PROT_WC \<noteq> 0 then pte_flags_of flags OR PTE_PAT else pte_flags_of flags"
      have r0: "err = 0" and r1: "s' = set_entry ?pt (PT_INDEX va) ((pa AND PTE_ADDR_MASK) OR ?fl) s3"
        using run dir(1-3) e2 C fl by (auto simp: pmap_map_page_def Let_def)
      have "is_present ?fl" "?fl AND PTE_ADDR_MASK = 0" using pte_flags [of flags]
        by (auto simp: present_bit bit_or_iff bit.conj_disj_distrib2)
      note L = last_level [OF C(4) _ r1 this]
      show ?thesis using L M3 w3 no_mapping_added [OF C(4) M3 T] dir C r0
        by (intro exI [of _ F3]) (auto simp: mapped_def)
    qed simp_all
  qed
qed

section \<open>Ranges of pages\<close>

lemma bits_1FF: "bit (0x1FF :: u64) n \<longleftrightarrow> n < 9"
  using bit_mask_iff [of 9 n, where ?'a = "64 word"] by (auto simp: mask_eq_exp_minus_1)

lemma vpage_bits: "vpage x = vpage y \<longleftrightarrow> (\<forall>n. 12 \<le> n \<and> n < 48 \<longrightarrow> bit x n = bit y n)"
proof -
  have field: "drop_bit k x AND 0x1FF = drop_bit k y AND 0x1FF \<longleftrightarrow> (\<forall>n. k \<le> n \<and> n < k + 9 \<longrightarrow> bit x n = bit y n)"
    for k
  proof
    assume e: "drop_bit k x AND 0x1FF = drop_bit k y AND 0x1FF"
    have "bit x (k + j) = bit y (k + j)" if "j < 9" for j
      using arg_cong [OF e, of "\<lambda>w. bit w j"] that unfolding bit_and_iff bits_1FF bit_drop_bit_eq by simp
    then show "\<forall>n. k \<le> n \<and> n < k + 9 \<longrightarrow> bit x n = bit y n" by (metis add_less_cancel_left le_Suc_ex)
  next
    assume "\<forall>n. k \<le> n \<and> n < k + 9 \<longrightarrow> bit x n = bit y n"
    then have "bit x (k + j) = bit y (k + j)" if "j < 9" for j using that by simp
    then show "drop_bit k x AND 0x1FF = drop_bit k y AND 0x1FF"
      by (intro bit_word_eqI) (auto simp only: bit_and_iff bits_1FF bit_drop_bit_eq comp_def)
  qed
  have "vpage x = vpage y \<longleftrightarrow> (\<forall>k \<in> {39, 30, 21, 12}. \<forall>n. k \<le> n \<and> n < k + 9 \<longrightarrow> bit x n = bit y n)"
    unfolding vpage_def PML4_INDEX_def PDPT_INDEX_def PD_INDEX_def PT_INDEX_def
    by (simp add: field [of 39] field [of 30] field [of 21] field [of 12])
  also have "\<dots> \<longleftrightarrow> (\<forall>n. 12 \<le> n \<and> n < 48 \<longrightarrow> bit x n = bit y n)" (is "?l \<longleftrightarrow> ?r")
  proof
    assume l: ?l
    show ?r
    proof (intro allI impI)
      fix n :: nat assume "12 \<le> n \<and> n < 48"
      then consider "39 \<le> n \<and> n < 48" | "30 \<le> n \<and> n < 39" | "21 \<le> n \<and> n < 30" | "12 \<le> n \<and> n < 21" by linarith
      then show "bit x n = bit y n" using l by cases auto
    qed
  qed auto
  finally show ?thesis .
qed

lemma vpage_eq:
  assumes "x < 2 ^ 48" "y < 2 ^ 48"
  shows "vpage x = vpage y \<longleftrightarrow> unat x div 4096 = unat y div 4096"
proof -
  have hi: "\<not> bit x n" "\<not> bit y n" if "48 \<le> n" for n
    using assms that word_less_exp_iff_bits [of 48 x] word_less_exp_iff_bits [of 48 y] by simp_all
  have "vpage x = vpage y \<longleftrightarrow> drop_bit 12 x = drop_bit 12 y"
  proof
    assume v: "vpage x = vpage y"
    have "bit x (12 + n) = bit y (12 + n)" for n
      using v hi [of "12 + n"] unfolding vpage_bits by (cases "12 + n < 48") auto
    then show "drop_bit 12 x = drop_bit 12 y" by (intro bit_word_eqI) (simp add: bit_drop_bit_eq)
  next
    assume d: "drop_bit 12 x = drop_bit 12 y"
    have "bit x n = bit y n" if "12 \<le> n" for n
      using arg_cong [OF d, of "\<lambda>w. bit w (n - 12)"] that by (simp add: bit_drop_bit_eq)
    then show "vpage x = vpage y" by (simp add: vpage_bits)
  qed
  also have "\<dots> \<longleftrightarrow> unat (drop_bit 12 x) = unat (drop_bit 12 y)" by (simp add: word_unat_eq_iff)
  also have "\<dots> \<longleftrightarrow> unat x div 4096 = unat y div 4096" by (simp add: drop_bit_eq_div unat_div)
  finally show ?thesis .
qed

lemma page_k:
  fixes va :: u64
  assumes "unat va + 4096 * n \<le> 2 ^ 48" "k < n"
  shows "unat (va + 4096 * of_nat k) = unat va + 4096 * k" "va + 4096 * of_nat k < 2 ^ 48"
proof -
  have k: "4096 * k < 2 ^ 48" "unat va + 4096 * k < 2 ^ 48" using assms by auto
  have "unat (of_nat k :: u64) = k" using k by (simp add: unat_of_nat take_bit_nat_eq_self)
  then show u: "unat (va + 4096 * of_nat k) = unat va + 4096 * k"
    using k by (simp add: unat_word_ariths)
  then show "va + 4096 * of_nat k < 2 ^ 48" using k by (simp add: word_less_nat_alt)
qed


definition frame_at :: "u64 \<Rightarrow> u64 \<Rightarrow> u64" where
  \<comment> \<open>the address \<open>x\<close> leads to in the frame at \<open>pa\<close>\<close>
  "frame_at pa x = (pa AND PTE_ADDR_MASK) + (x AND 0xFFF)"

definition range_mapped :: "u64 \<Rightarrow> u64 \<Rightarrow> u64 \<Rightarrow> nat \<Rightarrow> memory \<Rightarrow> memory \<Rightarrow> bool" where
  \<comment> \<open>\<open>n\<close> pages from \<open>va\<close> on lead to consecutive frames from \<open>pa\<close> on, all others are unchanged\<close>
  "range_mapped r va pa n m m' \<longleftrightarrow> (\<forall>x.
     (\<forall>k < n. vpage x = vpage (va + 4096 * of_nat k) \<longrightarrow> extract_from r x m' = frame_at (pa + 4096 * of_nat k) x) \<and>
     ((\<forall>k < n. vpage x \<noteq> vpage (va + 4096 * of_nat k)) \<longrightarrow> extract_from r x m' = extract_from r x m))"

definition range_touched :: "u64 \<Rightarrow> u64 \<Rightarrow> u64 \<Rightarrow> nat \<Rightarrow> memory \<Rightarrow> memory \<Rightarrow> bool" where
  \<comment> \<open>the same, except that some of the pages may still be unchanged\<close>
  "range_touched r va pa n m m' \<longleftrightarrow> (\<forall>x. extract_from r x m' = extract_from r x m \<or>
     (\<exists>k < n. vpage x = vpage (va + 4096 * of_nat k) \<and> extract_from r x m' = frame_at (pa + 4096 * of_nat k) x))"

lemma pages_distinct:
  fixes va :: u64
  assumes "unat va + 4096 * n \<le> 2 ^ 48" "j < n" "k < n" "j \<noteq> k"
  shows "vpage (va + 4096 * of_nat j) \<noteq> vpage (va + 4096 * of_nat k)"
  using assms page_k [OF assms(1), of j] page_k [OF assms(1), of k]
  by (simp add: vpage_eq)

lemma range_mapped_Suc:
  assumes first: "mapped r va pa m m1" and rest: "range_mapped r (va + 4096) (pa + 4096) n m1 m'"
    and room: "unat va + 4096 * Suc n \<le> 2 ^ 48"
  shows "range_mapped r va pa (Suc n) m m'"
  unfolding range_mapped_def
proof (intro allI conjI impI)
  have pg: "va + 4096 + 4096 * of_nat k = va + 4096 * of_nat (Suc k)"
    "pa + 4096 + 4096 * of_nat k = pa + 4096 * of_nat (Suc k)" for k by (simp_all add: algebra_simps)
  have old: "extract_from r x m' = extract_from r x m1" if "\<And>j. j < n \<Longrightarrow> vpage x \<noteq> vpage (va + 4096 * of_nat (Suc j))" for x
    using rest that unfolding range_mapped_def pg by blast
  {
    fix x k assume k: "k < Suc n" "vpage x = vpage (va + 4096 * of_nat k)"
    show "extract_from r x m' = frame_at (pa + 4096 * of_nat k) x"
    proof (cases k)
      case 0
      have "extract_from r x m' = extract_from r x m1"
        by (rule old) (use k 0 pages_distinct [OF room, of 0] in \<open>auto simp del: of_nat_Suc\<close>)
      then show ?thesis using first k 0 by (simp add: mapped_def frame_at_def)
    next
      case (Suc j)
      then show ?thesis using rest k unfolding range_mapped_def pg by (auto simp del: of_nat_Suc)
    qed
  next
    fix x assume a: "\<forall>k < Suc n. vpage x \<noteq> vpage (va + 4096 * of_nat k)"
    then have "extract_from r x m' = extract_from r x m1" by (intro old) (auto simp del: of_nat_Suc)
    moreover have "vpage x \<noteq> vpage va" using a by auto
    ultimately show "extract_from r x m' = extract_from r x m" using first by (simp add: mapped_def)
  }
qed

lemma range_touched_Suc:
  assumes first: "mapped r va pa m m1" and rest: "range_touched r (va + 4096) (pa + 4096) n m1 m'"
  shows "range_touched r va pa (Suc n) m m'"
  unfolding range_touched_def
proof
  have pg: "va + 4096 + 4096 * of_nat k = va + 4096 * of_nat (Suc k)"
    "pa + 4096 + 4096 * of_nat k = pa + 4096 * of_nat (Suc k)" for k by (simp_all add: algebra_simps)
  fix x
  from rest consider "extract_from r x m' = extract_from r x m1"
    | k where "k < n" "vpage x = vpage (va + 4096 * of_nat (Suc k))" "extract_from r x m' = frame_at (pa + 4096 * of_nat (Suc k)) x"
    unfolding range_touched_def pg by blast
  then show "extract_from r x m' = extract_from r x m \<or>
    (\<exists>k < Suc n. vpage x = vpage (va + 4096 * of_nat k) \<and> extract_from r x m' = frame_at (pa + 4096 * of_nat k) x)"
  proof cases
    case 1
    then show ?thesis using first by (cases "vpage x = vpage va") (auto simp: mapped_def frame_at_def intro!: exI [of _ 0])
  next
    case 2
    then show ?thesis by (intro disjI2 exI [of _ "Suc k"]) (simp del: of_nat_Suc)
  qed
qed

lemma map_range_4k:
  assumes "vm_ok r F s" "flags AND PROT_HUGE = 0" "unat va + 4096 * n \<le> 2 ^ 48"
    "\<And>k. k < n \<Longrightarrow> \<not> huge_at (slots (mem s)) r (va + 4096 * of_nat k)"
  shows "\<exists>err s' F'. map_range r va (va + 4096 * of_nat n) pa PAGE_SIZE flags s = Some (err, s') \<and>
    F' \<subseteq> F \<and> card F \<le> card F' + 3 * n \<and> vm_ok r F' s' \<and> heap_t.more s' = heap_t.more s \<and>
    (if err = 0 then range_mapped r va pa n (mem s) (mem s')
     else err = - 1 \<and> F' = {} \<and> range_touched r va pa n (mem s) (mem s'))"
  using assms
proof (induction n arbitrary: va pa s F)
  case 0
  then show ?case by (subst map_range.simps) (auto simp: range_mapped_def intro!: exI [of _ F])
next
  case (Suc n)
  let ?stop = "va + 4096 * of_nat (Suc n)"
  have uend: "unat ?stop = unat va + 4096 * Suc n"
  proof -
    have "unat (of_nat (Suc n) :: u64) = Suc n" using Suc.prems(3) by (simp add: unat_of_nat take_bit_nat_eq_self del: of_nat_Suc)
    then show ?thesis using Suc.prems(3) by (simp add: unat_word_ariths del: of_nat_Suc)
  qed
  have lt: "va < ?stop" using uend by (simp add: word_less_nat_alt del: of_nat_Suc)
  obtain err s1 where m: "pmap_map_page r va pa flags s = (err, s1)" by fastforce
  have nh: "\<not> huge_at (slots (mem s)) r va" using Suc.prems(4) [of 0] by simp
  from map_page_4k [OF Suc.prems(1,2) nh m] obtain F1 where P: "F1 \<subseteq> F \<and> card F \<le> card F1 + 3" "vm_ok r F1 s1" "heap_t.more s1 = heap_t.more s"
    "\<forall>x. huge_at (slots (mem s1)) r x = huge_at (slots (mem s)) r x"
    "if err = 0 then mapped r va pa (mem s) (mem s1)
     else err = - 1 \<and> F1 = {} \<and> (\<forall>x. extract_from r x (mem s1) = extract_from r x (mem s))" by blast
  have pg: "va + 4096 + 4096 * of_nat k = va + 4096 * of_nat (Suc k)" for k by (simp add: algebra_simps)
  show ?case
  proof (cases "err = 0")
    case False
    then show ?thesis using lt m P by (subst map_range.simps) (auto simp: range_touched_def simp del: of_nat_Suc)
  next
    case True
    have u1: "unat (va + 4096) = unat va + 4096" using page_k [of va 2 1] page_k [OF Suc.prems(3), of 0] Suc.prems(3)
      by (simp add: unat_word_ariths)
    have "unat (va + 4096) + 4096 * n \<le> 2 ^ 48" using u1 Suc.prems(3) by simp
    moreover have "\<not> huge_at (slots (mem s1)) r (va + 4096 + 4096 * of_nat k)" if "k < n" for k
      using P(4) Suc.prems(4) [of "Suc k"] that unfolding pg by simp
    ultimately obtain err' s' F' where R: "map_range r (va + 4096) (va + 4096 + 4096 * of_nat n) (pa + 4096) PAGE_SIZE flags s1 = Some (err', s')"
      "F' \<subseteq> F1 \<and> card F1 \<le> card F' + 3 * n" "vm_ok r F' s'" "heap_t.more s' = heap_t.more s1"
      "if err' = 0 then range_mapped r (va + 4096) (pa + 4096) n (mem s1) (mem s')
       else err' = - 1 \<and> F' = {} \<and> range_touched r (va + 4096) (pa + 4096) n (mem s1) (mem s')"
      using Suc.IH [OF P(2) Suc.prems(2), of "va + 4096" "pa + 4096"] by blast
    have run: "map_range r va ?stop pa PAGE_SIZE flags s = Some (err', s')"
      using lt m True R(1) unfolding pg by (subst map_range.simps) (simp del: of_nat_Suc)
    have first: "mapped r va pa (mem s) (mem s1)" using P(5) True by simp
    have "if err' = 0 then range_mapped r va pa (Suc n) (mem s) (mem s')
       else err' = - 1 \<and> F' = {} \<and> range_touched r va pa (Suc n) (mem s) (mem s')"
      using R(5) range_mapped_Suc [OF first _ Suc.prems(3)] range_touched_Suc [OF first] by (auto split: if_splits)
    then show ?thesis using run R P by (intro exI [of _ err'] exI [of _ s'] exI [of _ F']) (auto simp del: of_nat_Suc)
  qed
qed

lemma unat_and_FFF: "unat (x AND 0xFFF) = unat x mod 4096" for x :: u64
proof -
  have m: "(0xFFF :: u64) = mask 12" by (simp add: mask_eq_exp_minus_1)
  show ?thesis
    unfolding m by (simp only: take_bit_eq_mask [symmetric] unsigned_take_bit_eq) (simp add: take_bit_eq_mod)
qed

lemma page_down: "x AND NOT 0xFFF = 4096 * (x div 4096)" for x :: u64
proof -
  have "x AND NOT 0xFFF = push_bit 12 (drop_bit 12 x)"
    by (rule bit_word_eqI)
      (simp only: bit_and_iff bit_not_iff bits_FFF, auto simp: bit_push_bit_iff bit_drop_bit_eq not_less)
  then show ?thesis by (simp add: push_bit_eq_mult drop_bit_eq_div)
qed

lemma unat_page_down: "unat (x AND NOT 0xFFF) = 4096 * (unat x div 4096)" for x :: u64
proof -
  have "4096 * (unat x div 4096) < 2 ^ 64" using unat_less_64 [of x] by (simp add: le_less_trans [of _ "unat x"])
  then show ?thesis unfolding page_down by (simp add: unat_word_ariths unat_div)
qed

lemma page_down_aligned: "page_aligned (x AND NOT 0xFFF)"
  unfolding page_aligned_iff unat_page_down by simp

lemma frame_at_linear:
  assumes "page_aligned pa" "pa < 2 ^ 52"
  shows "frame_at pa x = pa + (x AND 0xFFF)"
proof -
  have lo: "\<not> bit pa n" if "n < 12" for n using assms(1) that by (simp add: page_aligned_bits)
  have hi: "\<not> bit pa n" if "52 \<le> n" for n using assms(2) that word_less_exp_iff_bits [of 52 pa] by simp
  have "pa AND PTE_ADDR_MASK = pa"
    by (rule bit_word_eqI) (use lo hi in \<open>auto simp only: bit_and_iff bits_addr_mask not_less [symmetric]\<close>)
  then show ?thesis by (simp add: frame_at_def)
qed


lemma kernel_more:
  assumes "heap_t.more s' = heap_t.more (s :: kernel)"
  shows "this_cpu s' = this_cpu s" "threads s' = threads s" "current s' = current s" "runq s' = runq s"
    "g_threads s' = g_threads s" "g_threads_ptr s' = g_threads_ptr s" "g_next_tid s' = g_next_tid s"
    "ipcq s' = ipcq s" "futexq s' = futexq s" "wq_phys s' = wq_phys s" "pmaps s' = pmaps s"
    "kernel_pmap s' = kernel_pmap s" "grantq s' = grantq s" "grants s' = grants s" "g_root_pmap s' = g_root_pmap s"
    "g_frames s' = g_frames s" "g_refs s' = g_refs s" "g_maps s' = g_maps s" "g_pool s' = g_pool s"
    "xsave_size s' = xsave_size s" "console s' = console s" "sched_ticks s' = sched_ticks s"
  using assms by (cases s; cases s'; simp)+

lemma pages_of_range:
  fixes virt sz :: u64
  assumes room: "unat virt + unat sz + 4095 \<le> 2 ^ 48"
    and lo: "lo = virt AND NOT 0xFFF" and hi: "hi = (virt + sz + 0xFFF) AND NOT 0xFFF"
  obtains n where "hi = lo + 4096 * of_nat n" "unat hi = unat lo + 4096 * n" "unat hi \<le> 2 ^ 48" "4096 dvd unat lo"
    "4096 * n \<le> unat sz + 8190"
proof -
  define a where "a = unat virt div 4096"
  define b where "b = (unat virt + unat sz + 4095) div 4096"
  have ab: "a \<le> b" unfolding a_def b_def by (intro div_le_mono) simp
  then obtain n where n: "b = a + n" using le_Suc_ex by blast
  have ulo: "unat lo = 4096 * a" unfolding lo unat_page_down a_def ..
  have "unat (virt + sz + 0xFFF) = unat virt + unat sz + 4095" using room by (simp add: unat_word_ariths)
  then have uhi: "unat hi = 4096 * b" unfolding hi unat_page_down b_def by simp
  have bmax: "4096 * b \<le> 2 ^ 48" using room unfolding b_def by linarith
  have "unat (of_nat n :: u64) = n" using bmax n by (simp add: unat_of_nat take_bit_nat_eq_self)
  then have "unat (lo + 4096 * of_nat n) = unat hi"
    using ulo uhi bmax by (simp add: unat_word_ariths n)
  then have hin: "hi = lo + 4096 * of_nat n" by (simp add: word_unat_eq_iff)
  have "4096 * b \<le> unat virt + unat sz + 4095" "unat virt < 4096 * a + 4096" unfolding a_def b_def by linarith+
  then have "4096 * n \<le> unat sz + 8190" using n by linarith
  then show thesis using that [OF hin] ulo uhi n bmax by simp
qed

lemma page_index:
  fixes lo x :: u64
  assumes hi: "unat hi = unat lo + 4096 * n" "unat hi \<le> 2 ^ 48" "4096 dvd unat lo" and x: "lo \<le> x" "x < hi"
  obtains k where "k < n" "vpage x = vpage (lo + 4096 * of_nat k)" "x - lo = 4096 * of_nat k + (x AND 0xFFF)"
proof -
  obtain a where a: "unat lo = 4096 * a" using hi(3) by blast
  have ux: "4096 * a \<le> unat x" "unat x < 4096 * (a + n)" using x hi(1) a by (simp_all add: word_le_nat_alt word_less_nat_alt)
  define k where "k = unat x div 4096 - a"
  have "a \<le> unat x div 4096" "unat x div 4096 < a + n"
    using ux by (simp_all add: less_eq_div_iff_mult_less_eq div_less_iff_less_mult mult.commute)
  then have k: "unat x div 4096 = a + k" "k < n" unfolding k_def by simp_all
  have fit: "unat lo + 4096 * n \<le> 2 ^ 48" using hi by simp
  note pk = page_k [OF fit k(2)]
  have x48: "x < 2 ^ 48" using ux hi a by (simp add: word_less_nat_alt)
  have "vpage x = vpage (lo + 4096 * of_nat k)" using vpage_eq [OF x48 pk(2)] pk(1) a k(1) by simp
  moreover have "x - lo = 4096 * of_nat k + (x AND 0xFFF)"
  proof -
    have "unat x = 4096 * a + 4096 * k + unat x mod 4096" using k(1) mult_div_mod_eq [of 4096 "unat x"] by simp
    then have e: "unat x = unat (lo + 4096 * of_nat k) + unat (x AND 0xFFF)" using pk(1) a unat_and_FFF [of x] by simp
    have "unat (lo + 4096 * of_nat k + (x AND 0xFFF)) = unat x"
      by (subst unat_word_ariths(1)) (use e unat_less_64 [of x] in simp)
    then have "x = lo + 4096 * of_nat k + (x AND 0xFFF)" by (metis word_unat_eq_iff)
    then show ?thesis by (simp add: algebra_simps)
  qed
  ultimately show thesis using that k(2) by blast
qed

lemma pmap_map_spec:
  fixes s :: kernel
  assumes ok: "vm_ok r F s" and r: "r = pm_root_virt (pmaps s pmap)"
    and args: "pmap \<noteq> 0" "sz \<noteq> 0" "flags AND PROT_HUGE = 0"
    and room: "unat virt + unat sz + 4095 \<le> 2 ^ 48" "unat phys + unat sz + 8191 \<le> 2 ^ 52"
    and lo: "lo = virt AND NOT 0xFFF" and hi: "hi = (virt + sz + 0xFFF) AND NOT 0xFFF"
    and nh: "\<And>x. lo \<le> x \<Longrightarrow> x < hi \<Longrightarrow> \<not> huge_at (slots (mem s)) r x"
  shows "\<exists>err s' F'. pmap_map pmap virt phys sz flags s = Some (err, s') \<and> F' \<subseteq> F \<and> vm_ok r F' s' \<and>
    heap_t.more s' = heap_t.more s \<and>
    (if err = 0 then
       (\<forall>x. lo \<le> x \<and> x < hi \<longrightarrow> pmap_extract pmap x s' = (phys AND NOT 0xFFF) + (x - lo)) \<and>
       (\<forall>x < 2 ^ 48. \<not> (lo \<le> x \<and> x < hi) \<longrightarrow> pmap_extract pmap x s' = pmap_extract pmap x s)
     else err = - 1 \<and> F' = {} \<and> card F \<le> 3 * (unat (hi - lo) div 4096))"
proof -
  obtain n where n: "hi = lo + 4096 * of_nat n" "unat hi = unat lo + 4096 * n" "unat hi \<le> 2 ^ 48" "4096 dvd unat lo"
    "4096 * n \<le> unat sz + 8190" by (rule pages_of_range [OF room(1) lo hi])
  have fit: "unat lo + 4096 * n \<le> 2 ^ 48" using n by simp
  note pk = page_k [OF fit]
  have in_range: "lo \<le> lo + 4096 * of_nat k \<and> lo + 4096 * of_nat k < hi" if "k < n" for k
    using pk [OF that] that n by (simp add: word_le_nat_alt word_less_nat_alt)
  let ?pa = "phys AND NOT 0xFFF"
  obtain err s' F' where M: "map_range r lo (lo + 4096 * of_nat n) ?pa PAGE_SIZE flags s = Some (err, s')"
    "F' \<subseteq> F" "vm_ok r F' s'" "heap_t.more s' = heap_t.more s" "card F \<le> card F' + 3 * n"
    "if err = 0 then range_mapped r lo ?pa n (mem s) (mem s')
     else err = - 1 \<and> F' = {} \<and> range_touched r lo ?pa n (mem s) (mem s')"
    using map_range_4k [OF ok args(3) fit, of ?pa] nh in_range by blast
  have run: "pmap_map pmap virt phys sz flags s = Some (err, s')"
  proof -
    have "virt AND - 4096 = lo" "virt + sz + 4095 AND - 4096 = hi" using lo hi by simp_all
    then show ?thesis using M(1) args n(1) r by (simp add: pmap_map_def)
  qed
  have ext: "pmap_extract pmap x s' = extract_from r x (mem s')" "pmap_extract pmap x s = extract_from r x (mem s)" for x
    using args kernel_more(11) [OF M(4)] by (simp_all add: pmap_extract_def r)
  have mapped: "pmap_extract pmap x s' = ?pa + (x - lo)" if z: "err = 0" and x: "lo \<le> x" "x < hi" for x
  proof -
    obtain k where k: "k < n" "vpage x = vpage (lo + 4096 * of_nat k)" "x - lo = 4096 * of_nat k + (x AND 0xFFF)"
      by (rule page_index [OF n(2-4) x])
    have uk: "unat (of_nat k :: u64) = k" using k(1) n by (simp add: unat_of_nat take_bit_nat_eq_self)
    have "unat ?pa \<le> unat phys" unfolding unat_page_down by simp
    then have up: "unat (?pa + 4096 * of_nat k) = unat ?pa + 4096 * k" "unat ?pa + 4096 * k < 2 ^ 52"
      using uk k(1) n(5) room(2) by (simp_all add: unat_word_ariths)
    have "page_aligned (?pa + 4096 * of_nat k)" unfolding page_aligned_iff up(1) unat_page_down by simp
    moreover have "?pa + 4096 * of_nat k < 2 ^ 52" using up by (simp add: word_less_nat_alt)
    ultimately have "frame_at (?pa + 4096 * of_nat k) x = ?pa + (x - lo)" using k(3) by (simp add: frame_at_linear)
    moreover have "range_mapped r lo ?pa n (mem s) (mem s')" using M(6) z by simp
    ultimately show ?thesis using k(1,2) ext unfolding range_mapped_def by simp
  qed
  have other: "pmap_extract pmap x s' = pmap_extract pmap x s"
    if z: "err = 0" and x: "x < 2 ^ 48" "\<not> (lo \<le> x \<and> x < hi)" for x
  proof -
    have "vpage x \<noteq> vpage (lo + 4096 * of_nat k)" if "k < n" for k
    proof
      assume "vpage x = vpage (lo + 4096 * of_nat k)"
      then have "unat x div 4096 = (unat lo + 4096 * k) div 4096" using vpage_eq [OF x(1) pk(2) [OF that]] pk(1) [OF that] by simp
      moreover obtain a where "unat lo = 4096 * a" using n(4) by blast
      ultimately have "lo \<le> x \<and> x < hi" using that n(2) unfolding word_le_nat_alt word_less_nat_alt by auto
      then show False using x(2) by simp
    qed
    then show ?thesis using M(6) z ext unfolding range_mapped_def by simp
  qed
  have "unat (hi - lo) div 4096 = n" using n(2) by (simp add: unat_sub word_le_nat_alt)
  then show ?thesis using run M mapped other by (intro exI [of _ err] exI [of _ s'] exI [of _ F']) auto
qed


text \<open>C4: mapping a range of 4 KiB pages in the user half of an address space always returns. On
  success every address of the (page-rounded) range translates to the corresponding address
  behind the page-rounded physical address, and every other address translates as before; on
  failure the free memory is used up, which takes at most three tables per page. Either way the
  tables still form a tree that shares no frame with the free memory. The range must not overlap
  a large page.\<close>

theorem pmap_map_translates:
  fixes s :: kernel
  assumes "vm_ok (pm_root_virt (pmaps s pmap)) F s" "pmap \<noteq> 0" "sz \<noteq> 0" "flags AND PROT_HUGE = 0"
    and "unat virt + unat sz + 4095 \<le> 2 ^ 48" "unat phys + unat sz + 8191 \<le> 2 ^ 52"
    and "lo = virt AND NOT 0xFFF" "hi = (virt + sz + 0xFFF) AND NOT 0xFFF"
    and "\<And>x. lo \<le> x \<Longrightarrow> x < hi \<Longrightarrow> \<not> huge_at (slots (mem s)) (pm_root_virt (pmaps s pmap)) x"
  shows "\<exists>err s' F'. pmap_map pmap virt phys sz flags s = Some (err, s') \<and> F' \<subseteq> F \<and>
    vm_ok (pm_root_virt (pmaps s' pmap)) F' s' \<and>
    (if err = 0 then
       (\<forall>x. lo \<le> x \<and> x < hi \<longrightarrow> pmap_extract pmap x s' = (phys AND NOT 0xFFF) + (x - lo)) \<and>
       (\<forall>x < 2 ^ 48. \<not> (lo \<le> x \<and> x < hi) \<longrightarrow> pmap_extract pmap x s' = pmap_extract pmap x s)
     else err = - 1 \<and> F' = {} \<and> card F \<le> 3 * (unat (hi - lo) div 4096))"
proof -
  from pmap_map_spec [OF assms(1) refl assms(2-)] obtain err s' F' where
    "pmap_map pmap virt phys sz flags s = Some (err, s')" "F' \<subseteq> F" "vm_ok (pm_root_virt (pmaps s pmap)) F' s'"
    "heap_t.more s' = heap_t.more s"
    "if err = 0 then
       (\<forall>x. lo \<le> x \<and> x < hi \<longrightarrow> pmap_extract pmap x s' = (phys AND NOT 0xFFF) + (x - lo)) \<and>
       (\<forall>x < 2 ^ 48. \<not> (lo \<le> x \<and> x < hi) \<longrightarrow> pmap_extract pmap x s' = pmap_extract pmap x s)
     else err = - 1 \<and> F' = {} \<and> card F \<le> 3 * (unat (hi - lo) div 4096)" by blast
  moreover from this(4) have "pmaps s' = pmaps s" by (rule kernel_more)
  ultimately show ?thesis by metis
qed

section \<open>Large pages\<close>

lemma huge_flags:
  "is_present (pte_flags_of fl OR PDE_HUGE)" "is_huge (pte_flags_of fl OR PDE_HUGE)"
  "(pte_flags_of fl OR PDE_HUGE) AND HUGE_ADDR_MASK = 0"
  "is_present (pte_flags_of fl OR PDE_HUGE OR PDE_PAT)" "is_huge (pte_flags_of fl OR PDE_HUGE OR PDE_PAT)"
  "(pte_flags_of fl OR PDE_HUGE OR PDE_PAT) AND HUGE_ADDR_MASK = 0"
  unfolding pte_flags_of_def Let_def is_present_def is_huge_def by (simp_all add: bit_simps)

lemma map_page_2m:
  assumes ok: "vm_ok r F s" and fl: "flags AND PROT_HUGE \<noteq> 0" and free: "\<not> is_present (pde (slots (mem s)) r va)"
    and run: "pmap_map_page r va pa flags s = (err, s')"
  shows "\<exists>F' \<subseteq> F. vm_ok r F' s' \<and> heap_t.more s' = heap_t.more s \<and> card F \<le> card F' + 2 \<and>
    (if err = 0 then \<forall>x. extract_from r x (mem s') =
        (if vregion x = vregion va then (pa AND HUGE_ADDR_MASK) + (x AND 0x1FFFFF) else extract_from r x (mem s))
     else err = - 1 \<and> F' = {} \<and> (\<forall>x. extract_from r x (mem s') = extract_from r x (mem s)))"
proof -
  have T: "tree (slots (mem s)) r" using ok by (simp add: vm_ok_def)
  from ok run show ?thesis
  proof (cases rule: upper_levels)
    case full
    then show ?thesis using no_mapping_added [OF full(3,4) T] by auto
  next
    case (dir s1 s2 F2 pd)
    have T2: "tree (slots (mem s2)) r" using dir by (simp add: vm_ok_def)
    have fr: "\<not> is_present (pde (slots (mem s2)) r va)" using free dir(9) by simp
    have pd: "page_aligned pd" by (simp add: dir(3))
    have e: "\<not> is_present (entry pd (PD_INDEX va) (mem s2))" using fr pde_walk [OF dir(8)] pd by (simp add: slots_entry)
    let ?fl = "if flags AND PROT_WC \<noteq> 0 then pte_flags_of flags OR PDE_HUGE OR PDE_PAT else pte_flags_of flags OR PDE_HUGE"
    let ?v = "(pa AND HUGE_ADDR_MASK) OR ?fl"
    have r0: "err = 0" and r1: "s' = set_entry pd (PD_INDEX va) ?v s2"
      using run dir(1-3) fl e by (auto simp: pmap_map_page_def Let_def or.assoc)
    have f: "is_present ?fl" "is_huge ?fl" "?fl AND HUGE_ADDR_MASK = 0" using huge_flags [of flags] by simp_all
    have v: "is_present ?v" "is_huge ?v" using f(1,2) unfolding present_bit huge_bit bit_or_iff by blast+
    have E': "slots (mem s') = put pd (PD_INDEX va) ?v (slots (mem s2))"
      unfolding r1 set_entry_def using slots_store [OF pd, of "PD_INDEX va" ?v "mem s2"] by simp
    note H = huge_leaf [OF T2 dir(8) fr v E']
    have ext: "extract_from r x (mem s') =
        (if vregion x = vregion va then (pa AND HUGE_ADDR_MASK) + (x AND 0x1FFFFF) else extract_from r x (mem s))" for x
      using H(1) H(3) [of x] masked_or [OF f(3), of pa] T dir(7) by (simp add: extract_resolve same_map_def)
    have "vm_ok r F2 s'" using dir(6) H by (simp add: vm_ok_def r1 set_entry_def)
    moreover have "heap_t.more s' = heap_t.more s" using dir(7) by (simp add: same_map_def r1 set_entry_def)
    ultimately show ?thesis using dir r0 ext by (intro exI [of _ F2]) auto
  qed
qed

text \<open>C36: mapping a 4 KiB page at an address inside a 2 MiB page reports success, but the address
  still translates into the large page: the entry is written into the memory that the large
  page maps, because \<open>pmap_map_page\<close> takes any present directory entry for a table.\<close>

theorem pmap_map_into_huge_page:
  assumes T: "tree (slots (mem s)) r" and h: "huge_at (slots (mem s)) r va" and fl: "flags AND PROT_HUGE = 0"
    and "frame = phys_to_virt (pde (slots (mem s)) r va AND PTE_ADDR_MASK)" "frame \<notin> tables (slots (mem s)) r"
  shows "\<exists>v. pmap_map_page r va pa flags s = (0, s\<lparr>mem := store64 (frame + 8 * PT_INDEX va) v (mem s)\<rparr>) \<and>
    extract_from r va (store64 (frame + 8 * PT_INDEX va) v (mem s)) = extract_from r va (mem s)"
proof -
  let ?E = "slots (mem s)" and ?i4 = "PML4_INDEX va" and ?i3 = "PDPT_INDEX va"
  from h obtain pd where pd: "walk ?E r [?i4, ?i3] = Some pd" "is_present (?E pd (PD_INDEX va))"
    "is_huge (?E pd (PD_INDEX va))" "pde ?E r va = ?E pd (PD_INDEX va)"
    by (auto simp: huge_at_def pde_def simp del: walk.simps split: option.splits)
  have r: "page_aligned r" using T by (simp add: tree_def)
  let ?e4 = "entry r ?i4 (mem s)"
  let ?e3 = "entry (table_of ?e4) ?i3 (mem s)"
  have up: "is_present ?e4" "is_present ?e3" "pd = table_of ?e3"
    using pd(1) r by (auto simp: child_def slots_entry split: if_splits option.splits)
  then have e2: "entry pd (PD_INDEX va) (mem s) = pde ?E r va" using pd(4) by (simp add: slots_entry)
  let ?v = "(pa AND PTE_ADDR_MASK) OR (if flags AND PROT_WC \<noteq> 0 then pte_flags_of flags OR PTE_PAT else pte_flags_of flags)"
  have run: "pmap_map_page r va pa flags s = (0, s\<lparr>mem := store64 (frame + 8 * PT_INDEX va) ?v (mem s)\<rparr>)"
    using up e2 pd fl assms(4) by (simp add: pmap_map_page_def ensure_table_def set_entry_def table_of_def)
  have fa: "page_aligned frame" unfolding assms(4) using table_of_aligned [of "pde ?E r va"] by (simp add: table_of_def)
  let ?m = "store64 (frame + 8 * PT_INDEX va) ?v (mem s)"
  have E': "slots ?m = put frame (PT_INDEX va) ?v ?E" by (rule slots_store [OF fa]) simp
  then have same: "slots ?m u j = ?E u j" if "u \<in> tables ?E r" for u j using that assms(5) by (auto simp: put_apply)
  then have c: "child (slots ?m) u j = child ?E u j" if "u \<in> tables ?E r" for u j
    using that by (simp add: child_def)
  have w: "walk (slots ?m) r x = walk ?E r x" if "length x \<le> 3" for x by (rule walk_frame) (use c that in auto)
  have "tree (slots ?m) r"
    by (rule tree_frame [OF T c]) (assumption, rule same, rule tablesI, simp_all)
  moreover have "pde (slots ?m) r va = pde ?E r va"
    using w [of "[?i4, ?i3]"] pd(1) same [OF tablesI [OF _ pd(1)]] by (simp add: pde_def del: walk.simps)
  ultimately have "extract_from r va ?m = extract_from r va (mem s)"
    using h T by (simp add: extract_resolve resolve_def huge_at_def)
  with run show ?thesis by blast
qed


section \<open>A small address space\<close>

definition sixteen_pages :: pmm_t where
  "sixteen_pages = pmm_add_block 0x100000 4 (pmm_init_orders MAX_BUDDY_ORDER pmm_zero)"

lemma blk_256_4_ok: "frames_ok (blk 256 4)"
proof -
  have "bit q 8" "\<forall>n \<ge> 52. \<not> bit q n" if "q \<in> blk 256 4" for q
    using that bit_exp_word [of 8, where 'a = 64] by (auto simp: blk_def)
  then show ?thesis
    using word_less_exp_iff_bits [of 52, where 'a = 64] by (fastforce simp: frames_ok_def)
qed

lemma sixteen_pages_pages: "buddy_pages sixteen_pages (blk 256 4)"
proof -
  have e: "buddy_inv (pmm_init_orders MAX_BUDDY_ORDER pmm_zero) (\<lambda>_. [])"
    by (rule empty_inv) (simp_all add: pmm_zero_def page_zero_def)
  have "(256 :: u64) = 2 ^ 8" by simp
  then have al: "aligned 256 4" by (simp only: aligned_def bit_exp_word) simp
  have "free_frames (\<lambda>_. []) = {}" by (simp add: free_frames_def free_blocks_def)
  then have "buddy_inv sixteen_pages ((\<lambda>_. [])(FreeHead 4 := [PageNode 256]))"
    "free_frames ((\<lambda>_. [])(FreeHead 4 := [PageNode 256])) = blk 256 4"
    using add_block_inv [OF e _ al _ _ refl] by (simp_all add: sixteen_pages_def pfn_to_phys_def)
  then show ?thesis using blk_256_4_ok by (auto simp: buddy_pages_def)
qed

definition vm_small :: kernel where
  \<comment> \<open>sixteen free pages at 1 MiB, and address spaces whose root table is the zero page at 2 MiB\<close>
  "vm_small = kernel_zero\<lparr>links := links sixteen_pages, free_count := free_count sixteen_pages,
     mem_map := mem_map sixteen_pages, free_pages := free_pages sixteen_pages,
     pmaps := (\<lambda>_. \<lparr>pm_root_virt = phys_to_virt 0x200000, pm_root_phys = 0x200000\<rparr>)\<rparr>"

lemma buddy_pages_cong:
  "links s' = links s \<Longrightarrow> free_count s' = free_count s \<Longrightarrow> mem_map s' = mem_map s \<Longrightarrow> free_pages s' = free_pages s \<Longrightarrow>
   buddy_pages s' F \<longleftrightarrow> buddy_pages s F"
  by (simp add: buddy_pages_def buddy_inv_def lists_ok_def)

lemma slots_zero: "slots (\<lambda>_. 0) = (\<lambda>_ _. 0)"
  by (auto simp: slots_def entry_def load64_def load_le_zero intro!: ext)

lemma tree_zero:
  assumes "page_aligned r"
  shows "tree (\<lambda>_ _. 0) r" "tables (\<lambda>_ _. 0) r = {r}"
proof -
  have w: "walk (\<lambda>_ _. 0) r p = (if p = [] then Some r else None)" for p by (cases p) (simp_all add: child_def)
  show "tree (\<lambda>_ _. 0) r" using assms by (simp add: tree_def w)
  show "tables (\<lambda>_ _. 0) r = {r}" by (auto simp: tables_def w)
qed

lemma blk_256_4: "q \<in> blk 256 4 \<Longrightarrow> q < 2 ^ 40 \<and> q \<noteq> 0x200"
proof -
  assume q: "q \<in> blk 256 4"
  have "\<not> bit q n" if "40 \<le> n" for n using q that bit_exp_word [of 8 n, where 'a = 64] by (simp add: blk_def)
  moreover have "bit q 8" using q bit_exp_word [of 8 8, where 'a = 64] by (simp add: blk_def)
  moreover have "\<not> bit (0x200 :: u64) 8" by (simp add: bit_simps)
  ultimately show ?thesis using word_less_exp_iff_bits [of 40 q] by auto
qed

lemma vm_small_ok: "vm_ok (phys_to_virt 0x200000) (blk 256 4) vm_small"
proof -
  have "buddy_pages vm_small (blk 256 4)"
    using sixteen_pages_pages buddy_pages_cong [of vm_small sixteen_pages] by (simp add: vm_small_def)
  moreover have al: "page_aligned (phys_to_virt 0x200000)" by (simp add: phys_to_virt_def page_aligned_def)
  moreover have "pfn_to_phys q \<noteq> 0x200000" if "q \<in> blk 256 4" for q
  proof
    assume "pfn_to_phys q = 0x200000"
    then have "phys_to_pfn (pfn_to_phys q) = 0x200" by (simp add: phys_to_pfn_def)
    moreover have "q < 2 ^ 52" using blk_256_4_ok that by (simp add: frames_ok_def)
    ultimately show False using blk_256_4 [OF that] phys_pfn_roundtrip by simp
  qed
  moreover have "mem vm_small = (\<lambda>_. 0)" by (simp add: vm_small_def kernel_zero_def)
  ultimately show ?thesis
    using blk_256_4 tree_zero [OF al] by (auto simp: vm_ok_def slots_zero phys_to_virt_inj)
qed

theorem pmap_map_translates_witness:
  "\<exists>s'. pmap_map 0x3000 0x400123 0x500000 16 (PROT_READ OR PROT_USER) vm_small = Some (0, s') \<and>
     pmap_extract 0x3000 0x400456 s' = 0x500456"
proof -
  have "pm_root_virt (pmaps vm_small 0x3000) = phys_to_virt 0x200000" by (simp add: vm_small_def)
  moreover have "\<not> huge_at (slots (mem vm_small)) r x" for r x
  proof -
    have "mem vm_small = (\<lambda>_. 0)" by (simp add: vm_small_def kernel_zero_def)
    then show ?thesis by (simp add: huge_at_def pde_def slots_zero child_def)
  qed
  moreover have "card (blk 256 4) = 16" by (simp add: card_blk)
  moreover have "(0x400000 :: u64) = 0x400123 AND NOT 0xFFF" "(0x401000 :: u64) = (0x400123 + 16 + 0xFFF) AND NOT 0xFFF" by simp_all
  ultimately show ?thesis
    using pmap_map_translates [of vm_small "0x3000" "blk 256 4" 16 "PROT_READ OR PROT_USER" "0x400123" "0x500000" "0x400000" "0x401000"]
      vm_small_ok by (auto split: if_splits)
qed

text \<open>An address space with one 2 MiB page, at \<open>0x400000\<close>, that maps the memory at \<open>0x600000\<close>.\<close>

definition huge_mem :: memory where
  "huge_mem = store64 (phys_to_virt 0x202000 + 8 * 2) 0x600081
     (store64 (phys_to_virt 0x201000 + 8 * 0) 0x202007 (store64 (phys_to_virt 0x200000 + 8 * 0) 0x201007 (\<lambda>_. 0)))"

lemma huge_mem_tree:
  "tree (slots huge_mem) (phys_to_virt 0x200000)" "phys_to_virt 0x600000 \<notin> tables (slots huge_mem) (phys_to_virt 0x200000)"
  "pde (slots huge_mem) (phys_to_virt 0x200000) 0x400000 = 0x600081"
proof -
  let ?r = "phys_to_virt 0x200000" and ?n1 = "phys_to_virt 0x201000" and ?n2 = "phys_to_virt 0x202000"
  let ?E0 = "\<lambda>_ _. 0 :: u64"
  let ?E1 = "put ?r 0 0x201007 (?E0(?n1 := \<lambda>_. 0))"
  let ?E2 = "put ?n1 0 0x202007 (?E1(?n2 := \<lambda>_. 0))"
  have al: "page_aligned ?r" "page_aligned ?n1" "page_aligned ?n2" by (simp_all add: phys_to_virt_def page_aligned_def)
  have ne: "?n1 \<noteq> ?r" "?n2 \<noteq> ?r" "?n2 \<noteq> ?n1" "phys_to_virt 0x600000 \<notin> {?r, ?n1, ?n2}" by (simp_all add: phys_to_virt_inj)
  have e: "table_of 0x201007 = ?n1" "is_present 0x201007" "\<not> is_huge 0x201007"
    "table_of 0x202007 = ?n2" "is_present 0x202007" "\<not> is_huge 0x202007" "is_present 0x600081" "is_huge 0x600081"
    by (simp_all add: table_of_def is_present_def is_huge_def)
  have ix: "PML4_INDEX 0x400000 = 0" "PDPT_INDEX 0x400000 = 0" "PD_INDEX 0x400000 = 2"
    by (simp_all add: PML4_INDEX_def PDPT_INDEX_def PD_INDEX_def)
  have T0: "tree ?E0 ?r" "tables ?E0 ?r = {?r}" by (rule tree_zero [OF al(1)])+
  have I1: "tree ?E1 ?r" "tables ?E1 ?r \<subseteq> insert ?n1 {?r}"
    using tree_insert [OF T0(1) walk.simps(1) _ _ _ e(1-3) refl, of 0] T0(2) ne(1) by (simp_all del: fun_upd_apply)
  have w1: "walk ?E1 ?r [0] = Some ?n1" using e ne by (simp add: child_def put_new)
  have I2: "tree ?E2 ?r" "tables ?E2 ?r \<subseteq> insert ?n2 (tables ?E1 ?r)"
    by (rule tree_insert [OF I1(1) w1 _ _ _ e(4-6) refl]; use I1(2) ne in \<open>auto simp: put_new\<close>)+
  have w2: "walk ?E2 ?r [0, 0] = Some ?n2" using e ne by (simp add: child_def put_new)
  have p2: "\<not> is_present (pde ?E2 ?r 0x400000)" using w2 ne ix by (simp add: pde_def put_new del: walk.simps)
  have E3: "slots huge_mem = put ?n2 2 0x600081 ?E2"
  proof -
    have "slots huge_mem = put ?n2 2 0x600081 (put ?n1 0 0x202007 (put ?r 0 0x201007 (slots (\<lambda>_. 0))))"
      unfolding huge_mem_def
      by (subst slots_store [OF al(3)], simp, subst slots_store [OF al(2)], simp, subst slots_store [OF al(1)], simp_all)
    then show ?thesis by (simp add: slots_zero put_def ne fun_eq_iff)
  qed
  have w2': "walk ?E2 ?r [PML4_INDEX 0x400000, PDPT_INDEX 0x400000] = Some ?n2" using w2 by (simp only: ix)
  have E3': "slots huge_mem = put ?n2 (PD_INDEX 0x400000) 0x600081 ?E2" using E3 by (simp only: ix)
  note H = huge_leaf [OF I2(1) w2' p2 e(7,8) E3']
  show "tree (slots huge_mem) ?r" by (rule H(1))
  have "tables (slots huge_mem) ?r \<subseteq> {?r, ?n1, ?n2}" using H(2) I1(2) I2(2) by auto
  then show "phys_to_virt 0x600000 \<notin> tables (slots huge_mem) ?r" using ne(4) by blast
  have "walk (slots huge_mem) ?r [0, 0] = Some ?n2" using e ne unfolding E3 by (simp add: child_def put_apply put_new)
  then show "pde (slots huge_mem) ?r 0x400000 = 0x600081" unfolding pde_def ix E3 by (simp add: put_apply del: walk.simps)
qed

theorem pmap_map_into_huge_page_witness:
  "\<exists>v. pmap_map_page (phys_to_virt 0x200000) 0x400000 0x500000 PROT_READ (vm_small\<lparr>mem := huge_mem\<rparr>) =
       (0, vm_small\<lparr>mem := store64 (phys_to_virt 0x600000) v huge_mem\<rparr>) \<and>
     extract_from (phys_to_virt 0x200000) 0x400000 (store64 (phys_to_virt 0x600000) v huge_mem) =
       extract_from (phys_to_virt 0x200000) 0x400000 huge_mem"
  using pmap_map_into_huge_page [of "vm_small\<lparr>mem := huge_mem\<rparr>" "phys_to_virt 0x200000" "0x400000" PROT_READ
      "phys_to_virt 0x600000" "0x500000"] huge_mem_tree
  by (simp add: huge_at_def is_present_def is_huge_def PT_INDEX_def)

end
