(* ===== verification/Grant.thy ===== *)
theory Grant
  imports Pmap
begin

text \<open>
  Frame grants, \<^verbatim>\<open>kernel/task/grant.c\<close>: which address space may map which physical frame. The
  grants of an address space are a list of entries, at most one per frame, hanging off its
  \<open>pmap_t\<close>; the root server's address space in addition owns every frame of the pool that nobody
  holds a grant for. \<open>None\<close> is a kernel that does not go on (heap assertion, broken list).
\<close>

section \<open>The pool bitmap\<close>

abbreviation (input) GRANT_READ :: u8 where "GRANT_READ \<equiv> 1"
abbreviation (input) GRANT_WRITE :: u8 where "GRANT_WRITE \<equiv> 2"
abbreviation (input) GRANT_GRANT :: u8 where "GRANT_GRANT \<equiv> 4"
abbreviation (input) sizeof_grant_entry :: u64 where "sizeof_grant_entry \<equiv> 32"

function alloc_order_from :: "nat \<Rightarrow> u64 \<Rightarrow> nat" where
  \<comment> \<open>\<open>while ((1ULL << order) < pages) order++;\<close> a shift of 64 or more, which C leaves undefined, ends it\<close>
  "alloc_order_from order pages =
     (if order < 64 \<and> push_bit order 1 < pages then alloc_order_from (Suc order) pages else order)"
  by pat_completeness auto
termination by (relation "measure (\<lambda>(order, pages). 64 - order)") auto

declare alloc_order_from.simps [simp del]

definition alloc_order :: "u64 \<Rightarrow> nat" where
  "alloc_order bytes = alloc_order_from 0 (drop_bit PAGE_SHIFT (bytes + PAGE_SIZE - 1))"

definition grant_set_root :: "u64 \<Rightarrow> kernel \<Rightarrow> kernel" where
  "grant_set_root pmap s = s\<lparr>g_root_pmap := pmap\<rparr>"

definition pool_mark :: "u64 \<Rightarrow> kernel \<Rightarrow> kernel" where
  \<comment> \<open>\<open>g_pool_v[pfn / 8] |= (uint8_t)(1 << (pfn % 8))\<close>\<close>
  "pool_mark pfn s =
     (let a = phys_to_virt (g_pool s) + pfn div 8
      in s\<lparr>mem := (mem s)(a := mem s a OR push_bit (unat (pfn mod 8)) 1)\<rparr>)"

definition grant_pool_build :: "mmap_entry_t list \<Rightarrow> kernel \<Rightarrow> int \<times> kernel" where
  "grant_pool_build mmap s =
     (let bytes = (g_frames s + 7) div 8;
          (m, s) = pmm_alloc_pages (int (alloc_order bytes)) s
      in if m = 0 then (- 1, s)
         else
           let s = s\<lparr>mem := memset (phys_to_virt m) 0 (push_bit (alloc_order bytes + PAGE_SHIFT) 1) (mem s)\<rparr>;
               s = s\<lparr>g_pool := m\<rparr>;
               s = for_range 0 (g_frames s) (\<lambda>pfn s. if pmm_frame_in_pool mmap pfn s then pool_mark pfn s else s) s
           in (0, s))"

definition grant_pool_test :: "u64 \<Rightarrow> kernel \<Rightarrow> bool" where
  "grant_pool_test pfn s =
     (if pfn \<ge> g_frames s then False
      else drop_bit (unat (pfn mod 8)) (mem s (phys_to_virt (g_pool s) + pfn div 8)) AND 1 \<noteq> 0)"

definition grant_pool_phys :: "kernel \<Rightarrow> u64" where "grant_pool_phys s = g_pool s"

definition grant_pool_bytes :: "kernel \<Rightarrow> u64" where "grant_pool_bytes s = (g_frames s + 7) div 8"

definition grant_frame_count :: "kernel \<Rightarrow> u64" where "grant_frame_count s = g_frames s"

section \<open>Grants\<close>

partial_function (option) grant_find :: "grant_node option \<Rightarrow> u64 \<Rightarrow> u64 \<Rightarrow> kernel \<Rightarrow> u64 option option" where
  \<comment> \<open>the loop \<open>for (n = head->next; n != head; n = n->next)\<close> with its test on \<open>pfn\<close>; the inner
    option is the entry found\<close>
  "grant_find n pmap pfn s =
     (if n = Some (GrantHead pmap) then Some None
      else case n of
        Some (GrantNode e) \<Rightarrow>
          if ge_pfn (grants s e) = pfn then Some (Some e)
          else grant_find (nxt (grantq s) (GrantNode e)) pmap pfn s
      | _ \<Rightarrow> None)"

definition grant_holds :: "u64 \<Rightarrow> u64 \<Rightarrow> u8 \<Rightarrow> kernel \<Rightarrow> bool option" where
  "grant_holds pmap pfn rights s =
     (if pmap = 0 \<or> pfn \<ge> g_frames s then Some False
      else if pmap = g_root_pmap s \<and> grant_pool_test pfn s \<and> g_refs s pfn = 0 then Some True
      else do {
        found \<leftarrow> grant_find (nxt (grantq s) (GrantHead pmap)) pmap pfn s;
        Some (case found of None \<Rightarrow> False
              | Some e \<Rightarrow> ge_rights (grants s e) AND rights = rights)})"

definition grant_add :: "u64 \<Rightarrow> u64 \<Rightarrow> u8 \<Rightarrow> kernel \<Rightarrow> (int \<times> kernel) option" where
  "grant_add pmap pfn rights s =
     (if pmap = 0 \<or> pfn \<ge> g_frames s then Some (- 1, s)
      else do {
        (e, s) \<leftarrow> kmalloc sizeof_grant_entry s;
        if e = 0 then Some (- 1, s)
        else do {
          let s = s\<lparr>grants := (grants s)(e := \<lparr>ge_pfn = pfn, ge_rights = rights\<rparr>)\<rparr>;
          found \<leftarrow> grant_find (nxt (grantq s) (GrantHead pmap)) pmap pfn s;
          case found of
            Some old \<Rightarrow> do {
              let s = s\<lparr>grants := (grants s)(old := (grants s old)\<lparr>ge_rights := ge_rights (grants s old) OR rights\<rparr>)\<rparr>;
              s \<leftarrow> kfree e s;
              Some (0, s)}
          | None \<Rightarrow>
              let s = s\<lparr>grantq := list_add_tail (GrantNode e) (GrantHead pmap) (grantq s)\<rparr>;
                  s = s\<lparr>g_refs := (g_refs s)(pfn := g_refs s pfn + 1)\<rparr>
              in Some (0, s)}})"

definition grant_drop :: "u64 \<Rightarrow> u64 \<Rightarrow> kernel \<Rightarrow> (int \<times> kernel) option" where
  "grant_drop pmap pfn s =
     (if pmap = 0 \<or> pfn \<ge> g_frames s then Some (- 1, s)
      else do {
        found \<leftarrow> grant_find (nxt (grantq s) (GrantHead pmap)) pmap pfn s;
        case found of
          Some e \<Rightarrow> do {
            let s = s\<lparr>grantq := list_del (GrantNode e) (grantq s)\<rparr>;
            s \<leftarrow> kfree e s;
            let s = (if g_refs s pfn \<noteq> 0 then s\<lparr>g_refs := (g_refs s)(pfn := g_refs s pfn - 1)\<rparr> else s);
            Some (0, s)}
        | None \<Rightarrow> Some (- 1, s)})"

definition grant_mapping_add :: "u64 \<Rightarrow> kernel \<Rightarrow> kernel" where
  "grant_mapping_add pfn s =
     (if pfn < g_frames s then s\<lparr>g_maps := (g_maps s)(pfn := g_maps s pfn + 1)\<rparr> else s)"

definition grant_mapping_remove :: "u64 \<Rightarrow> kernel \<Rightarrow> kernel" where
  "grant_mapping_remove pfn s =
     (if pfn < g_frames s \<and> g_maps s pfn \<noteq> 0 then s\<lparr>g_maps := (g_maps s)(pfn := g_maps s pfn - 1)\<rparr> else s)"

definition grant_init :: "mmap_info_t \<Rightarrow> kernel \<Rightarrow> (int \<times> kernel) option" where
  "grant_init memory s = do {
     let s = s\<lparr>g_frames := drop_bit PAGE_SHIFT (max_phys_addr memory) + 1\<rparr>;
     (refs, s) \<leftarrow> kmalloc (g_frames s * 2) s;
     if refs = 0 then Some (- 1, s)
     else do {
       (maps, s) \<leftarrow> kmalloc (g_frames s * 2) s;
       if maps = 0 then Some (- 1, s)
       else Some (0, s\<lparr>g_refs := (\<lambda>_. 0), g_maps := (\<lambda>_. 0)\<rparr>)}}"

end
