(* ===== verification/Grant_Spec.thy ===== *)
theory Grant_Spec
  imports Grant Pmap_Spec Ipc_Spec
begin

text \<open>
  What \<^verbatim>\<open>kernel/task/grant.c\<close> promises: the lists of grant entries are a table of rights per address
  space and frame (\<open>rights_of\<close>), the reference count of a frame counts the address spaces in that
  table (\<open>grants_inv\<close>), \<open>grant_holds\<close> reads the table and \<open>grant_add\<close> and \<open>grant_drop\<close> update it. The table has what was
  granted; the hold the root server has on the frames of the pool that nobody was granted is \<open>implicit\<close>, and
  \<open>grant_add_holds\<close> says what a grant does to both.
\<close>

section \<open>Grant lists as sequences\<close>

fun grant_lists :: "(u64 \<Rightarrow> u64 list) \<Rightarrow> grant_node \<Rightarrow> grant_node list" where
  "grant_lists G (GrantHead p) = map GrantNode (G p)"
| "grant_lists G (GrantNode e) = []"

definition grant_rep :: "kernel \<Rightarrow> u64 set \<Rightarrow> (u64 \<Rightarrow> u64 list) \<Rightarrow> bool" where
  "grant_rep s P G \<longleftrightarrow> dlists (grantq s) (GrantHead ` P) (grant_lists G) \<and>
     (\<forall>p \<in> P. distinct (map (\<lambda>e. ge_pfn (grants s e)) (G p)))"

definition rights_of :: "kernel \<Rightarrow> (u64 \<Rightarrow> u64 list) \<Rightarrow> u64 \<Rightarrow> u64 \<rightharpoonup> u8" where
  "rights_of s G p = map_of (map (\<lambda>e. (ge_pfn (grants s e), ge_rights (grants s e))) (G p))"

lemma grant_lists_upd: "(grant_lists G)(GrantHead p := map GrantNode xs) = grant_lists (G(p := xs))"
proof
  fix h show "((grant_lists G)(GrantHead p := map GrantNode xs)) h = grant_lists (G(p := xs)) h" by (cases h) auto
qed

lemma grant_find_seg:
  "seg (grantq s) a (map GrantNode es) (GrantHead p) \<Longrightarrow>
   grant_find (nxt (grantq s) a) p pfn s = Some (find (\<lambda>e. ge_pfn (grants s e) = pfn) es)"
  by (induction es arbitrary: a) (subst grant_find.simps, simp)+

lemma grant_find_spec:
  "grant_rep s P G \<Longrightarrow> p \<in> P \<Longrightarrow>
   grant_find (nxt (grantq s) (GrantHead p)) p pfn s = Some (find (\<lambda>e. ge_pfn (grants s e) = pfn) (G p))"
  by (rule grant_find_seg) (auto simp: grant_rep_def dlists_def dlist_def)

lemma find_rights_list:
  "map_of (map (\<lambda>e. (f e, g e)) es) x = map_option g (find (\<lambda>e. f e = x) es)"
  by (induction es) auto

lemma grant_holds_spec:
  assumes "grant_rep s P G" "p \<in> P" "p \<noteq> 0" "pfn < g_frames s"
  shows "grant_holds p pfn rights s = Some
    ((p = g_root_pmap s \<and> grant_pool_test pfn s \<and> g_refs s pfn = 0) \<or>
     (\<exists>r. rights_of s G p pfn = Some r \<and> r AND rights = rights))"
  using assms grant_find_spec [OF assms(1,2), of pfn]
  by (auto simp: grant_holds_def rights_of_def find_rights_list not_le split: option.splits)

lemma grant_not_found:
  "rights_of s G p pfn = None \<longleftrightarrow> find (\<lambda>e. ge_pfn (grants s e) = pfn) (G p) = None"
  by (simp add: rights_of_def find_rights_list)


section \<open>The invariant\<close>

definition holders :: "kernel \<Rightarrow> u64 set \<Rightarrow> (u64 \<Rightarrow> u64 list) \<Rightarrow> u64 \<Rightarrow> u64 set" where
  "holders s P G pfn = {p \<in> P. rights_of s G p pfn \<noteq> None}"

definition grants_inv :: "kernel \<Rightarrow> u64 set \<Rightarrow> (u64 \<Rightarrow> u64 list) \<Rightarrow> bool" where
  "grants_inv s P G \<longleftrightarrow> grant_rep s P G \<and> (\<forall>pfn. g_refs s pfn = of_nat (card (holders s P G pfn)))"

lemma rights_cong:
  "(\<And>e. e \<in> set (G p) \<Longrightarrow> grants s' e = grants s e) \<Longrightarrow> rights_of s' G p = rights_of s G p"
  by (simp add: rights_of_def cong: map_cong)

lemma grant_rep_cong:
  assumes "grant_rep s P G" "grantq s' = grantq s"
    "\<And>q e. q \<in> P \<Longrightarrow> e \<in> set (G q) \<Longrightarrow> ge_pfn (grants s' e) = ge_pfn (grants s e)"
  shows "grant_rep s' P G"
proof -
  have "map (\<lambda>e. ge_pfn (grants s' e)) (G q) = map (\<lambda>e. ge_pfn (grants s e)) (G q)" if "q \<in> P" for q
    using assms(3) [OF that] by (rule map_cong [OF refl])
  then show ?thesis using assms(1,2) unfolding grant_rep_def by metis
qed

lemma kernel_krest:
  assumes "krest s' = krest (s :: kernel)"
  shows "heap_t.more s' = heap_t.more s" "mem s' = mem s"
  using arg_cong [OF assms, of heap_t.more] arg_cong [OF assms, of mem] by (simp_all add: krest_def rest_def pmm_rest_def)

lemma holders_upd:
  assumes "finite P" "p \<in> P" "\<And>q x. q \<in> P \<Longrightarrow> (rights_of s' G' q x \<noteq> None) = (rights_of s G q x \<noteq> None \<or> q = p \<and> x = pfn)"
  shows "card (holders s' P G' x) = card (holders s P G x) + (if x = pfn \<and> rights_of s G p pfn = None then 1 else 0)"
proof -
  have "holders s' P G' x = (if x = pfn then insert p (holders s P G x) else holders s P G x)"
    using assms(2) assms(3) [of _ x] unfolding holders_def by (intro set_eqI) (simp only: mem_Collect_eq insert_iff split: if_splits, metis)
  moreover have "finite (holders s P G x)" using assms(1) by (simp add: holders_def)
  moreover have "p \<in> holders s P G pfn \<longleftrightarrow> rights_of s G p pfn \<noteq> None" using assms(2) by (simp add: holders_def)
  ultimately show ?thesis by (auto simp: insert_absorb)
qed

lemma grant_add_new:
  assumes inv: "grants_inv s P G" and p: "p \<in> P" "p \<noteq> 0" "pfn < g_frames s" and none: "rights_of s G p pfn = None"
    and k: "kmalloc sizeof_grant_entry s = Some (e, s1)" "e \<noteq> 0" and fresh: "\<And>q. q \<in> P \<Longrightarrow> e \<notin> set (G q)"
  shows "\<exists>s' G'. grant_add p pfn rights s = Some (0, s') \<and> grants_inv s' P G' \<and>
    (\<forall>q \<in> P. rights_of s' G' q = (if q = p then (rights_of s G p)(pfn \<mapsto> rights) else rights_of s G q))"
proof -
  note m = kernel_more [OF kernel_krest(1) [OF kmalloc_krest [OF k(1)]]]
  let ?g = "(grants s)(e := \<lparr>ge_pfn = pfn, ge_rights = rights\<rparr>)"
  let ?s2 = "s1\<lparr>grants := ?g\<rparr>"
  let ?s' = "?s2\<lparr>grantq := list_add_tail (GrantNode e) (GrantHead p) (grantq s), g_refs := (g_refs s)(pfn := g_refs s pfn + 1)\<rparr>"
  let ?G = "G(p := G p @ [e])"
  have rep: "grant_rep s P G" and fin: "finite P" using inv by (auto simp: grants_inv_def)
  have same: "rights_of t G q = rights_of s G q" if "q \<in> P" "grants t = ?g" for t q
    by (rule rights_cong) (use fresh [OF that(1)] that(2) in auto)
  have rep2: "grant_rep ?s2 P G" by (rule grant_rep_cong [OF rep]) (use fresh m in auto)
  have nf: "find (\<lambda>x. ge_pfn (?g x) = pfn) (G p) = None"
    using same [OF p(1), of ?s2] none grant_not_found [of ?s2 G p pfn] by simp
  have run: "grant_add p pfn rights s = Some (0, ?s')"
    using k p nf grant_find_spec [OF rep2 p(1), of pfn] m by (simp add: grant_add_def not_le)
  have rights: "rights_of ?s' ?G q = (if q = p then (rights_of s G p)(pfn \<mapsto> rights) else rights_of s G q)" if q: "q \<in> P" for q
  proof (cases "q = p")
    case True
    have "rights_of ?s' ?G p x = ((rights_of s G p)(pfn \<mapsto> rights)) x" for x
      using same [OF p(1), of ?s'] none by (auto simp: rights_of_def map_add_def split: option.splits)
    then show ?thesis using True by auto
  next
    case False
    then show ?thesis using same [OF q, of ?s'] by (simp add: rights_of_def)
  qed
  have "GrantNode e \<notin> members (GrantHead ` P) (grant_lists G)" using fresh by (auto simp: members_def)
  then have "dlists (grantq ?s') (GrantHead ` P) (grant_lists ?G)"
    using lists.rep_add_last [of "grantq s" "GrantHead ` P" "grant_lists G" "GrantHead p" "GrantNode e"] rep p
      grant_lists_upd [of G p "G p @ [e]"] by (auto simp: grant_rep_def)
  moreover have "distinct (map (\<lambda>x. ge_pfn (grants ?s' x)) (?G q))" if "q \<in> P" for q
    using rep2 that nf fresh [OF that] by (auto simp: grant_rep_def find_None_iff)
  ultimately have "grant_rep ?s' P ?G" by (simp add: grant_rep_def)
  moreover have "g_refs ?s' x = of_nat (card (holders ?s' P ?G x))" for x
  proof -
    have "card (holders ?s' P ?G x) = card (holders s P G x) + (if x = pfn \<and> rights_of s G p pfn = None then 1 else 0)"
      by (rule holders_upd [OF fin p(1)]) (use rights in auto)
    then show ?thesis using inv none by (auto simp: grants_inv_def)
  qed
  ultimately have "grants_inv ?s' P ?G" using fin by (simp add: grants_inv_def)
  then show ?thesis using run rights by blast
qed


lemma find_Some_unique:
  assumes "find P xs = Some y"
  shows "y \<in> set xs" "P y"
  using assms by (induction xs) (auto split: if_splits)

lemma find_of_distinct:
  assumes "distinct (map f xs)" "y \<in> set xs"
  shows "find (\<lambda>x. f x = f y) xs = Some y"
  using assms by (induction xs) auto

lemma grant_lists_disjoint:
  assumes "grant_rep s P G" "p \<in> P" "q \<in> P" "q \<noteq> p"
  shows "set (G q) \<inter> set (G p) = {}"
proof -
  have "dlists (grantq s) (GrantHead ` P) (grant_lists G)" using assms by (simp add: grant_rep_def)
  note d = lists.rep_disjoint [OF this, of "GrantHead q" "GrantHead p"]
  show ?thesis using d assms by auto
qed

lemma grant_add_again:
  assumes inv: "grants_inv s P G" and p: "p \<in> P" "p \<noteq> 0" "pfn < g_frames s" and some: "rights_of s G p pfn = Some r"
    and k: "kmalloc sizeof_grant_entry s = Some (e, s1)" "e \<noteq> 0" and fresh: "\<And>q. q \<in> P \<Longrightarrow> e \<notin> set (G q)"
    and ok: "\<And>g. kfree e (s1\<lparr>grants := g\<rparr>) \<noteq> None"
  shows "\<exists>s'. grant_add p pfn rights s = Some (0, s') \<and> grants_inv s' P G \<and>
    (\<forall>q \<in> P. rights_of s' G q = (if q = p then (rights_of s G p)(pfn \<mapsto> r OR rights) else rights_of s G q))"
proof -
  note m = kernel_more [OF kernel_krest(1) [OF kmalloc_krest [OF k(1)]]]
  let ?g = "(grants s)(e := \<lparr>ge_pfn = pfn, ge_rights = rights\<rparr>)"
  let ?s2 = "s1\<lparr>grants := ?g\<rparr>"
  have rep: "grant_rep s P G" using inv by (simp add: grants_inv_def)
  have rep2: "grant_rep ?s2 P G" by (rule grant_rep_cong [OF rep]) (use fresh m in auto)
  obtain old where old: "find (\<lambda>x. ge_pfn (grants s x) = pfn) (G p) = Some old" "ge_rights (grants s old) = r"
    using some by (auto simp: rights_of_def find_rights_list)
  note o = find_Some_unique [OF old(1)]
  have oe: "old \<noteq> e" using o(1) fresh [OF p(1)] by auto
  have d: "distinct (map (\<lambda>x. ge_pfn (?g x)) (G p))" using rep2 p(1) by (simp add: grant_rep_def)
  have f2: "find (\<lambda>x. ge_pfn (?g x) = pfn) (G p) = Some old"
    using find_of_distinct [OF d o(1)] o(2) oe by simp
  let ?g' = "?g(old := (?g old)\<lparr>ge_rights := r OR rights\<rparr>)"
  obtain s' where s': "kfree e (s1\<lparr>grants := ?g'\<rparr>) = Some s'" using ok by blast
  note m' = kernel_more [OF kernel_krest(1) [OF kfree_krest [OF s']]]
  have run: "grant_add p pfn rights s = Some (0, s')"
    using k p f2 grant_find_spec [OF rep2 p(1), of pfn] s' old oe m(14) by (simp add: grant_add_def not_le Let_def)
  have g': "grants s' x = (if x = old then (grants s old)\<lparr>ge_rights := r OR rights\<rparr> else grants s x)" if "x \<noteq> e" for x
    using m' oe that by simp
  have rep': "grant_rep s' P G"
    by (rule grant_rep_cong [OF rep]) (use m m' fresh g' in auto)
  have rights: "rights_of s' G q = (if q = p then (rights_of s G p)(pfn \<mapsto> r OR rights) else rights_of s G q)" if q: "q \<in> P" for q
  proof (cases "q = p")
    case True
    have e1: "find (\<lambda>x. ge_pfn (grants s' x) = y) (G p) = find (\<lambda>x. ge_pfn (grants s x) = y) (G p)" for y
    proof (rule find_cong [OF refl])
      fix x assume "x \<in> set (G p)"
      then have "x \<noteq> e" using fresh [OF p(1)] by auto
      then show "(ge_pfn (grants s' x) = y) = (ge_pfn (grants s x) = y)" using g' [of x] by simp
    qed
    have "rights_of s' G p y = ((rights_of s G p)(pfn \<mapsto> r OR rights)) y" for y
    proof (cases "find (\<lambda>x. ge_pfn (grants s x) = y) (G p)")
      case None
      then show ?thesis using e1 [of y] old by (auto simp: rights_of_def find_rights_list)
    next
      case (Some x)
      note x = find_Some_unique [OF Some]
      have xo: "x = old \<longleftrightarrow> y = pfn"
      proof
        show "x = old \<Longrightarrow> y = pfn" using x(2) o(2) by simp
        show "y = pfn \<Longrightarrow> x = old" using Some old(1) by simp
      qed
      have "x \<noteq> e" using x(1) fresh [OF p(1)] by auto
      then have "ge_rights (grants s' x) = (if y = pfn then r OR rights else ge_rights (grants s x))"
        using g' [of x] xo by simp
      then show ?thesis using Some e1 [of y] by (simp add: rights_of_def find_rights_list)
    qed
    then show ?thesis using True by auto
  next
    case False
    have "old \<notin> set (G q)" using grant_lists_disjoint [OF rep p(1) q False] o(1) by auto
    then have same: "grants s' x = grants s x" if "x \<in> set (G q)" for x
      using g' [of x] that fresh [OF q] by (cases "x = e"; cases "x = old") auto
    have "rights_of s' G q = rights_of s G q"
      by (intro rights_cong) (auto simp: same)
    then show ?thesis using False by simp
  qed
  have "holders s' P G x = holders s P G x" for x
    unfolding holders_def using rights some by (auto simp del: not_None_eq split: if_splits)
  then have "grants_inv s' P G" using inv rep' m m' by (simp add: grants_inv_def)
  then show ?thesis using run rights by blast
qed

lemma grant_drop_held:
  assumes inv: "grants_inv s P G" and p: "p \<in> P" "p \<noteq> 0" "pfn < g_frames s" and some: "rights_of s G p pfn = Some r"
    and few: "card (holders s P G pfn) < 2 ^ 16"
    and ok: "\<And>e q. e \<in> set (G p) \<Longrightarrow> kfree e (s\<lparr>grantq := q\<rparr>) \<noteq> None"
  shows "\<exists>s' G'. grant_drop p pfn s = Some (0, s') \<and> grants_inv s' P G' \<and>
    (\<forall>q \<in> P. rights_of s' G' q = (if q = p then (rights_of s G p)(pfn := None) else rights_of s G q))"
proof -
  have rep: "grant_rep s P G" using inv by (simp add: grants_inv_def)
  obtain e where e: "find (\<lambda>x. ge_pfn (grants s x) = pfn) (G p) = Some e"
    using some by (auto simp: rights_of_def find_rights_list)
  note x = find_Some_unique [OF e]
  obtain s1 where s1: "kfree e (s\<lparr>grantq := list_del (GrantNode e) (grantq s)\<rparr>) = Some s1" using ok [OF x(1)] by blast
  note m = kernel_more [OF kernel_krest(1) [OF kfree_krest [OF s1]]]
  have held: "p \<in> holders s P G pfn" using p(1) some by (simp add: holders_def)
  then have "0 < card (holders s P G pfn)" by (auto simp: card_gt_0_iff)
  then have "unat (g_refs s pfn) = card (holders s P G pfn)"
    using inv few by (simp add: grants_inv_def unat_of_nat take_bit_nat_eq_self)
  then have nz: "g_refs s pfn \<noteq> 0" using \<open>0 < card (holders s P G pfn)\<close> by auto
  let ?s' = "s1\<lparr>g_refs := (g_refs s)(pfn := g_refs s pfn - 1)\<rparr>" and ?G = "G(p := remove1 e (G p))"
  have run: "grant_drop p pfn s = Some (0, ?s')"
    using p e s1 nz m grant_find_spec [OF rep p(1), of pfn] by (simp add: grant_drop_def not_le)
  have d: "distinct (map (\<lambda>x. ge_pfn (grants s x)) (G p))" using rep p(1) by (simp add: grant_rep_def)
  then have dd: "distinct (G p)" by (simp add: distinct_map)
  have L: "dlists (list_del (GrantNode e) (grantq s)) (GrantHead ` P) (grant_lists ?G)"
    using lists.rep_unlink [of "grantq s" "GrantHead ` P" "grant_lists G" "GrantHead p" "GrantNode e"] rep p(1) x(1)
      grant_lists_upd [of G p "remove1 e (G p)"] remove1_map [of GrantNode e "G p"]
    by (auto simp: grant_rep_def inj_def)
  have "distinct (map (\<lambda>x. ge_pfn (grants s x)) (remove1 e (G p)))"
    using d dd by (auto simp: distinct_map intro: inj_on_subset)
  then have rep': "grant_rep ?s' P ?G"
    using rep L m by (auto simp: grant_rep_def)
  have rights: "rights_of ?s' ?G q = (if q = p then (rights_of s G p)(pfn := None) else rights_of s G q)" if q: "q \<in> P" for q
  proof (cases "q = p")
    case True
    have "rights_of ?s' ?G p y = ((rights_of s G p)(pfn := None)) y" for y
    proof (cases "y = pfn")
      case True
      have "ge_pfn (grants s z) \<noteq> pfn" if "z \<in> set (remove1 e (G p))" for z
        using that dd d x by (auto simp: distinct_map inj_on_def)
      then show ?thesis using True m by (auto simp: rights_of_def find_rights_list find_None_iff)
    next
      case False
      have "find (\<lambda>z. ge_pfn (grants s z) = y) (remove1 e xs) = find (\<lambda>z. ge_pfn (grants s z) = y) xs" for xs
        using x(2) False by (induction xs) auto
      then show ?thesis using False m by (simp add: rights_of_def find_rights_list)
    qed
    then show ?thesis using True by auto
  next
    case False
    then show ?thesis using m by (simp add: rights_of_def)
  qed
  have "g_refs ?s' y = of_nat (card (holders ?s' P ?G y))" for y
  proof -
    have "holders ?s' P ?G y = (if y = pfn then holders s P G y - {p} else holders s P G y)"
      unfolding holders_def using rights by (auto split: if_splits)
    moreover have "card (holders s P G pfn) = Suc (card (holders s P G pfn - {p}))"
      using held by (metis card_Suc_Diff1 finite)
    ultimately show ?thesis using inv by (auto simp: grants_inv_def)
  qed
  then have "grants_inv ?s' P ?G" using rep' by (simp add: grants_inv_def)
  then show ?thesis using run rights by blast
qed

lemma grant_drop_none:
  assumes "grant_rep s P G" "p \<in> P" "rights_of s G p pfn = None"
  shows "grant_drop p pfn s = Some (- 1, s)"
  using assms grant_find_spec [OF assms(1,2), of pfn] grant_not_found [of s G p pfn] by (simp add: grant_drop_def)

section \<open>The operations as updates of a table of rights\<close>

lemma grant_add_rights:
  assumes "grants_inv s P G" "p \<in> P" "p \<noteq> 0" "pfn < g_frames s"
    and "kmalloc sizeof_grant_entry s = Some (e, s1)" "e \<noteq> 0" "\<And>q. q \<in> P \<Longrightarrow> e \<notin> set (G q)"
    and "\<And>g. rights_of s G p pfn \<noteq> None \<Longrightarrow> kfree e (s1\<lparr>grants := g\<rparr>) \<noteq> None"
  shows "\<exists>s' G'. grant_add p pfn rights s = Some (0, s') \<and> grants_inv s' P G' \<and>
    (\<forall>q \<in> P. rights_of s' G' q = (if q = p
       then (rights_of s G p)(pfn \<mapsto> (case rights_of s G p pfn of None \<Rightarrow> rights | Some r \<Rightarrow> r OR rights))
       else rights_of s G q))"
proof (cases "rights_of s G p pfn")
  case None
  from grant_add_new [OF assms(1-4) None assms(5-7), of rights] show ?thesis
    unfolding None option.case by blast
next
  case (Some r)
  have "rights_of s G p pfn \<noteq> None" using Some by simp
  from grant_add_again [OF assms(1-4) Some assms(5-7) assms(8) [OF this], of rights] show ?thesis
    unfolding Some option.case by blast
qed

lemma grant_add_frame:
  assumes "grant_add p pfn r s = Some (x, s')"
  shows "mem s' = mem s" "g_frames s' = g_frames s" "g_root_pmap s' = g_root_pmap s" "g_pool s' = g_pool s"
proof -
  have k: "mem t' = mem t \<and> g_frames t' = g_frames t \<and> g_root_pmap t' = g_root_pmap t \<and> g_pool t' = g_pool t"
    if "krest t' = krest (t :: kernel)" for t t'
    using kernel_krest [OF that] kernel_more(15,16,19) by blast
  have "mem s' = mem s \<and> g_frames s' = g_frames s \<and> g_root_pmap s' = g_root_pmap s \<and> g_pool s' = g_pool s"
    using assms by (auto simp: grant_add_def Let_def split: if_splits Option.bind_splits option.splits
        dest!: kmalloc_krest [THEN k] kfree_krest [THEN k])
  then show "mem s' = mem s" "g_frames s' = g_frames s" "g_root_pmap s' = g_root_pmap s" "g_pool s' = g_pool s" by auto
qed

text \<open>
  What an address space may do with a frame as \<open>grant_holds\<close> sees it, which lets the root hold the frames of the pool that nobody has
  been granted: after \<open>grant_add\<close> the frame is not one of these any more.
\<close>

definition implicit :: "u64 \<Rightarrow> u64 \<Rightarrow> kernel \<Rightarrow> bool" where
  "implicit p pfn s \<longleftrightarrow> p = g_root_pmap s \<and> grant_pool_test pfn s \<and> g_refs s pfn = 0"

lemma holders_none:
  assumes "grants_inv s P G" "card (holders s P G pfn) < 2 ^ 16" "g_refs s pfn = 0" "q \<in> P"
  shows "rights_of s G q pfn = None"
proof -
  have "(of_nat (card (holders s P G pfn)) :: u16) = 0" using assms(1,3) by (simp add: grants_inv_def)
  then have "(2 :: nat) ^ 16 dvd card (holders s P G pfn)" by (simp add: word_of_nat_eq_0_iff)
  then have "card (holders s P G pfn) = 0" using assms(2) nat_dvd_not_less by blast
  then have "holders s P G pfn = {}" by simp
  then show ?thesis using assms(4) by (auto simp: holders_def)
qed

lemma grant_add_holds:
  assumes inv: "grants_inv s P G" "grants_inv s' P G'" and run: "grant_add t pfn r s = Some (0, s')" and t: "t \<in> P"
    and rights: "\<forall>q \<in> P. rights_of s' G' q = (if q = t then (rights_of s G t)(pfn \<mapsto> r') else rights_of s G q)"
    and few: "card (holders s P G pfn) + 1 < 2 ^ 16" and q: "q \<in> P"
  shows "grant_holds q x w s' =
    (if x = pfn \<and> q = t then Some (r' AND w = w)
     else if x = pfn \<and> implicit q pfn s then Some False
     else grant_holds q x w s)"
proof -
  note f = grant_add_frame [OF run]
  have tp: "t \<noteq> 0" "pfn < g_frames s" using run by (auto simp: grant_add_def not_le split: if_splits)
  show ?thesis
  proof (cases "q = 0 \<or> g_frames s \<le> x")
    case True
    then show ?thesis using tp f(2) by (auto simp: grant_holds_def)
  next
    case False
    then have a: "q \<noteq> 0" "x < g_frames s" "x < g_frames s'" using f(2) by auto
    have pool: "grant_pool_test y s' = grant_pool_test y s" for y using f by (simp add: grant_pool_test_def)
    have rep: "grant_rep s P G" "grant_rep s' P G'" and refs: "\<And>y. g_refs s y = of_nat (card (holders s P G y))" "\<And>y. g_refs s' y = of_nat (card (holders s' P G' y))"
      using inv by (simp_all add: grants_inv_def)
    have holds: "holders s' P G' y = (if y = pfn then insert t (holders s P G y) else holders s P G y)" for y
      unfolding holders_def using rights t by (auto split: if_splits)
    have "0 < card (holders s' P G' pfn)" "card (holders s' P G' pfn) < 2 ^ 16"
      using few card_insert_le_m1 [of "card (holders s P G pfn) + 1" "holders s P G pfn" t] by (auto simp: holds card_gt_0_iff)
    then have nz: "g_refs s' pfn \<noteq> 0" unfolding refs(2) word_of_nat_eq_0_iff by (simp add: nat_dvd_not_less)
    have same: "g_refs s' y = g_refs s y" if "y \<noteq> pfn" for y using that by (simp add: refs holds)
    note h = grant_holds_spec [OF rep(1) q a(1,2), of w] grant_holds_spec [OF rep(2) q a(1,3), of w]
    consider "x \<noteq> pfn" | "x = pfn" "q = t" | "x = pfn" "q \<noteq> t" "implicit q pfn s" | "x = pfn" "q \<noteq> t" "\<not> implicit q pfn s" by blast
    then show ?thesis
    proof cases
      case 1
      then have "rights_of s' G' q x = rights_of s G q x" using rights q by auto
      then show ?thesis using 1 h same [OF 1] pool f(3) by simp
    next
      case 2
      then show ?thesis using h(2) nz rights q by simp
    next
      case 3
      then have "rights_of s G q pfn = None" using holders_none [OF inv(1) _ _ q] few by (simp add: implicit_def)
      then show ?thesis using 3 h(2) nz rights q by simp
    next
      case 4
      then show ?thesis using h nz rights q by (auto simp: implicit_def)
    qed
  qed
qed

text \<open>C6: seen as a table of rights per address space and frame, \<open>grant_add\<close> gives the address space
  the union of the rights it held for the frame and the new ones, changes no other entry of the
  table, and keeps the invariant: every list holds at most one entry per frame, and the reference
  count of every frame is the number of address spaces that hold it (modulo \<open>2 ^ 16\<close>). The heap
  must deliver a block that is not an entry already and, when the entry is merged, take it back.\<close>

theorem grant_add_spec:
  assumes "grants_inv s P G" "p \<in> P" "p \<noteq> 0" "pfn < g_frames s"
    and "kmalloc sizeof_grant_entry s = Some (e, s1)" "e \<noteq> 0" "\<And>q. q \<in> P \<Longrightarrow> e \<notin> set (G q)"
    and "\<And>g. rights_of s G p pfn \<noteq> None \<Longrightarrow> kfree e (s1\<lparr>grants := g\<rparr>) \<noteq> None"
  shows "\<exists>s' G'. grant_add p pfn rights s = Some (0, s') \<and> grants_inv s' P G' \<and>
    (\<forall>q \<in> P. rights_of s' G' q = (if q = p
       then (rights_of s G p)(pfn \<mapsto> (case rights_of s G p pfn of None \<Rightarrow> rights | Some r \<Rightarrow> r OR rights))
       else rights_of s G q))"
  by (rule grant_add_rights [OF assms])

text \<open>C12: \<open>grant_drop\<close> takes the frame out of the address space's rights, whatever they were, changes
  no other entry of the table and keeps the invariant; it fails, changing nothing, exactly when the
  address space holds no grant of the frame. Fewer than \<open>2 ^ 16\<close> address spaces hold the frame.\<close>

theorem grant_drop_spec:
  assumes "grants_inv s P G" "p \<in> P" "p \<noteq> 0" "pfn < g_frames s" "card (holders s P G pfn) < 2 ^ 16"
    and "\<And>e q. e \<in> set (G p) \<Longrightarrow> kfree e (s\<lparr>grantq := q\<rparr>) \<noteq> None"
  shows "\<exists>s' G'. grant_drop p pfn s = Some (if rights_of s G p pfn = None then - 1 else 0, s') \<and>
    grants_inv s' P G' \<and>
    (\<forall>q \<in> P. rights_of s' G' q = (if q = p then (rights_of s G p)(pfn := None) else rights_of s G q))"
proof (cases "rights_of s G p pfn")
  case None
  then show ?thesis using grant_drop_none [of s P G p pfn] assms(1,2)
    by (intro exI [of _ s] exI [of _ G]) (auto simp: grants_inv_def fun_upd_idem)
next
  case (Some r)
  then show ?thesis using grant_drop_held [OF assms(1-4) Some assms(5,6)] by simp
qed

definition grants_1 :: kernel where
  \<comment> \<open>one address space, at \<open>0x5000\<close>, without grants, and 16 frames\<close>
  "grants_1 = heap_4k\<lparr>g_frames := 16, grantq := \<lparr>nxt = [GrantHead 0x5000 \<mapsto> GrantHead 0x5000],
     prv = [GrantHead 0x5000 \<mapsto> GrantHead 0x5000], fault = False\<rparr>\<rparr>"

definition grants_2 :: kernel where
  \<comment> \<open>the same with one grant, in a block of the heap of another CPU\<close>
  "grants_2 = grants_1\<lparr>grants := (grants heap_4k)(0x20010 := \<lparr>ge_pfn = 7, ge_rights = GRANT_READ\<rparr>), g_refs := (\<lambda>_. 0)(7 := 1),
     grantq := \<lparr>nxt = [GrantHead 0x5000 \<mapsto> GrantNode 0x20010, GrantNode 0x20010 \<mapsto> GrantHead 0x5000],
       prv = [GrantHead 0x5000 \<mapsto> GrantNode 0x20010, GrantNode 0x20010 \<mapsto> GrantHead 0x5000], fault = False\<rparr>,
     mem_map := (\<lambda>_. \<lparr>is_free = False, owner_cpu_id = 1\<rparr>)\<rparr>"

lemma grants_1_inv: "grants_inv grants_1 {0x5000} (\<lambda>_. [])"
  by (simp add: grants_inv_def grant_rep_def holders_def rights_of_def grants_1_def heap_4k_def kernel_zero_def
      dlists_def dlist_def)

lemma grants_2_rights: "rights_of grants_2 (\<lambda>_. [0x20010]) p = [7 \<mapsto> GRANT_READ]"
  by (simp add: rights_of_def grants_2_def)

lemma grants_2_inv: "grants_inv grants_2 {0x5000} (\<lambda>_. [0x20010])"
proof -
  have "holders grants_2 {0x5000} (\<lambda>_. [0x20010]) x = (if x = 7 then {0x5000} else {})" for x
    by (auto simp: holders_def grants_2_rights)
  then show ?thesis
    by (simp add: grants_inv_def grant_rep_def) (simp add: grants_2_def dlists_def dlist_def)
qed

theorem grant_add_spec_witness:
  "\<exists>s' G'. grant_add 0x5000 7 GRANT_READ grants_1 = Some (0, s') \<and> grants_inv s' {0x5000} G' \<and>
     rights_of s' G' 0x5000 = [7 \<mapsto> GRANT_READ]"
proof -
  have "map_option fst (kmalloc sizeof_grant_entry grants_1) = Some 0x20010" by code_simp
  then obtain s1 where "kmalloc sizeof_grant_entry grants_1 = Some (0x20010, s1)" by auto
  from grant_add_spec [OF grants_1_inv _ _ _ this, of "0x5000" 7 GRANT_READ] show ?thesis
    by (simp add: rights_of_def [of grants_1]) (simp add: grants_1_def)
qed

theorem grant_drop_spec_witness:
  "\<exists>s' G'. grant_drop 0x5000 7 grants_2 = Some (0, s') \<and> grants_inv s' {0x5000} G' \<and>
     rights_of s' G' 0x5000 = Map.empty"
proof -
  have "kfree 0x20010 (grants_2\<lparr>grantq := q\<rparr>) \<noteq> None" for q
    by (simp add: kfree_def grants_2_def grants_1_def heap_4k_def kernel_zero_def owner_of_def Let_def)
  moreover have "holders grants_2 {0x5000} (\<lambda>_. [0x20010]) 7 = {0x5000}"
    by (auto simp: holders_def grants_2_rights)
  moreover have "7 < g_frames grants_2" by (simp add: grants_2_def grants_1_def)
  ultimately show ?thesis
    using grant_drop_spec [OF grants_2_inv, of "0x5000" 7] by (simp add: grants_2_rights)
qed

end
