(* ===== verification/Thread.thy ===== *)
theory Thread
  imports Ipc Pmap
begin

text \<open>
  The thread table of \<^verbatim>\<open>kernel/task/thread.c\<close> and thread creation of
  \<^verbatim>\<open>kernel/arch/x86_64/thread.c\<close>. The table is an array of pointers found under
  \<open>g_threads_ptr\<close>, its elements are the list \<open>g_threads\<close> (so that \<open>g_threads_cap\<close> is its length).
  Of the initial kernel stack only the trap frame and the saved stack pointer are modelled.
\<close>

section \<open>The thread table\<close>

partial_function (option) grow_cap :: "u64 \<Rightarrow> u64 \<Rightarrow> u64 option" where
  \<comment> \<open>\<open>while (new_cap <= need) new_cap *= 2;\<close>\<close>
  "grow_cap new_cap need = (if new_cap \<le> need then grow_cap (new_cap * 2) need else Some new_cap)"

definition thread_reg_grow :: "u64 \<Rightarrow> kernel \<Rightarrow> (int \<times> kernel) option" where
  "thread_reg_grow need s = do {
     let cap = of_nat (length (g_threads s));
     new_cap \<leftarrow> grow_cap (if cap \<noteq> 0 then cap * 2 else 16) need;
     (new_arr, s) \<leftarrow> krealloc (g_threads_ptr s) (8 * new_cap) s;
     if new_arr = 0 then Some (- 1, s)
     else Some (0, s\<lparr>g_threads_ptr := new_arr,
                    g_threads := g_threads s @ replicate (unat (new_cap - cap)) 0\<rparr>)}"

definition thread_alloc_tid :: "kernel \<Rightarrow> u32 \<times> kernel" where
  "thread_alloc_tid s = (g_next_tid s, s\<lparr>g_next_tid := g_next_tid s + 1\<rparr>)"

definition thread_register :: "u64 \<Rightarrow> kernel \<Rightarrow> (int \<times> kernel) option" where
  "thread_register t s = do {
     let n = tid (threads s t);
     (err, s) \<leftarrow> (if unat n \<ge> length (g_threads s) then thread_reg_grow n s else Some (0, s));
     if err \<noteq> 0 then Some (- 1, s)
     else Some (0, s\<lparr>g_threads := (g_threads s)[unat n := t]\<rparr>)}"

definition thread_destroy :: "u64 \<Rightarrow> kernel \<Rightarrow> kernel" where
  "thread_destroy t s =
     (if t = 0 then s
      else let n = tid (threads s t)
           in if unat n < length (g_threads s) then s\<lparr>g_threads := (g_threads s)[unat n := 0]\<rparr> else s)"

section \<open>Creating threads\<close>

abbreviation (input) sizeof_thread :: u64 where "sizeof_thread \<equiv> 16664"
abbreviation (input) sizeof_trapframe :: u64 where "sizeof_trapframe \<equiv> 176"

definition tf_address :: "u64 \<Rightarrow> u64" where
  "tf_address t = t + 0x98 + THREAD_KSTACK_SIZE - sizeof_trapframe"

definition user_frame :: "u64 \<Rightarrow> trapframe" where
  \<comment> \<open>the trap frame that enters user mode at \<open>entry\<close>\<close>
  "user_frame ent = tf_zero\<lparr>rip := ent, rdi := 0, rsp := USER_STACK_TOP, cs := 0x23, ss := 0x1B, rflags := 0x202\<rparr>"

definition thread_create_child :: "u64 \<Rightarrow> u64 \<Rightarrow> kernel \<Rightarrow> (u64 \<times> kernel) option" where
  \<comment> \<open>a failed allocation of the extended state area is not checked: the store through the null
    pointer is \<open>None\<close>\<close>
  "thread_create_child pmap ent s = do {
     (t, s) \<leftarrow> kmalloc_aligned sizeof_thread 16 s;
     if t = 0 then Some (0, s)
     else do {
       let s = upd_thread t (\<lambda>_. thread_zero) s;
       let s = s\<lparr>futexq := set_prv (Some (FutexNode t)) None (set_nxt (Some (FutexNode t)) None (futexq s))\<rparr>;
       let s = s\<lparr>runq := list_init (SchedNode t) (runq s)\<rparr>;
       let s = s\<lparr>ipcq := list_init (EpHead t) (list_init (IpcWaitNode t) (list_init (IpcNode t) (ipcq s)))\<rparr>;
       let (n, s) = thread_alloc_tid s;
       let s = upd_thread t (\<lambda>th. th\<lparr>t_pmap := pmap, tf := user_frame ent, tid := ucast n, pid := 0,
                 state := THREAD_CREATED, cpu_affinity := 0, total_cpu_time := 0, time_quantum_left := 0,
                 pager_tid := 0, arch_rsp := tf_address t - 7 * 8\<rparr>) s;
       (area, s) \<leftarrow> kmalloc_aligned (ucast (xsave_size s)) 64 s;
       if area = 0 then None
       else do {
         let s = upd_thread t (\<lambda>th. th\<lparr>xsaves_area := area\<rparr>) s;
         let s = s\<lparr>mem := memset area 0 (ucast (xsave_size s)) (mem s)\<rparr>;
         let s = s\<lparr>mem := store64 (area + 520) 0x8000000000000000 (mem s)\<rparr>;
         (err, s) \<leftarrow> thread_register t s;
         if err \<noteq> 0 then do {
           s \<leftarrow> kfree_aligned (xsaves_area (threads s t)) s;
           s \<leftarrow> kfree_aligned t s;
           Some (0, s)}
         else Some (t, s)}}}"

definition thread_create :: "u64 \<Rightarrow> u64 \<Rightarrow> u64 \<Rightarrow> u32 \<Rightarrow> kernel \<Rightarrow> (u64 \<times> kernel) option" where
  "thread_create pmap ent arg affinity s = do {
     (t, s) \<leftarrow> thread_create_child pmap ent s;
     if t = 0 then Some (0, s)
     else do {
       let (stack, s) = pmm_alloc_pages 3 s;
       if stack = 0 then do {
         s \<leftarrow> kfree_aligned (xsaves_area (threads s t)) s;
         s \<leftarrow> kfree_aligned t s;
         Some (0, s)}
       else do {
         (status, s) \<leftarrow> pmap_map (t_pmap (threads s t)) (USER_STACK_TOP - 32 * 1024) stack (32 * 1024)
                          (PROT_READ OR PROT_WRITE OR PROT_USER) s;
         if status \<noteq> 0 then do {
           let s = pmm_free_pages stack 3 s;
           s \<leftarrow> kfree_aligned (xsaves_area (threads s t)) s;
           s \<leftarrow> kfree_aligned t s;
           Some (0, s)}
         else do {
           let s = upd_thread t (\<lambda>th. th\<lparr>tf := (tf th)\<lparr>rdi := arg\<rparr>, cpu_affinity := affinity\<rparr>) s;
           Some (t, sched_enqueue t s)}}}}"

definition thread_exit :: "kernel \<Rightarrow> kernel option" where
  "thread_exit s = sched_exit s"

end
