(* ===== verification/Futex.thy ===== *)
theory Futex
  imports Pmap Sched
begin

text \<open>
  Futexes, \<^verbatim>\<open>kernel/task/futex.c\<close>: a hash table of wait queues keyed by the physical address of the
  futex word. \<open>futex_wait\<close> is translated up to the point where it blocks; the result \<open>None\<close> of
  the inner option means that the thread sleeps (it returns 0 once woken).
\<close>

abbreviation (input) FUTEX_BUCKETS :: nat where "FUTEX_BUCKETS \<equiv> 64"
abbreviation (input) EAGAIN :: int where "EAGAIN \<equiv> 11"
abbreviation (input) EFAULT :: int where "EFAULT \<equiv> 14"
abbreviation (input) EINVAL :: int where "EINVAL \<equiv> 22"
abbreviation (input) sizeof_futex_waitq :: u64 where "sizeof_futex_waitq \<equiv> 40"

definition futex_hash :: "u64 \<Rightarrow> nat" where
  "futex_hash phys = unat (drop_bit 2 phys AND (of_nat FUTEX_BUCKETS - 1))"

partial_function (option) futex_find_from :: "futex_node option \<Rightarrow> nat \<Rightarrow> u64 \<Rightarrow> kernel \<Rightarrow> u64 option option" where
  "futex_find_from n b phys s =
     (if n = Some (BucketHead b) then Some None
      else case n of
        Some (HashNode wq) \<Rightarrow>
          if wq_phys s wq = phys then Some (Some wq)
          else futex_find_from (nxt (futexq s) (HashNode wq)) b phys s
      | _ \<Rightarrow> None)"

definition futex_find :: "u64 \<Rightarrow> kernel \<Rightarrow> u64 option option" where
  "futex_find phys s =
     futex_find_from (nxt (futexq s) (BucketHead (futex_hash phys))) (futex_hash phys) phys s"

definition futex_enqueue :: "u64 \<Rightarrow> kernel \<Rightarrow> (bool \<times> kernel) option" where
  \<comment> \<open>the part of \<open>futex_wait\<close> under the bucket lock; \<open>False\<close> when no wait queue can be allocated\<close>
  "futex_enqueue phys s = do {
     let cur = current s;
     let bucket = futex_hash phys;
     found \<leftarrow> futex_find phys s;
     (wq, s) \<leftarrow>
       (case found of
          Some wq \<Rightarrow> Some (wq, s)
        | None \<Rightarrow> do {
            (wq, s) \<leftarrow> kmalloc sizeof_futex_waitq s;
            if wq = 0 then Some (0, s)
            else
              let s = s\<lparr>wq_phys := (wq_phys s)(wq := phys)\<rparr>;
                  s = s\<lparr>futexq := list_init (WaitersHead wq) (futexq s)\<rparr>;
                  s = s\<lparr>futexq := list_add_tail (HashNode wq) (BucketHead bucket) (futexq s)\<rparr>
              in Some (wq, s)});
     if wq = 0 then Some (False, s)
     else Some (True, s\<lparr>futexq := list_add_tail (FutexNode cur) (WaitersHead wq) (futexq s)\<rparr>)}"

definition futex_wait :: "u64 \<Rightarrow> u32 \<Rightarrow> kernel \<Rightarrow> (int option \<times> kernel) option" where
  "futex_wait uaddr expected s =
     (let cur = current s
      in if uaddr AND 3 \<noteq> 0 then Some (Some (- EINVAL), s)
      else let phys = pmap_extract (t_pmap (threads s cur)) uaddr s
      in if phys = 0 then Some (Some (- EFAULT), s)
      else if load32 (phys_to_virt phys) (mem s) \<noteq> expected then Some (Some (- EAGAIN), s)
      else do {
        (ok, s) \<leftarrow> futex_enqueue phys s;
        if \<not> ok then Some (Some (- EAGAIN), s)
        else do {
          s \<leftarrow> sched_block s;
          Some (None, s)}})"

partial_function (option) futex_wake_loop :: "u64 \<Rightarrow> bool \<Rightarrow> int \<Rightarrow> kernel \<Rightarrow> (int \<times> kernel) option" where
  "futex_wake_loop wq all woken s =
     (if list_empty (WaitersHead wq) (futexq s) then Some (woken, s)
      else case nxt (futexq s) (WaitersHead wq) of
        Some (FutexNode t) \<Rightarrow>
          let s = s\<lparr>futexq := list_del (FutexNode t) (futexq s)\<rparr>;
              s = sched_wakeup t s;
              woken = woken + 1
          in if \<not> all then Some (woken, s) else futex_wake_loop wq all woken s
      | _ \<Rightarrow> None)"

definition futex_wake :: "u64 \<Rightarrow> bool \<Rightarrow> kernel \<Rightarrow> (int \<times> kernel) option" where
  "futex_wake uaddr all s =
     (let cur = current s
      in if uaddr AND 3 \<noteq> 0 then Some (- EINVAL, s)
      else let phys = pmap_extract (t_pmap (threads s cur)) uaddr s
      in if phys = 0 then Some (- EFAULT, s)
      else do {
        found \<leftarrow> futex_find phys s;
        case found of
          None \<Rightarrow> Some (0, s)
        | Some wq \<Rightarrow> do {
            (woken, s) \<leftarrow> futex_wake_loop wq all 0 s;
            s \<leftarrow> (if list_empty (WaitersHead wq) (futexq s)
                  then kfree wq (s\<lparr>futexq := list_del (HashNode wq) (futexq s)\<rparr>)
                  else Some s);
            Some (woken, s)}})"

definition futex_init :: "kernel \<Rightarrow> int \<times> kernel" where
  "futex_init s = (0, fold (\<lambda>i s. s\<lparr>futexq := list_init (BucketHead i) (futexq s)\<rparr>) [0..<FUTEX_BUCKETS] s)"

end
