(* ===== verification/Syscall.thy ===== *)
theory Syscall
  imports Thread Grant Futex
begin

text \<open>
  The system calls of \<^verbatim>\<open>kernel/task/syscall.c\<close>. The result of a call is the value returned in
  \<open>rax\<close>, with the message words of an IPC call, or that the calling thread sleeps, or that it is
  gone. User memory is reached through the page tables of the current address space; an unmapped
  address is a fault, on which the kernel does not go on (\<open>None\<close>). Permission bits are not
  consulted by this access.
\<close>

section \<open>User memory\<close>

definition user_byte :: "u64 \<Rightarrow> kernel \<Rightarrow> u64" where
  \<comment> \<open>where the byte at a user address lies in the direct map; 0 when it is not mapped\<close>
  "user_byte va s =
     (let phys = pmap_extract (t_pmap (threads s (current s))) va s
      in if phys = 0 then 0 else phys_to_virt phys)"

definition put_user_u64 :: "u64 \<Rightarrow> u64 \<Rightarrow> kernel \<Rightarrow> kernel option" where
  "put_user_u64 dst v s =
     (if list_all (\<lambda>i. user_byte (dst + of_nat i) s \<noteq> 0) [0..<8]
      then Some (s\<lparr>mem := fold (\<lambda>i m. m(user_byte (dst + of_nat i) s := ucast (drop_bit (8 * i) v))) [0..<8] (mem s)\<rparr>)
      else None)"

definition get_user_u64 :: "u64 \<Rightarrow> kernel \<Rightarrow> u64 option" where
  "get_user_u64 src s =
     (if list_all (\<lambda>i. user_byte (src + of_nat i) s \<noteq> 0) [0..<8]
      then Some (fold (\<lambda>i w. w OR push_bit (8 * i) (ucast (mem s (user_byte (src + of_nat i) s)))) [0..<8] 0)
      else None)"

section \<open>Results\<close>

datatype sysret = Ret u64 | RetMsg u64 "u64 list" | Sleeps | Gone

abbreviation (input) fail :: u64 where "fail \<equiv> - 1"
abbreviation (input) SYS_THREAD_CONTROL :: u64 where "SYS_THREAD_CONTROL \<equiv> 0"
abbreviation (input) SYS_EXCHANGE_REGISTERS :: u64 where "SYS_EXCHANGE_REGISTERS \<equiv> 1"
abbreviation (input) SYS_IPC :: u64 where "SYS_IPC \<equiv> 2"
abbreviation (input) SYS_MAP :: u64 where "SYS_MAP \<equiv> 3"
abbreviation (input) SYS_GRANT :: u64 where "SYS_GRANT \<equiv> 4"
abbreviation (input) SYS_UNMAP :: u64 where "SYS_UNMAP \<equiv> 5"
abbreviation (input) SYS_SCHEDULE :: u64 where "SYS_SCHEDULE \<equiv> 6"
abbreviation (input) SYS_THREAD_SWITCH :: u64 where "SYS_THREAD_SWITCH \<equiv> 7"
abbreviation (input) SYS_WRITE :: u64 where "SYS_WRITE \<equiv> 8"
abbreviation (input) SYS_FUTEX :: u64 where "SYS_FUTEX \<equiv> 9"
abbreviation (input) SYS_PROCESSOR_CONTROL :: u64 where "SYS_PROCESSOR_CONTROL \<equiv> 10"
abbreviation (input) SYS_EXCEPTION_HANDLER :: u64 where "SYS_EXCEPTION_HANDLER \<equiv> 11"
abbreviation (input) SYS_SYSTEM_CONTROL :: u64 where "SYS_SYSTEM_CONTROL \<equiv> 12"
abbreviation (input) SYS_SPACE_CONTROL :: u64 where "SYS_SPACE_CONTROL \<equiv> 13"
abbreviation (input) FUTEX_WAIT :: u64 where "FUTEX_WAIT \<equiv> 0"
abbreviation (input) FUTEX_WAKE :: u64 where "FUTEX_WAKE \<equiv> 1"
abbreviation (input) TC_CREATE :: u64 where "TC_CREATE \<equiv> 0"
abbreviation (input) TC_DESTROY :: u64 where "TC_DESTROY \<equiv> 1"
abbreviation (input) TC_BIND_SPACE :: u64 where "TC_BIND_SPACE \<equiv> 2"
abbreviation (input) EXR_READ :: u64 where "EXR_READ \<equiv> 0"
abbreviation (input) EXR_WRITE :: u64 where "EXR_WRITE \<equiv> 1"
abbreviation (input) EXR_ACTIVATE :: u64 where "EXR_ACTIVATE \<equiv> 2"
abbreviation (input) EXR_DEACTIVATE :: u64 where "EXR_DEACTIVATE \<equiv> 3"
abbreviation (input) EXR_SET_ENTRY :: u64 where "EXR_SET_ENTRY \<equiv> 4"
abbreviation (input) IPC_SEND :: u64 where "IPC_SEND \<equiv> 0"
abbreviation (input) IPC_RECV :: u64 where "IPC_RECV \<equiv> 1"
abbreviation (input) IPC_CALL :: u64 where "IPC_CALL \<equiv> 2"
abbreviation (input) IPC_REPLY_AND_WAIT :: u64 where "IPC_REPLY_AND_WAIT \<equiv> 3"

section \<open>Threads\<close>

definition sys_thread_control :: "u64 \<Rightarrow> u64 \<Rightarrow> u64 \<Rightarrow> u64 \<Rightarrow> u64 \<Rightarrow> kernel \<Rightarrow> (sysret \<times> kernel) option" where
  "sys_thread_control op a2 a3 a4 a5 s =
     (let cur = current s
      in if op = TC_CREATE then do {
           (pmap, s) \<leftarrow> (if a3 \<noteq> 0 then Some (a3, s) else pmap_create s);
           if pmap = 0 then Some (Ret fail, s)
           else do {
             (t, s) \<leftarrow> thread_create_child pmap 0 s;
             if t = 0 then do {
               s \<leftarrow> (if a3 = 0 then pmap_destroy pmap s else Some s);
               Some (Ret fail, s)}
             else do {
               let s = upd_thread t (\<lambda>th. th\<lparr>pager_tid := a4, utcb := a5\<rparr>) s;
               s \<leftarrow> (if a5 \<noteq> 0 then do {
                      s \<leftarrow> put_user_u64 a5 (tid (threads s t)) s;
                      s \<leftarrow> put_user_u64 (a5 + 8) (pager_tid (threads s t)) s;
                      Some (upd_thread t (\<lambda>th. th\<lparr>tf := (tf th)\<lparr>rsi := a5\<rparr>\<rparr>) s)}
                    else Some s);
               Some (Ret (tid (threads s t)), s)}}}
         else if op = TC_DESTROY then
           let target = thread_lookup a2 s
           in if target = 0 then Some (Ret fail, s)
              else if pager_tid (threads s target) \<noteq> tid (threads s cur) then Some (Ret fail, s)
              else if state (threads s target) = THREAD_READY \<or> state (threads s target) = THREAD_RUNNING
              then do { s \<leftarrow> sched_exit s; Some (Gone, s)}
              else Some (Ret 0, thread_destroy target s)
         else if op = TC_BIND_SPACE then
           let target = thread_lookup a2 s
           in if target = 0 then Some (Ret fail, s)
              else if pager_tid (threads s target) \<noteq> tid (threads s cur) then Some (Ret fail, s)
              else if a3 = 0 then Some (Ret fail, s)
              else Some (Ret 0, upd_thread target (\<lambda>th. th\<lparr>t_pmap := a3\<rparr>) s)
         else Some (Ret fail, s))"

definition sys_exchange_registers :: "u64 \<Rightarrow> u64 \<Rightarrow> u64 \<Rightarrow> u64 \<Rightarrow> u64 \<Rightarrow> kernel \<Rightarrow> (sysret \<times> kernel) option" where
  "sys_exchange_registers target_tid ip_ptr sp_ptr flags_ptr op s =
     (let target = thread_lookup target_tid s
      in if target = 0 then Some (Ret fail, s)
      else if op = EXR_READ then do {
        s \<leftarrow> (if ip_ptr \<noteq> 0 then put_user_u64 ip_ptr (rip (tf (threads s target))) s else Some s);
        s \<leftarrow> (if sp_ptr \<noteq> 0 then put_user_u64 sp_ptr (rsp (tf (threads s target))) s else Some s);
        s \<leftarrow> (if flags_ptr \<noteq> 0 then put_user_u64 flags_ptr (rflags (tf (threads s target))) s else Some s);
        Some (Ret 0, s)}
      else if op = EXR_WRITE then do {
        s \<leftarrow> (if ip_ptr \<noteq> 0 then do {
               v \<leftarrow> get_user_u64 ip_ptr s;
               Some (upd_thread target (\<lambda>th. th\<lparr>tf := (tf th)\<lparr>rip := v\<rparr>\<rparr>) s)} else Some s);
        s \<leftarrow> (if sp_ptr \<noteq> 0 then do {
               v \<leftarrow> get_user_u64 sp_ptr s;
               Some (upd_thread target (\<lambda>th. th\<lparr>tf := (tf th)\<lparr>rsp := v\<rparr>\<rparr>) s)} else Some s);
        s \<leftarrow> (if flags_ptr \<noteq> 0 then do {
               v \<leftarrow> get_user_u64 flags_ptr s;
               Some (upd_thread target (\<lambda>th. th\<lparr>tf := (tf th)\<lparr>rflags := v\<rparr>\<rparr>) s)} else Some s);
        Some (Ret 0, s)}
      else if op = EXR_ACTIVATE then
        if state (threads s target) \<noteq> THREAD_CREATED then Some (Ret fail, s)
        else Some (Ret 0, sched_enqueue target s)
      else if op = EXR_DEACTIVATE then
        if state (threads s target) = THREAD_RUNNING then Some (Ret fail, s)
        else
          let s = (if state (threads s target) = THREAD_READY then sched_dequeue target s else s)
          in Some (Ret 0, upd_thread target (\<lambda>th. th\<lparr>state := THREAD_CREATED\<rparr>) s)
      else if op = EXR_SET_ENTRY then
        Some (Ret 0, upd_thread target
          (\<lambda>th. th\<lparr>tf := (tf th)\<lparr>rip := ip_ptr, rdi := sp_ptr, rsi := flags_ptr\<rparr>\<rparr>) s)
      else Some (Ret fail, s))"

section \<open>Messages\<close>

definition IPC_OP :: "u64 \<Rightarrow> u64" where "IPC_OP x = drop_bit 32 x"
definition IPC_TARGET :: "u64 \<Rightarrow> u64" where "IPC_TARGET x = x AND 0xFFFFFFFF"

fun ipc_sysret :: "ipc_result \<Rightarrow> sysret" where
  "ipc_sysret (Done r []) = Ret r"
| "ipc_sysret (Done r msg) = RetMsg r msg"
| "ipc_sysret Blocked = Sleeps"

definition sys_ipc :: "u64 \<Rightarrow> u64 \<Rightarrow> u64 \<Rightarrow> u64 \<Rightarrow> u64 \<Rightarrow> u64 \<Rightarrow> kernel \<Rightarrow> (sysret \<times> kernel) option" where
  "sys_ipc packed a2 a3 a4 a5 a6 s =
     (let op = IPC_OP packed;
          n = IPC_TARGET packed;
          words = [a2, a3, a4, a5, a6]
      in if op = IPC_SEND then
           let target = thread_lookup n s
           in if target = 0 then Some (Ret fail, s)
              else do { (r, s) \<leftarrow> ipc_send target words s; Some (ipc_sysret r, s)}
         else if op = IPC_RECV then do { (r, s) \<leftarrow> ipc_recv s; Some (ipc_sysret r, s)}
         else if op = IPC_CALL then
           let target = thread_lookup n s
           in if target = 0 then Some (Ret fail, s)
              else do { (_, r, s) \<leftarrow> ipc_call target words s; Some (ipc_sysret r, s)}
         else if op = IPC_REPLY_AND_WAIT then do { (r, s) \<leftarrow> ipc_reply_recv words s; Some (ipc_sysret r, s)}
         else Some (Ret fail, s))"

section \<open>Memory\<close>

partial_function (option) holds_range :: "u64 \<Rightarrow> u64 \<Rightarrow> u64 \<Rightarrow> u8 \<Rightarrow> kernel \<Rightarrow> bool option" where
  \<comment> \<open>\<open>for (pa = a3; pa < a3 + a4; pa += PAGE_SIZE) if (!grant_holds(\<dots>)) return -1;\<close>\<close>
  "holds_range pa pa_end pmap rights s =
     (if pa < pa_end then do {
        h \<leftarrow> grant_holds pmap (phys_to_pfn pa) rights s;
        if \<not> h then Some False else holds_range (pa + PAGE_SIZE) pa_end pmap rights s}
      else Some True)"

partial_function (option) count_range :: "u64 \<Rightarrow> u64 \<Rightarrow> kernel \<Rightarrow> kernel option" where
  "count_range pa pa_end s =
     (if pa < pa_end then count_range (pa + PAGE_SIZE) pa_end (grant_mapping_add (phys_to_pfn pa) s)
      else Some s)"

definition prot_rights :: "u64 \<Rightarrow> u8" where
  "prot_rights prot =
     (let r = (if prot AND 1 \<noteq> 0 then GRANT_READ else 0)
      in if prot AND 2 \<noteq> 0 then r OR GRANT_WRITE else r)"

definition sys_map :: "u64 \<Rightarrow> u64 \<Rightarrow> u64 \<Rightarrow> u64 \<Rightarrow> u64 \<Rightarrow> kernel \<Rightarrow> (sysret \<times> kernel) option" where
  "sys_map a1 a2 a3 a4 a5 s =
     (let cur = current s;
          target = thread_lookup a1 s
      in if target = 0 then Some (Ret fail, s)
      else if pager_tid (threads s target) \<noteq> tid (threads s cur) then Some (Ret fail, s)
      else if a4 = 0 then Some (Ret fail, s)
      else let rights = prot_rights a5
      in if rights = 0 then Some (Ret fail, s)
      else do {
        ok \<leftarrow> holds_range a3 (a3 + a4) (t_pmap (threads s cur)) rights s;
        if \<not> ok then Some (Ret fail, s)
        else do {
          (err, s) \<leftarrow> pmap_map (t_pmap (threads s target)) a2 a3 a4 (ucast a5 OR PROT_USER) s;
          if err \<noteq> 0 then Some (Ret fail, s)
          else do {
            s \<leftarrow> count_range a3 (a3 + a4) s;
            Some (Ret 0, s)}}})"

definition sys_grant :: "u64 \<Rightarrow> u64 \<Rightarrow> u64 \<Rightarrow> kernel \<Rightarrow> (sysret \<times> kernel) option" where
  "sys_grant a1 a2 a3 s =
     (let cur = current s;
          target = thread_lookup a1 s
      in if target = 0 then Some (Ret fail, s)
      else if a3 = 0 \<or> a3 AND NOT 7 \<noteq> 0 then Some (Ret fail, s)
      else let pfn = phys_to_pfn a2
      in do {
        h \<leftarrow> grant_holds (t_pmap (threads s cur)) pfn (ucast a3) s;
        if \<not> h then Some (Ret fail, s)
        else do {
          (err, s) \<leftarrow> grant_add (t_pmap (threads s target)) pfn (ucast a3) s;
          Some (Ret (if err \<noteq> 0 then fail else 0), s)}})"

partial_function (option) unmap_pages :: "u64 \<Rightarrow> u64 \<Rightarrow> u64 \<Rightarrow> kernel \<Rightarrow> kernel option" where
  \<comment> \<open>the loop of \<open>SYS_UNMAP\<close>\<close>
  "unmap_pages va va_end pmap s =
     (if va < va_end then
        let phys = pmap_extract pmap va s
        in if phys = 0 then unmap_pages (va + PAGE_SIZE) va_end pmap s
           else do {
             s \<leftarrow> pmap_unmap pmap va PAGE_SIZE s;
             unmap_pages (va + PAGE_SIZE) va_end pmap (grant_mapping_remove (phys_to_pfn phys) s)}
      else Some s)"

definition sys_unmap :: "u64 \<Rightarrow> u64 \<Rightarrow> u64 \<Rightarrow> kernel \<Rightarrow> (sysret \<times> kernel) option" where
  "sys_unmap a1 a2 a3 s =
     (let cur = current s;
          target = thread_lookup a1 s
      in if target = 0 then Some (Ret fail, s)
      else if pager_tid (threads s target) \<noteq> tid (threads s cur) then Some (Ret fail, s)
      else if a3 = 0 then Some (Ret fail, s)
      else do {
        s \<leftarrow> unmap_pages (a2 AND NOT 0xFFF) (a2 + a3) (t_pmap (threads s target)) s;
        Some (Ret 0, s)})"

section \<open>Scheduling and output\<close>

definition sys_schedule :: "u64 \<Rightarrow> u64 \<Rightarrow> u64 \<Rightarrow> kernel \<Rightarrow> (sysret \<times> kernel) option" where
  "sys_schedule a1 a2 a3 s =
     (let target = thread_lookup a1 s
      in if target = 0 then Some (Ret fail, s)
      else
        let s = (if a2 \<noteq> - 1 then upd_thread target (\<lambda>th. th\<lparr>current_level := ucast a2\<rparr>) s else s);
            s = (if a3 \<noteq> - 1 then upd_thread target (\<lambda>th. th\<lparr>time_quantum_left := ucast a3\<rparr>) s else s)
        in Some (Ret 0, s))"

partial_function (option) write_loop :: "u64 \<Rightarrow> u64 \<Rightarrow> u64 \<Rightarrow> kernel \<Rightarrow> (bool \<times> kernel) option" where
  \<comment> \<open>\<open>for (off = 0; off < a3;)\<close> of \<open>SYS_WRITE\<close>\<close>
  "write_loop off a2 a3 s =
     (if off < a3 then
        let phys = pmap_extract (t_pmap (threads s (current s))) (a2 + off) s
        in if phys = 0 then Some (False, s)
           else
             let page = phys_to_virt (phys AND NOT 0xFFF);
                 page_off = (a2 + off) AND 0xFFF;
                 chunk = PAGE_SIZE - page_off;
                 chunk = (if chunk > a3 - off then a3 - off else chunk);
                 s = for_range 0 chunk (\<lambda>i s. s\<lparr>console := console s @ [mem s (page + (page_off + i))]\<rparr>) s
             in write_loop (off + chunk) a2 a3 s
      else Some (True, s))"

definition sys_write :: "u64 \<Rightarrow> u64 \<Rightarrow> u64 \<Rightarrow> kernel \<Rightarrow> (sysret \<times> kernel) option" where
  "sys_write a1 a2 a3 s =
     (if a1 \<noteq> 1 \<and> a1 \<noteq> 2 then Some (Ret fail, s)
      else if a3 = 0 then Some (Ret 0, s)
      else do {
        (ok, s) \<leftarrow> write_loop 0 a2 a3 s;
        Some (Ret (if ok then a3 else fail), s)})"

definition sys_futex :: "u64 \<Rightarrow> u64 \<Rightarrow> u64 \<Rightarrow> kernel \<Rightarrow> (sysret \<times> kernel) option" where
  "sys_futex a1 a2 a3 s =
     (if a2 = FUTEX_WAIT then do {
        (r, s) \<leftarrow> futex_wait a1 (ucast a3) s;
        Some (case r of None \<Rightarrow> Sleeps | Some v \<Rightarrow> Ret (of_int v), s)}
      else if a2 = FUTEX_WAKE then do {
        (r, s) \<leftarrow> futex_wake a1 ((ucast a3 :: u32) \<noteq> 0) s;
        Some (Ret (of_int r), s)}
      else Some (Ret fail, s))"

section \<open>The dispatcher\<close>

definition do_syscall ::
  "u64 \<Rightarrow> u64 \<Rightarrow> u64 \<Rightarrow> u64 \<Rightarrow> u64 \<Rightarrow> u64 \<Rightarrow> u64 \<Rightarrow> kernel \<Rightarrow> (sysret \<times> kernel) option" where
  "do_syscall num a1 a2 a3 a4 a5 a6 s =
     (if num = SYS_THREAD_CONTROL then sys_thread_control a1 a2 a3 a4 a5 s
      else if num = SYS_EXCHANGE_REGISTERS then sys_exchange_registers a1 a2 a3 a4 a5 s
      else if num = SYS_IPC then sys_ipc a1 a2 a3 a4 a5 a6 s
      else if num = SYS_MAP then sys_map a1 a2 a3 a4 a5 s
      else if num = SYS_GRANT then sys_grant a1 a2 a3 s
      else if num = SYS_UNMAP then sys_unmap a1 a2 a3 s
      else if num = SYS_SCHEDULE then sys_schedule a1 a2 a3 s
      else if num = SYS_THREAD_SWITCH then do { s \<leftarrow> sched_yield s; Some (Ret 0, s)}
      else if num = SYS_WRITE then sys_write a1 a2 a3 s
      else if num = SYS_FUTEX then sys_futex a1 a2 a3 s
      else if num = SYS_PROCESSOR_CONTROL \<or> num = SYS_EXCEPTION_HANDLER \<or> num = SYS_SYSTEM_CONTROL \<or> num = SYS_SPACE_CONTROL then Some (Ret fail, s)
      else Some (Ret 0, s))"

definition ret_words :: "u64 list \<Rightarrow> trapframe \<Rightarrow> trapframe" where
  "ret_words extra regs =
     regs\<lparr>rdi := extra ! 0, rsi := extra ! 1, rdx := extra ! 2, r10 := extra ! 3, r8 := extra ! 4\<rparr>"

definition syscall_dispatch :: "u64 list \<Rightarrow> trapframe \<Rightarrow> kernel \<Rightarrow> (trapframe option \<times> kernel) option" where
  \<comment> \<open>the registers with which the caller returns to user mode; none when it does not return now.
    \<open>stale\<close> is what the kernel stack holds where \<open>struct syscall_ret ret\<close> lies: the structure is
    not initialised, and a call that does not fill it returns these words\<close>
  "syscall_dispatch stale regs s = do {
     let num = rax regs;
     (r, s) \<leftarrow> do_syscall num (rdi regs) (rsi regs) (rdx regs) (r10 regs) (r8 regs) (r9 regs) s;
     Some (case r of
         Ret v \<Rightarrow> Some (if num = SYS_IPC then ret_words stale (regs\<lparr>rax := v\<rparr>) else regs\<lparr>rax := v\<rparr>)
       | RetMsg v msg \<Rightarrow> Some (ret_words msg (regs\<lparr>rax := v\<rparr>))
       | _ \<Rightarrow> None, s)}"

end
