(* ===== verification/Syscall_Spec.thy ===== *)
theory Syscall_Spec
  imports Syscall Grant_Spec
begin

text \<open>
  What the system calls of \<^verbatim>\<open>kernel/task/syscall.c\<close> allow: which frames \<open>SYS_MAP\<close> can make visible, which
  rights \<open>SYS_GRANT\<close> passes on, what a thread that is not the pager is refused, and four calls
  that do not do what they are meant to.
\<close>

section \<open>The frames a pager hands out\<close>

lemma holds_range_all:
  assumes "holds_range pa e pmap rights s = Some True" "unat pa + 4096 * k < unat e"
  shows "grant_holds pmap (phys_to_pfn (pa + 4096 * of_nat k)) rights s = Some True"
  using assms
proof (induction k arbitrary: pa)
  case 0
  then show ?case by (subst (asm) holds_range.simps) (auto simp: word_less_nat_alt split: Option.bind_splits if_splits)
next
  case (Suc k)
  have lt: "pa < e" using Suc.prems by (simp add: word_less_nat_alt)
  have u: "unat (pa + 4096) = unat pa + 4096" using Suc.prems unat_less_64 [of e] by (simp add: unat_word_ariths)
  have "holds_range (pa + 4096) e pmap rights s = Some True"
    using Suc.prems(1) lt by (subst (asm) holds_range.simps) (auto split: Option.bind_splits if_splits)
  from Suc.IH [OF this] Suc.prems(2) u show ?case by (simp add: algebra_simps)
qed

lemma mapping_add_maps:
  obtains m where "grant_mapping_add pfn s = s\<lparr>g_maps := m\<rparr>"
proof (cases "pfn < g_frames s")
  case False
  then have "grant_mapping_add pfn s = s\<lparr>g_maps := g_maps s\<rparr>" by (simp add: grant_mapping_add_def)
  then show thesis by (rule that)
qed (simp add: grant_mapping_add_def that)

lemma count_range_maps:
  assumes "unat pa + 4096 * n < 2 ^ 64" "unat e \<le> unat pa + 4096 * n"
  shows "\<exists>m. count_range pa e s = Some (s\<lparr>g_maps := m\<rparr>)"
  using assms
proof (induction n arbitrary: pa s)
  case 0
  then show ?case by (subst count_range.simps) (auto simp: word_less_nat_alt intro!: exI [of _ "g_maps s"])
next
  case (Suc n)
  have u: "unat (pa + 4096) = unat pa + 4096" using Suc.prems by (simp add: unat_word_ariths)
  obtain m where m: "grant_mapping_add (phys_to_pfn pa) s = s\<lparr>g_maps := m\<rparr>" by (rule mapping_add_maps)
  obtain m' where "count_range (pa + 4096) e (s\<lparr>g_maps := m\<rparr>) = Some (s\<lparr>g_maps := m'\<rparr>)"
    using Suc.IH [of "pa + 4096" "s\<lparr>g_maps := m\<rparr>"] Suc.prems u by auto
  then have "count_range pa e s = Some (s\<lparr>g_maps := if pa < e then m' else g_maps s\<rparr>)"
    by (subst count_range.simps) (simp add: m)
  then show ?case by blast
qed

definition pager_of :: "u64 \<Rightarrow> kernel \<Rightarrow> bool" where
  "pager_of n s \<longleftrightarrow> thread_lookup n s \<noteq> 0 \<and> pager_tid (threads s (thread_lookup n s)) = tid (threads s (current s))"

lemma sys_map_run:
  assumes p: "pager_of a1 s" and a: "a4 \<noteq> 0" "prot_rights a5 \<noteq> 0" "unat a3 + unat a4 + 8191 < 2 ^ 64"
    and h: "holds_range a3 (a3 + a4) (t_pmap (threads s (current s))) (prot_rights a5) s = Some True"
    and m: "pmap_map (t_pmap (threads s (thread_lookup a1 s))) a2 a3 a4 (ucast a5 OR PROT_USER) s = Some (err, s1)"
  shows "\<exists>maps. sys_map a1 a2 a3 a4 a5 s = Some (if err = 0 then (Ret 0, s1\<lparr>g_maps := maps\<rparr>) else (Ret fail, s1))"
proof -
  have "unat (a3 + a4) = unat a3 + unat a4" using a(3) by (simp add: unat_word_ariths)
  moreover define n where "n = unat a4 div 4096 + 1"
  moreover have "4096 * n \<le> unat a4 + 4096" "unat a4 \<le> 4096 * n"
    using times_div_less_eq_dividend [of 4096 "unat a4"] dividend_less_times_div [of 4096 "unat a4"] by (simp_all add: n_def)
  moreover from this have "unat a3 + 4096 * n < 2 ^ 64" using a(3) by linarith
  ultimately obtain maps where "count_range a3 (a3 + a4) s1 = Some (s1\<lparr>g_maps := maps\<rparr>)"
    using count_range_maps [of a3 n "a3 + a4" s1] by auto
  then show ?thesis using p a h m by (intro exI [of _ maps]) (simp add: sys_map_def pager_of_def)
qed


lemma sys_map_cases:
  assumes "sys_map a1 a2 a3 a4 a5 s = Some (Ret 0, s')"
  obtains s1 where "pager_of a1 s" "a4 \<noteq> 0" "prot_rights a5 \<noteq> 0"
    "holds_range a3 (a3 + a4) (t_pmap (threads s (current s))) (prot_rights a5) s = Some True"
    "pmap_map (t_pmap (threads s (thread_lookup a1 s))) a2 a3 a4 (ucast a5 OR PROT_USER) s = Some (0, s1)"
    "count_range a3 (a3 + a4) s1 = Some s'"
  using assms unfolding sys_map_def pager_of_def
  by (auto simp: Let_def split: Option.bind_splits if_splits)

lemma extract_maps [simp]: "pmap_extract p x (s\<lparr>g_maps := m\<rparr>) = pmap_extract p x s"
  by (simp add: pmap_extract_def)

lemma huge_arg: "(ucast a5 OR PROT_USER) AND PROT_HUGE = 0 \<longleftrightarrow> a5 AND 0x40 = 0" for a5 :: u64
proof -
  have e: "(0x40 :: u32) = 2 ^ 6" "(0x40 :: u64) = 2 ^ 6" by simp_all
  show ?thesis unfolding e and_exp_eq_0_iff_not_bit by (simp add: bit_simps)
qed

lemma page_down_id: "x AND 0xFFF = 0 \<Longrightarrow> x AND NOT 0xFFF = x" for x :: u64
  using unat_page_down [of x] unat_and_FFF [of x] by (simp add: word_unat_eq_iff) (metis dvd_mult_div_cancel mod_0_imp_dvd)

lemma range_end:
  fixes a n :: u64
  assumes "unat a + unat n + 4095 \<le> 2 ^ 48"
  shows "unat ((a + n + 0xFFF) AND NOT 0xFFF) \<le> unat a + unat n + 4095"
proof -
  have "unat (a + n + 0xFFF) = unat a + unat n + 4095" using assms by (simp add: unat_word_ariths)
  then show ?thesis unfolding unat_page_down by simp
qed

lemma unat_page_offset:
  fixes a :: u64
  assumes "a AND 0xFFF = 0" "x = 4096 * of_nat k + (y AND 0xFFF)" "unat a + 4096 * k + 4095 < 2 ^ 64"
  shows "phys_to_pfn (a + x) = phys_to_pfn (a + 4096 * of_nat k)"
proof -
  have d: "4096 dvd unat a" using assms(1) unat_and_FFF [of a] by auto
  have y: "unat (y AND 0xFFF) < 4096" by (simp add: unat_and_FFF)
  have k: "unat (4096 * of_nat k :: u64) = 4096 * k"
    using assms(3) by (simp add: unat_word_ariths unat_of_nat take_bit_nat_eq_self)
  have u: "unat (a + 4096 * of_nat k) = unat a + 4096 * k" using k assms(3) by (simp add: unat_word_ariths)
  have "unat (a + 4096 * of_nat k + (y AND 0xFFF)) = unat a + 4096 * k + unat (y AND 0xFFF)"
    by (subst unat_word_ariths(1)) (use u y assms(3) in simp)
  then have "unat (a + x) div 4096 = unat (a + 4096 * of_nat k) div 4096"
    using d y u assms(2) by (auto simp: add.assoc elim!: dvdE)
  then show ?thesis by (simp add: phys_to_pfn_def drop_bit_eq_div word_unat_eq_iff unat_div)
qed

text \<open>C5: a successful \<open>SYS_MAP\<close> of page-aligned addresses, without \<open>PROT_HUGE\<close>, was made by the
  pager of the target, and after it every address of the range translates to a frame that the
  caller holds with the rights the mapping was asked for; the other addresses of the user half
  translate as before. The target's page tables are well-formed before, the range lies below
  \<open>2 ^ 48\<close> and holds no 2 MiB page.\<close>

theorem sys_map_confined:
  assumes run: "sys_map a1 a2 a3 a4 a5 s = Some (Ret 0, s')"
    and t: "t = t_pmap (threads s (thread_lookup a1 s))"
    and ok: "vm_ok (pm_root_virt (pmaps s t)) F s" "t \<noteq> 0"
    and al: "a2 AND 0xFFF = 0" "a3 AND 0xFFF = 0" "a5 AND 0x40 = 0"
    and room: "unat a2 + unat a4 + 4095 \<le> 2 ^ 48" "unat a3 + unat a4 + 8191 \<le> 2 ^ 52"
    and nh: "\<And>x. a2 \<le> x \<Longrightarrow> x < (a2 + a4 + 0xFFF) AND NOT 0xFFF \<Longrightarrow> \<not> huge_at (slots (mem s)) (pm_root_virt (pmaps s t)) x"
  shows "pager_of a1 s \<and>
    (\<forall>x. a2 \<le> x \<and> x < (a2 + a4 + 0xFFF) AND NOT 0xFFF \<longrightarrow>
      pmap_extract t x s' = a3 + (x - a2) \<and>
      grant_holds (t_pmap (threads s (current s))) (phys_to_pfn (pmap_extract t x s')) (prot_rights a5) s = Some True) \<and>
    (\<forall>x < 2 ^ 48. \<not> (a2 \<le> x \<and> x < (a2 + a4 + 0xFFF) AND NOT 0xFFF) \<longrightarrow> pmap_extract t x s' = pmap_extract t x s)"
proof -
  from run obtain s1 where c: "pager_of a1 s" "a4 \<noteq> 0" "prot_rights a5 \<noteq> 0"
    "holds_range a3 (a3 + a4) (t_pmap (threads s (current s))) (prot_rights a5) s = Some True"
    "pmap_map t a2 a3 a4 (ucast a5 OR PROT_USER) s = Some (0, s1)" "count_range a3 (a3 + a4) s1 = Some s'"
    unfolding t by (rule sys_map_cases)
  have fl: "(ucast a5 OR PROT_USER) AND PROT_HUGE = 0" using al(3) by (simp add: huge_arg)
  obtain maps where "s' = s1\<lparr>g_maps := maps\<rparr>"
    using sys_map_run [OF c(1-3) _ c(4), of a2 0 s1] c(5) run room(2) unfolding t by auto
  then have ex: "pmap_extract t x s' = pmap_extract t x s1" for x by simp
  define hi where "hi = (a2 + a4 + 0xFFF) AND NOT 0xFFF"
  note lo = page_down_id [OF al(1), symmetric] page_down_id [OF al(2), symmetric]
  have m: "(\<forall>x. a2 \<le> x \<and> x < hi \<longrightarrow> pmap_extract t x s1 = a3 + (x - a2)) \<and>
     (\<forall>x < 2 ^ 48. \<not> (a2 \<le> x \<and> x < hi) \<longrightarrow> pmap_extract t x s1 = pmap_extract t x s)"
    using pmap_map_spec [OF ok(1) refl ok(2) c(2) fl room lo(1) hi_def nh [folded hi_def]] c(5) lo(2) by simp blast
  obtain n where n: "unat hi = unat a2 + 4096 * n" "unat hi \<le> 2 ^ 48" "4096 dvd unat a2"
    by (rule pages_of_range [OF room(1) lo(1) hi_def])
  have held: "grant_holds (t_pmap (threads s (current s))) (phys_to_pfn (a3 + (x - a2))) (prot_rights a5) s = Some True"
    if x: "a2 \<le> x" "x < hi" for x
  proof -
    obtain k where k: "k < n" "x - a2 = 4096 * of_nat k + (x AND 0xFFF)" by (rule page_index [OF n x])
    have "4096 * k < unat a4" using range_end [OF room(1), folded hi_def] n(1) k(1) by linarith
    then have "unat a3 + 4096 * k < unat (a3 + a4)" "unat a3 + 4096 * k + 4095 < 2 ^ 64"
      using room(2) by (simp_all add: unat_word_ariths)
    from unat_page_offset [OF al(2) k(2) this(2)] holds_range_all [OF c(4) this(1)] show ?thesis by simp
  qed
  from c(1) m held show ?thesis by (simp add: ex hi_def)
qed


text \<open>C37: \<open>SYS_MAP\<close> rounds the virtual range outwards to whole pages after it has checked the grants of
  the physical range, so a range of whole pages at a virtual address inside a page makes the
  target's mapping end with one frame more than was checked: the frame behind the range, whoever
  holds it. Enough free pages for the tables are assumed, so the call succeeds.\<close>

theorem sys_map_extra_frame:
  assumes p: "pager_of a1 s" and t: "t = t_pmap (threads s (thread_lookup a1 s))"
    and ok: "vm_ok (pm_root_virt (pmaps s t)) F s" "t \<noteq> 0"
    and args: "a4 \<noteq> 0" "a4 AND 0xFFF = 0" "prot_rights a5 \<noteq> 0" "a5 AND 0x40 = 0" "a3 AND 0xFFF = 0" "a2 AND 0xFFF \<noteq> 0"
    and held: "holds_range a3 (a3 + a4) (t_pmap (threads s (current s))) (prot_rights a5) s = Some True"
    and room: "unat a2 + unat a4 + 4095 \<le> 2 ^ 48" "unat a3 + unat a4 + 8191 \<le> 2 ^ 52"
    and nh: "\<And>x. \<not> huge_at (slots (mem s)) (pm_root_virt (pmaps s t)) x"
    and free: "3 * (unat a4 div 4096 + 1) < card F"
  shows "\<exists>s'. sys_map a1 a2 a3 a4 a5 s = Some (Ret 0, s') \<and> phys_to_pfn (pmap_extract t (a2 + a4) s') = phys_to_pfn (a3 + a4)"
proof -
  have fl: "(ucast a5 OR PROT_USER) AND PROT_HUGE = 0" using args(4) by (simp add: huge_arg)
  define lo hi where "lo = a2 AND NOT 0xFFF" and "hi = (a2 + a4 + 0xFFF) AND NOT 0xFFF"
  obtain n where n: "hi = lo + 4096 * of_nat n" "unat hi = unat lo + 4096 * n" "unat hi \<le> 2 ^ 48" "4096 dvd unat lo"
    "4096 * n \<le> unat a4 + 8190" by (rule pages_of_range [OF room(1) lo_def hi_def])
  define b where "b = unat a2 div 4096"
  define d where "d = unat a2 mod 4096"
  obtain q where q: "unat a4 = 4096 * q" using args(2) unat_and_FFF [of a4] by (metis mod_0_imp_dvd dvdE unat_0)
  have d: "0 < d" "d < 4096" "unat a2 = 4096 * b + d" "unat (a2 AND 0xFFF) = d"
    using args(6) unat_and_FFF [of a2] by (auto simp: b_def d_def unat_gt_0 [symmetric] simp del: unat_gt_0)
  have ulo: "unat lo = 4096 * b" by (simp only: lo_def unat_page_down b_def)
  have "unat (a2 + a4 + 0xFFF) = 4096 * (b + q + 1) + (d - 1)" using room(1) d q by (simp add: unat_word_ariths)
  moreover have "(4096 * k + (d - 1)) div 4096 = k" for k using d(1,2) by simp
  ultimately have uhi: "unat hi = 4096 * (b + q + 1)" by (simp only: hi_def unat_page_down)
  then have nq: "n = q + 1" using n(2) ulo by simp
  have "unat (hi - lo) = 4096 * n" using n(2) by (simp add: unat_sub word_le_nat_alt)
  then have few: "3 * (unat (hi - lo) div 4096) < card F" using free q nq by simp
  obtain s1 where m: "pmap_map t a2 a3 a4 (ucast a5 OR PROT_USER) s = Some (0, s1)"
    "\<forall>x. lo \<le> x \<and> x < hi \<longrightarrow> pmap_extract t x s1 = (a3 AND NOT 0xFFF) + (x - lo)"
    using pmap_map_spec [OF ok(1) refl ok(2) args(1) fl room lo_def hi_def nh] few
    by (auto split: if_splits)
  obtain maps where run: "sys_map a1 a2 a3 a4 a5 s = Some (Ret 0, s1\<lparr>g_maps := maps\<rparr>)"
    using sys_map_run [OF p args(1,3) _ held, of a2 0 s1] m(1) room(2) unfolding t by auto
  have u: "unat (a2 + a4) = 4096 * (b + q) + d" using room(1) d q by (simp add: unat_word_ariths)
  have x: "lo \<le> a2 + a4" "a2 + a4 < hi" using u ulo uhi d by (simp_all add: word_le_nat_alt word_less_nat_alt)
  have a4: "a4 = 4096 * of_nat q"
    using q room(1) by (simp add: word_unat_eq_iff unat_word_ariths unat_of_nat take_bit_nat_eq_self)
  have "unat (a4 + (a2 AND 0xFFF)) = 4096 * q + d"
    by (subst unat_word_ariths(1)) (use q d room(1) in simp)
  moreover have "unat (a2 + a4 - lo) = 4096 * q + d" using u ulo x by (simp add: unat_sub)
  ultimately have "a2 + a4 - lo = 4096 * of_nat q + (a2 AND 0xFFF)" by (simp only: word_unat_eq_iff a4)
  then have "phys_to_pfn (a3 + (a2 + a4 - lo)) = phys_to_pfn (a3 + a4)"
    using a4 unat_page_offset [OF args(5), of "a2 + a4 - lo" q a2] room(2) q by simp
  then show ?thesis using run m(2) x page_down_id [OF args(5)] by auto
qed


section \<open>Who may do what\<close>

text \<open>C28: only the pager of a thread can map into its address space, unmap from it, destroy it or
  bind it to another address space: for any other caller these calls return \<open>-1\<close> and change
  nothing.\<close>

theorem only_the_pager:
  assumes "\<not> pager_of n s"
  shows "do_syscall SYS_MAP n a2 a3 a4 a5 a6 s = Some (Ret fail, s) \<and>
    do_syscall SYS_UNMAP n a2 a3 a4 a5 a6 s = Some (Ret fail, s) \<and>
    do_syscall SYS_THREAD_CONTROL TC_DESTROY n a3 a4 a5 a6 s = Some (Ret fail, s) \<and>
    do_syscall SYS_THREAD_CONTROL TC_BIND_SPACE n a3 a4 a5 a6 s = Some (Ret fail, s)"
  using assms by (auto simp: do_syscall_def sys_map_def sys_unmap_def sys_thread_control_def pager_of_def Let_def)

text \<open>C27: \<open>SYS_GRANT\<close> does not create rights. When it succeeds, the caller held the rights it passed on
  for that frame, and afterwards the answers of \<open>grant_holds\<close> for all address spaces, frames and rights are those from before, with two exceptions, both for the
  granted frame: the target has the rights it had been granted before together with the new ones, and the root server loses the implicit hold it has on a frame of the pool while nobody has been granted it. The
  invariant of the grants holds again. (That the caller holds \<open>GRANT_GRANT\<close> is not asked for; fewer than \<open>2 ^ 16 - 1\<close> address spaces have been granted the
  frame; the heap gives a block that is not in use, and takes it back when the grants are merged.)\<close>

theorem sys_grant_passes_on:
  assumes inv: "grants_inv s P G"
    and run: "sys_grant a1 a2 a3 s = Some (Ret 0, s')"
    and t: "t = t_pmap (threads s (thread_lookup a1 s))" "t \<in> P"
    and k: "kmalloc sizeof_grant_entry s = Some (e, s1)" "e \<noteq> 0" "\<And>q. q \<in> P \<Longrightarrow> e \<notin> set (G q)"
      "\<And>g. rights_of s G t (phys_to_pfn a2) \<noteq> None \<Longrightarrow> kfree e (s1\<lparr>grants := g\<rparr>) \<noteq> None"
    and few: "card (holders s P G (phys_to_pfn a2)) + 1 < 2 ^ 16"
  shows "grant_holds (t_pmap (threads s (current s))) (phys_to_pfn a2) (ucast a3) s = Some True \<and>
    (\<exists>G'. grants_inv s' P G') \<and>
    (\<forall>q \<in> P. \<forall>x w. grant_holds q x w s' =
       (if x = phys_to_pfn a2 \<and> q = t
        then Some ((case rights_of s G t x of None \<Rightarrow> ucast a3 | Some r \<Rightarrow> r OR ucast a3) AND w = w)
        else if x = phys_to_pfn a2 \<and> q = g_root_pmap s \<and> grant_pool_test x s \<and> g_refs s x = 0 then Some False
        else grant_holds q x w s))"
proof -
  from run have h: "grant_holds (t_pmap (threads s (current s))) (phys_to_pfn a2) (ucast a3) s = Some True"
    and a: "grant_add t (phys_to_pfn a2) (ucast a3) s = Some (0, s')"
    by (auto simp: sys_grant_def Let_def t(1) split: Option.bind_splits if_splits)
  have "t \<noteq> 0" "phys_to_pfn a2 < g_frames s" using a by (auto simp: grant_add_def not_le split: if_splits)
  from grant_add_rights [OF inv t(2) this k(1-4), of "ucast a3"] a obtain G' where G': "grants_inv s' P G'"
    "\<forall>q \<in> P. rights_of s' G' q = (if q = t then (rights_of s G t)(phys_to_pfn a2 \<mapsto>
       (case rights_of s G t (phys_to_pfn a2) of None \<Rightarrow> ucast a3 | Some r \<Rightarrow> r OR ucast a3)) else rights_of s G q)" by auto
  from grant_add_holds [OF inv G'(1) a t(2) G'(2) few] h G'(1) show ?thesis by (auto simp: implicit_def)
qed

section \<open>Calls that misbehave\<close>

text \<open>\<open>SYS_SCHEDULE\<close> stores any level in any thread. A thread that gives itself a level of 4 or
  more makes its next yield read the table of quanta out of bounds.\<close>

theorem sys_schedule_breaks_yield:
  assumes "thread_lookup a1 s = current s" "current s \<noteq> 0" "a2 \<noteq> - 1" "4 \<le> (ucast a2 :: u32)"
  shows "\<exists>s'. do_syscall SYS_SCHEDULE a1 a2 (- 1) a4 a5 a6 s = Some (Ret 0, s') \<and> sched_yield s' = None"
proof -
  let ?s' = "upd_thread (current s) (\<lambda>th. th\<lparr>current_level := ucast a2\<rparr>) s"
  have "do_syscall SYS_SCHEDULE a1 a2 (- 1) a4 a5 a6 s = Some (Ret 0, ?s')"
    using assms by (simp add: do_syscall_def sys_schedule_def)
  moreover have "sched_yield ?s' = None"
    using assms(4) by (simp add: sched_yield_def QUANTUM_TICKS_def Let_def not_less [symmetric])
  ultimately show ?thesis by blast
qed

lemma sched_exit_switches:
  assumes "sched_ok s Q" "queued Q \<noteq> {}"
  obtains s' t where "sched_exit s = Some s'" "current s' = t" "t \<in> queued Q"
    "state (threads s' (current s)) = THREAD_TERMINATED" "g_threads s' = g_threads s" "g_threads_ptr s' = g_threads_ptr s"
    "\<And>x. x \<noteq> t \<Longrightarrow> x \<noteq> current s \<Longrightarrow> threads s' x = threads s x" "state (threads s' t) = THREAD_RUNNING"
proof -
  define s0 where "s0 = upd_thread (current s) (\<lambda>t. t\<lparr>state := THREAD_TERMINATED\<rparr>) s"
  have c: "current s \<notin> queued Q" "queues_ok s Q" using assms by (simp_all add: sched_ok_def)
  then have q: "queues_ok s0 Q" unfolding s0_def by (intro queues_ok_thread_upd)
  then have r: "runq_rep s0 Q" by (simp add: queues_ok_def)
  show thesis
  proof (rule sched_pick_spec [OF r])
    assume "queued Q = {}"
    then show thesis using assms(2) by simp
  next
    fix l t ts
    assume a: "l < 4" "Q l = t # ts" "sched_pick s0 = Some (t, s0\<lparr>runq := list_del (SchedNode t) (runq s0)\<rparr>)"
      "queued Q = insert t (queued (Q(l := ts)))"
    have t: "t \<noteq> 0" "t \<noteq> current s" using q a(1,2,4) c unfolding queues_ok_def by auto
    let ?s' = "run_next (current s) t (s0\<lparr>runq := list_del (SchedNode t) (runq s0)\<rparr>)"
    have "sched_exit s = Some ?s'" using a(3) t by (simp add: sched_exit_def leave_cpu_def s0_def Let_def)
    then show thesis
      by (rule that [of ?s' t]) (use t a(4) in \<open>auto simp: run_next_def s0_def Let_def upd_thread_def switch_to_def\<close>)
  qed
qed

text \<open>C38: destroying a thread that is ready ends the caller instead: \<open>sched_exit\<close> terminates the thread
  that calls it and does not return, so the target stays in the thread table and is not
  terminated.\<close>

theorem destroy_ready_thread_exits_caller:
  assumes ok: "sched_ok s Q" and p: "pager_of n s" and r: "thread_lookup n s \<in> queued Q"
  shows "\<exists>s'. do_syscall SYS_THREAD_CONTROL TC_DESTROY n a3 a4 a5 a6 s = Some (Gone, s') \<and>
    state (threads s' (current s)) = THREAD_TERMINATED \<and> thread_lookup n s' = thread_lookup n s \<and>
    state (threads s' (thread_lookup n s)) \<in> {THREAD_READY, THREAD_RUNNING}"
proof -
  let ?t = "thread_lookup n s"
  have ready: "state (threads s ?t) = THREAD_READY" using ok r by (auto simp: sched_ok_def queues_ok_def queued_def)
  have nc: "?t \<noteq> current s" using ok r by (auto simp: sched_ok_def)
  have "queued Q \<noteq> {}" using r by auto
  from sched_exit_switches [OF ok this] obtain s' t where e: "sched_exit s = Some s'"
    "state (threads s' (current s)) = THREAD_TERMINATED" "g_threads s' = g_threads s" "g_threads_ptr s' = g_threads_ptr s"
    "\<And>x. x \<noteq> t \<Longrightarrow> x \<noteq> current s \<Longrightarrow> threads s' x = threads s x" "state (threads s' t) = THREAD_RUNNING"
    by metis
  have "do_syscall SYS_THREAD_CONTROL TC_DESTROY n a3 a4 a5 a6 s = Some (Gone, s')"
    using p ready e(1) by (simp add: do_syscall_def sys_thread_control_def pager_of_def)
  moreover have "thread_lookup n s' = ?t" using e(3,4) by (simp add: thread_lookup_def)
  moreover have "state (threads s' ?t) \<in> {THREAD_READY, THREAD_RUNNING}"
    using e(5) [OF _ nc] e(6) ready by (cases "?t = t") auto
  ultimately show ?thesis using e(2) by blast
qed

text \<open>The registers that carry a message back from \<open>SYS_IPC\<close> are loaded from a structure on the
  kernel stack that is not initialised: after a send that met a waiting receiver, the caller
  finds in \<open>rdi\<close>, \<open>rsi\<close>, \<open>rdx\<close>, \<open>r10\<close> and \<open>r8\<close> whatever the stack held, and loses what it had there.\<close>

theorem ipc_send_returns_stale_words:
  assumes "rax regs = SYS_IPC" "IPC_OP (rdi regs) = IPC_SEND" "thread_lookup (IPC_TARGET (rdi regs)) s \<noteq> 0"
    and "ipc_send (thread_lookup (IPC_TARGET (rdi regs)) s) [rsi regs, rdx regs, r10 regs, r8 regs, r9 regs] s = Some (Done v [], s')"
  shows "syscall_dispatch [w0, w1, w2, w3, w4] regs s =
    Some (Some (regs\<lparr>rax := v, rdi := w0, rsi := w1, rdx := w2, r10 := w3, r8 := w4\<rparr>), s')"
  using assms by (simp add: syscall_dispatch_def do_syscall_def sys_ipc_def ret_words_def)


section \<open>Concrete calls\<close>

definition sys_small :: kernel where
  \<comment> \<open>thread 1 runs and is the pager of thread 2; its address space, at \<open>0x3000\<close>, holds a read grant of
    frame \<open>0x500\<close> and of no other\<close>
  "sys_small = vm_small\<lparr>current := 0x1000, g_threads_ptr := 0x6000, g_threads := [0, 0x1000, 0x2000],
     threads := (\<lambda>_. thread_zero)(0x1000 := thread_zero\<lparr>tid := 1, t_pmap := 0x3000\<rparr>,
       0x2000 := thread_zero\<lparr>tid := 2, pager_tid := 1, t_pmap := 0x4000\<rparr>),
     g_frames := 0x1000, g_refs := (\<lambda>_. 0)(0x500 := 1),
     grants := (\<lambda>_. \<lparr>ge_pfn = 0, ge_rights = 0\<rparr>)(0x20010 := \<lparr>ge_pfn = 0x500, ge_rights = GRANT_READ\<rparr>),
     grantq := \<lparr>nxt = [GrantHead 0x3000 \<mapsto> GrantNode 0x20010, GrantNode 0x20010 \<mapsto> GrantHead 0x3000],
       prv = [GrantHead 0x3000 \<mapsto> GrantNode 0x20010, GrantNode 0x20010 \<mapsto> GrantHead 0x3000], fault = False\<rparr>\<rparr>"

lemma sys_small_fields:
  "mem sys_small = (\<lambda>_. 0)" "pmaps sys_small p = \<lparr>pm_root_virt = phys_to_virt 0x200000, pm_root_phys = 0x200000\<rparr>"
  "thread_lookup 2 sys_small = 0x2000" "t_pmap (threads sys_small 0x2000) = 0x4000" "current sys_small = 0x1000"
  "t_pmap (threads sys_small 0x1000) = 0x3000" "pager_of 2 sys_small"
  by (simp_all add: sys_small_def vm_small_def kernel_zero_def thread_lookup_def pager_of_def thread_zero_def)

lemma sys_small_ok: "vm_ok (pm_root_virt (pmaps sys_small p)) (blk 256 4) sys_small"
proof -
  have "buddy_pages sys_small (blk 256 4)"
    using vm_small_ok buddy_pages_cong [of sys_small vm_small] by (simp add: vm_ok_def sys_small_def)
  then show ?thesis using vm_small_ok by (simp add: vm_ok_def sys_small_fields) (simp add: vm_small_def kernel_zero_def)
qed

lemma sys_small_flat: "\<not> huge_at (slots (mem sys_small)) r x"
  by (simp add: sys_small_fields huge_at_def pde_def slots_zero child_def)

lemma sys_small_holds:
  "grant_holds 0x3000 0x500 GRANT_READ sys_small = Some True" "grant_holds 0x3000 0x501 GRANT_READ sys_small = Some False"
  by (simp_all add: grant_holds_def sys_small_def vm_small_def kernel_zero_def grant_find.simps)

lemma sys_small_range: "holds_range 0x500000 0x501000 0x3000 GRANT_READ sys_small = Some True"
  using sys_small_holds(1) by (simp add: holds_range.simps phys_to_pfn_def)

theorem sys_map_extra_frame_witness:
  "\<exists>s'. sys_map 2 0x400800 0x500000 0x1000 1 sys_small = Some (Ret 0, s') \<and>
     phys_to_pfn (pmap_extract 0x4000 0x401800 s') = 0x501 \<and>
     grant_holds 0x3000 0x501 GRANT_READ sys_small = Some False"
  using sys_map_extra_frame [of 2 sys_small "0x4000" "blk 256 4" "0x1000" 1 "0x500000" "0x400800"]
    sys_small_ok [of "0x4000"] sys_small_flat sys_small_range sys_small_holds
  by (simp add: sys_small_fields(3-) prot_rights_def card_blk phys_to_pfn_def)


theorem sys_map_confined_witness:
  "\<exists>s'. sys_map 2 0x400000 0x500000 0x1000 1 sys_small = Some (Ret 0, s') \<and>
     pmap_extract 0x4000 0x400123 s' = 0x500123"
proof -
  have nh: "\<not> huge_at (slots (mem sys_small)) r x" for r x by (rule sys_small_flat)
  obtain err s1 where m: "pmap_map 0x4000 0x400000 0x500000 0x1000 (ucast (1 :: u64) OR PROT_USER) sys_small = Some (err, s1)" "err = 0"
    using pmap_map_spec [OF sys_small_ok [of "0x4000"] refl, of "0x1000" "ucast (1 :: u64) OR PROT_USER" "0x400000" "0x500000" "0x400000" "0x401000"] nh
    by (auto simp: card_blk split: if_splits)
  then obtain s' where run: "sys_map 2 0x400000 0x500000 0x1000 1 sys_small = Some (Ret 0, s')"
    using sys_map_run [of 2 sys_small "0x1000" 1 "0x500000" "0x400000" 0 s1] sys_small_range
    by (auto simp: sys_small_fields(3-) prot_rights_def)
  from sys_map_confined [OF run refl, of "blk 256 4"] sys_small_ok [of "0x4000"] nh
  have "pmap_extract 0x4000 0x400123 s' = 0x500000 + (0x400123 - 0x400000)"
    by (simp add: sys_small_fields(3-))
  then show ?thesis using run by simp
qed

theorem only_the_pager_witness:
  "do_syscall SYS_MAP 1 0x400000 0x500000 0x1000 1 0 sys_small = Some (Ret fail, sys_small)"
proof -
  have "\<not> pager_of 1 sys_small" by (simp add: pager_of_def sys_small_def thread_lookup_def thread_zero_def)
  from only_the_pager [OF this] show ?thesis by blast
qed

theorem sys_schedule_breaks_yield_witness:
  "\<exists>s'. do_syscall SYS_SCHEDULE 1 4 (- 1) 0 0 0 sys_small = Some (Ret 0, s') \<and> sched_yield s' = None"
  by (rule sys_schedule_breaks_yield) (simp_all add: sys_small_def thread_lookup_def)


definition listed :: kernel where
  \<comment> \<open>\<open>two_threads\<close> with a thread table\<close>
  "listed = two_threads\<lparr>g_threads := [0x1000, 0x8000], g_threads_ptr := 1\<rparr>"

theorem destroy_ready_thread_exits_caller_witness:
  "\<exists>s'. do_syscall SYS_THREAD_CONTROL TC_DESTROY 1 0 0 0 0 listed = Some (Gone, s') \<and>
     state (threads s' 0x1000) = THREAD_TERMINATED \<and> thread_lookup 1 s' = 0x8000"
proof -
  have "sched_ok listed ((\<lambda>_. [])(0 := [0x8000]))"
    using two_threads_ok by (simp add: listed_def sched_ok_def queues_ok_def runq_rep_def)
  moreover have l: "thread_lookup 1 listed = 0x8000" by (simp add: listed_def thread_lookup_def)
  moreover have c: "current listed = 0x1000" by (simp add: listed_def two_threads_fields)
  moreover have "pager_of 1 listed"
    by (simp add: pager_of_def l c)
      (simp add: listed_def two_threads_def sched_wakeup_def sched_enqueue_def one_thread_def thread_zero_def)
  moreover have "(0x8000 :: u64) \<in> queued ((\<lambda>_. [])(0 := [0x8000]))" by (auto simp: queued_def)
  ultimately show ?thesis
    using destroy_ready_thread_exits_caller [of listed "(\<lambda>_. [])(0 := [0x8000])" 1 0 0 0 0]
    by (simp del: fun_upd_apply) blast
qed

theorem ipc_send_returns_stale_words_witness:
  "\<exists>s'. syscall_dispatch [91, 92, 93, 94, 95] (tf thread_zero\<lparr>rax := SYS_IPC, rdi := 1\<rparr>) server_waits =
     Some (Some (tf thread_zero\<lparr>rax := 0, rdi := 91, rsi := 92, rdx := 93, r10 := 94, r8 := 95\<rparr>), s')"
proof -
  have b: "state (threads server_waits 0x2000) = THREAD_BLOCKED"
    "ep_state (threads server_waits 0x2000) = IPC_EP_WAIT_RECV" "0x2000 \<noteq> current server_waits"
    by (simp_all add: server_waits_def three_threads_fields)
  have q: "0x2000 \<notin> queued (\<lambda>_. [])" "(0x2000 :: u64) \<in> three" by (simp_all add: queued_def)
  have l: "thread_lookup 1 server_waits = 0x2000" by (simp add: server_waits_def thread_lookup_def three_threads_fields)
  have E: "((\<lambda>_. [])(0x2000 := [IpcNode 0x2000])) (0x2000 :: u64) = IpcNode 0x2000 # []" by simp
  let ?regs = "tf thread_zero\<lparr>rax := SYS_IPC, rdi := 1\<rparr>"
  let ?words = "[rsi ?regs, rdx ?regs, r10 ?regs, r8 ?regs, r9 ?regs]"
  obtain s' where "ipc_deliver_msg 0x2000 (tid (threads server_waits (current server_waits))) ?words 0 server_waits = Some s'"
    by (rule ipc_deliver_msg_spec [OF server_waits_rep q(2) E b(1) server_waits_ok _ b(3) q(1),
      of "tid (threads server_waits (current server_waits))" ?words 0]) simp_all
  then have "ipc_send 0x2000 ?words server_waits = Some (Done 0 [], s')" using b(2) by (simp add: ipc_send_def)
  from ipc_send_returns_stale_words [of ?regs server_waits 0 s' 91 92 93 94 95] this l show ?thesis
    by (simp add: IPC_OP_def IPC_TARGET_def)
qed

definition granting :: kernel where
  \<comment> \<open>thread 1, whose address space at \<open>0x3000\<close> holds frame \<open>0x500\<close>, and thread 2 with an empty one at \<open>0x4000\<close>\<close>
  "granting = heap_4k\<lparr>current := 0x1000, g_threads_ptr := 0x6000, g_threads := [0, 0x1000, 0x2000],
     threads := (\<lambda>_. thread_zero)(0x1000 := thread_zero\<lparr>tid := 1, t_pmap := 0x3000\<rparr>,
       0x2000 := thread_zero\<lparr>tid := 2, t_pmap := 0x4000\<rparr>),
     g_frames := 0x1000, g_refs := (\<lambda>_. 0)(0x500 := 1),
     grants := (\<lambda>_. \<lparr>ge_pfn = 0, ge_rights = 0\<rparr>)(0x30010 := \<lparr>ge_pfn = 0x500, ge_rights = GRANT_READ\<rparr>),
     grantq := \<lparr>nxt = [GrantHead 0x3000 \<mapsto> GrantNode 0x30010, GrantNode 0x30010 \<mapsto> GrantHead 0x3000, GrantHead 0x4000 \<mapsto> GrantHead 0x4000],
       prv = [GrantHead 0x3000 \<mapsto> GrantNode 0x30010, GrantNode 0x30010 \<mapsto> GrantHead 0x3000, GrantHead 0x4000 \<mapsto> GrantHead 0x4000], fault = False\<rparr>\<rparr>"

abbreviation (input) one_grant :: "u64 \<Rightarrow> u64 list" where "one_grant \<equiv> (\<lambda>_. [])(0x3000 := [0x30010])"

lemma granting_rights: "rights_of granting one_grant p = (if p = 0x3000 then [0x500 \<mapsto> GRANT_READ] else Map.empty)"
  by (simp add: rights_of_def granting_def)

lemma granting_holders: "holders granting {0x3000, 0x4000} one_grant x = (if x = 0x500 then {0x3000} else {})"
  by (auto simp: holders_def granting_rights)

lemma granting_inv: "grants_inv granting {0x3000, 0x4000} one_grant"
  using granting_holders by (simp add: grants_inv_def grant_rep_def) (simp add: granting_def dlists_def dlist_def)

theorem sys_grant_passes_on_witness:
  "\<exists>s' G'. sys_grant 2 0x500000 1 granting = Some (Ret 0, s') \<and> grants_inv s' {0x3000, 0x4000} G' \<and>
     grant_holds 0x4000 0x500 GRANT_READ s' = Some True \<and> grant_holds 0x4000 0x500 GRANT_WRITE s' = Some False \<and>
     grant_holds 0x3000 0x500 GRANT_READ s' = Some True"
proof -
  have "map_option fst (kmalloc sizeof_grant_entry granting) = Some 0x20010" by code_simp
  then obtain s1 where k: "kmalloc sizeof_grant_entry granting = Some (0x20010, s1)" by auto
  have f: "thread_lookup 2 granting = 0x2000" "t_pmap (threads granting 0x2000) = 0x4000" "current granting = 0x1000"
    "t_pmap (threads granting 0x1000) = 0x3000" "g_frames granting = 0x1000"
    by (simp_all add: granting_def thread_lookup_def)
  have pfn: "phys_to_pfn 0x500000 = 0x500" by (simp add: phys_to_pfn_def)
  have h: "grant_holds 0x3000 0x500 GRANT_READ granting = Some True"
    by (simp add: grant_holds_def granting_def grant_find.simps)
  obtain s' where "grant_add 0x4000 0x500 GRANT_READ granting = Some (0, s')"
    using grant_add_rights [OF granting_inv, of "0x4000" "0x500" "0x20010" s1 GRANT_READ] k f(5)
    by (auto simp: granting_rights)
  have few: "card (holders granting {0x3000, 0x4000} one_grant 0x500) + 1 < 2 ^ 16"
    using granting_holders by simp
  have granting_refs: "g_refs granting 0x500 = 1" by (simp add: granting_def)
  from \<open>grant_add 0x4000 0x500 GRANT_READ granting = Some (0, s')\<close>
  have run: "sys_grant 2 0x500000 1 granting = Some (Ret 0, s')"
    using h by (simp add: sys_grant_def f pfn)
  show ?thesis
    using sys_grant_passes_on [OF granting_inv run, of "0x4000" "0x20010" s1] k run h few
    by (auto simp: f pfn granting_rights granting_refs)
qed

end
