(* ===== verification/Machine.thy ===== *)
theory Machine
  imports Kernel_State
begin

text \<open>
  The processor setup of \<^verbatim>\<open>kernel/arch/x86_64\<close>: control registers and model-specific registers
  (\<^verbatim>\<open>cpu.c\<close>), segment descriptors and the task state segment (\<^verbatim>\<open>gdt.c\<close>), interrupt gates
  (\<^verbatim>\<open>idt.c\<close>) and the timer of the local APIC (\<^verbatim>\<open>lapic.c\<close>), together with the initcall
  mechanism that runs them (\<^verbatim>\<open>include/koharu/initcall.h\<close>). The state is that of the core that
  executes the code, with the tables all cores share. What the processor reports by the
  instruction \<open>cpuid\<close>, and the addresses of assembly routines, are arguments.
\<close>

section \<open>State\<close>

type_synonym cpuid_t = "u32 \<Rightarrow> u32 \<Rightarrow> u32 \<times> u32 \<times> u32 \<times> u32"

record arch_cpu =
  a_tss :: u64
  a_xsave_size :: u32

record cpu_t =
  c_self :: u64
  c_id :: u32
  c_hw_id :: u32
  c_tsc_freq_hz :: u64
  c_arch :: nat \<comment> \<open>\<open>arch_cpu_data\<close>, an index in \<open>arch_cpus\<close>\<close>

record gdt_entry_t =
  limit_low :: u16
  base_low :: u16
  base_mid :: u8
  access :: u8
  gd_flags :: u8
  base_high :: u8

record tss_descriptor_t =
  d_length :: u16
  d_base_low :: u16
  d_base_middle1 :: u8
  d_flags1 :: u8
  d_flags2 :: u8
  d_base_middle2 :: u8
  d_base_high :: u32
  d_reserved :: u32

record tss_entry_t =
  tss_koharu :: u32
  tss_rsp :: "u64 list"
  tss_is :: u32
  tss_ist :: "u64 list"
  tss_good :: u32
  tss_isntit :: u32
  tss_iomap_base :: u16
  tss_reserved :: u16

record table_register = \<comment> \<open>\<open>gdtr_t\<close>, \<open>idtr_t\<close>\<close>
  tr_limit :: u16
  tr_base :: u64

record GDT =
  entries :: "nat \<Rightarrow> gdt_entry_t" \<comment> \<open>entries 5 and 6 together are \<open>tss_desc\<close>\<close>
  tss_desc :: tss_descriptor_t
  g_pointer :: table_register
  g_tss :: tss_entry_t

record idt_entry_t =
  isr_low :: u16
  kernel_cs :: u16
  ist :: u8
  attributes :: u8
  isr_mid :: u16
  isr_high :: u32
  i_reserved :: u32

record isr_slot =
  slot_func :: u64
  slot_data :: u64

record machine =
  msrs :: "u32 \<Rightarrow> u64"
  cr4 :: u64
  xcr0 :: u64
  gdtr :: table_register
  idtr :: table_register
  cpus :: "u64 \<Rightarrow> cpu_t" \<comment> \<open>by address\<close>
  arch_cpus :: "nat \<Rightarrow> arch_cpu"
  logic_id :: u32
  gdt :: "nat \<Rightarrow> GDT"
  gdt_ready :: bool
  idt :: "u8 \<Rightarrow> idt_entry_t"
  idt_ready :: bool
  handlers :: "nat \<Rightarrow> isr_slot"

abbreviation (input) MAX_CPUS :: nat where "MAX_CPUS \<equiv> 255"
abbreviation (input) sizeof_cpu :: u64 where "sizeof_cpu \<equiv> 192"
abbreviation (input) IA32_EFER_MSR :: u32 where "IA32_EFER_MSR \<equiv> 0xC0000080"

section \<open>Model-specific registers and cpuid\<close>

definition rdmsr :: "u32 \<Rightarrow> machine \<Rightarrow> u64" where
  "rdmsr msr m = msrs m msr"

definition wrmsr :: "u32 \<Rightarrow> u64 \<Rightarrow> machine \<Rightarrow> machine" where
  "wrmsr msr v m = m\<lparr>msrs := (msrs m)(msr := v)\<rparr>"

definition is_intel :: "cpuid_t \<Rightarrow> bool" where
  "is_intel cpuid =
     (let (eax, ebx, ecx, edx) = cpuid 0 0
      in ebx = 0x756e6547 \<and> edx = 0x49656e69 \<and> ecx = 0x6c65746e)"

definition get_apic_id :: "cpuid_t \<Rightarrow> u32" where
  "get_apic_id cpuid = (let (eax, ebx, ecx, edx) = cpuid 1 0 in drop_bit 24 ebx AND 0xFF)"

section \<open>The structure of this core\<close>

definition init_cpu_gs :: "u64 \<Rightarrow> machine \<Rightarrow> machine" where
  "init_cpu_gs addr m = wrmsr 0xC0000102 addr (wrmsr 0xC0000101 addr m)"

definition get_this_core :: "machine \<Rightarrow> u64" where
  \<comment> \<open>the word at \<open>%gs:0\<close>, the member \<open>self\<close>\<close>
  "get_this_core m = c_self (cpus m (rdmsr 0xC0000101 m))"

definition cpu_addr :: "u64 \<Rightarrow> u32 \<Rightarrow> u64" where
  \<comment> \<open>\<open>&cpus[id]\<close>, for the array at address \<open>base\<close>\<close>
  "cpu_addr base n = base + sizeof_cpu * ucast n"

definition upd_cpu :: "u64 \<Rightarrow> (cpu_t \<Rightarrow> cpu_t) \<Rightarrow> machine \<Rightarrow> machine" where
  "upd_cpu a f m = m\<lparr>cpus := (cpus m)(a := f (cpus m a))\<rparr>"

definition init_percpu :: "cpuid_t \<Rightarrow> u64 \<Rightarrow> machine \<Rightarrow> int \<times> machine" where
  "init_percpu cpuid base m =
     (let hw_id = get_apic_id cpuid;
          my_id = logic_id m;
          m = m\<lparr>logic_id := my_id + 1\<rparr>;
          c = cpu_addr base my_id;
          m = upd_cpu c (\<lambda>r. r\<lparr>c_self := c, c_id := my_id, c_hw_id := hw_id, c_arch := unat my_id\<rparr>) m
      in (0, init_cpu_gs c m))"

section \<open>Features\<close>

definition enable_nx :: "machine \<Rightarrow> int \<times> machine" where
  "enable_nx m = (0, wrmsr IA32_EFER_MSR (rdmsr IA32_EFER_MSR m OR push_bit 11 1) m)"

definition enable_pge :: "cpuid_t \<Rightarrow> machine \<Rightarrow> int \<times> machine" where
  "enable_pge cpuid m =
     (let (eax, ebx, ecx, edx) = cpuid 1 0
      in if \<not> bit edx 13 then (- 1, m) else (0, m\<lparr>cr4 := cr4 m OR push_bit 7 1\<rparr>))"

definition enable_smepsmap :: "cpuid_t \<Rightarrow> machine \<Rightarrow> int \<times> machine" where
  "enable_smepsmap cpuid m =
     (let (eax, ebx, ecx, edx) = cpuid 7 0
      in if \<not> bit ebx 7 \<or> \<not> bit ebx 20 then (- 1, m)
         else (0, m\<lparr>cr4 := cr4 m OR push_bit 20 1 OR push_bit 21 1\<rparr>))"

definition enable_xsaves :: "cpuid_t \<Rightarrow> machine \<Rightarrow> int \<times> machine" where
  "enable_xsaves cpuid m =
     (let (eax, ebx, ecx, edx) = cpuid 1 0
      in if \<not> bit ecx 26 then (- 1, m)
         else
           let m = m\<lparr>cr4 := cr4 m OR push_bit 18 1\<rparr>;
               m = m\<lparr>xcr0 := 7\<rparr>;
               (eax, ebx, ecx, edx) = cpuid 0xD 1
           in if \<not> bit eax 3 then (- 1, m)
              else
                let m = wrmsr 0xDA0 0 m;
                    i = c_arch (cpus m (get_this_core m))
                in (0, m\<lparr>arch_cpus := (arch_cpus m)(i := (arch_cpus m i)\<lparr>a_xsave_size := ebx\<rparr>)\<rparr>))"

definition enable_fsgsbase :: "cpuid_t \<Rightarrow> machine \<Rightarrow> int \<times> machine" where
  "enable_fsgsbase cpuid m =
     (let (eax, ebx, ecx, edx) = cpuid 7 0
      in if \<not> bit ebx 0 then (- 1, m) else (0, m\<lparr>cr4 := cr4 m OR push_bit 16 1\<rparr>))"

definition enable_x2apic :: "cpuid_t \<Rightarrow> machine \<Rightarrow> int \<times> machine" where
  "enable_x2apic cpuid m =
     (let (eax, ebx, ecx, edx) = cpuid 1 0
      in if \<not> bit ecx 21 then (- 1, m)
         else
           let apic_base = rdmsr 0x1B m
           in if apic_base AND push_bit 10 3 = push_bit 10 3 then (0, m)
              else (0, wrmsr 0x1B (apic_base OR (push_bit 11 1 OR push_bit 10 1)) m))"

definition enable_syscalls :: "u64 \<Rightarrow> machine \<Rightarrow> int \<times> machine" where
  "enable_syscalls syscall_entry m =
     (let m = wrmsr 0xC0000081 0x0013000800000000 m;
          m = wrmsr 0xC0000082 syscall_entry m;
          m = wrmsr 0xC0000084 0x40700 m;
          efer = rdmsr 0xC0000080 m
      in (0, wrmsr 0xC0000080 (efer OR 1) m))"

definition set_tsc :: "u64 \<Rightarrow> machine \<Rightarrow> machine" where
  \<comment> \<open>\<open>curcpu->tsc_freq_hz = hz\<close>\<close>
  "set_tsc hz m = upd_cpu (get_this_core m) (\<lambda>c. c\<lparr>c_tsc_freq_hz := hz\<rparr>) m"

definition set_tsc_frequency :: "cpuid_t \<Rightarrow> machine \<Rightarrow> int \<times> machine" where
  \<comment> \<open>the three messages printed on the way are not modelled\<close>
  "set_tsc_frequency cpuid m =
     (let (eax, ebx, ecx, edx) = cpuid 0x40000010 0
      in if eax \<noteq> 0 then (0, set_tsc (ucast eax * 1000) m)
      else let (eax, ebx, ecx, edx) = cpuid 0x15 0
      in if eax \<noteq> 0 \<and> ebx \<noteq> 0 \<and> ecx \<noteq> 0 then (0, set_tsc (ucast ecx * ucast ebx div ucast eax) m)
      else if is_intel cpuid then
        let (eax, ebx, ecx, edx) = cpuid 0x16 0
        in if eax \<noteq> 0 then (0, set_tsc (ucast eax * 1000000) m)
           else
             let ratio = drop_bit 8 (rdmsr 0xCE m) AND 0xFF
             in if ratio \<noteq> 0 then (0, set_tsc (ratio * 100000000) m) else (- 1, m)
      else
        let pstate0 = rdmsr 0xC0010064 m
        in if bit pstate0 63 then
             let cpu_fid = drop_bit 8 pstate0 AND 0x3F;
                 cpu_did = pstate0 AND 0x3F
             in if cpu_did \<noteq> 0 then (0, set_tsc ((200 * cpu_fid div cpu_did) * 1000000) m)
                else (- 1, m)
           else (- 1, m))"

section \<open>Segments\<close>

abbreviation (input) sizeof_GDT :: u64 where "sizeof_GDT \<equiv> 24752"
abbreviation (input) tss_offset :: u64 where "tss_offset \<equiv> 66"
abbreviation (input) df_stack_offset :: u64 where "df_stack_offset \<equiv> 176"
abbreviation (input) kstack_offset :: u64 where "kstack_offset \<equiv> 8368"
abbreviation (input) sizeof_tss_entry :: u32 where "sizeof_tss_entry \<equiv> 100"

definition set_gdt_entry :: "nat \<Rightarrow> u8 \<Rightarrow> u8 \<Rightarrow> GDT \<Rightarrow> GDT" where
  "set_gdt_entry i acc fl g = g\<lparr>entries := (entries g)(i :=
     \<lparr>limit_low = 0xFFFF, base_low = 0, base_mid = 0, access = acc, gd_flags = fl, base_high = 0\<rparr>)\<rparr>"

definition init_gdt_cpu :: "u64 \<Rightarrow> GDT \<Rightarrow> GDT" where
  \<comment> \<open>the body of the loop of \<open>init_gdt\<close>, for the element at address \<open>a\<close>\<close>
  "init_gdt_cpu a g =
     (let g = set_gdt_entry 1 0x9A 0x20 g;
          g = set_gdt_entry 2 0x92 0x00 g;
          g = set_gdt_entry 3 0xF3 0x00 g;
          g = set_gdt_entry 4 0xFA 0x20 g;
          tss_base = a + tss_offset;
          tss_limit = sizeof_tss_entry - 1;
          g = g\<lparr>tss_desc := \<lparr>d_length = ucast (tss_limit AND 0xFFFF), d_base_low = ucast (tss_base AND 0xFFFF),
                d_base_middle1 = ucast (drop_bit 16 tss_base AND 0xFF), d_flags1 = 0x89,
                d_flags2 = ucast (drop_bit 16 tss_limit AND 0x0F),
                d_base_middle2 = ucast (drop_bit 24 tss_base AND 0xFF),
                d_base_high = ucast (drop_bit 32 tss_base AND 0xFFFFFFFF), d_reserved = 0\<rparr>\<rparr>;
          g = g\<lparr>g_tss := (g_tss g)\<lparr>tss_ist := (tss_ist (g_tss g))[0 := a + df_stack_offset + 8192]\<rparr>\<rparr>;
          g = g\<lparr>g_tss := (g_tss g)\<lparr>tss_rsp := (tss_rsp (g_tss g))[0 := a + kstack_offset + 16384]\<rparr>\<rparr>
      in g\<lparr>g_pointer := \<lparr>tr_limit = 55, tr_base = a\<rparr>\<rparr>)"

definition init_gdt :: "u64 \<Rightarrow> machine \<Rightarrow> machine" where
  "init_gdt gdt_base m = fold (\<lambda>i m.
       let a = gdt_base + sizeof_GDT * of_nat i;
           m = m\<lparr>gdt := (gdt m)(i := init_gdt_cpu a (gdt m i))\<rparr>
       in m\<lparr>arch_cpus := (arch_cpus m)(i := (arch_cpus m i)\<lparr>a_tss := a + tss_offset\<rparr>)\<rparr>)
     [0..<MAX_CPUS] m"

definition load_gdt :: "u64 \<Rightarrow> machine \<Rightarrow> int \<times> machine" where
  "load_gdt gdt_base m =
     (let m = (if gdt_ready m then m else init_gdt gdt_base m);
          m = m\<lparr>gdt_ready := True\<rparr>
      in (0, m\<lparr>gdtr := g_pointer (gdt m (unat (c_id (cpus m (get_this_core m)))))\<rparr>))"

section \<open>Interrupts\<close>

datatype isr_result = IsrCall u64 u64 | IsrHalt | IsrReturn

definition isr_handler :: "trapframe \<Rightarrow> machine \<Rightarrow> isr_result option" where
  \<comment> \<open>the messages are not modelled; a vector outside the table is an access out of bounds\<close>
  "isr_handler t m =
     (if vector t < 256 then
        let slot = handlers m (unat (vector t))
        in Some (if slot_func slot \<noteq> 0 then IsrCall (slot_func slot) (slot_data slot)
                 else if vector t \<noteq> 3 then IsrHalt else IsrReturn)
      else None)"

definition idt_set_descriptor :: "u8 \<Rightarrow> u64 \<Rightarrow> u8 \<Rightarrow> u8 \<Rightarrow> machine \<Rightarrow> machine" where
  "idt_set_descriptor vec addr fl n m = m\<lparr>idt := (idt m)(vec :=
     \<lparr>isr_low = ucast (addr AND 0xFFFF), kernel_cs = 0x08, ist = n AND 0x07, attributes = fl,
      isr_mid = ucast (drop_bit 16 addr AND 0xFFFF), isr_high = ucast (drop_bit 32 addr AND 0xFFFFFFFF),
      i_reserved = 0\<rparr>)\<rparr>"

definition register_handler :: "u8 \<Rightarrow> u64 \<Rightarrow> u64 \<Rightarrow> machine \<Rightarrow> machine" where
  "register_handler vec func data m =
     m\<lparr>handlers := (handlers m)(unat vec := \<lparr>slot_func = func, slot_data = data\<rparr>)\<rparr>"

definition init_idt :: "(nat \<Rightarrow> u64) \<Rightarrow> (nat \<Rightarrow> u64) \<Rightarrow> machine \<Rightarrow> machine" where
  "init_idt isr isr_stub_table m =
     (let m = fold (\<lambda>i. idt_set_descriptor (of_nat i) (isr i) 0x8E (if i = 8 then 1 else 0)) [0..<32] m
      in fold (\<lambda>i. idt_set_descriptor (of_nat (i + 32)) (isr_stub_table i) 0x8E 0) [0..<255 - 31] m)"

definition load_idt :: "u64 \<Rightarrow> (nat \<Rightarrow> u64) \<Rightarrow> (nat \<Rightarrow> u64) \<Rightarrow> machine \<Rightarrow> int \<times> machine" where
  "load_idt idt_base isr isr_stub_table m =
     (let m = (if idt_ready m then m else init_idt isr isr_stub_table m);
          m = m\<lparr>idt_ready := True\<rparr>
      in (0, m\<lparr>idtr := \<lparr>tr_limit = 4095, tr_base = idt_base\<rparr>\<rparr>))"

section \<open>The local APIC\<close>

abbreviation (input) LAPIC_TIMER_ONESHOT :: u64 where "LAPIC_TIMER_ONESHOT \<equiv> 0"
abbreviation (input) LAPIC_TIMER_PERIODIC :: u64 where "LAPIC_TIMER_PERIODIC \<equiv> 0x20000"
abbreviation (input) LAPIC_TIMER_MASKED :: u64 where "LAPIC_TIMER_MASKED \<equiv> 0x10000"

definition x2apic_eoi :: "machine \<Rightarrow> machine" where "x2apic_eoi m = wrmsr 0x80B 0 m"

definition x2apic_get_id :: "machine \<Rightarrow> u32" where "x2apic_get_id m = ucast (rdmsr 0x802 m)"

definition lapic_timer_stop :: "machine \<Rightarrow> machine" where
  "lapic_timer_stop m = wrmsr 0x832 LAPIC_TIMER_MASKED m"

definition lapic_timer_oneshot :: "u8 \<Rightarrow> u64 \<Rightarrow> machine \<Rightarrow> machine" where
  "lapic_timer_oneshot vec us m =
     (let m = lapic_timer_stop m;
          m = wrmsr 0x83E 0x0B m;
          ticks = (c_tsc_freq_hz (cpus m (get_this_core m)) div 1000000) * us;
          m = wrmsr 0x838 (ucast (ucast ticks :: u32)) m
      in wrmsr 0x832 (LAPIC_TIMER_ONESHOT OR ucast vec) m)"

definition lapic_timer_periodic :: "u8 \<Rightarrow> u32 \<Rightarrow> machine \<Rightarrow> machine option" where
  \<comment> \<open>none: the division by zero traps\<close>
  "lapic_timer_periodic vec hz m =
     (let m = lapic_timer_stop m;
          m = wrmsr 0x83E 0x0B m
      in if hz = 0 then None
         else
           let ticks = c_tsc_freq_hz (cpus m (get_this_core m)) div ucast hz;
               m = wrmsr 0x838 (ucast (ucast ticks :: u32)) m
           in Some (wrmsr 0x832 (LAPIC_TIMER_PERIODIC OR ucast vec) m))"

definition lapic_init :: "machine \<Rightarrow> int \<times> machine" where
  "lapic_init m =
     (let m = wrmsr 0x808 0 m
      in (0, wrmsr 0x80F (rdmsr 0x80F m OR (push_bit 8 1 OR 0xFF)) m))"

section \<open>Initcalls\<close>

fun run_initcalls :: "('s \<Rightarrow> (int \<times> 's) option) option list \<Rightarrow> 's \<Rightarrow> 's option" where
  \<comment> \<open>entries whose function is null are skipped; a function that fails stops the kernel\<close>
  "run_initcalls [] s = Some s"
| "run_initcalls (None # es) s = run_initcalls es s"
| "run_initcalls (Some f # es) s = do {
     (ret, s) \<leftarrow> f s;
     if ret \<noteq> 0 then None else run_initcalls es s}"

definition returns :: "('s \<Rightarrow> int \<times> 's) \<Rightarrow> 's \<Rightarrow> (int \<times> 's) option" where
  \<comment> \<open>an initcall that always comes to its end\<close>
  "returns f s = Some (f s)"

definition early_initcalls ::
  "cpuid_t \<Rightarrow> u64 \<Rightarrow> u64 \<Rightarrow> u64 \<Rightarrow> u64 \<Rightarrow> (nat \<Rightarrow> u64) \<Rightarrow> (nat \<Rightarrow> u64) \<Rightarrow> (machine \<Rightarrow> (int \<times> machine) option) option list" where
  \<comment> \<open>the entries of section \<open>early_initcall\<close> in the order of their priorities, without those of the
    serial port\<close>
  "early_initcalls cpuid cpus_base gdt_base idt_base syscall_entry isr isr_stub_table =
     map (\<lambda>f. Some (returns f))
       [init_percpu cpuid cpus_base, enable_nx, enable_pge cpuid, enable_smepsmap cpuid, enable_xsaves cpuid,
        enable_fsgsbase cpuid, enable_x2apic cpuid, enable_syscalls syscall_entry, set_tsc_frequency cpuid,
        load_gdt gdt_base, load_idt idt_base isr isr_stub_table]"

end
