(* ===== verification/Machine_Spec.thy ===== *)
theory Machine_Spec
  imports Machine
begin

text \<open>
  What the processor sees of the tables that \<^verbatim>\<open>gdt.c\<close> and \<^verbatim>\<open>idt.c\<close> build (the functions \<open>hw_\<dots>\<close> follow
  the layouts of the processor manual), and the state after the early initcalls.
\<close>

section \<open>What the processor reads\<close>

definition le :: "nat \<Rightarrow> 'a::len word \<Rightarrow> u8 list" where
  \<comment> \<open>the bytes of a number, least significant first\<close>
  "le n v = map (\<lambda>i. ucast (drop_bit (8 * i) v)) [0..<n]"

definition of_le :: "u8 list \<Rightarrow> u64" where
  "of_le bs = foldr (\<lambda>b v. ucast b OR push_bit 8 v) bs 0"

definition tss_bytes :: "tss_entry_t \<Rightarrow> u8 list" where
  \<comment> \<open>the packed structure \<open>tss_entry_t\<close> in memory\<close>
  "tss_bytes t = le 4 (tss_koharu t) @ concat (map (le 8) (tss_rsp t)) @ le 4 (tss_is t) @ concat (map (le 8) (tss_ist t)) @
     le 4 (tss_good t) @ le 4 (tss_isntit t) @ le 2 (tss_iomap_base t) @ le 2 (tss_reserved t)"

definition hw_rsp0 :: "u8 list \<Rightarrow> u64" where
  \<comment> \<open>the stack pointer for ring 0 in a 64-bit task state segment\<close>
  "hw_rsp0 bs = of_le (take 8 (drop 4 bs))"

definition hw_ist1 :: "u8 list \<Rightarrow> u64" where
  \<comment> \<open>the first entry of the interrupt stack table, at offset \<open>0x24\<close>\<close>
  "hw_ist1 bs = of_le (take 8 (drop 0x24 bs))"

definition hw_tss_base :: "tss_descriptor_t \<Rightarrow> u64" where
  "hw_tss_base d = ucast (d_base_low d) OR push_bit 16 (ucast (d_base_middle1 d)) OR
     push_bit 24 (ucast (d_base_middle2 d)) OR push_bit 32 (ucast (d_base_high d))"

definition hw_gate_offset :: "idt_entry_t \<Rightarrow> u64" where
  "hw_gate_offset e = ucast (isr_low e) OR push_bit 16 (ucast (isr_mid e)) OR push_bit 32 (ucast (isr_high e))"

section \<open>Gates\<close>

lemma mask_bits:
  "bit (0xFF :: u64) n \<longleftrightarrow> n < 8" "bit (0xFFFF :: u64) n \<longleftrightarrow> n < 16" "bit (0xFFFFFFFF :: u64) n \<longleftrightarrow> n < 32"
proof -
  have "(0xFF :: u64) = mask 8" "(0xFFFF :: u64) = mask 16" "(0xFFFFFFFF :: u64) = mask 32"
    by (simp_all add: mask_eq_exp_minus_1)
  then show "bit (0xFF :: u64) n \<longleftrightarrow> n < 8" "bit (0xFFFF :: u64) n \<longleftrightarrow> n < 16" "bit (0xFFFFFFFF :: u64) n \<longleftrightarrow> n < 32"
    by (simp_all only: bit_mask_iff) auto
qed

lemma gate_offset:
  "ucast (ucast (a AND 0xFFFF) :: u16) OR push_bit 16 (ucast (ucast (drop_bit 16 a AND 0xFFFF) :: u16)) OR
   push_bit 32 (ucast (ucast (drop_bit 32 a AND 0xFFFFFFFF) :: u32)) = (a :: u64)"
proof (rule bit_word_eqI)
  fix n assume "n < LENGTH(64)"
  then show "bit (ucast (ucast (a AND 0xFFFF) :: u16) OR push_bit 16 (ucast (ucast (drop_bit 16 a AND 0xFFFF) :: u16)) OR
      push_bit 32 (ucast (ucast (drop_bit 32 a AND 0xFFFFFFFF) :: u32)) :: u64) n = bit a n"
    by (simp only: bit_or_iff bit_and_iff bit_push_bit_iff bit_unsigned_iff bit_drop_bit_eq mask_bits o_def)
      (cases "n < 16"; cases "n < 32"; auto)
qed

lemma set_descriptor_get:
  "idt (idt_set_descriptor v a fl n m) w = (if w = v
     then \<lparr>isr_low = ucast (a AND 0xFFFF), kernel_cs = 0x08, ist = n AND 0x07, attributes = fl,
      isr_mid = ucast (drop_bit 16 a AND 0xFFFF), isr_high = ucast (drop_bit 32 a AND 0xFFFFFFFF), i_reserved = 0\<rparr>
     else idt m w)"
  by (simp add: idt_set_descriptor_def)

lemma set_descriptors:
  \<comment> \<open>a loop that writes the gates of \<open>k\<close> consecutive vectors\<close>
  assumes "b + k \<le> 256"
  shows "idt (fold (\<lambda>i. idt_set_descriptor (of_nat (b + i)) (f i) fl (g i)) [0..<k] m) v =
    (if b \<le> unat v \<and> unat v < b + k then idt (idt_set_descriptor v (f (unat v - b)) fl (g (unat v - b)) m) v else idt m v)"
  using assms
proof (induction k)
  case (Suc k)
  have "unat (of_nat (b + k) :: u8) = b + k" using Suc.prems by (simp add: unat_of_nat take_bit_nat_eq_self del: of_nat_add)
  then have "v = of_nat (b + k) \<longleftrightarrow> unat v = b + k" by (metis word_unat_eq_iff)
  then show ?case using Suc by (auto simp: set_descriptor_get simp del: of_nat_add)
qed auto

text \<open>C30: after \<open>load_idt\<close> has run for the first time, the processor finds behind each of the 256
  vectors the handler meant for it: the address assembled from the three parts of the gate is the
  routine of that vector, in the kernel's code segment, and no gate can be entered by an
  \<open>int\<close> instruction of user code (its privilege level is 0). Vector 8 alone switches stacks.\<close>

theorem load_idt_gates:
  assumes "\<not> idt_ready m" and r: "load_idt base isr stub m = (ret, m')"
  shows "ret = 0 \<and> tr_base (idtr m') = base \<and> unat (tr_limit (idtr m')) + 1 = 256 * 16 \<and>
    hw_gate_offset (idt m' v) = (if unat v < 32 then isr (unat v) else stub (unat v - 32)) \<and>
    kernel_cs (idt m' v) = 0x08 \<and> attributes (idt m' v) AND 0x60 = 0 \<and> bit (attributes (idt m' v)) 7 \<and>
    ist (idt m' v) = (if v = 8 then 1 else 0)"
proof -
  define m1 where "m1 = fold (\<lambda>i. idt_set_descriptor (of_nat (0 + i)) (isr i) 0x8E (if i = 8 then 1 else 0)) [0..<32] m"
  define m2 where "m2 = fold (\<lambda>i. idt_set_descriptor (of_nat (32 + i)) (stub i) 0x8E 0) [0..<224] m1"
  have m': "m' = m2\<lparr>idt_ready := True, idtr := \<lparr>tr_limit = 4095, tr_base = base\<rparr>\<rparr>" "ret = 0"
    using assms by (auto simp: load_idt_def init_idt_def m1_def m2_def add.commute Let_def)
  have v8: "v = 8 \<longleftrightarrow> unat v = 8" using word_unat_eq_iff [of v 8] by simp
  have 1: "idt m1 v = (if unat v < 32 then idt (idt_set_descriptor v (isr (unat v)) 0x8E (if unat v = 8 then 1 else 0) m) v else idt m v)"
    unfolding m1_def by (subst set_descriptors) simp_all
  have "unat v < 256" using unsigned_less [of v] by simp
  then have 2: "idt m2 v = (if unat v < 32 then idt m1 v else idt (idt_set_descriptor v (stub (unat v - 32)) 0x8E 0 m1) v)"
    unfolding m2_def by (subst set_descriptors) auto
  show ?thesis
    unfolding m' v8 using 1 2 by (simp add: set_descriptor_get hw_gate_offset_def gate_offset bit_simps)
qed


section \<open>The task state segment\<close>

lemma length_le [simp]: "length (le n v) = n" by (simp add: le_def)

lemma le_8: "le 8 v = [ucast v, ucast (drop_bit 8 v), ucast (drop_bit 16 v), ucast (drop_bit 24 v), ucast (drop_bit 32 v),
    ucast (drop_bit 40 v), ucast (drop_bit 48 v), ucast (drop_bit 56 v)]"
  by (simp add: le_def upt_rec)

lemma of_le_8:
  "of_le [b0, b1, b2, b3, b4, b5, b6, b7] = ucast b0 OR push_bit 8 (ucast b1) OR push_bit 16 (ucast b2) OR push_bit 24 (ucast b3) OR
     push_bit 32 (ucast b4) OR push_bit 40 (ucast b5) OR push_bit 48 (ucast b6) OR push_bit 56 (ucast b7)"
  by (simp add: of_le_def push_bit_or)

lemma of_le_le: "of_le (le 8 v) = v" for v :: u64
proof (rule bit_word_eqI)
  fix n assume "n < LENGTH(64)"
  then have "n < 8 \<or> (8 \<le> n \<and> n < 16) \<or> (16 \<le> n \<and> n < 24) \<or> (24 \<le> n \<and> n < 32) \<or> (32 \<le> n \<and> n < 40) \<or>
    (40 \<le> n \<and> n < 48) \<or> (48 \<le> n \<and> n < 56) \<or> (56 \<le> n \<and> n < 64)" by simp linarith
  then show "bit (of_le (le 8 v)) n = bit v n" unfolding le_8 of_le_8
    by (elim disjE conjE) (auto simp: bit_simps)
qed

lemma of_le_upper: "of_le (drop 4 (le 8 a) @ [0, 0, 0, 0]) = drop_bit 32 a" for a :: u64
proof (rule bit_word_eqI)
  fix n assume "n < LENGTH(64)"
  consider "n < 8" | "8 \<le> n" "n < 16" | "16 \<le> n" "n < 24" | "24 \<le> n" "n < 32" | "32 \<le> n" by linarith
  then show "bit (of_le (drop 4 (le 8 a) @ [0, 0, 0, 0])) n = bit (drop_bit 32 a) n"
    unfolding le_8 by cases (auto simp: of_le_8 bit_simps dest: bit_imp_le_length)
qed

lemma tss_base:
  "ucast (ucast (a AND 0xFFFF) :: u16) OR push_bit 16 (ucast (ucast (drop_bit 16 a AND 0xFF) :: u8)) OR
   push_bit 24 (ucast (ucast (drop_bit 24 a AND 0xFF) :: u8)) OR
   push_bit 32 (ucast (ucast (drop_bit 32 a AND 0xFFFFFFFF) :: u32)) = (a :: u64)"
proof (rule bit_word_eqI)
  fix n assume "n < LENGTH(64)"
  then show "bit (ucast (ucast (a AND 0xFFFF) :: u16) OR push_bit 16 (ucast (ucast (drop_bit 16 a AND 0xFF) :: u8)) OR
      push_bit 24 (ucast (ucast (drop_bit 24 a AND 0xFF) :: u8)) OR
      push_bit 32 (ucast (ucast (drop_bit 32 a AND 0xFFFFFFFF) :: u32)) :: u64) n = bit a n"
    by (simp only: bit_or_iff bit_and_iff bit_push_bit_iff bit_unsigned_iff bit_drop_bit_eq mask_bits o_def)
      (cases "n < 16"; cases "n < 24"; cases "n < 32"; auto)
qed

text \<open>The descriptor that \<open>init_gdt\<close> writes leads the processor to the task state segment, and the
  stack pointer for ring 0 is where the processor looks for it. The stack for double faults is
  not: the structure \<open>tss_entry_t\<close> lacks four reserved bytes, so its member \<open>ist[0]\<close> lies at offset
  \<open>0x20\<close> while the processor reads the entry at \<open>0x24\<close>. It gets the upper half of the stack's
  address in the low 32 bits, an address in the user half instead of the stack.\<close>

theorem tss_fault_stack_misplaced:
  assumes "tss_rsp (g_tss g) = [r0, r1, r2]" "tss_ist (g_tss g) = [i1, 0, i3, i4, i5, i6, i7]"
  shows "hw_tss_base (tss_desc (init_gdt_cpu a g)) = a + tss_offset \<and>
    hw_rsp0 (tss_bytes (g_tss (init_gdt_cpu a g))) = a + kstack_offset + 16384 \<and>
    tss_ist (g_tss (init_gdt_cpu a g)) ! 0 = a + df_stack_offset + 8192 \<and>
    hw_ist1 (tss_bytes (g_tss (init_gdt_cpu a g))) = drop_bit 32 (a + df_stack_offset + 8192)"
proof -
  let ?g = "init_gdt_cpu a g"
  have t: "tss_rsp (g_tss ?g) = [a + kstack_offset + 16384, r1, r2]"
    "tss_ist (g_tss ?g) = [a + df_stack_offset + 8192, 0, i3, i4, i5, i6, i7]"
    using assms by (simp_all add: init_gdt_cpu_def set_gdt_entry_def Let_def)
  have "hw_tss_base (tss_desc ?g) = a + tss_offset"
    using tss_base [of "a + tss_offset"] by (simp add: init_gdt_cpu_def hw_tss_base_def set_gdt_entry_def Let_def)
  moreover have "take 8 (drop 4 (tss_bytes (g_tss ?g))) = le 8 (a + kstack_offset + 16384)"
    by (simp add: tss_bytes_def t)
  then have "hw_rsp0 (tss_bytes (g_tss ?g)) = a + kstack_offset + 16384" by (simp add: hw_rsp0_def of_le_le)
  moreover have "take 8 (drop 0x24 (tss_bytes (g_tss ?g))) = drop 4 (le 8 (a + df_stack_offset + 8192)) @ [0, 0, 0, 0]"
    by (simp add: tss_bytes_def t le_8 [of 0])
  then have "hw_ist1 (tss_bytes (g_tss ?g)) = drop_bit 32 (a + df_stack_offset + 8192)"
    by (simp only: hw_ist1_def of_le_upper)
  ultimately show ?thesis using t(2) by simp
qed


section \<open>The early initcalls\<close>

lemma init_gdt_fields [simp]:
  "cr4 (init_gdt b m) = cr4 m" "msrs (init_gdt b m) = msrs m" "xcr0 (init_gdt b m) = xcr0 m" "cpus (init_gdt b m) = cpus m"
proof -
  have "cr4 (fold f xs m) = cr4 m \<and> msrs (fold f xs m) = msrs m \<and> xcr0 (fold f xs m) = xcr0 m \<and> cpus (fold f xs m) = cpus m"
    if "\<And>i m. cr4 (f i m) = cr4 m \<and> msrs (f i m) = msrs m \<and> xcr0 (f i m) = xcr0 m \<and> cpus (f i m) = cpus m"
    for f :: "nat \<Rightarrow> machine \<Rightarrow> machine" and xs
    using that by (induction xs arbitrary: m) auto
  then show "cr4 (init_gdt b m) = cr4 m" "msrs (init_gdt b m) = msrs m" "xcr0 (init_gdt b m) = xcr0 m" "cpus (init_gdt b m) = cpus m"
    by (simp_all add: init_gdt_def Let_def)
qed

lemma init_idt_fields [simp]:
  "cr4 (init_idt f g m) = cr4 m" "msrs (init_idt f g m) = msrs m" "xcr0 (init_idt f g m) = xcr0 m"
proof -
  have "cr4 (fold h xs m) = cr4 m \<and> msrs (fold h xs m) = msrs m \<and> xcr0 (fold h xs m) = xcr0 m"
    if "\<And>i m. cr4 (h i m) = cr4 m \<and> msrs (h i m) = msrs m \<and> xcr0 (h i m) = xcr0 m"
    for h :: "nat \<Rightarrow> machine \<Rightarrow> machine" and xs and m :: machine
    using that by (induction xs arbitrary: m) auto
  then show "cr4 (init_idt f g m) = cr4 m" "msrs (init_idt f g m) = msrs m" "xcr0 (init_idt f g m) = xcr0 m"
    by (simp_all add: init_idt_def idt_set_descriptor_def Let_def)
qed

definition keeps :: "machine \<Rightarrow> machine \<Rightarrow> bool" where
  \<comment> \<open>no feature is switched off again\<close>
  "keeps m m' \<longleftrightarrow> (\<forall>n. bit (cr4 m) n \<longrightarrow> bit (cr4 m') n) \<and>
     (\<forall>r \<in> {0xC0000080, 0x1B}. \<forall>n. bit (msrs m r) n \<longrightarrow> bit (msrs m' r) n)"

lemma keepsI: "cr4 m' = cr4 m \<Longrightarrow> msrs m' 0xC0000080 = msrs m 0xC0000080 \<Longrightarrow> msrs m' 0x1B = msrs m 0x1B \<Longrightarrow> keeps m m'"
  by (simp add: keeps_def)

lemma keeps_trans: "keeps m m' \<Longrightarrow> keeps m' m'' \<Longrightarrow> keeps m m''"
  by (auto simp: keeps_def)

lemma apic_mode: "x AND push_bit 10 3 = push_bit 10 3 \<Longrightarrow> bit x 10 \<and> bit x 11" for x :: u64
proof -
  assume e: "x AND push_bit 10 3 = push_bit 10 3"
  have "bit (push_bit 10 3 :: u64) 10" "bit (push_bit 10 3 :: u64) 11" by (simp_all add: bit_simps)
  then have "bit (x AND push_bit 10 3) 10" "bit (x AND push_bit 10 3) 11" by (simp_all only: e)
  then show ?thesis by (simp only: bit_and_iff)
qed

lemmas enable_defs = enable_nx_def enable_pge_def enable_smepsmap_def enable_xsaves_def enable_fsgsbase_def
  enable_syscalls_def wrmsr_def rdmsr_def Let_def

lemma enable_steps:
  "enable_nx m = (0, m') \<Longrightarrow> keeps m m' \<and> bit (msrs m' 0xC0000080) 11"
  "enable_pge cpuid m = (0, m') \<Longrightarrow> keeps m m' \<and> bit (cr4 m') 7"
  "enable_smepsmap cpuid m = (0, m') \<Longrightarrow> keeps m m' \<and> bit (cr4 m') 20 \<and> bit (cr4 m') 21"
  "enable_xsaves cpuid m = (0, m') \<Longrightarrow> keeps m m' \<and> bit (cr4 m') 18"
  "enable_fsgsbase cpuid m = (0, m') \<Longrightarrow> keeps m m' \<and> bit (cr4 m') 16"
  "enable_syscalls e m = (0, m') \<Longrightarrow> keeps m m' \<and> bit (msrs m' 0xC0000080) 0"
  by (auto simp: enable_defs keeps_def bit_or_iff bit_simps split: prod.splits if_splits)

lemma enable_x2apic_step:
  assumes "enable_x2apic cpuid m = (0, m')"
  shows "keeps m m' \<and> bit (msrs m' 0x1B) 10 \<and> bit (msrs m' 0x1B) 11"
  using assms apic_mode [of "msrs m 0x1B"]
  by (auto simp: enable_x2apic_def rdmsr_def wrmsr_def Let_def keeps_def bit_or_iff bit_simps split: prod.splits if_splits)

lemma later_steps:
  "init_percpu cpuid b m = (r, m') \<Longrightarrow> keeps m m'"
  "set_tsc_frequency cpuid m = (0, m') \<Longrightarrow> keeps m m'"
  "load_gdt b m = (r, m') \<Longrightarrow> keeps m m'"
  "load_idt b f g m = (r, m') \<Longrightarrow> keeps m m'"
  by (auto simp: init_percpu_def init_cpu_gs_def wrmsr_def upd_cpu_def load_gdt_def load_idt_def set_tsc_frequency_def set_tsc_def Let_def
      intro!: keepsI split: prod.splits if_splits)

lemma run_initcalls_step:
  assumes "run_initcalls (Some (returns f) # es) s = Some s'"
  obtains s1 where "f s = (0, s1)" "run_initcalls es s1 = Some s'"
  using assms by (cases "f s") (auto simp: returns_def split: if_splits)

text \<open>The registers that are given a value once and for all.\<close>

definition untouched :: "u32 set \<Rightarrow> machine \<Rightarrow> machine \<Rightarrow> bool" where
  \<comment> \<open>\<open>XCR0\<close> and all model-specific registers but these are the same\<close>
  "untouched R m m' \<longleftrightarrow> xcr0 m' = xcr0 m \<and> (\<forall>r. r \<notin> R \<longrightarrow> msrs m' r = msrs m r)"

lemma untouched_trans: "untouched R m m' \<Longrightarrow> untouched R' m' m'' \<Longrightarrow> untouched (R \<union> R') m m''"
  by (auto simp: untouched_def)

lemma untouched_steps:
  "enable_fsgsbase cpuid m = (0, m') \<Longrightarrow> untouched {} m m'"
  "enable_x2apic cpuid m = (0, m') \<Longrightarrow> untouched {0x1B} m m'"
  "enable_syscalls e m = (0, m') \<Longrightarrow> untouched {0xC0000080, 0xC0000081, 0xC0000082, 0xC0000084} m m'"
  "set_tsc_frequency cpuid m = (0, m') \<Longrightarrow> untouched {} m m'"
  "load_gdt b m = (r, m') \<Longrightarrow> untouched {} m m'"
  "load_idt b f g m = (r, m') \<Longrightarrow> untouched {} m m'"
  by (auto simp: untouched_def enable_defs enable_x2apic_def upd_cpu_def load_gdt_def load_idt_def set_tsc_frequency_def set_tsc_def
      split: prod.splits if_splits)

lemma programmed:
  "enable_xsaves cpuid m = (0, m') \<Longrightarrow> xcr0 m' = 7 \<and> msrs m' 0xDA0 = 0"
  "enable_syscalls e m = (0, m') \<Longrightarrow> msrs m' 0xC0000081 = 0x0013000800000000 \<and> msrs m' 0xC0000082 = e \<and> msrs m' 0xC0000084 = 0x40700"
  "load_idt b f g m = (r, m') \<Longrightarrow> idtr m' = \<lparr>tr_limit = 4095, tr_base = b\<rparr>"
  by (auto simp: enable_defs load_idt_def split: prod.splits if_splits)

definition protected :: "u64 \<Rightarrow> u64 \<Rightarrow> machine \<Rightarrow> bool" where
  "protected se ib m \<longleftrightarrow> bit (msrs m IA32_EFER_MSR) 0 \<and> bit (msrs m IA32_EFER_MSR) 11 \<and> bit (cr4 m) 7 \<and> bit (cr4 m) 16 \<and>
     bit (cr4 m) 18 \<and> bit (cr4 m) 20 \<and> bit (cr4 m) 21 \<and> bit (msrs m 0x1B) 10 \<and> bit (msrs m 0x1B) 11 \<and>
     xcr0 m = 7 \<and> msrs m 0xDA0 = 0 \<and> msrs m 0xC0000081 = 0x0013000800000000 \<and> msrs m 0xC0000082 = se \<and> msrs m 0xC0000084 = 0x40700 \<and>
     idtr m = \<lparr>tr_limit = 4095, tr_base = ib\<rparr>"

lemma early_initcalls_protect:
  assumes "run_initcalls (early_initcalls cpuid cb gb ib se isr stub) m = Some m'"
  shows "protected se ib m'"
proof -
  from assms obtain m1 m2 m3 m4 m5 m6 m7 m8 m9 m10 where s:
    "enable_nx m1 = (0, m2)" "enable_pge cpuid m2 = (0, m3)" "enable_smepsmap cpuid m3 = (0, m4)"
    "enable_xsaves cpuid m4 = (0, m5)" "enable_fsgsbase cpuid m5 = (0, m6)" "enable_x2apic cpuid m6 = (0, m7)"
    "enable_syscalls se m7 = (0, m8)" "set_tsc_frequency cpuid m8 = (0, m9)" "load_gdt gb m9 = (0, m10)"
    "load_idt ib isr stub m10 = (0, m')"
    unfolding early_initcalls_def list.map by (elim run_initcalls_step) auto
  note e = enable_steps(1) [OF s(1)] enable_steps(2) [OF s(2)] enable_steps(3) [OF s(3)] enable_steps(4) [OF s(4)]
    enable_steps(5) [OF s(5)] enable_x2apic_step [OF s(6)] enable_steps(6) [OF s(7)]
  have k8: "keeps m8 m'" using later_steps(2) [OF s(8)] later_steps(3) [OF s(9)] later_steps(4) [OF s(10)] by (blast intro: keeps_trans)
  have k7: "keeps m7 m'" and k6: "keeps m6 m'" and k5: "keeps m5 m'" and k4: "keeps m4 m'" and k3: "keeps m3 m'" and k2: "keeps m2 m'"
    using k8 e by (blast intro: keeps_trans)+
  note u = untouched_steps(1) [OF s(5)] untouched_steps(2) [OF s(6)] untouched_steps(3) [OF s(7)] untouched_steps(4) [OF s(8)]
    untouched_steps(5) [OF s(9)] untouched_steps(6) [OF s(10)]
  have "xcr0 m' = xcr0 m5" "msrs m' 0xDA0 = msrs m5 0xDA0" "\<And>r. msrs m' r = msrs m8 r" using u by (simp_all add: untouched_def)
  moreover note programmed(1) [OF s(4)] programmed(2) [OF s(7)] programmed(3) [OF s(10)]
  ultimately show ?thesis using e k8 k7 k6 k5 k4 k3 k2 by (simp add: keeps_def protected_def)
qed


definition cpu_full :: cpuid_t where
  \<comment> \<open>a processor that has every feature\<close>
  "cpu_full leaf sub = (0xFFFFFFFF, 0xFFFFFFFF, 0xFFFFFFFF, 0xFFFFFFFF)"

definition machine_reset :: machine where
  "machine_reset = \<lparr>msrs = (\<lambda>_. 0), cr4 = 0, xcr0 = 1, gdtr = \<lparr>tr_limit = 0, tr_base = 0\<rparr>, idtr = \<lparr>tr_limit = 0, tr_base = 0\<rparr>,
     cpus = (\<lambda>_. \<lparr>c_self = 0, c_id = 0, c_hw_id = 0, c_tsc_freq_hz = 0, c_arch = 0\<rparr>), arch_cpus = (\<lambda>_. \<lparr>a_tss = 0, a_xsave_size = 0\<rparr>),
     logic_id = 0, gdt = (\<lambda>_. undefined), gdt_ready = False, idt = (\<lambda>_. undefined), idt_ready = False,
     handlers = (\<lambda>_. \<lparr>slot_func = 0, slot_data = 0\<rparr>)\<rparr>"


theorem load_idt_gates_witness:
  "hw_gate_offset (idt (snd (load_idt 0x3000 (\<lambda>i. 0xFFFFFFFF80001000 + 16 * of_nat i) (\<lambda>i. 0xFFFFFFFF80002000 + 16 * of_nat i) machine_reset)) 14) =
     0xFFFFFFFF800010E0"
  using load_idt_gates [of machine_reset "0x3000" "\<lambda>i. 0xFFFFFFFF80001000 + 16 * of_nat i" "\<lambda>i. 0xFFFFFFFF80002000 + 16 * of_nat i",
    OF _ prod.collapse [symmetric], of 14] by (simp add: machine_reset_def)

theorem tss_fault_stack_misplaced_witness:
  "\<exists>g. hw_rsp0 (tss_bytes (g_tss (init_gdt_cpu 0xFFFFFFFF80010000 g))) = 0xFFFFFFFF800160B0 \<and>
     hw_ist1 (tss_bytes (g_tss (init_gdt_cpu 0xFFFFFFFF80010000 g))) = 0xFFFFFFFF"
proof -
  let ?g = "\<lparr>entries = (\<lambda>_. undefined), tss_desc = undefined, g_pointer = undefined,
    g_tss = \<lparr>tss_koharu = 0, tss_rsp = [0, 0, 0], tss_is = 0, tss_ist = [0, 0, 0, 0, 0, 0, 0], tss_good = 0, tss_isntit = 0,
      tss_iomap_base = 0, tss_reserved = 0\<rparr>\<rparr>"
  show ?thesis
    using tss_fault_stack_misplaced [of ?g 0 0 0 0 0 0 0 0 0 "0xFFFFFFFF80010000"] by (intro exI [of _ ?g]) simp
qed

end
