(* ===== verification/Boot.thy ===== *)
theory Boot
  imports Boot_Info Thread Grant
begin

text \<open>
  Bringing the system up: the kernel's own address space (\<^verbatim>\<open>kernel/mm/vmm.c\<close>), the tables of the
  firmware (\<^verbatim>\<open>kernel/dev/acpi.c\<close>), loading the root server from its ELF image and handing it the
  machine (\<^verbatim>\<open>kernel/task/init.c\<close>). Images and firmware tables are read from memory at their
  kernel addresses. \<open>None\<close> is a kernel that does not go on, in particular after \<open>boot_fail\<close>.
\<close>

section \<open>ELF headers\<close>

record Elf64_Ehdr =
  e_ident :: "u8 list"
  e_type :: u16
  e_machine :: u16
  e_version :: u32
  e_entry :: u64
  e_phoff :: u64
  e_shoff :: u64
  e_flags :: u32
  e_ehsize :: u16
  e_phentsize :: u16
  e_phnum :: u16
  e_shentsize :: u16
  e_shnum :: u16
  e_shstrndx :: u16

definition Ehdr_at :: "u64 \<Rightarrow> memory \<Rightarrow> Elf64_Ehdr" where
  "Ehdr_at a m = \<lparr>e_ident = map (\<lambda>i. m (a + of_nat i)) [0..<16], e_type = load16 (a + 16) m, e_machine = load16 (a + 18) m,
     e_version = load32 (a + 20) m, e_entry = load64 (a + 24) m, e_phoff = load64 (a + 32) m, e_shoff = load64 (a + 40) m,
     e_flags = load32 (a + 48) m, e_ehsize = load16 (a + 52) m, e_phentsize = load16 (a + 54) m, e_phnum = load16 (a + 56) m,
     e_shentsize = load16 (a + 58) m, e_shnum = load16 (a + 60) m, e_shstrndx = load16 (a + 62) m\<rparr>"

record Elf64_Phdr =
  p_type :: u32
  p_flags :: u32
  p_offset :: u64
  p_vaddr :: u64
  p_paddr :: u64
  p_filesz :: u64
  p_memsz :: u64
  p_align :: u64

definition Phdr_at :: "u64 \<Rightarrow> memory \<Rightarrow> Elf64_Phdr" where
  "Phdr_at a m = \<lparr>p_type = load32 a m, p_flags = load32 (a + 4) m, p_offset = load64 (a + 8) m, p_vaddr = load64 (a + 16) m,
     p_paddr = load64 (a + 24) m, p_filesz = load64 (a + 32) m, p_memsz = load64 (a + 40) m, p_align = load64 (a + 48) m\<rparr>"

record Elf64_Shdr =
  sh_name :: u32
  sh_type :: u32
  sh_flags :: u64
  sh_addr :: u64
  sh_offset :: u64
  sh_size :: u64
  sh_link :: u32
  sh_info :: u32
  sh_addralign :: u64
  sh_entsize :: u64

definition Shdr_at :: "u64 \<Rightarrow> memory \<Rightarrow> Elf64_Shdr" where
  "Shdr_at a m = \<lparr>sh_name = load32 a m, sh_type = load32 (a + 4) m, sh_flags = load64 (a + 8) m, sh_addr = load64 (a + 16) m,
     sh_offset = load64 (a + 24) m, sh_size = load64 (a + 32) m, sh_link = load32 (a + 40) m, sh_info = load32 (a + 44) m,
     sh_addralign = load64 (a + 48) m, sh_entsize = load64 (a + 56) m\<rparr>"

abbreviation (input) sizeof_Ehdr :: u64 where "sizeof_Ehdr \<equiv> 64"
abbreviation (input) sizeof_Phdr :: u64 where "sizeof_Phdr \<equiv> 56"
abbreviation (input) sizeof_Shdr :: u64 where "sizeof_Shdr \<equiv> 64"
abbreviation (input) PT_LOAD :: u32 where "PT_LOAD \<equiv> 1"

section \<open>The kernel's address space\<close>

fun map_sections :: "u64 list \<Rightarrow> u64 \<Rightarrow> kernel \<Rightarrow> (int \<times> kernel) option" where
  \<comment> \<open>the loop of \<open>map_kernel\<close> over the section headers at \<open>shdr\<close>\<close>
  "map_sections [] shdr s = Some (0, s)"
| "map_sections (i # is) shdr s =
     (let sec = Shdr_at (shdr + sizeof_Shdr * i) (mem s)
      in if sh_flags sec AND 2 = 0 then map_sections is shdr s
      else if sh_size sec = 0 then map_sections is shdr s
      else do {
        let vaddr = sh_addr sec;
        let map_flags = PROT_READ;
        let map_flags = (if sh_flags sec AND 1 \<noteq> 0 then map_flags OR PROT_WRITE else map_flags);
        let map_flags = (if sh_flags sec AND 4 \<noteq> 0 then map_flags OR PROT_EXEC else map_flags);
        let paddr = vaddr - 0xFFFFFFFF80000000;
        (err, s) \<leftarrow> pmap_map (kernel_pmap s) vaddr paddr (sh_size sec) map_flags s;
        if err \<noteq> 0 then Some (err, s) else map_sections is shdr s})"

definition map_kernel :: "u64 \<Rightarrow> kernel \<Rightarrow> (int \<times> kernel) option" where
  "map_kernel src s =
     (let ehdr = Ehdr_at src (mem s)
      in if take 4 (e_ident ehdr) \<noteq> [0x7F, 0x45, 0x4C, 0x46] then Some (- 1, s)
         else map_sections (map of_nat [0..<unat (e_shnum ehdr)]) (src + e_shoff ehdr) s)"

definition vmm_init :: "boot_info_t \<Rightarrow> kernel \<Rightarrow> (int \<times> kernel) option" where
  "vmm_init bi s = do {
     let (_, s) = pmap_init s;
     (err, s) \<leftarrow> pmap_map (kernel_pmap s) 0xFFFF800000000000 0 (max_phys_addr (bi_memory bi))
                   (PROT_READ OR PROT_WRITE OR PROT_HUGE) s;
     if err \<noteq> 0 then Some (err, s)
     else do {
       (err, s) \<leftarrow> map_kernel (kernel_src (bi_kernel bi)) s;
       if err \<noteq> 0 then Some (err, s)
       else Some (0, pmap_activate (kernel_pmap s) s)}}"

section \<open>Loading an ELF image\<close>

definition elf_ok :: "u64 \<Rightarrow> Elf64_Ehdr \<Rightarrow> bool" where
  \<comment> \<open>the checks at the start of \<open>elf_load\<close>, in order\<close>
  "elf_ok sz ehdr \<longleftrightarrow> \<not> sz < sizeof_Ehdr \<and> take 4 (e_ident ehdr) = [0x7F, 0x45, 0x4C, 0x46] \<and> e_ident ehdr ! 4 = 2 \<and>
     e_ident ehdr ! 5 = 1 \<and> e_type ehdr = 2 \<and> e_machine ehdr = 62 \<and> ucast (e_phentsize ehdr) = sizeof_Phdr \<and>
     \<not> e_phoff ehdr + ucast (e_phnum ehdr) * sizeof_Phdr > sz"

definition segment_prot :: "u32 \<Rightarrow> u32" where
  "segment_prot flags =
     (let prot = PROT_USER;
          prot = (if flags AND 4 \<noteq> 0 then prot OR PROT_READ else prot);
          prot = (if flags AND 2 \<noteq> 0 then prot OR PROT_WRITE else prot)
      in if flags AND 1 \<noteq> 0 then prot OR PROT_EXEC else prot)"

definition fill_page :: "u64 \<Rightarrow> u64 \<Rightarrow> u64 \<Rightarrow> Elf64_Phdr \<Rightarrow> memory \<Rightarrow> memory" where
  \<comment> \<open>the part of the segment that lies in the page at \<open>va\<close>: bytes of the file, then zeroes\<close>
  "fill_page page va elf ph m =
     (let f_lo = (if va > p_vaddr ph then va else p_vaddr ph);
          f_end = p_vaddr ph + p_filesz ph;
          f_hi = (if va + PAGE_SIZE < f_end then va + PAGE_SIZE else f_end);
          m = (if f_hi > f_lo then memcpy (page + (f_lo - va)) (elf + p_offset ph + (f_lo - p_vaddr ph)) (f_hi - f_lo) m else m);
          z_lo = (if va > f_end then va else f_end);
          z_end = p_vaddr ph + p_memsz ph;
          z_hi = (if va + PAGE_SIZE < z_end then va + PAGE_SIZE else z_end)
      in if z_hi > z_lo then memset (page + (z_lo - va)) 0 (z_hi - z_lo) m else m)"

partial_function (option) load_pages ::
  "u64 \<Rightarrow> u64 \<Rightarrow> u64 \<Rightarrow> u64 \<Rightarrow> Elf64_Phdr \<Rightarrow> kernel \<Rightarrow> (int \<times> kernel) option" where
  \<comment> \<open>\<open>for (; va < va_end; va += PAGE_SIZE)\<close>\<close>
  "load_pages va va_end pmap elf ph s =
     (if va < va_end then do {
        let (phys, s) = pmm_alloc_pages 0 s;
        if phys = 0 then Some (- 1, s)
        else do {
          (err, s) \<leftarrow> pmap_map pmap va phys PAGE_SIZE (segment_prot (p_flags ph)) s;
          if err \<noteq> 0 then Some (- 1, s)
          else load_pages (va + PAGE_SIZE) va_end pmap elf ph (s\<lparr>mem := fill_page (phys_to_virt phys) va elf ph (mem s)\<rparr>)}}
      else Some (0, s))"

fun load_segments :: "u64 list \<Rightarrow> u64 \<Rightarrow> u64 \<Rightarrow> u64 \<Rightarrow> u64 \<Rightarrow> kernel \<Rightarrow> (int \<times> kernel) option" where
  "load_segments [] pmap elf sz phdr s = Some (0, s)"
| "load_segments (i # is) pmap elf sz phdr s =
     (let ph = Phdr_at (phdr + sizeof_Phdr * i) (mem s)
      in if p_type ph \<noteq> PT_LOAD then load_segments is pmap elf sz phdr s
      else if p_offset ph + p_filesz ph > sz then Some (- 1, s)
      else do {
        let va = p_vaddr ph AND NOT (PAGE_SIZE - 1);
        let va_end = ALIGN_UP (p_vaddr ph + p_memsz ph) PAGE_SIZE;
        (err, s) \<leftarrow> load_pages va va_end pmap elf ph s;
        if err \<noteq> 0 then Some (err, s) else load_segments is pmap elf sz phdr s})"

definition elf_load :: "u64 \<Rightarrow> u64 \<Rightarrow> u64 \<Rightarrow> kernel \<Rightarrow> (int \<times> u64 \<times> kernel) option" where
  \<comment> \<open>the second component is \<open>*entry_out\<close>, 0 where it is not written\<close>
  "elf_load pmap elf sz s =
     (let ehdr = Ehdr_at elf (mem s)
      in if \<not> elf_ok sz ehdr then Some (- 1, 0, s)
      else do {
        (err, s) \<leftarrow> load_segments (map of_nat [0..<unat (e_phnum ehdr)]) pmap elf sz (elf + e_phoff ehdr) s;
        if err \<noteq> 0 then Some (err, 0, s) else Some (0, e_entry ehdr, s)})"

section \<open>The root server\<close>

abbreviation (input) ROOT_BOOT_VA :: u64 where "ROOT_BOOT_VA \<equiv> 0x700010001000"
abbreviation (input) ROOT_POOL_VA :: u64 where "ROOT_POOL_VA \<equiv> 0x700020000000"
abbreviation (input) ROOT_INITRD_VA :: u64 where "ROOT_INITRD_VA \<equiv> 0x700030000000"
abbreviation (input) sizeof_root_boot :: u64 where "sizeof_root_boot \<equiv> 56"

record root_boot =
  self_tid :: u64
  rb_fb :: framebuffer_t
  rb_initrd :: image_info_t
  pool_bytes :: u64
  frame_count :: u64

definition root_boot_at :: "u64 \<Rightarrow> memory \<Rightarrow> root_boot" where
  \<comment> \<open>the structure at an address; its packed members begin at offsets 8 and 22\<close>
  "root_boot_at a m = \<lparr>self_tid = load64 a m,
     rb_fb = \<lparr>fb_address = load64 (a + 8) m, fb_width = load16 (a + 16) m, fb_height = load16 (a + 18) m, fb_pitch = load16 (a + 20) m\<rparr>,
     rb_initrd = \<lparr>img_addr = load64 (a + 22) m, img_size = load64 (a + 30) m\<rparr>,
     pool_bytes = load64 (a + 40) m, frame_count = load64 (a + 48) m\<rparr>"

definition poke64 :: "u64 \<Rightarrow> u64 \<Rightarrow> kernel \<Rightarrow> kernel" where
  "poke64 a v s = s\<lparr>mem := store64 a v (mem s)\<rparr>"

definition poke16 :: "u64 \<Rightarrow> u16 \<Rightarrow> kernel \<Rightarrow> kernel" where
  "poke16 a v s = s\<lparr>mem := store_le 2 a v (mem s)\<rparr>"

partial_function (option) grant_frames :: "u64 \<Rightarrow> u64 \<Rightarrow> u64 \<Rightarrow> kernel \<Rightarrow> kernel option" where
  \<comment> \<open>the loop over the frame buffer; a failing \<open>grant_add\<close> ends in \<open>boot_fail\<close>\<close>
  "grant_frames pa pa_end pmap s =
     (if pa < pa_end then do {
        (err, s) \<leftarrow> grant_add pmap (phys_to_pfn pa) (GRANT_READ OR GRANT_WRITE OR GRANT_GRANT) s;
        if err \<noteq> 0 then None else grant_frames (pa + PAGE_SIZE) pa_end pmap s}
      else Some s)"

definition boot_map :: "u64 \<Rightarrow> u64 \<Rightarrow> u64 \<Rightarrow> u64 \<Rightarrow> u32 \<Rightarrow> kernel \<Rightarrow> kernel option" where
  \<comment> \<open>\<open>if (pmap_map(\<dots>) != 0) boot_fail(\<dots>)\<close>\<close>
  "boot_map pmap va pa n prot s = do {
     (err, s) \<leftarrow> pmap_map pmap va pa n prot s;
     if err \<noteq> 0 then None else Some s}"

definition rootserver_boot :: "boot_info_t \<Rightarrow> kernel \<Rightarrow> kernel option" where
  "rootserver_boot bi s = do {
     (pmap, s) \<leftarrow> pmap_create s;
     if pmap = 0 then None
     else do {
       let (boot_pg, s) = pmm_alloc_pages 0 s;
       if boot_pg = 0 then None
       else do {
         let boot = phys_to_virt boot_pg;
         let s = s\<lparr>mem := memset boot 0 sizeof_root_boot (mem s)\<rparr>;
         (err, ent, s) \<leftarrow> elf_load pmap (img_addr (bi_init bi)) (img_size (bi_init bi)) s;
         if err \<noteq> 0 then None
         else do {
           let s = grant_set_root pmap s;
           let fb = bi_framebuffer bi;
           let fb_phys = (if fb_address fb \<noteq> 0 then virt_to_phys (fb_address fb) else 0);
           let fb_bytes = ucast (fb_height fb) * ucast (fb_pitch fb) * 4;
           s \<leftarrow> (if fb_address fb \<noteq> 0 then grant_frames fb_phys (fb_phys + fb_bytes) pmap s else Some s);
           let s = poke64 (boot + 8) fb_phys s;
           let s = poke16 (boot + 16) (fb_width fb) s;
           let s = poke16 (boot + 18) (fb_height fb) s;
           let s = poke16 (boot + 20) (fb_pitch fb) s;
           (t, s) \<leftarrow> thread_create pmap ent ROOT_BOOT_VA 0 s;
           if t = 0 then None
           else do {
             let s = poke64 boot (tid (threads s t)) s;
             let (_, s) = grant_pool_build (entries (bi_memory bi)) s;
             let s = poke64 (boot + 40) (grant_pool_bytes s) s;
             let s = poke64 (boot + 48) (grant_frame_count s) s;
             s \<leftarrow> boot_map pmap ROOT_BOOT_VA boot_pg PAGE_SIZE (PROT_READ OR PROT_USER) s;
             s \<leftarrow> boot_map pmap ROOT_POOL_VA (grant_pool_phys s) (grant_pool_bytes s)
                    (PROT_READ OR PROT_WRITE OR PROT_USER) s;
             let initrd_size = img_size (bi_initrd bi);
             if initrd_size = 0 then Some (poke64 (boot + 30) 0 (poke64 (boot + 22) 0 s))
             else do {
               let initrd_phys = virt_to_phys (img_addr (bi_initrd bi));
               s \<leftarrow> boot_map pmap ROOT_INITRD_VA initrd_phys (ALIGN_UP initrd_size PAGE_SIZE) (PROT_READ OR PROT_USER) s;
               let s = poke64 (boot + 22) (ROOT_INITRD_VA + (initrd_phys AND (PAGE_SIZE - 1))) s;
               Some (poke64 (boot + 30) initrd_size s)}}}}}}"

section \<open>Tables of the firmware\<close>

definition sum_bytes :: "u64 \<Rightarrow> u64 \<Rightarrow> memory \<Rightarrow> u8" where
  "sum_bytes a n m = for_range 0 n (\<lambda>i sum. sum + m (a + i)) 0"

abbreviation (input) sizeof_sdt_header :: u64 where "sizeof_sdt_header \<equiv> 36"
abbreviation (input) sizeof_rsdp :: u64 where "sizeof_rsdp \<equiv> 36"

definition sdt_length :: "u64 \<Rightarrow> memory \<Rightarrow> u32" where "sdt_length header m = load32 (header + 4) m"

definition validate_checksum :: "u64 \<Rightarrow> memory \<Rightarrow> bool" where
  "validate_checksum header m \<longleftrightarrow> sum_bytes header (ucast (sdt_length header m)) m = 0"

function find_table_from :: "u64 \<Rightarrow> u64 \<Rightarrow> u64 \<Rightarrow> u8 list \<Rightarrow> memory \<Rightarrow> u64" where
  "find_table_from i n xsdt sig m =
     (if i < n then
        let header = phys_to_virt (load64 (xsdt + sizeof_sdt_header + 8 * i) m)
        in if map (\<lambda>k. m (header + of_nat k)) [0..<4] = sig \<and> validate_checksum header m then header
           else find_table_from (i + 1) n xsdt sig m
      else 0)"
  by pat_completeness auto
termination by (relation "measure (\<lambda>(i, n, _). unat n - unat i)") (auto simp: unat_inc word_less_nat_alt)

declare find_table_from.simps [simp del]

definition acpi_find_table :: "u64 \<Rightarrow> u8 list \<Rightarrow> memory \<Rightarrow> u64" where
  \<comment> \<open>the first argument is \<open>g_xsdt\<close>\<close>
  "acpi_find_table g_xsdt sig m =
     (if g_xsdt = 0 then 0
      else find_table_from 0 ((ucast (sdt_length g_xsdt m) - sizeof_sdt_header) div 8) g_xsdt sig m)"

definition acpi_init :: "boot_info_t \<Rightarrow> kernel \<Rightarrow> (int \<times> u64 \<times> kernel) option" where
  \<comment> \<open>the second component is the new value of \<open>g_xsdt\<close>, 0 where it is not written\<close>
  "acpi_init bi s = do {
     let rsdp = bi_rsdp_addr bi;
     (_, s) \<leftarrow> pmap_map (kernel_pmap s) rsdp (virt_to_phys rsdp) sizeof_rsdp PROT_READ s;
     if sum_bytes rsdp sizeof_rsdp (mem s) \<noteq> 0 then Some (- 1, 0, s)
     else do {
       let xsdt_phys = load64 (rsdp + 24) (mem s);
       let xsdt = phys_to_virt xsdt_phys;
       (_, s) \<leftarrow> pmap_map (kernel_pmap s) xsdt xsdt_phys sizeof_sdt_header PROT_READ s;
       (_, s) \<leftarrow> pmap_map (kernel_pmap s) xsdt xsdt_phys (ucast (sdt_length xsdt (mem s))) PROT_READ s;
       if \<not> validate_checksum xsdt (mem s) then Some (- 1, 0, s)
       else Some (0, xsdt, s)}}"

end
