(* ===== verification/Cpio.thy ===== *)
theory Cpio
  imports CString
begin

text \<open>
  The reader of \<open>newc\<close> archives of \<^verbatim>\<open>user/cpio.c\<close> (the boot loader has the same code), with which
  the root server finds programs in the initial ram disk. The archive is searched in memory
  from its first header; nothing bounds the search, so the loop is a partial function.
\<close>

section \<open>The reader\<close>

record cpio_header_t = \<comment> \<open>the members are addresses of fields of characters\<close>
  magic :: u64
  ino :: u64
  mode :: u64
  uid :: u64
  gid :: u64
  nlink :: u64
  mtime :: u64
  filesize :: u64
  devmajor :: u64
  devminor :: u64
  rdevmajor :: u64
  rdevminor :: u64
  namesize :: u64
  chk :: u64

definition header_at :: "u64 \<Rightarrow> cpio_header_t" where
  "header_at a = \<lparr>magic = a, ino = a + 6, mode = a + 14, uid = a + 22, gid = a + 30, nlink = a + 38, mtime = a + 46,
     filesize = a + 54, devmajor = a + 62, devminor = a + 70, rdevmajor = a + 78, rdevminor = a + 86, namesize = a + 94,
     chk = a + 102\<rparr>"

abbreviation (input) sizeof_cpio_header :: u64 where "sizeof_cpio_header \<equiv> 110"

definition hex_digit :: "u8 \<Rightarrow> u32" where
  \<comment> \<open>what one character contributes; 0 for anything that is no digit\<close>
  "hex_digit c =
     (if c \<ge> 0x30 \<and> c \<le> 0x39 then ucast (c - 0x30)
      else if c \<ge> 0x61 \<and> c \<le> 0x66 then ucast (c - 0x61 + 10)
      else if c \<ge> 0x41 \<and> c \<le> 0x46 then ucast (c - 0x41 + 10)
      else 0)"

definition parse_hex8 :: "u64 \<Rightarrow> memory \<Rightarrow> u32" where
  "parse_hex8 hex m = fold (\<lambda>i v. push_bit 4 v OR hex_digit (m (hex + of_nat i))) [0..<8] 0"

definition starts :: "u8 list \<Rightarrow> u64 \<Rightarrow> memory \<Rightarrow> bool" where
  \<comment> \<open>\<open>strncmp(a, "\<dots>", n) == 0\<close> for a literal of \<open>n\<close> characters\<close>
  "starts lit a m \<longleftrightarrow> map (\<lambda>i. m (a + of_nat i)) [0..<length lit] = lit"

abbreviation (input) CPIO_MAGIC :: "u8 list" where "CPIO_MAGIC \<equiv> [0x30, 0x37, 0x30, 0x37, 0x30, 0x31]"
abbreviation (input) TRAILER :: "u8 list" where
  "TRAILER \<equiv> [0x54, 0x52, 0x41, 0x49, 0x4C, 0x45, 0x52, 0x21, 0x21, 0x21]"

partial_function (option) cpio_scan :: "u64 \<Rightarrow> u64 \<Rightarrow> u64 \<Rightarrow> memory \<Rightarrow> (u64 \<times> u64) option option" where
  \<comment> \<open>the loop; the inner option is what the function reports, none for \<open>-1\<close>\<close>
  "cpio_scan current_offset base_addr target_filename m =
     (let header = header_at (base_addr + current_offset)
      in if \<not> starts CPIO_MAGIC (magic header) m then Some None
      else
        let fsize = parse_hex8 (filesize header) m;
            nsize = parse_hex8 (namesize header) m;
            filename = base_addr + current_offset + sizeof_cpio_header
        in if starts TRAILER filename m then Some None
        else
          let data_offset = sizeof_cpio_header + ucast nsize;
              data_offset = (data_offset + 3) AND NOT 3
          in case strcmp filename target_filename m of
               None \<Rightarrow> None
             | Some c \<Rightarrow>
                 if c = 0 then Some (Some (base_addr + current_offset + data_offset, ucast fsize))
                 else
                   let next_record_offset = data_offset + ucast fsize;
                       next_record_offset = (next_record_offset + 3) AND NOT 3
                   in cpio_scan (current_offset + next_record_offset) base_addr target_filename m)"

definition cpio_extract :: "u64 \<Rightarrow> u64 \<Rightarrow> memory \<Rightarrow> (int \<times> u64 \<times> u64) option" where
  \<comment> \<open>status, \<open>*out_base\<close> and \<open>*out_size\<close>, which are 0 where they are not written\<close>
  "cpio_extract cpio_base target_filename m =
     (case cpio_scan 0 cpio_base target_filename m of
        None \<Rightarrow> None
      | Some None \<Rightarrow> Some (- 1, 0, 0)
      | Some (Some (b, n)) \<Rightarrow> Some (0, b, n))"

section \<open>Archives\<close>

text \<open>A file of an archive: the characters of its name and the size of its contents.\<close>

record cpio_file =
  f_name :: "u8 list"
  f_size :: u32

definition string_at :: "u64 \<Rightarrow> u8 list \<Rightarrow> memory \<Rightarrow> bool" where
  "string_at a str m \<longleftrightarrow> cstr a (length str) m \<and> (\<forall>i < length str. m (a + of_nat i) = str ! i)"

definition data_start :: "cpio_file \<Rightarrow> u64" where
  "data_start f = (sizeof_cpio_header + (of_nat (length (f_name f)) + 1) + 3) AND NOT 3"

definition record_size :: "cpio_file \<Rightarrow> u64" where
  "record_size f = (data_start f + ucast (f_size f) + 3) AND NOT 3"

fun archive :: "cpio_file list \<Rightarrow> u64 \<Rightarrow> memory \<Rightarrow> bool" where
  \<comment> \<open>an archive with these files starts at address \<open>a\<close>\<close>
  "archive [] a m \<longleftrightarrow> starts CPIO_MAGIC a m \<and> starts TRAILER (a + sizeof_cpio_header) m"
| "archive (f # fs) a m \<longleftrightarrow> starts CPIO_MAGIC a m \<and> parse_hex8 (a + 54) m = f_size f \<and>
     parse_hex8 (a + 94) m = of_nat (length (f_name f)) + 1 \<and> length (f_name f) + 1 < 2 ^ 32 \<and>
     string_at (a + sizeof_cpio_header) (f_name f) m \<and> take 10 (f_name f) \<noteq> TRAILER \<and>
     archive fs (a + record_size f) m"

fun lookup_file :: "cpio_file list \<Rightarrow> u64 \<Rightarrow> u8 list \<Rightarrow> (u64 \<times> u64) option" where
  \<comment> \<open>what the search is to return: data address and size of the first file of that name\<close>
  "lookup_file [] a n = None"
| "lookup_file (f # fs) a n =
     (if f_name f = n then Some (a + data_start f, ucast (f_size f)) else lookup_file fs (a + record_size f) n)"

text \<open>For a literal \<open>lit\<close> that lies at address \<open>l\<close>, \<open>starts\<close> is the test \<open>strncmp(a, l, n) == 0\<close> of
  the code, by the model of \<open>strncmp\<close>.\<close>

lemma starts_Cons: "starts (x # lit) a m \<longleftrightarrow> m a = x \<and> starts lit (a + 1) m"
proof -
  have "map (\<lambda>i. m (a + of_nat i)) [0..<length (x # lit)] = m a # map (\<lambda>i. m (a + 1 + of_nat i)) [0..<length lit]"
    by (simp add: upt_conv_Cons map_Suc_upt [symmetric] comp_def add.assoc del: upt_Suc)
  then show ?thesis by (simp add: starts_def)
qed

lemma starts_strncmp:
  assumes "starts lit l m" "0 \<notin> set lit" "length lit < 2 ^ 64"
  shows "starts lit a m \<longleftrightarrow> strncmp a l (of_nat (length lit)) m = 0"
  using assms
proof (induction lit arbitrary: a l)
  case Nil
  then show ?case by (simp add: starts_def strncmp.simps)
next
  case (Cons x lit)
  have n: "(of_nat (length (x # lit)) :: u64) > 0"
    using Cons.prems(3) by (simp add: word_less_nat_alt unat_of_nat take_bit_nat_eq_self del: of_nat_Suc)
  have l: "m l = x" "starts lit (l + 1) m" "x \<noteq> 0" "0 \<notin> set lit" using Cons.prems by (auto simp: starts_Cons)
  have "starts lit (a + 1) m \<longleftrightarrow> strncmp (a + 1) (l + 1) (of_nat (length lit)) m = 0"
    using Cons.IH [OF l(2,4)] Cons.prems(3) by simp
  then show ?case using n l
    by (subst strncmp.simps) (auto simp: starts_Cons byte_diff_def word_uint_eq_iff)
qed

lemma starts_string:
  assumes "string_at a str m" "take n str \<noteq> lit" "0 \<notin> set lit" "n = length lit"
  shows "\<not> starts lit a m"
proof
  assume s: "starts lit a m"
  then have nth: "m (a + of_nat i) = lit ! i" if "i < length lit" for i
    using that unfolding starts_def by (metis (mono_tags, lifting) add_0 diff_zero length_upt nth_map nth_upt)
  have "length lit \<le> length str"
  proof (rule ccontr)
    assume "\<not> length lit \<le> length str"
    then have "lit ! length str = 0" using assms(1) nth [of "length str"] by (simp add: string_at_def cstr_def)
    then show False using assms(3) \<open>\<not> length lit \<le> length str\<close> by (metis not_le nth_mem)
  qed
  moreover from this have "str ! i = lit ! i" if "i < length lit" for i
    using nth [OF that] assms(1) that by (simp add: string_at_def)
  ultimately have "take (length lit) str = lit" by (intro nth_equalityI) auto
  then show False using assms(2,4) by simp
qed

lemma strcmp_strings:
  assumes "string_at a str m" "string_at b t m"
  obtains c where "strcmp a b m = Some c" "c = 0 \<longleftrightarrow> str = t"
proof -
  have "cstr a (length str) m" "cstr b (length t) m" using assms by (simp_all add: string_at_def)
  from strcmp_equal [OF this] obtain c where c: "strcmp a b m = Some c"
    "c = 0 \<longleftrightarrow> length str = length t \<and> (\<forall>i < length str. m (a + of_nat i) = m (b + of_nat i))" by blast
  moreover have "length str = length t \<and> (\<forall>i < length str. m (a + of_nat i) = m (b + of_nat i)) \<longleftrightarrow> str = t"
    using assms by (auto simp: string_at_def list_eq_iff_nth_eq)
  ultimately show thesis using that by blast
qed

lemma cpio_scan_lookup:
  assumes "archive fs (base + off) m" "string_at t name m"
  shows "cpio_scan off base t m = Some (lookup_file fs (base + off) name)"
  using assms(1)
proof (induction fs arbitrary: off)
  case Nil
  then show ?case by (subst cpio_scan.simps) (simp add: header_at_def)
next
  case (Cons f fs)
  let ?a = "base + off"
  have name: "string_at (?a + sizeof_cpio_header) (f_name f) m" using Cons.prems by simp
  have nt: "\<not> starts TRAILER (?a + sizeof_cpio_header) m"
    by (rule starts_string [OF name, of 10]) (use Cons.prems in simp_all)
  have len: "ucast (of_nat (length (f_name f)) + 1 :: u32) = (of_nat (length (f_name f)) + 1 :: u64)"
  proof -
    have "unat (of_nat (Suc (length (f_name f))) :: u32) = Suc (length (f_name f))"
      unfolding unat_of_nat by (rule mod_less) (use Cons.prems in simp)
    then have "ucast (of_nat (Suc (length (f_name f))) :: u32) = (of_nat (Suc (length (f_name f))) :: u64)"
      by (metis unsigned_of_nat of_nat_unat)
    then show ?thesis by (simp add: add.commute)
  qed
  obtain c where c: "strcmp (?a + sizeof_cpio_header) t m = Some c" "c = 0 \<longleftrightarrow> f_name f = name"
    by (rule strcmp_strings [OF name assms(2)])
  have IH: "cpio_scan (off + record_size f) base t m = Some (lookup_file fs (base + (off + record_size f)) name)"
    by (rule Cons.IH) (use Cons.prems in \<open>simp add: add.assoc\<close>)
  show ?case
    using Cons.prems nt c IH
    by (subst cpio_scan.simps) (simp add: header_at_def len data_start_def record_size_def add.assoc)
qed


text \<open>C20: in a well-formed archive \<open>cpio_extract\<close> returns, with the address and the size of the contents
  of the first file that has the name asked for, or with \<open>-1\<close> when no file before the trailer has
  it.\<close>

theorem cpio_extract_finds:
  assumes "archive fs base m" "string_at t name m"
  shows "cpio_extract base t m =
    Some (case lookup_file fs base name of None \<Rightarrow> (- 1, 0, 0) | Some (b, n) \<Rightarrow> (0, b, n))"
  using cpio_scan_lookup [of fs base 0 m t name] assms by (auto simp: cpio_extract_def split: option.splits)

section \<open>Hexadecimal fields\<close>

definition hex_char :: "u32 \<Rightarrow> u8" where
  \<comment> \<open>the digit for the low four bits, as an archiver writes it\<close>
  "hex_char d = (let d = d AND 0xF in if d < 10 then 0x30 + ucast d else 0x61 + ucast (d - 10))"

definition print_hex8 :: "u32 \<Rightarrow> u8 list" where
  "print_hex8 v = map (\<lambda>i. hex_char (drop_bit (28 - 4 * i) v)) [0..<8]"

lemma hex_digit_char: "hex_digit (hex_char d) = d AND 0xF"
proof -
  define e where "e = d AND 0xF"
  have "unat e < 16" using word_and_le1 [of d "0xF"] by (simp add: e_def word_le_nat_alt)
  then have "unat e \<in> set [0..<16]" by simp
  then have "e \<in> set (map of_nat [0..<16])" by (metis imageI set_map of_nat_unat ucast_id)
  then have "e \<in> {0, 1, 2, 3, 4, 5, 6, 7, 8, 9, 10, 11, 12, 13, 14, 15}" by (simp add: upt_rec)
  then have "hex_digit (if e < 10 then 0x30 + ucast e else 0x61 + ucast (e - 10)) = e"
    by (elim insertE emptyE) (simp_all add: hex_digit_def)
  then show ?thesis unfolding hex_char_def Let_def e_def .
qed


text \<open>A 32-bit number written as eight hexadecimal digits, which is how an archive stores the sizes,
  is read back by \<open>parse_hex8\<close>.\<close>

theorem parse_print_hex8:
  assumes "map (\<lambda>i. m (a + of_nat i)) [0..<8] = print_hex8 v"
  shows "parse_hex8 a m = v"
proof -
  have d: "m (a + of_nat i) = hex_char (drop_bit (28 - 4 * i) v)" if "i < 8" for i
    using arg_cong [OF assms, of "\<lambda>xs. xs ! i"] that by (simp add: print_hex8_def)
  have "fold (\<lambda>i w. push_bit 4 w OR hex_digit (m (a + of_nat i))) [0..<k] 0 = drop_bit (32 - 4 * k) v" if "k \<le> 8" for k
    using that
  proof (induction k)
    case 0
    have "drop_bit 32 v = 0" by (rule bit_word_eqI) (auto simp: bit_drop_bit_eq dest: bit_imp_le_length)
    then show ?case by simp
  next
    case (Suc k)
    have f: "(0xF :: u32) = mask 4" by (simp add: mask_eq_exp_minus_1)
    have e: "28 - 4 * k + 4 = 32 - 4 * k" using Suc.prems by simp
    have "push_bit 4 (drop_bit (32 - 4 * k) v) OR (drop_bit (28 - 4 * k) v AND 0xF) = drop_bit (28 - 4 * k) v"
      unfolding f e [symmetric]
    proof (rule bit_word_eqI)
      fix n assume "n < LENGTH(32)"
      then show "bit (push_bit 4 (drop_bit (28 - 4 * k + 4) v) OR (drop_bit (28 - 4 * k) v AND mask 4)) n =
          bit (drop_bit (28 - 4 * k) v) n"
        by (cases "n < 4") (auto simp: bit_simps ac_simps)
    qed
    then show ?case using Suc d [of k] by (simp add: hex_digit_char)
  qed
  from this [of 8] show ?thesis by (simp add: parse_hex8_def)
qed

definition hex_field :: memory where
  \<comment> \<open>\<open>000BEEF1\<close> at address 100\<close>
  "hex_field = (\<lambda>_. 0)(100 := 0x30, 101 := 0x30, 102 := 0x30, 103 := 0x62, 104 := 0x65, 105 := 0x65, 106 := 0x66, 107 := 0x31)"

theorem parse_print_hex8_witness: "parse_hex8 100 hex_field = 0xBEEF1"
  by (rule parse_print_hex8) (simp add: hex_field_def print_hex8_def hex_char_def upt_rec)

section \<open>A small archive\<close>

definition put_bytes :: "(u64 \<times> u8 list) list \<Rightarrow> memory" where
  "put_bytes ps = fold (\<lambda>(a, bs) m. fold (\<lambda>(i, b) m. m(a + of_nat i := b)) (enumerate 0 bs) m) ps (\<lambda>_. 0)"

definition small_archive :: memory where
  \<comment> \<open>the file \<open>a\<close> with 5 bytes, then the trailer, at \<open>0x1000\<close>; the string \<open>a\<close> at \<open>0x10\<close>\<close>
  "small_archive = put_bytes [(0x1000, CPIO_MAGIC), (0x1000 + 54, print_hex8 5), (0x1000 + 94, print_hex8 2), (0x1000 + 110, [0x61]),
     (0x1000 + 120, CPIO_MAGIC), (0x1000 + 120 + 110, TRAILER), (0x10, [0x61])]"

theorem cpio_extract_finds_witness:
  "cpio_extract 0x1000 0x10 small_archive = Some (0, 0x1000 + 112, 5)"
proof -
  let ?f = "\<lparr>f_name = [0x61], f_size = 5\<rparr>"
  have "starts CPIO_MAGIC 0x1000 small_archive" "starts CPIO_MAGIC (0x1000 + 120) small_archive"
    "starts TRAILER (0x1000 + 120 + 110) small_archive" "parse_hex8 (0x1000 + 54) small_archive = 5"
    "parse_hex8 (0x1000 + 94) small_archive = 2" by code_simp+
  moreover have "small_archive (0x1000 + 110) = 0x61" "small_archive (0x1000 + 111) = 0" "small_archive 0x10 = 0x61" "small_archive 0x11 = 0"
    by code_simp+
  then have "string_at (0x1000 + 110) [0x61] small_archive" "string_at 0x10 [0x61] small_archive"
    by (simp_all add: string_at_def cstr_def)
  moreover have "record_size ?f = 120" "data_start ?f = 112" by code_simp+
  ultimately show ?thesis using cpio_extract_finds [of "[?f]" "0x1000" small_archive "0x10" "[0x61]"] by simp
qed

end
