(* ===== verification/Rb_Tree.thy ===== *)
theory Rb_Tree
  imports Prelude "HOL-Library.Monad_Syntax"
begin

text \<open>
  The rank-balanced trees of \<^verbatim>\<open>user/include/tree.h\<close>, as \<open>RB_GENERATE\<close> instantiates them: nodes are
  addresses (0 is null), the two low bits of the parent link say which child is "red". The
  comparison function is an argument. Every access to a member of the null node is the value
  \<open>None\<close>, and so is a loop that does not end.
\<close>

section \<open>Links\<close>

record rb_links =
  rbe_left :: "u64 \<Rightarrow> u64"
  rbe_right :: "u64 \<Rightarrow> u64"
  rbe_parent :: "u64 \<Rightarrow> u64" \<comment> \<open>with the colour bits\<close>
  rbh_root :: u64

abbreviation (input) RB_RED_L :: u64 where "RB_RED_L \<equiv> 1"
abbreviation (input) RB_RED_R :: u64 where "RB_RED_R \<equiv> 2"
abbreviation (input) RB_RED_MASK :: u64 where "RB_RED_MASK \<equiv> 3"

definition RB_INIT :: "rb_links \<Rightarrow> rb_links" where "RB_INIT t = t\<lparr>rbh_root := 0\<rparr>"

definition set_left :: "u64 \<Rightarrow> u64 \<Rightarrow> rb_links \<Rightarrow> rb_links" where
  "set_left x v t = t\<lparr>rbe_left := (rbe_left t)(x := v)\<rparr>"
definition set_right :: "u64 \<Rightarrow> u64 \<Rightarrow> rb_links \<Rightarrow> rb_links" where
  "set_right x v t = t\<lparr>rbe_right := (rbe_right t)(x := v)\<rparr>"
definition set_bits :: "u64 \<Rightarrow> u64 \<Rightarrow> rb_links \<Rightarrow> rb_links" where
  "set_bits x v t = t\<lparr>rbe_parent := (rbe_parent t)(x := v)\<rparr>"

definition RB_FLIP_LEFT :: "u64 \<Rightarrow> rb_links \<Rightarrow> rb_links" where
  "RB_FLIP_LEFT x t = set_bits x (rbe_parent t x XOR RB_RED_L) t"
definition RB_FLIP_RIGHT :: "u64 \<Rightarrow> rb_links \<Rightarrow> rb_links" where
  "RB_FLIP_RIGHT x t = set_bits x (rbe_parent t x XOR RB_RED_R) t"
definition RB_RED_LEFT :: "u64 \<Rightarrow> rb_links \<Rightarrow> bool" where
  "RB_RED_LEFT x t \<longleftrightarrow> rbe_parent t x AND RB_RED_L \<noteq> 0"
definition RB_RED_RIGHT :: "u64 \<Rightarrow> rb_links \<Rightarrow> bool" where
  "RB_RED_RIGHT x t \<longleftrightarrow> rbe_parent t x AND RB_RED_R \<noteq> 0"
definition RB_PARENT :: "u64 \<Rightarrow> rb_links \<Rightarrow> u64" where
  "RB_PARENT x t = rbe_parent t x AND NOT RB_RED_MASK"

definition RB_SET_PARENT :: "u64 \<Rightarrow> u64 \<Rightarrow> rb_links \<Rightarrow> rb_links" where
  "RB_SET_PARENT dst src t = set_bits dst ((rbe_parent t dst AND RB_RED_MASK) OR src) t"

definition RB_SET :: "u64 \<Rightarrow> u64 \<Rightarrow> rb_links \<Rightarrow> rb_links" where
  "RB_SET x parent t = set_left x 0 (set_right x 0 (set_bits x parent t))"

definition RB_SWAP_CHILD :: "u64 \<Rightarrow> u64 \<Rightarrow> rb_links \<Rightarrow> rb_links" where
  "RB_SWAP_CHILD out inn t =
     (if RB_PARENT out t = 0 then t\<lparr>rbh_root := inn\<rparr>
      else if out = rbe_left t (RB_PARENT out t) then set_left (RB_PARENT out t) inn t
      else set_right (RB_PARENT out t) inn t)"

definition RB_ROTATE_LEFT :: "u64 \<Rightarrow> rb_links \<Rightarrow> (u64 \<times> rb_links) option" where
  \<comment> \<open>the result is the new value of \<open>tmp\<close> and the links\<close>
  "RB_ROTATE_LEFT x t =
     (let tmp = rbe_right t x
      in if tmp = 0 then None
         else
           let t = set_right x (rbe_left t tmp) t;
               t = (if rbe_right t x \<noteq> 0 then RB_SET_PARENT (rbe_right t x) x t else t);
               t = RB_SET_PARENT tmp (RB_PARENT x t) t;
               t = RB_SWAP_CHILD x tmp t;
               t = set_left tmp x t;
               t = RB_SET_PARENT x tmp t
           in Some (tmp, t))"

definition RB_ROTATE_RIGHT :: "u64 \<Rightarrow> rb_links \<Rightarrow> (u64 \<times> rb_links) option" where
  "RB_ROTATE_RIGHT x t =
     (let tmp = rbe_left t x
      in if tmp = 0 then None
         else
           let t = set_left x (rbe_right t tmp) t;
               t = (if rbe_left t x \<noteq> 0 then RB_SET_PARENT (rbe_left t x) x t else t);
               t = RB_SET_PARENT tmp (RB_PARENT x t) t;
               t = RB_SWAP_CHILD x tmp t;
               t = set_right tmp x t;
               t = RB_SET_PARENT x tmp t
           in Some (tmp, t))"

section \<open>Insertion\<close>

definition insert_fix_left :: "u64 \<Rightarrow> u64 \<Rightarrow> rb_links \<Rightarrow> rb_links option" where
  \<comment> \<open>the rotations of \<open>RB_INSERT_COLOR\<close> when \<open>elm\<close> is the left child, and what follows the branch\<close>
  "insert_fix_left elm parent t = do {
     (elm, t) \<leftarrow> (if \<not> RB_RED_RIGHT elm t then do {
         let t = RB_FLIP_LEFT elm t;
         (child, t) \<leftarrow> RB_ROTATE_LEFT elm t;
         let t = (if RB_RED_LEFT child t then RB_FLIP_RIGHT elm t
                  else if RB_RED_RIGHT child t then RB_FLIP_LEFT parent t else t);
         Some (child, t)}
       else Some (elm, t));
     (elm, t) \<leftarrow> RB_ROTATE_RIGHT parent t;
     Some (set_bits elm (rbe_parent t elm AND NOT RB_RED_MASK) t)}"

definition insert_fix_right :: "u64 \<Rightarrow> u64 \<Rightarrow> rb_links \<Rightarrow> rb_links option" where
  "insert_fix_right elm parent t = do {
     (elm, t) \<leftarrow> (if \<not> RB_RED_LEFT elm t then do {
         let t = RB_FLIP_RIGHT elm t;
         (child, t) \<leftarrow> RB_ROTATE_RIGHT elm t;
         let t = (if RB_RED_RIGHT child t then RB_FLIP_LEFT elm t
                  else if RB_RED_LEFT child t then RB_FLIP_RIGHT parent t else t);
         Some (child, t)}
       else Some (elm, t));
     (elm, t) \<leftarrow> RB_ROTATE_LEFT parent t;
     Some (set_bits elm (rbe_parent t elm AND NOT RB_RED_MASK) t)}"

partial_function (option) RB_INSERT_COLOR :: "u64 \<Rightarrow> rb_links \<Rightarrow> rb_links option" where
  "RB_INSERT_COLOR elm t =
     (let parent = RB_PARENT elm t
      in if parent = 0 then Some t
      else if rbe_left t parent = elm then
        if RB_RED_LEFT parent t then Some (RB_FLIP_LEFT parent t)
        else
          let t = RB_FLIP_RIGHT parent t
          in if RB_RED_RIGHT parent t then RB_INSERT_COLOR parent t
             else insert_fix_left elm parent t
      else
        if RB_RED_RIGHT parent t then Some (RB_FLIP_RIGHT parent t)
        else
          let t = RB_FLIP_LEFT parent t
          in if RB_RED_LEFT parent t then RB_INSERT_COLOR parent t
             else insert_fix_right elm parent t)"

partial_function (option) insert_place :: "(u64 \<Rightarrow> int) \<Rightarrow> u64 \<Rightarrow> u64 \<Rightarrow> int \<Rightarrow> rb_links \<Rightarrow> (u64 \<times> u64 \<times> int) option" where
  \<comment> \<open>the descent of \<open>RB_INSERT\<close>; the result is \<open>tmp\<close>, \<open>parent\<close> and \<open>comp\<close> at its end\<close>
  "insert_place cmp tmp parent cm t =
     (if tmp = 0 then Some (0, parent, cm)
      else
        let parent = tmp;
            cm = cmp parent
        in if cm < 0 then insert_place cmp (rbe_left t tmp) parent cm t
           else if cm > 0 then insert_place cmp (rbe_right t tmp) parent cm t
           else Some (tmp, parent, cm))"

definition RB_INSERT :: "(u64 \<Rightarrow> int) \<Rightarrow> u64 \<Rightarrow> rb_links \<Rightarrow> (u64 \<times> rb_links) option" where
  \<comment> \<open>the first argument is \<open>cmp(elm, \<hyphen>)\<close>; without \<open>RB_AUGMENT\<close> the last loop does nothing\<close>
  "RB_INSERT cmp elm t = do {
     (tmp, parent, cm) \<leftarrow> insert_place cmp (rbh_root t) 0 0 t;
     if tmp \<noteq> 0 then Some (tmp, t)
     else do {
       let t = RB_SET elm parent t;
       let t = (if parent = 0 then t\<lparr>rbh_root := elm\<rparr>
                else if cm < 0 then set_left parent elm t else set_right parent elm t);
       t \<leftarrow> RB_INSERT_COLOR elm t;
       Some (0, t)}}"

section \<open>Removal\<close>

definition remove_fix_left :: "u64 \<Rightarrow> u64 \<Rightarrow> rb_links \<Rightarrow> rb_links option" where
  \<comment> \<open>the rotations of \<open>RB_REMOVE_COLOR\<close> when the short subtree is the left one\<close>
  "remove_fix_left parent sib t = do {
     let t = RB_FLIP_RIGHT sib t;
     (sib, t) \<leftarrow> (if RB_RED_LEFT sib t then Some (sib, RB_FLIP_LEFT parent t)
       else if \<not> RB_RED_RIGHT sib t then do {
         let t = RB_FLIP_LEFT parent t;
         (elm, t) \<leftarrow> RB_ROTATE_RIGHT sib t;
         let t = (if RB_RED_RIGHT elm t then RB_FLIP_LEFT sib t else t);
         let t = (if RB_RED_LEFT elm t then RB_FLIP_RIGHT parent t else t);
         Some (elm, set_bits elm (rbe_parent t elm OR RB_RED_MASK) t)}
       else Some (sib, t));
     (_, t) \<leftarrow> RB_ROTATE_LEFT parent t;
     Some t}"

definition remove_fix_right :: "u64 \<Rightarrow> u64 \<Rightarrow> rb_links \<Rightarrow> rb_links option" where
  "remove_fix_right parent sib t = do {
     let t = RB_FLIP_LEFT sib t;
     (sib, t) \<leftarrow> (if RB_RED_RIGHT sib t then Some (sib, RB_FLIP_RIGHT parent t)
       else if \<not> RB_RED_LEFT sib t then do {
         let t = RB_FLIP_RIGHT parent t;
         (elm, t) \<leftarrow> RB_ROTATE_LEFT sib t;
         let t = (if RB_RED_LEFT elm t then RB_FLIP_RIGHT sib t else t);
         let t = (if RB_RED_RIGHT elm t then RB_FLIP_LEFT parent t else t);
         Some (elm, set_bits elm (rbe_parent t elm OR RB_RED_MASK) t)}
       else Some (sib, t));
     (_, t) \<leftarrow> RB_ROTATE_RIGHT parent t;
     Some t}"

partial_function (option) remove_color_loop :: "u64 \<Rightarrow> u64 \<Rightarrow> rb_links \<Rightarrow> rb_links option" where
  \<comment> \<open>\<open>do { \<dots> } while ((parent = RB_PARENT(elm, field)) != NULL)\<close>\<close>
  "remove_color_loop parent elm t =
     (if rbe_left t parent = elm then
        if \<not> RB_RED_LEFT parent t then Some (RB_FLIP_LEFT parent t)
        else if RB_RED_RIGHT parent t then
          let t = RB_FLIP_RIGHT parent t
          in if RB_PARENT parent t = 0 then Some t else remove_color_loop (RB_PARENT parent t) parent t
        else
          let sib = rbe_right t parent
          in if sib = 0 then None
             else if NOT (rbe_parent t sib) AND RB_RED_MASK = 0 then
               let t = set_bits sib (rbe_parent t sib AND NOT RB_RED_MASK) t
               in if RB_PARENT parent t = 0 then Some t else remove_color_loop (RB_PARENT parent t) parent t
             else remove_fix_left parent sib t
      else
        if \<not> RB_RED_RIGHT parent t then Some (RB_FLIP_RIGHT parent t)
        else if RB_RED_LEFT parent t then
          let t = RB_FLIP_LEFT parent t
          in if RB_PARENT parent t = 0 then Some t else remove_color_loop (RB_PARENT parent t) parent t
        else
          let sib = rbe_left t parent
          in if sib = 0 then None
             else if NOT (rbe_parent t sib) AND RB_RED_MASK = 0 then
               let t = set_bits sib (rbe_parent t sib AND NOT RB_RED_MASK) t
               in if RB_PARENT parent t = 0 then Some t else remove_color_loop (RB_PARENT parent t) parent t
             else remove_fix_right parent sib t)"

definition RB_REMOVE_COLOR :: "u64 \<Rightarrow> u64 \<Rightarrow> rb_links \<Rightarrow> rb_links option" where
  "RB_REMOVE_COLOR parent elm t =
     (if rbe_left t parent = elm \<and> rbe_right t parent = elm then
        let t = set_bits parent (rbe_parent t parent AND NOT RB_RED_MASK) t;
            elm = parent;
            parent = RB_PARENT elm t
        in if parent = 0 then Some t else remove_color_loop parent elm t
      else remove_color_loop parent elm t)"

partial_function (option) leftmost :: "u64 \<Rightarrow> rb_links \<Rightarrow> u64 option" where
  \<comment> \<open>\<open>while (RB_LEFT(elm)) elm = RB_LEFT(elm)\<close>\<close>
  "leftmost elm t = (if rbe_left t elm \<noteq> 0 then leftmost (rbe_left t elm) t else Some elm)"

partial_function (option) rightmost :: "u64 \<Rightarrow> rb_links \<Rightarrow> u64 option" where
  "rightmost elm t = (if rbe_right t elm \<noteq> 0 then rightmost (rbe_right t elm) t else Some elm)"

definition copy_links :: "u64 \<Rightarrow> u64 \<Rightarrow> rb_links \<Rightarrow> rb_links" where
  \<comment> \<open>\<open>elm->field = old->field\<close>\<close>
  "copy_links elm old t = set_left elm (rbe_left t old) (set_right elm (rbe_right t old) (set_bits elm (rbe_parent t old) t))"

definition RB_REMOVE :: "u64 \<Rightarrow> rb_links \<Rightarrow> rb_links option" where
  \<comment> \<open>without \<open>RB_AUGMENT\<close> the last loop does nothing; the result \<open>old\<close> is the argument\<close>
  "RB_REMOVE old t = do {
     let parent = RB_PARENT old t;
     let right = rbe_right t old;
     (elm, child, parent, t) \<leftarrow>
       (if rbe_left t old = 0 then Some (right, right, parent, t)
        else if right = 0 then Some (rbe_left t old, rbe_left t old, parent, t)
        else do {
          (elm, child, parent, t) \<leftarrow>
            (if rbe_left t right = 0 then
               let child = rbe_right t right
               in Some (right, child, right, set_right old child t)
             else do {
               elm \<leftarrow> leftmost (rbe_left t right) t;
               let child = rbe_right t elm;
               let parent = RB_PARENT elm t;
               let t = set_left parent child t;
               Some (elm, child, parent, RB_SET_PARENT (rbe_right t old) elm t)});
          let t = RB_SET_PARENT (rbe_left t old) elm t;
          Some (elm, child, parent, copy_links elm old t)});
     let t = RB_SWAP_CHILD old elm t;
     let t = (if child \<noteq> 0 then RB_SET_PARENT child parent t else t);
     if parent \<noteq> 0 then RB_REMOVE_COLOR parent child t else Some t}"

section \<open>Searching\<close>

partial_function (option) find_from :: "(u64 \<Rightarrow> int) \<Rightarrow> u64 \<Rightarrow> rb_links \<Rightarrow> u64 option" where
  "find_from cmp tmp t =
     (if tmp = 0 then Some 0
      else if cmp tmp < 0 then find_from cmp (rbe_left t tmp) t
      else if cmp tmp > 0 then find_from cmp (rbe_right t tmp) t
      else Some tmp)"

definition RB_FIND :: "(u64 \<Rightarrow> int) \<Rightarrow> rb_links \<Rightarrow> u64 option" where
  "RB_FIND cmp t = find_from cmp (rbh_root t) t"

partial_function (option) nfind_from :: "(u64 \<Rightarrow> int) \<Rightarrow> u64 \<Rightarrow> u64 \<Rightarrow> rb_links \<Rightarrow> u64 option" where
  "nfind_from cmp tmp res t =
     (if tmp = 0 then Some res
      else if cmp tmp < 0 then nfind_from cmp (rbe_left t tmp) tmp t
      else if cmp tmp > 0 then nfind_from cmp (rbe_right t tmp) res t
      else Some tmp)"

definition RB_NFIND :: "(u64 \<Rightarrow> int) \<Rightarrow> rb_links \<Rightarrow> u64 option" where
  "RB_NFIND cmp t = nfind_from cmp (rbh_root t) 0 t"

partial_function (option) climb_right :: "u64 \<Rightarrow> rb_links \<Rightarrow> u64 option" where
  \<comment> \<open>\<open>while (RB_PARENT(elm) && elm == RB_RIGHT(RB_PARENT(elm))) elm = RB_PARENT(elm);\<close> and one step more\<close>
  "climb_right elm t =
     (if RB_PARENT elm t \<noteq> 0 \<and> elm = rbe_right t (RB_PARENT elm t) then climb_right (RB_PARENT elm t) t
      else Some (RB_PARENT elm t))"

partial_function (option) climb_left :: "u64 \<Rightarrow> rb_links \<Rightarrow> u64 option" where
  "climb_left elm t =
     (if RB_PARENT elm t \<noteq> 0 \<and> elm = rbe_left t (RB_PARENT elm t) then climb_left (RB_PARENT elm t) t
      else Some (RB_PARENT elm t))"

definition RB_NEXT :: "u64 \<Rightarrow> rb_links \<Rightarrow> u64 option" where
  "RB_NEXT elm t =
     (if elm = 0 then None
      else if rbe_right t elm \<noteq> 0 then leftmost (rbe_right t elm) t
      else if RB_PARENT elm t \<noteq> 0 \<and> elm = rbe_left t (RB_PARENT elm t) then Some (RB_PARENT elm t)
      else climb_right elm t)"

definition RB_PREV :: "u64 \<Rightarrow> rb_links \<Rightarrow> u64 option" where
  "RB_PREV elm t =
     (if elm = 0 then None
      else if rbe_left t elm \<noteq> 0 then rightmost (rbe_left t elm) t
      else if RB_PARENT elm t \<noteq> 0 \<and> elm = rbe_right t (RB_PARENT elm t) then Some (RB_PARENT elm t)
      else climb_left elm t)"

partial_function (option) minmax_from :: "int \<Rightarrow> u64 \<Rightarrow> u64 \<Rightarrow> rb_links \<Rightarrow> u64 option" where
  "minmax_from val tmp parent t =
     (if tmp = 0 then Some parent
      else minmax_from val (if val < 0 then rbe_left t tmp else rbe_right t tmp) tmp t)"

definition RB_MINMAX :: "int \<Rightarrow> rb_links \<Rightarrow> u64 option" where
  "RB_MINMAX val t = minmax_from val (rbh_root t) 0 t"

end
