(* ===== verification/Vma.thy ===== *)
theory Vma
  imports Rb_Tree
begin

text \<open>
  The memory regions the root server keeps for its child, \<^verbatim>\<open>user/vma.c\<close>: a set of address
  ranges as a search tree ordered by start address, threaded by a doubly linked list, with nodes
  from a fixed pool. There is one set, so its head is part of the state.
\<close>

section \<open>State\<close>

record vma =
  v_start :: u64
  v_end :: u64
  v_prot :: u64
  v_kind :: u64
  v_prev :: u64
  v_next :: u64

record vma_set =
  vmas :: "u64 \<Rightarrow> vma" \<comment> \<open>by address\<close>
  v_tree :: rb_links
  v_first :: u64
  v_last :: u64
  vma_free :: u64

abbreviation (input) VMA_POOL_MAX :: nat where "VMA_POOL_MAX \<equiv> 256"
abbreviation (input) sizeof_vma :: u64 where "sizeof_vma \<equiv> 72"

definition upd_vma :: "u64 \<Rightarrow> (vma \<Rightarrow> vma) \<Rightarrow> vma_set \<Rightarrow> vma_set" where
  "upd_vma a f s = s\<lparr>vmas := (vmas s)(a := f (vmas s a))\<rparr>"

section \<open>Operations\<close>

definition vma_alloc :: "vma_set \<Rightarrow> u64 \<times> vma_set" where
  "vma_alloc s =
     (let v = vma_free s
      in (v, if v \<noteq> 0 then s\<lparr>vma_free := v_next (vmas s v)\<rparr> else s))"

definition vma_release :: "u64 \<Rightarrow> vma_set \<Rightarrow> vma_set" where
  "vma_release v s = (upd_vma v (\<lambda>r. r\<lparr>v_next := vma_free s\<rparr>) s)\<lparr>vma_free := v\<rparr>"

definition vma_cmp :: "u64 \<Rightarrow> u64 \<Rightarrow> int" where
  \<comment> \<open>on the start addresses of the two regions\<close>
  "vma_cmp a b = (if a < b then - 1 else if a > b then 1 else 0)"

definition cmp_to :: "u64 \<Rightarrow> vma_set \<Rightarrow> u64 \<Rightarrow> int" where
  \<comment> \<open>\<open>vma_cmp(key, \<hyphen>)\<close>\<close>
  "cmp_to k s x = vma_cmp k (v_start (vmas s x))"

definition vma_set_init :: "u64 \<Rightarrow> vma_set \<Rightarrow> vma_set" where
  \<comment> \<open>the first argument is the address of \<open>vma_pool\<close>\<close>
  "vma_set_init pool s =
     (let s = s\<lparr>v_tree := RB_INIT (v_tree s), v_first := 0, v_last := 0\<rparr>
      in if vma_free s = 0 then
           let s = fold (\<lambda>i. upd_vma (pool + sizeof_vma * of_nat i) (\<lambda>r. r\<lparr>v_next := pool + sizeof_vma * of_nat (i + 1)\<rparr>))
                     [0..<VMA_POOL_MAX - 1] s;
               s = upd_vma (pool + sizeof_vma * of_nat (VMA_POOL_MAX - 1)) (\<lambda>r. r\<lparr>v_next := 0\<rparr>) s
           in s\<lparr>vma_free := pool\<rparr>
         else s)"

definition vma_link :: "u64 \<Rightarrow> u64 \<Rightarrow> u64 \<Rightarrow> vma_set \<Rightarrow> vma_set" where
  \<comment> \<open>the four assignments that put \<open>v\<close> between its neighbours\<close>
  "vma_link v prev next s =
     (let s = (if prev \<noteq> 0 then upd_vma prev (\<lambda>r. r\<lparr>v_next := v\<rparr>) s else s\<lparr>v_first := v\<rparr>)
      in if next \<noteq> 0 then upd_vma next (\<lambda>r. r\<lparr>v_prev := v\<rparr>) s else s\<lparr>v_last := v\<rparr>)"

definition vma_insert :: "u64 \<Rightarrow> u64 \<Rightarrow> u64 \<Rightarrow> u64 \<Rightarrow> vma_set \<Rightarrow> (int \<times> vma_set) option" where
  "vma_insert start fin prot kind s = do {
     next \<leftarrow> RB_NFIND (cmp_to start s) (v_tree s);
     prev \<leftarrow> (if next \<noteq> 0 then RB_PREV next (v_tree s) else RB_MINMAX 1 (v_tree s));
     if prev \<noteq> 0 \<and> v_end (vmas s prev) > start then Some (- 1, s)
     else if next \<noteq> 0 \<and> v_start (vmas s next) < fin then Some (- 1, s)
     else do {
       let (v, s) = vma_alloc s;
       if v = 0 then Some (- 1, s)
       else do {
         let s = upd_vma v (\<lambda>r. r\<lparr>v_start := start, v_end := fin, v_prot := prot, v_kind := kind,
                                   v_prev := prev, v_next := next\<rparr>) s;
         let s = vma_link v prev next s;
         (_, t) \<leftarrow> RB_INSERT (cmp_to (v_start (vmas s v)) s) v (v_tree s);
         Some (0, s\<lparr>v_tree := t\<rparr>)}}}"

definition vma_holds :: "u64 \<Rightarrow> u64 \<Rightarrow> vma_set \<Rightarrow> bool" where
  "vma_holds v addr s \<longleftrightarrow> v_start (vmas s v) \<le> addr \<and> addr < v_end (vmas s v)"

definition vma_find :: "u64 \<Rightarrow> vma_set \<Rightarrow> u64 option" where
  "vma_find addr s = do {
     v \<leftarrow> RB_NFIND (cmp_to addr s) (v_tree s);
     v \<leftarrow> (if v = 0 then RB_MINMAX 1 (v_tree s) else Some v);
     if v \<noteq> 0 \<and> vma_holds v addr s then Some v
     else do {
       prev \<leftarrow> RB_PREV v (v_tree s);
       Some (if prev \<noteq> 0 \<and> vma_holds prev addr s then prev else 0)}}"

definition vma_remove :: "u64 \<Rightarrow> vma_set \<Rightarrow> vma_set option" where
  "vma_remove v s = do {
     let p = v_prev (vmas s v);
     let s = (if p \<noteq> 0 then upd_vma p (\<lambda>r. r\<lparr>v_next := v_next (vmas s v)\<rparr>) s else s\<lparr>v_first := v_next (vmas s v)\<rparr>);
     let n = v_next (vmas s v);
     let s = (if n \<noteq> 0 then upd_vma n (\<lambda>r. r\<lparr>v_prev := v_prev (vmas s v)\<rparr>) s else s\<lparr>v_last := v_prev (vmas s v)\<rparr>);
     t \<leftarrow> RB_REMOVE v (v_tree s);
     Some (vma_release v (s\<lparr>v_tree := t\<rparr>))}"

end
