(* ===== verification/Pager.thy ===== *)
theory Pager
  imports Syscall Boot Cpio Vma
begin

text \<open>
  The root server: \<^verbatim>\<open>user/pager.c\<close>, \<^verbatim>\<open>user/elf.c\<close>, \<^verbatim>\<open>user/console.c\<close> and \<^verbatim>\<open>user/main.c\<close>. It runs as the
  current thread of the kernel and reaches its memory through that thread's page tables; a byte that
  is not mapped is a fault, on which the server does not go on (\<open>None\<close>). Its system calls run the kernel's
  dispatcher. Progress messages of the server, which end in \<open>SYS_WRITE\<close>, are left out of its operations;
  the conversion of the numbers in them is modelled on its own. The registers that a system call
  macro leaves alone are passed as 0: the calls made here do not use them.
\<close>

section \<open>State\<close>

record root_server =
  kern :: kernel
  pg_self_tid :: u64
  pg_pool :: u64
  pool_bits :: u64
  pool_bit :: u64
  child_vmas :: vma_set
  pg_heap :: u64

abbreviation (input) SHARED_VA :: u64 where "SHARED_VA \<equiv> 0x700040000000"
abbreviation (input) SCRATCH_VA :: u64 where "SCRATCH_VA \<equiv> 0x710000000000"
abbreviation (input) UTBC_VA :: u64 where "UTBC_VA \<equiv> 0x7ffffffde000"
abbreviation (input) CHILD_STACK_SIZE :: u64 where "CHILD_STACK_SIZE \<equiv> 131072"
abbreviation (input) CHILD_STACK_TOP :: u64 where "CHILD_STACK_TOP \<equiv> 0x7ffffffff000"
abbreviation (input) CHILD_HEAP_VA :: u64 where "CHILD_HEAP_VA \<equiv> 0x700000000000"
abbreviation (input) VMA_CODE :: u64 where "VMA_CODE \<equiv> 1"
abbreviation (input) VMA_DATA :: u64 where "VMA_DATA \<equiv> 2"
abbreviation (input) VMA_STACK :: u64 where "VMA_STACK \<equiv> 3"
abbreviation (input) VMA_HEAP :: u64 where "VMA_HEAP \<equiv> 4"
abbreviation (input) KOHARU_REQ_ALLOC :: u64 where "KOHARU_REQ_ALLOC \<equiv> 1"
abbreviation (input) KOHARU_REQ_READY :: u64 where "KOHARU_REQ_READY \<equiv> 2"
abbreviation (input) KOHARU_REQ_MAP :: u64 where "KOHARU_REQ_MAP \<equiv> 3"
abbreviation (input) KOHARU_REQ_EXIT :: u64 where "KOHARU_REQ_EXIT \<equiv> 4"
abbreviation (input) rw :: u64 where "rw \<equiv> 3" \<comment> \<open>\<open>PROT_READ | PROT_WRITE\<close>\<close>

section \<open>The server's memory\<close>

definition is_mapped :: "u64 \<Rightarrow> u64 \<Rightarrow> kernel \<Rightarrow> bool" where
  "is_mapped va n k \<longleftrightarrow> list_all (\<lambda>i. user_byte (va + of_nat i) k \<noteq> 0) [0..<unat n]"

definition user_view :: "kernel \<Rightarrow> memory" where
  \<comment> \<open>what the current thread reads at an address that is mapped\<close>
  "user_view k = (\<lambda>va. mem k (user_byte va k))"

definition user_poke :: "u64 \<Rightarrow> u8 \<Rightarrow> kernel \<Rightarrow> kernel" where
  "user_poke va b k = k\<lparr>mem := (mem k)(user_byte va k := b)\<rparr>"

definition user_memset :: "u64 \<Rightarrow> u8 \<Rightarrow> u64 \<Rightarrow> kernel \<Rightarrow> kernel option" where
  \<comment> \<open>\<open>memset\<close> of the user library, a copy of the kernel's\<close>
  "user_memset dst b n k =
     (if is_mapped dst n k then Some (for_range 0 n (\<lambda>i. user_poke (dst + i) b) k) else None)"

definition user_memcpy :: "u64 \<Rightarrow> u64 \<Rightarrow> u64 \<Rightarrow> kernel \<Rightarrow> kernel option" where
  "user_memcpy dst src n k =
     (if is_mapped dst n k \<and> is_mapped src n k
      then Some (for_range 0 n (\<lambda>i k. user_poke (dst + i) (user_view k (src + i)) k) k) else None)"

section \<open>System calls\<close>

definition on_kernel :: "(kernel \<Rightarrow> (sysret \<times> kernel) option) \<Rightarrow> root_server \<Rightarrow> (u64 \<times> root_server) option" where
  \<comment> \<open>a call that the server waits for; the calls made here return at once\<close>
  "on_kernel f s =
     (case f (kern s) of
        Some (Ret v, k) \<Rightarrow> Some (v, s\<lparr>kern := k\<rparr>)
      | _ \<Rightarrow> None)"

definition syscall3 :: "u64 \<Rightarrow> u64 \<Rightarrow> u64 \<Rightarrow> u64 \<Rightarrow> root_server \<Rightarrow> (u64 \<times> root_server) option" where
  "syscall3 num a1 a2 a3 = on_kernel (do_syscall num a1 a2 a3 0 0 0)"

definition syscall5 :: "u64 \<Rightarrow> u64 \<Rightarrow> u64 \<Rightarrow> u64 \<Rightarrow> u64 \<Rightarrow> u64 \<Rightarrow> root_server \<Rightarrow> (u64 \<times> root_server) option" where
  "syscall5 num a1 a2 a3 a4 a5 = on_kernel (do_syscall num a1 a2 a3 a4 a5 0)"

section \<open>Numbers as text\<close>

text \<open>A local array is a list; an index outside of it is \<open>None\<close>.\<close>

definition array_set :: "'a list \<Rightarrow> int \<Rightarrow> 'a \<Rightarrow> 'a list option" where
  "array_set buf i c = (if 0 \<le> i \<and> i < int (length buf) then Some (buf[nat i := c]) else None)"

definition log_digit :: "u64 \<Rightarrow> u8" where
  "log_digit d = (if d < 10 then 0x30 + ucast d else 0x61 + ucast d - 10)"

function hex_loop :: "int \<Rightarrow> u64 \<Rightarrow> u8 list \<Rightarrow> u8 list option" where
  \<comment> \<open>\<open>for (int i = 15; i >= 0; i--)\<close> of \<open>log_hex\<close>\<close>
  "hex_loop i v buf =
     (if i \<ge> 0 then
        case array_set buf i (log_digit (v AND 0xF)) of None \<Rightarrow> None | Some buf \<Rightarrow> hex_loop (i - 1) (drop_bit 4 v) buf
      else Some buf)"
  by pat_completeness auto
termination by (relation "measure (\<lambda>(i, _, _). nat (i + 1))") auto

definition log_hex :: "u8 list \<Rightarrow> u64 \<Rightarrow> u8 list option" where
  \<comment> \<open>the 16 characters written after \<open>"0x"\<close>; the first argument is what the array holds before\<close>
  "log_hex buf v = hex_loop 15 v buf"

function ulong_loop :: "int \<Rightarrow> u64 \<Rightarrow> u8 list \<Rightarrow> (int \<times> u8 list) option" where
  \<comment> \<open>\<open>do { \<dots> } while (v > 0)\<close> of \<open>log_ulong\<close>\<close>
  "ulong_loop i v buf =
     (if i < 0 then None
      else case array_set buf i (0x30 + ucast (v mod 10)) of None \<Rightarrow> None
        | Some buf \<Rightarrow> if v div 10 > 0 then ulong_loop (i - 1) (v div 10) buf else Some (i - 1, buf))"
  by pat_completeness auto
termination by (relation "measure (\<lambda>(i, _, _). nat (i + 1))") auto

declare hex_loop.simps [simp del] ulong_loop.simps [simp del]

definition log_ulong :: "u8 list \<Rightarrow> u64 \<Rightarrow> u8 list option" where
  \<comment> \<open>the string given to \<open>log_str\<close>, with its terminator\<close>
  "log_ulong buf v = do {
     buf \<leftarrow> array_set buf 20 0;
     (i, buf) \<leftarrow> ulong_loop 19 v buf;
     Some (drop (nat (i + 1)) buf)}"

section \<open>Frames\<close>

definition pager_init :: "u64 \<Rightarrow> u64 \<Rightarrow> u64 \<Rightarrow> root_server \<Rightarrow> root_server" where
  \<comment> \<open>the first argument is the address of \<open>vma_pool\<close>\<close>
  "pager_init nodes tid' frames s =
     s\<lparr>pg_self_tid := tid', pg_pool := ROOT_POOL_VA, pool_bits := frames, pool_bit := 0,
       child_vmas := vma_set_init nodes (child_vmas s)\<rparr>"

function pool_scan :: "u64 \<Rightarrow> root_server \<Rightarrow> (u64 option \<times> root_server) option" where
  \<comment> \<open>the loop of \<open>pool_alloc\<close>; the inner option is \<open>*pfn_out\<close> when the result is 0\<close>
  "pool_scan scanned s =
     (if scanned < pool_bits s then
        let s = (if pool_bit s \<ge> pool_bits s then s\<lparr>pool_bit := 0\<rparr> else s);
            byte = pg_pool s + pool_bit s div 8
        in if user_byte byte (kern s) = 0 then None
           else if bit (user_view (kern s) byte) (unat (pool_bit s mod 8))
           then Some (Some (pool_bit s), s\<lparr>pool_bit := pool_bit s + 1\<rparr>)
           else pool_scan (scanned + 1) (s\<lparr>pool_bit := pool_bit s + 1\<rparr>)
      else Some (None, s))"
  by pat_completeness auto
termination
  by (relation "measure (\<lambda>(scanned, s). unat (pool_bits s) - unat scanned)")
    (auto simp: unat_inc word_less_nat_alt Let_def split: if_splits)

declare pool_scan.simps [simp del]

definition pool_alloc :: "root_server \<Rightarrow> (u64 option \<times> root_server) option" where
  "pool_alloc s = pool_scan 0 s"

definition map_page :: "u64 \<Rightarrow> u64 \<Rightarrow> u64 \<Rightarrow> u64 \<Rightarrow> root_server \<Rightarrow> (int \<times> root_server) option" where
  "map_page target va phys prot s = do {
     (v, s) \<leftarrow> syscall5 SYS_MAP target va phys PAGE_SIZE prot s;
     Some (if v = 0 then 0 else - 1, s)}"

definition unmap_scratch :: "root_server \<Rightarrow> root_server option" where
  \<comment> \<open>\<open>syscall3(SYS_UNMAP, self_tid, SCRATCH_VA, PAGE_SIZE);\<close>\<close>
  "unmap_scratch s = do {
     (_, s) \<leftarrow> syscall3 SYS_UNMAP (pg_self_tid s) SCRATCH_VA PAGE_SIZE s;
     Some s}"

definition frame_zero :: "u64 \<Rightarrow> root_server \<Rightarrow> (int \<times> root_server) option" where
  "frame_zero phys s = do {
     (e, s) \<leftarrow> map_page (pg_self_tid s) SCRATCH_VA phys rw s;
     if e \<noteq> 0 then Some (- 1, s)
     else do {
       k \<leftarrow> user_memset SCRATCH_VA 0 PAGE_SIZE (kern s);
       s \<leftarrow> unmap_scratch (s\<lparr>kern := k\<rparr>);
       Some (0, s)}}"

definition zeroed_frame :: "root_server \<Rightarrow> (u64 option \<times> root_server) option" where
  \<comment> \<open>\<open>if (pool_alloc(&pfn) != 0) return -1; phys = pfn << 12; if (frame_zero(phys) != 0) return -1;\<close>
    with the address of the frame when neither fails\<close>
  "zeroed_frame s = do {
     (f, s) \<leftarrow> pool_alloc s;
     case f of None \<Rightarrow> Some (None, s)
     | Some pfn \<Rightarrow> do {
         let phys = push_bit 12 pfn;
         (e, s) \<leftarrow> frame_zero phys s;
         Some (if e \<noteq> 0 then None else Some phys, s)}}"

section \<open>The child's address space\<close>

definition add_region :: "u64 \<Rightarrow> u64 \<Rightarrow> u64 \<Rightarrow> u64 \<Rightarrow> root_server \<Rightarrow> (int \<times> root_server) option" where
  \<comment> \<open>\<open>vma_insert(&child_vmas, \<dots>)\<close>\<close>
  "add_region start fin prot kind s = do {
     (e, v) \<leftarrow> vma_insert start fin prot kind (child_vmas s);
     Some (e, s\<lparr>child_vmas := v\<rparr>)}"

definition seg_prot :: "u32 \<Rightarrow> u64" where
  "seg_prot flags =
     (let prot = 0;
          prot = (if flags AND 4 \<noteq> 0 then prot OR 1 else prot);
          prot = (if flags AND 2 \<noteq> 0 then prot OR 2 else prot)
      in if flags AND 1 \<noteq> 0 then prot OR 4 else prot)"

definition copy_segment :: "u64 \<Rightarrow> u64 \<Rightarrow> Elf64_Phdr \<Rightarrow> kernel \<Rightarrow> kernel option" where
  \<comment> \<open>the bytes of the file that belong in the page at \<open>va\<close>, written to the scratch page\<close>
  "copy_segment va elf ph k =
     (let f_lo = (if va > p_vaddr ph then va else p_vaddr ph);
          f_end = p_vaddr ph + p_filesz ph;
          f_hi = (if va + PAGE_SIZE < f_end then va + PAGE_SIZE else f_end)
      in if f_hi > f_lo
         then user_memcpy (SCRATCH_VA + (f_lo - va)) (elf + p_offset ph + (f_lo - p_vaddr ph)) (f_hi - f_lo) k
         else Some k)"

partial_function (option) segment_pages ::
  "u64 \<Rightarrow> u64 \<Rightarrow> u64 \<Rightarrow> u64 \<Rightarrow> Elf64_Phdr \<Rightarrow> root_server \<Rightarrow> (int \<times> root_server) option" where
  \<comment> \<open>\<open>for (; va < va_end; va += PAGE_SIZE)\<close>\<close>
  "segment_pages va va_end child elf ph s =
     (if va < va_end then do {
        (f, s) \<leftarrow> zeroed_frame s;
        case f of None \<Rightarrow> Some (- 1, s)
        | Some phys \<Rightarrow> do {
            (e, s) \<leftarrow> map_page (pg_self_tid s) SCRATCH_VA phys rw s;
            if e \<noteq> 0 then Some (- 1, s)
            else do {
              k \<leftarrow> copy_segment va elf ph (kern s);
              s \<leftarrow> unmap_scratch (s\<lparr>kern := k\<rparr>);
              (e, s) \<leftarrow> map_page child va phys (seg_prot (p_flags ph)) s;
              if e \<noteq> 0 then Some (- 1, s)
              else segment_pages (va + PAGE_SIZE) va_end child elf ph s}}}
      else Some (0, s))"

definition load_segment :: "u64 \<Rightarrow> u64 \<Rightarrow> Elf64_Phdr \<Rightarrow> root_server \<Rightarrow> (int \<times> root_server) option" where
  "load_segment child elf ph s = do {
     let va_start = p_vaddr ph AND NOT (PAGE_SIZE - 1);
     let va_end = (p_vaddr ph + p_memsz ph + PAGE_SIZE - 1) AND NOT (PAGE_SIZE - 1);
     (e, s) \<leftarrow> segment_pages va_start va_end child elf ph s;
     if e \<noteq> 0 then Some (- 1, s)
     else add_region va_start va_end (seg_prot (p_flags ph)) (if p_flags ph AND 1 \<noteq> 0 then VMA_CODE else VMA_DATA) s}"

definition map_shared :: "u64 \<Rightarrow> root_server \<Rightarrow> (int \<times> root_server) option" where
  "map_shared child s = do {
     (f, s) \<leftarrow> zeroed_frame s;
     case f of None \<Rightarrow> Some (- 1, s)
     | Some phys \<Rightarrow> do {
         (e, s) \<leftarrow> map_page (pg_self_tid s) SHARED_VA phys rw s;
         if e \<noteq> 0 then Some (- 1, s)
         else do {
           (e, s) \<leftarrow> map_page child SHARED_VA phys rw s;
           Some (if e \<noteq> 0 then - 1 else 0, s)}}}"

definition map_utcb :: "u64 \<Rightarrow> u64 \<Rightarrow> u64 \<Rightarrow> root_server \<Rightarrow> (int \<times> root_server) option" where
  "map_utcb child child_tid pgr s = do {
     (f, s) \<leftarrow> zeroed_frame s;
     case f of None \<Rightarrow> Some (- 1, s)
     | Some phys \<Rightarrow> do {
         (e, s) \<leftarrow> map_page child UTBC_VA phys rw s;
         if e \<noteq> 0 then Some (- 1, s)
         else do {
           (e, s) \<leftarrow> map_page (pg_self_tid s) SCRATCH_VA phys rw s;
           if e \<noteq> 0 then Some (- 1, s)
           else do {
             k \<leftarrow> put_user_u64 SCRATCH_VA child_tid (kern s);
             k \<leftarrow> put_user_u64 (SCRATCH_VA + 8) pgr k;
             s \<leftarrow> unmap_scratch (s\<lparr>kern := k\<rparr>);
             Some (0, s)}}}}"

function child_pages :: "u64 \<Rightarrow> u64 \<Rightarrow> u64 \<Rightarrow> root_server \<Rightarrow> (bool \<times> root_server) option" where
  \<comment> \<open>a zeroed frame at each of the \<open>n\<close> pages from \<open>va\<close> on: the loops of \<open>map_stack\<close> and of the
    allocation requests in \<open>serve\<close>; the result says whether all of them succeeded\<close>
  "child_pages va n child s =
     (if n \<noteq> 0 then do {
        (f, s) \<leftarrow> zeroed_frame s;
        case f of None \<Rightarrow> Some (False, s)
        | Some phys \<Rightarrow> do {
            (e, s) \<leftarrow> map_page child va phys rw s;
            if e \<noteq> 0 then Some (False, s) else child_pages (va + PAGE_SIZE) (n - 1) child s}}
      else Some (True, s))"
  by pat_completeness auto
termination
proof (relation "measure (\<lambda>(_, n, _, _). unat n)", goal_cases)
  case (2 va n child s)
  then have "0 < n" by (simp add: word_gt_0)
  then show ?case by (simp add: measure_unat)
qed simp

declare child_pages.simps [simp del]

definition map_stack :: "u64 \<Rightarrow> root_server \<Rightarrow> (int \<times> root_server) option" where
  "map_stack child s = do {
     let bottom = CHILD_STACK_TOP - CHILD_STACK_SIZE;
     (ok, s) \<leftarrow> child_pages bottom (CHILD_STACK_SIZE div PAGE_SIZE) child s;
     if \<not> ok then Some (- 1, s)
     else add_region bottom CHILD_STACK_TOP rw VMA_STACK s}"

section \<open>Requests of the child\<close>

definition serve_alloc :: "u64 \<Rightarrow> u64 \<Rightarrow> root_server \<Rightarrow> (u64 \<times> root_server) option" where
  \<comment> \<open>\<open>KOHARU_REQ_ALLOC\<close> and \<open>KOHARU_REQ_MAP\<close>; the first component is \<open>reply[0]\<close>\<close>
  "serve_alloc child bytes s = do {
     let pages = drop_bit 12 (bytes + PAGE_SIZE - 1);
     let heap = pg_heap s;
     (ok, s) \<leftarrow> child_pages heap pages child s;
     if \<not> ok then Some (0, s)
     else do {
       (e, s) \<leftarrow> add_region heap (heap + pages * PAGE_SIZE) rw VMA_HEAP s;
       Some (heap, if e \<noteq> 0 then s else s\<lparr>pg_heap := heap + pages * PAGE_SIZE\<rparr>)}}"

definition serve :: "u64 \<Rightarrow> u64 \<Rightarrow> u64 list \<Rightarrow> root_server \<Rightarrow> (u64 list option \<times> root_server) option" where
  \<comment> \<open>one turn of the loop, after \<open>reply_recv\<close> returned \<open>sender\<close> and \<open>msg\<close>: the next reply, none when the
    server leaves the loop\<close>
  "serve child sender msg s =
     (let none = replicate 5 0
      in if sint sender \<le> 0 \<or> child = 0 then Some (Some none, s)
      else if msg ! 0 = KOHARU_REQ_READY then Some (Some none, s)
      else if msg ! 0 = KOHARU_REQ_EXIT then Some (None, s)
      else if msg ! 0 = KOHARU_REQ_ALLOC \<or> msg ! 0 = KOHARU_REQ_MAP then do {
        (r, s) \<leftarrow> serve_alloc child (msg ! 1) s;
        Some (Some (none[0 := r]), s)}
      else Some (Some none, s))"

section \<open>Starting the child\<close>

definition elf_check :: "u64 \<Rightarrow> u64 \<Rightarrow> kernel \<Rightarrow> int option" where
  "elf_check elf sz k =
     (if sz < sizeof_Ehdr then Some (- 1)
      else if \<not> is_mapped elf sizeof_Ehdr k then None
      else Some (if elf_ok sz (Ehdr_at elf (user_view k)) then 0 else - 1))"

function merge_phdrs :: "nat \<Rightarrow> nat \<Rightarrow> (nat \<Rightarrow> Elf64_Phdr) \<Rightarrow> Elf64_Phdr \<Rightarrow> nat \<times> Elf64_Phdr" where
  \<comment> \<open>the inner \<open>while\<close> of \<open>root_main\<close>: headers that continue the segment are merged into it\<close>
  "merge_phdrs i n phdr ph =
     (let next = phdr (i + 1)
      in if i + 1 < n \<and> p_type next = PT_LOAD \<and> p_flags next = p_flags ph \<and>
            p_vaddr next = p_vaddr ph + p_memsz ph \<and> p_offset next = p_offset ph + p_filesz ph then
           merge_phdrs (i + 1) n phdr
             (ph\<lparr>p_memsz := p_vaddr next + p_memsz next - p_vaddr ph,
                 p_filesz := p_offset next + p_filesz next - p_offset ph\<rparr>)
         else (i, ph))"
  by pat_completeness auto
termination by (relation "measure (\<lambda>(i, n, _). n - i)") (auto simp: Let_def)

declare merge_phdrs.simps [simp del]

lemma merge_phdrs_le: "i \<le> fst (merge_phdrs i n phdr ph)"
  by (induction i n phdr ph rule: merge_phdrs.induct) (subst merge_phdrs.simps, auto simp: Let_def)

function load_all :: "nat \<Rightarrow> nat \<Rightarrow> u64 \<Rightarrow> u64 \<Rightarrow> u64 \<Rightarrow> root_server \<Rightarrow> (bool \<times> root_server) option" where
  \<comment> \<open>the loop over the program headers at \<open>phdr\<close>\<close>
  "load_all i n child elf phdr s =
     (if i < n then
        if \<not> is_mapped phdr (sizeof_Phdr * of_nat n) (kern s) then None
        else
          let hdr = (\<lambda>j. Phdr_at (phdr + sizeof_Phdr * of_nat j) (user_view (kern s)))
          in if p_type (hdr i) \<noteq> PT_LOAD then load_all (Suc i) n child elf phdr s
             else
               let (i, ph) = merge_phdrs i n hdr (hdr i)
               in (case load_segment child elf ph s of
                     None \<Rightarrow> None
                   | Some (e, s) \<Rightarrow>
                       if e \<noteq> 0 then Some (False, s) else load_all (Suc i) n child elf phdr s)
      else Some (True, s))"
  by pat_completeness auto
termination
proof (relation "measure (\<lambda>(i, n, _). n - i)", goal_cases)
  case (3 i n child elf phdr s hdr m j ph)
  then show ?case using merge_phdrs_le [of i n hdr "hdr i"] by (auto simp: prod_eq_iff)
qed auto

declare load_all.simps [simp del]

definition start_child :: "u64 \<Rightarrow> u64 \<Rightarrow> u64 \<Rightarrow> root_server \<Rightarrow> (u64 \<times> root_server) option" where
  \<comment> \<open>\<open>root_main\<close> from the image of the child on: the result is the argument of the call of \<open>serve\<close> it gets
    to; what follows when that call returns is not modelled\<close>
  "start_child elf elf_size self s = do {
     c \<leftarrow> elf_check elf elf_size (kern s);
     if c \<noteq> 0 then Some (0, s)
     else do {
       let ehdr = Ehdr_at elf (user_view (kern s));
       (child, s) \<leftarrow> syscall5 SYS_THREAD_CONTROL TC_CREATE 0 0 self 0 s;
       if sint child \<le> 0 then Some (0, s)
       else do {
         (ok, s) \<leftarrow> load_all 0 (unat (e_phnum ehdr)) child elf (elf + e_phoff ehdr) s;
         if \<not> ok then Some (child, s)
         else do {
           (e, s) \<leftarrow> map_stack child s;
           if e \<noteq> 0 then Some (child, s)
           else do {
             (e, s) \<leftarrow> map_shared child s;
             if e \<noteq> 0 then Some (child, s)
             else do {
               (e, s) \<leftarrow> map_utcb child child self s;
               if e \<noteq> 0 then Some (child, s)
               else do {
                 (v, s) \<leftarrow> syscall5 SYS_EXCHANGE_REGISTERS child (e_entry ehdr) UTBC_VA UTBC_VA EXR_SET_ENTRY s;
                 if v \<noteq> 0 then Some (child, s)
                 else do {
                   (_, s) \<leftarrow> syscall5 SYS_EXCHANGE_REGISTERS child 0 0 0 EXR_ACTIVATE s;
                   Some (child, s)}}}}}}}}"

definition root_main :: "u64 \<Rightarrow> u64 \<Rightarrow> root_server \<Rightarrow> (u64 \<times> root_server) option" where
  \<comment> \<open>the arguments are the addresses of \<open>vma_pool\<close> and of the string \<open>"child.elf"\<close>\<close>
  "root_main nodes name s =
     (if \<not> is_mapped ROOT_BOOT_VA sizeof_root_boot (kern s) then None
      else
        let boot = root_boot_at ROOT_BOOT_VA (user_view (kern s));
            s = pager_init nodes (self_tid boot) (frame_count boot) s
        in if img_addr (rb_initrd boot) = 0 \<or> img_size (rb_initrd boot) = 0 then Some (0, s)
           else do {
             (e, elf, elf_size) \<leftarrow> cpio_extract (img_addr (rb_initrd boot)) name (user_view (kern s));
             if e \<noteq> 0 then Some (0, s) else start_child elf elf_size (self_tid boot) s})"

end
