(* ===== verification/Rb_Tree_Spec.thy ===== *)
theory Rb_Tree_Spec
  imports Rb_Tree "HOL-Library.Tree"
begin

text \<open>
  What the searches of the rank-balanced trees return, in terms of the in-order sequence of the
  nodes: a tree of the library describes the links in memory (\<open>rb_rep\<close>).
\<close>

section \<open>Trees in memory\<close>

fun rb_rep :: "u64 tree \<Rightarrow> u64 \<Rightarrow> u64 \<Rightarrow> rb_links \<Rightarrow> bool" where
  \<comment> \<open>the links below \<open>p\<close>, whose parent is \<open>q\<close>, form the tree\<close>
  "rb_rep Leaf p q t \<longleftrightarrow> p = 0"
| "rb_rep (Node l x r) p q t \<longleftrightarrow> p = x \<and> x \<noteq> 0 \<and> RB_PARENT x t = q \<and> rb_rep l (rbe_left t x) x t \<and> rb_rep r (rbe_right t x) x t"

lemma rb_rep_null: "rb_rep T p q t \<Longrightarrow> p = 0 \<longleftrightarrow> T = Leaf"
  by (cases T) auto

lemma rb_rep_in: "rb_rep T p q t \<Longrightarrow> p \<noteq> 0 \<Longrightarrow> p \<in> set_tree T"
  by (cases T) auto

lemma nfind_rep:
  assumes "rb_rep T p q t"
    and "\<And>xs x ys y. inorder T = xs @ x # ys \<Longrightarrow> cmp x \<ge> 0 \<Longrightarrow> y \<in> set xs \<Longrightarrow> cmp y > 0"
  shows "nfind_from cmp p res t = Some (case find (\<lambda>x. cmp x \<le> 0) (inorder T) of None \<Rightarrow> res | Some x \<Rightarrow> x)"
  using assms
proof (induction T arbitrary: p q res)
  case Leaf
  then show ?case by (subst nfind_from.simps) simp
next
  case (Node l x r)
  have p: "p = x" "x \<noteq> 0" "rb_rep l (rbe_left t x) x t" "rb_rep r (rbe_right t x) x t" using Node.prems(1) by auto
  have L: "cmp y > 0" if "inorder l = xs @ a # ys" "cmp a \<ge> 0" "y \<in> set xs" for xs a ys y
    by (rule Node.prems(2) [of xs a "ys @ x # inorder r"]) (use that in auto)
  have R: "cmp y > 0" if "inorder r = xs @ a # ys" "cmp a \<ge> 0" "y \<in> set xs" for xs a ys y
    by (rule Node.prems(2) [of "inorder l @ x # xs" a ys]) (use that in auto)
  have M: "cmp y > 0" if "cmp x \<ge> 0" "y \<in> set (inorder l)" for y
    by (rule Node.prems(2) [of "inorder l" x "inorder r"]) (use that in auto)
  have fl: "find (\<lambda>x. cmp x \<le> 0) (inorder l) = None" if "cmp x \<ge> 0"
    using M [OF that] by (auto simp: find_None_iff not_le)
  consider "cmp x < 0" | "cmp x > 0" | "cmp x = 0" by linarith
  then show ?case
  proof cases
    case 1
    then show ?thesis
      using p Node.IH(1) [OF p(3) L, where res = x] by (subst nfind_from.simps) (simp add: find_append split: option.splits)
  next
    case 2
    then show ?thesis
      using p Node.IH(2) [OF p(4) R, where res = res] fl by (subst nfind_from.simps) (simp add: find_append)
  next
    case 3
    then show ?thesis using p fl by (subst nfind_from.simps) (simp add: find_append)
  qed
qed

lemma minmax_rep: "rb_rep T p q t \<Longrightarrow> minmax_from 1 p par t = Some (if T = Leaf then par else last (inorder T))"
proof (induction T arbitrary: p q par)
  case Leaf
  then show ?case by (subst minmax_from.simps) simp
next
  case (Node l x r)
  then show ?case by (subst minmax_from.simps) (auto simp: Node.IH(2))
qed

lemma rightmost_rep: "rb_rep T p q t \<Longrightarrow> T \<noteq> Leaf \<Longrightarrow> rightmost p t = Some (last (inorder T))"
proof (induction T arbitrary: p q)
  case (Node l x r)
  then show ?case using rb_rep_null [of r "rbe_right t x" x t] by (subst rightmost.simps) auto
qed simp


lemma prev_is_climb:
  assumes "p \<noteq> 0" "rbe_left t p = 0" "RB_PARENT p t \<noteq> 0 \<Longrightarrow> rbe_left t (RB_PARENT p t) \<noteq> rbe_right t (RB_PARENT p t)"
  shows "RB_PREV p t = climb_left p t"
  using assms climb_left.simps [of p t] by (auto simp: RB_PREV_def)

lemma prev_rep:
  assumes "rb_rep T p q t" "distinct (inorder T)" "inorder T = xs @ x # ys"
    and "RB_PARENT p t \<noteq> 0 \<Longrightarrow> rbe_left t (RB_PARENT p t) \<noteq> rbe_right t (RB_PARENT p t)"
  shows "RB_PREV x t = (if xs = [] then climb_left p t else Some (last xs))"
  using assms
proof (induction T arbitrary: p q xs ys)
  case (Node l n r)
  have p: "p = n" "n \<noteq> 0" "rb_rep l (rbe_left t n) n t" "rb_rep r (rbe_right t n) n t" using Node.prems(1) by auto
  have ne: "rbe_left t n \<noteq> rbe_right t n" if "rbe_left t n \<noteq> 0 \<or> rbe_right t n \<noteq> 0"
    using that rb_rep_in [OF p(3)] rb_rep_in [OF p(4)] Node.prems(2) by (auto simp flip: set_inorder)
  have up: "RB_PARENT c t = n" if "rb_rep U c n t" "U \<noteq> Leaf" for U c using that by (cases U) auto
  have d: "distinct (inorder l)" "distinct (inorder r)" using Node.prems(2) by auto
  have "inorder l @ n # inorder r = xs @ x # ys" using Node.prems(3) by simp
  then consider (left) us where "inorder l = xs @ x # us" | (here) "xs = inorder l" "x = n"
    | (right) us where "xs = inorder l @ n # us" "inorder r = us @ x # ys"
    by (auto simp: append_eq_append_conv2 append_eq_Cons_conv Cons_eq_append_conv)
  then show ?case
  proof cases
    case left
    then have l: "l \<noteq> Leaf" "rbe_left t n \<noteq> 0" using rb_rep_null [OF p(3)] by auto
    have "climb_left (rbe_left t n) t = climb_left n t"
      using up [OF p(3) l(1)] p(2) by (subst climb_left.simps) simp
    then show ?thesis using Node.IH(1) [OF p(3) d(1) left] up [OF p(3) l(1)] ne l p by auto
  next
    case here
    show ?thesis
    proof (cases "l = Leaf")
      case True
      then have "rbe_left t n = 0" using p(3) by simp
      then show ?thesis using prev_is_climb [of n t] Node.prems(4) p here True by simp
    next
      case False
      then show ?thesis using rightmost_rep [OF p(3)] rb_rep_null [OF p(3)] p here by (simp add: RB_PREV_def)
    qed
  next
    case right
    then have r: "r \<noteq> Leaf" "rbe_right t n \<noteq> 0" using rb_rep_null [OF p(4)] by auto
    have "climb_left (rbe_right t n) t = Some n"
      using up [OF p(4) r(1)] ne r by (subst climb_left.simps) auto
    then show ?thesis using Node.IH(2) [OF p(4) d(2) right(2)] up [OF p(4) r(1)] ne r right(1) by auto
  qed
qed simp


end
