(* ===== verification/Rb_Insert.thy ===== *)
theory Rb_Insert
  imports Rb_Tree_Spec
begin

text \<open>
  Insertion into the rank-balanced trees of \<^verbatim>\<open>tree.h\<close>. The bit of a node that calls a child "red" says
  that the child's rank is two below the node's instead of one; a tree is balanced when the ranks
  computed along its two sides agree everywhere. The rebalancing loop climbs from the new node, so a
  state of it is a subtree and its context, the path to the root with the siblings on the way.
\<close>

section \<open>The word that holds the parent and the two bits\<close>

lemma bit_3: "bit (3 :: u64) n \<longleftrightarrow> n = 0 \<or> n = 1"
proof -
  have "bit (mask 2 :: u64) n \<longleftrightarrow> n < 2" unfolding bit_mask_iff by auto
  moreover have "mask 2 = (3 :: u64)" by (simp add: mask_eq_exp_minus_1)
  ultimately show ?thesis by auto
qed

lemma bit_2: "bit (2 :: u64) n \<longleftrightarrow> n = 1"
proof -
  have "bit ((2 :: u64) ^ 1) n \<longleftrightarrow> n = 1" unfolding bit_exp_iff by auto
  then show ?thesis by simp
qed

lemma and_eq_0_bits: "a AND b = 0 \<longleftrightarrow> (\<forall>n. \<not> (bit a n \<and> bit b n))" for a b :: u64
proof
  show "\<forall>n. \<not> (bit a n \<and> bit b n)" if e: "a AND b = 0"
  proof (intro allI notI)
    fix n assume "bit a n \<and> bit b n"
    then have "bit (a AND b) n" by (simp add: bit_and_iff)
    then show False using e by simp
  qed
  show "\<forall>n. \<not> (bit a n \<and> bit b n) \<Longrightarrow> a AND b = 0" by (rule bit_word_eqI) (simp add: bit_and_iff)
qed

definition aligned4 :: "u64 \<Rightarrow> bool" where "aligned4 x \<longleftrightarrow> x AND RB_RED_MASK = 0"

lemma aligned4_bits: "aligned4 x \<longleftrightarrow> \<not> bit x 0 \<and> \<not> bit x 1"
  unfolding aligned4_def and_eq_0_bits bit_3 by blast

lemma aligned4_0 [simp]: "aligned4 0" by (simp add: aligned4_def)

lemma word_eqI64: "(\<And>n. n < 64 \<Longrightarrow> bit a n \<longleftrightarrow> bit b n) \<Longrightarrow> a = b" for a b :: u64
  by (rule bit_word_eqI) simp

lemma bits_of_word:
  fixes w p :: u64
  shows "(w XOR 1) AND NOT 3 = w AND NOT 3" "(w XOR 2) AND NOT 3 = w AND NOT 3"
    "(w AND NOT 3) AND NOT 3 = w AND NOT 3" "aligned4 p \<Longrightarrow> (w AND 3 OR p) AND NOT 3 = p" "aligned4 p \<Longrightarrow> p AND NOT 3 = p"
    "bit (w XOR 1) 0 \<longleftrightarrow> \<not> bit w 0" "bit (w XOR 1) 1 \<longleftrightarrow> bit w 1" "bit (w XOR 2) 0 \<longleftrightarrow> bit w 0" "bit (w XOR 2) 1 \<longleftrightarrow> \<not> bit w 1"
    "\<not> bit (w AND NOT 3) 0" "\<not> bit (w AND NOT 3) 1"
    "aligned4 p \<Longrightarrow> bit (w AND 3 OR p) 0 \<longleftrightarrow> bit w 0" "aligned4 p \<Longrightarrow> bit (w AND 3 OR p) 1 \<longleftrightarrow> bit w 1"
proof -
  note b = bit_and_iff bit_or_iff bit_xor_iff bit_not_iff bit_3 bit_2 bit_1_iff aligned4_bits
  show "(w XOR 1) AND NOT 3 = w AND NOT 3" by (rule word_eqI64) (simp only: b; blast)
  show "(w XOR 2) AND NOT 3 = w AND NOT 3" by (rule word_eqI64) (simp only: b; blast)
  show "(w AND NOT 3) AND NOT 3 = w AND NOT 3" by (rule word_eqI64) (simp only: b; blast)
  have nb: "bit (NOT (3 :: u64)) n \<longleftrightarrow> n \<noteq> 0 \<and> n \<noteq> 1" if "n < 64" for n using that by (simp only: b) simp
  show "aligned4 p \<Longrightarrow> (w AND 3 OR p) AND NOT 3 = p"
    by (rule word_eqI64) (unfold bit_and_iff bit_or_iff nb bit_3 aligned4_bits, metis)
  show "aligned4 p \<Longrightarrow> p AND NOT 3 = p" by (rule word_eqI64) (unfold bit_and_iff nb aligned4_bits, metis)
  show "bit (w XOR 1) 0 \<longleftrightarrow> \<not> bit w 0" "bit (w XOR 1) 1 \<longleftrightarrow> bit w 1" "bit (w XOR 2) 0 \<longleftrightarrow> bit w 0"
    "bit (w XOR 2) 1 \<longleftrightarrow> \<not> bit w 1" by (simp_all add: b)
  show "\<not> bit (w AND NOT 3) 0" "\<not> bit (w AND NOT 3) 1" by (simp_all only: b) auto
  show "aligned4 p \<Longrightarrow> bit (w AND 3 OR p) 0 \<longleftrightarrow> bit w 0" "aligned4 p \<Longrightarrow> bit (w AND 3 OR p) 1 \<longleftrightarrow> bit w 1"
    by (simp_all add: b)
qed

lemma node_bits:
  "RB_RED_LEFT x t \<longleftrightarrow> bit (rbe_parent t x) 0" "RB_RED_RIGHT x t \<longleftrightarrow> bit (rbe_parent t x) 1"
  unfolding RB_RED_LEFT_def RB_RED_RIGHT_def and_eq_0_bits bit_1_iff bit_2 by auto

lemma rbe_parent_set_bits: "rbe_parent (set_bits x v t) y = (if y = x then v else rbe_parent t y)"
  by (simp add: set_bits_def)

named_theorems links_simps

lemma set_links [links_simps]:
  "rbe_left (set_left x v t) = (rbe_left t)(x := v)" "rbe_right (set_left x v t) = rbe_right t"
  "rbh_root (set_left x v t) = rbh_root t" "RB_PARENT y (set_left x v t) = RB_PARENT y t"
  "RB_RED_LEFT y (set_left x v t) = RB_RED_LEFT y t" "RB_RED_RIGHT y (set_left x v t) = RB_RED_RIGHT y t"
  "rbe_right (set_right x v t) = (rbe_right t)(x := v)" "rbe_left (set_right x v t) = rbe_left t"
  "rbh_root (set_right x v t) = rbh_root t" "RB_PARENT y (set_right x v t) = RB_PARENT y t"
  "RB_RED_LEFT y (set_right x v t) = RB_RED_LEFT y t" "RB_RED_RIGHT y (set_right x v t) = RB_RED_RIGHT y t"
  "rbe_left (t\<lparr>rbh_root := v\<rparr>) = rbe_left t" "rbe_right (t\<lparr>rbh_root := v\<rparr>) = rbe_right t"
  "RB_PARENT y (t\<lparr>rbh_root := v\<rparr>) = RB_PARENT y t"
  "RB_RED_LEFT y (t\<lparr>rbh_root := v\<rparr>) = RB_RED_LEFT y t" "RB_RED_RIGHT y (t\<lparr>rbh_root := v\<rparr>) = RB_RED_RIGHT y t"
  "rbe_left (set_bits x v t) = rbe_left t" "rbe_right (set_bits x v t) = rbe_right t" "rbh_root (set_bits x v t) = rbh_root t"
  by (simp_all add: set_left_def set_right_def set_bits_def RB_PARENT_def RB_RED_LEFT_def RB_RED_RIGHT_def)

lemma clear_bits [links_simps]:
  "RB_PARENT y (set_bits x (rbe_parent t x AND NOT RB_RED_MASK) t) = RB_PARENT y t"
  "RB_RED_LEFT y (set_bits x (rbe_parent t x AND NOT RB_RED_MASK) t) = (y \<noteq> x \<and> RB_RED_LEFT y t)"
  "RB_RED_RIGHT y (set_bits x (rbe_parent t x AND NOT RB_RED_MASK) t) = (y \<noteq> x \<and> RB_RED_RIGHT y t)"
  unfolding RB_PARENT_def node_bits rbe_parent_set_bits
  by (cases "y = x"; simp only: bits_of_word(3,10,11) if_True if_False simp_thms)+

lemma flip_left [links_simps]:
  "rbe_left (RB_FLIP_LEFT x t) = rbe_left t" "rbe_right (RB_FLIP_LEFT x t) = rbe_right t"
  "rbh_root (RB_FLIP_LEFT x t) = rbh_root t" "RB_PARENT y (RB_FLIP_LEFT x t) = RB_PARENT y t"
  "RB_RED_LEFT y (RB_FLIP_LEFT x t) = (if y = x then \<not> RB_RED_LEFT x t else RB_RED_LEFT y t)"
  "RB_RED_RIGHT y (RB_FLIP_LEFT x t) = RB_RED_RIGHT y t"
  unfolding RB_FLIP_LEFT_def RB_PARENT_def node_bits rbe_parent_set_bits
  by (cases "y = x"; simp only: bits_of_word(1,6,7) set_links if_True if_False simp_thms)+

lemma flip_right [links_simps]:
  "rbe_left (RB_FLIP_RIGHT x t) = rbe_left t" "rbe_right (RB_FLIP_RIGHT x t) = rbe_right t"
  "rbh_root (RB_FLIP_RIGHT x t) = rbh_root t" "RB_PARENT y (RB_FLIP_RIGHT x t) = RB_PARENT y t"
  "RB_RED_RIGHT y (RB_FLIP_RIGHT x t) = (if y = x then \<not> RB_RED_RIGHT x t else RB_RED_RIGHT y t)"
  "RB_RED_LEFT y (RB_FLIP_RIGHT x t) = RB_RED_LEFT y t"
  unfolding RB_FLIP_RIGHT_def RB_PARENT_def node_bits rbe_parent_set_bits
  by (cases "y = x"; simp only: bits_of_word(2,8,9) set_links if_True if_False simp_thms)+

lemma set_parent [links_simps]:
  "rbe_left (RB_SET_PARENT x p t) = rbe_left t" "rbe_right (RB_SET_PARENT x p t) = rbe_right t"
  "rbh_root (RB_SET_PARENT x p t) = rbh_root t"
  "aligned4 p \<Longrightarrow> RB_PARENT y (RB_SET_PARENT x p t) = (if y = x then p else RB_PARENT y t)"
  "aligned4 p \<Longrightarrow> RB_RED_RIGHT y (RB_SET_PARENT x p t) = RB_RED_RIGHT y t"
  "aligned4 p \<Longrightarrow> RB_RED_LEFT y (RB_SET_PARENT x p t) = RB_RED_LEFT y t"
  unfolding RB_SET_PARENT_def RB_PARENT_def node_bits rbe_parent_set_bits
  by (cases "y = x"; simp only: bits_of_word(4,12,13) set_links if_True if_False simp_thms)+

lemma RB_SET_links [links_simps]:
  assumes "aligned4 p"
  shows "rbe_left (RB_SET x p t) = (rbe_left t)(x := 0)" "rbe_right (RB_SET x p t) = (rbe_right t)(x := 0)"
    "rbh_root (RB_SET x p t) = rbh_root t" "RB_PARENT y (RB_SET x p t) = (if y = x then p else RB_PARENT y t)"
    "RB_RED_LEFT y (RB_SET x p t) = (y \<noteq> x \<and> RB_RED_LEFT y t)" "RB_RED_RIGHT y (RB_SET x p t) = (y \<noteq> x \<and> RB_RED_RIGHT y t)"
proof -
  have b: "\<not> bit p 0" "\<not> bit p 1" using assms aligned4_bits by auto
  show "RB_PARENT y (RB_SET x p t) = (if y = x then p else RB_PARENT y t)"
    unfolding RB_SET_def set_links unfolding RB_PARENT_def rbe_parent_set_bits using bits_of_word(5) [OF assms] by simp
  show "RB_RED_LEFT y (RB_SET x p t) = (y \<noteq> x \<and> RB_RED_LEFT y t)" "RB_RED_RIGHT y (RB_SET x p t) = (y \<noteq> x \<and> RB_RED_RIGHT y t)"
    unfolding RB_SET_def set_links unfolding node_bits rbe_parent_set_bits using b by simp_all
qed (simp_all add: RB_SET_def set_links)

section \<open>A tree with a hole\<close>

type_synonym ctx = "(bool \<times> u64 \<times> u64 tree) list"

fun plug :: "ctx \<Rightarrow> u64 tree \<Rightarrow> u64 tree" where
  "plug [] T = T"
| "plug ((d, x, S) # cs) T = plug cs (if d then Node T x S else Node S x T)"

fun top_of :: "ctx \<Rightarrow> u64" where
  "top_of [] = 0"
| "top_of ((d, x, S) # cs) = x"

fun ctx_set :: "ctx \<Rightarrow> u64 set" where
  "ctx_set [] = {}"
| "ctx_set ((d, x, S) # cs) = insert x (set_tree S \<union> ctx_set cs)"

fun ctx_distinct :: "ctx \<Rightarrow> bool" where
  "ctx_distinct [] \<longleftrightarrow> True"
| "ctx_distinct ((d, x, S) # cs) \<longleftrightarrow> distinct (inorder S) \<and> x \<notin> set_tree S \<and> x \<notin> ctx_set cs \<and>
     set_tree S \<inter> ctx_set cs = {} \<and> ctx_distinct cs"

fun ctx_rep :: "ctx \<Rightarrow> u64 \<Rightarrow> rb_links \<Rightarrow> bool" where
  \<comment> \<open>the links around a subtree whose root is \<open>p\<close>\<close>
  "ctx_rep [] p t \<longleftrightarrow> rbh_root t = p"
| "ctx_rep ((d, x, S) # cs) p t \<longleftrightarrow> x \<noteq> 0 \<and> RB_PARENT x t = top_of cs \<and>
     (if d then rbe_left t x = p \<and> rb_rep S (rbe_right t x) x t
      else rbe_right t x = p \<and> rb_rep S (rbe_left t x) x t) \<and> ctx_rep cs x t"

lemma set_plug: "set_tree (plug cs T) = set_tree T \<union> ctx_set cs"
  by (induction cs T rule: plug.induct) auto

lemma distinct_plug:
  "distinct (inorder (plug cs T)) \<longleftrightarrow> distinct (inorder T) \<and> ctx_distinct cs \<and> set_tree T \<inter> ctx_set cs = {}"
  by (induction cs T rule: plug.induct) (auto simp flip: set_inorder)

lemma inorder_plug: "\<exists>us ws. \<forall>T. inorder (plug cs T) = us @ inorder T @ ws"
proof (induction cs)
  case Nil
  show ?case by (rule exI [of _ "[]"], rule exI [of _ "[]"]) simp
next
  case (Cons c cs)
  then obtain us ws where "\<And>T. inorder (plug cs T) = us @ inorder T @ ws" by blast
  moreover obtain d x S where "c = (d, x, S)" by (cases c)
  ultimately have "inorder (plug (c # cs) T) =
      (if d then us else us @ inorder S @ [x]) @ inorder T @ (if d then x # inorder S @ ws else ws)" for T by simp
  then show ?case by blast
qed

lemma plug_inorder_cong: "inorder T = inorder U \<Longrightarrow> inorder (plug cs T) = inorder (plug cs U)"
  using inorder_plug [of cs] by auto

lemma plug_rep: "rb_rep (plug cs T) (rbh_root t) 0 t \<longleftrightarrow> (\<exists>p. rb_rep T p (top_of cs) t \<and> ctx_rep cs p t)"
proof (induction cs arbitrary: T)
  case (Cons c cs)
  obtain d x S where "c = (d, x, S)" by (cases c)
  then show ?case by (cases d) (auto simp: Cons.IH)
qed simp

lemma rb_rep_frame:
  assumes "rb_rep T p q t" "distinct (inorder T)"
    and "\<And>y. y \<in> set_tree T \<Longrightarrow> rbe_left t' y = rbe_left t y \<and> rbe_right t' y = rbe_right t y"
    and "\<And>y. y \<in> set_tree T \<Longrightarrow> y \<noteq> p \<Longrightarrow> RB_PARENT y t' = RB_PARENT y t" and "p \<noteq> 0 \<Longrightarrow> RB_PARENT p t' = q'"
  shows "rb_rep T p q' t'"
  using assms
proof (induction T arbitrary: p q q')
  case (Node l x r)
  have p: "p = x" "x \<noteq> 0" "rb_rep l (rbe_left t x) x t" "rb_rep r (rbe_right t x) x t" using Node.prems(1) by auto
  have d: "distinct (inorder l)" "distinct (inorder r)" "x \<notin> set_tree l" "x \<notin> set_tree r"
    using Node.prems(2) by (auto simp flip: set_inorder)
  have up: "RB_PARENT c t' = x" if "rb_rep U c x t" "c \<noteq> 0" "set_tree U \<subseteq> set_tree (Node l x r)" "x \<notin> set_tree U" for U c
  proof -
    have c: "c \<in> set_tree U" "RB_PARENT c t = x" using that(1,2) by (cases U; auto)+
    then have "c \<in> set_tree (Node l x r)" "c \<noteq> p" using subsetD [OF that(3) c(1)] that(4) p(1) by auto
    then have "RB_PARENT c t' = RB_PARENT c t" by (rule Node.prems(4))
    then show ?thesis using c(2) by simp
  qed
  have "rb_rep l (rbe_left t x) x t'"
    by (rule Node.IH(1) [OF p(3) d(1)]) (use Node.prems(3,4) up [OF p(3)] p(1) d(3) in auto)
  moreover have "rb_rep r (rbe_right t x) x t'"
    by (rule Node.IH(2) [OF p(4) d(2)]) (use Node.prems(3,4) up [OF p(4)] p(1) d(4) in auto)
  ultimately show ?case using Node.prems(3) [of x] Node.prems(5) p(1,2) by simp
qed simp

lemma rb_rep_same:
  assumes "rb_rep T p q t" "distinct (inorder T)"
    and "\<And>y. y \<in> set_tree T \<Longrightarrow> rbe_left t' y = rbe_left t y \<and> rbe_right t' y = rbe_right t y \<and> RB_PARENT y t' = RB_PARENT y t"
  shows "rb_rep T p q t'"
proof (rule rb_rep_frame [OF assms(1,2)])
  show "p \<noteq> 0 \<Longrightarrow> RB_PARENT p t' = q" using assms(1) assms(3) [of p] by (cases T) auto
qed (use assms(3) in auto)

lemma ctx_rep_same:
  assumes "ctx_rep cs p t" "ctx_distinct cs" "rbh_root t' = rbh_root t"
    and "\<And>y. y \<in> ctx_set cs \<Longrightarrow> rbe_left t' y = rbe_left t y \<and> rbe_right t' y = rbe_right t y \<and> RB_PARENT y t' = RB_PARENT y t"
  shows "ctx_rep cs p t'"
  using assms
proof (induction cs arbitrary: p)
  case (Cons c cs)
  obtain d x S where c: "c = (d, x, S)" by (cases c)
  have "rb_rep S b x t'" if "rb_rep S b x t" for b
    by (rule rb_rep_same [OF that]) (use Cons.prems c in auto)
  then show ?case using Cons c by (auto split: if_splits)
qed simp

lemma ctx_rep_new_child:
  \<comment> \<open>another node takes the place of the subtree's root\<close>
  assumes "ctx_rep cs p t" "ctx_distinct cs" "cs = [] \<Longrightarrow> rbh_root t' = p'" "cs \<noteq> [] \<Longrightarrow> rbh_root t' = rbh_root t"
    and "\<And>y. y \<in> ctx_set cs \<Longrightarrow> RB_PARENT y t' = RB_PARENT y t"
    and "\<And>y. y \<in> ctx_set cs \<Longrightarrow> y \<noteq> top_of cs \<Longrightarrow> rbe_left t' y = rbe_left t y \<and> rbe_right t' y = rbe_right t y"
    and "\<And>d x S ds. cs = (d, x, S) # ds \<Longrightarrow> if d then rbe_left t' x = p' \<and> rbe_right t' x = rbe_right t x
           else rbe_right t' x = p' \<and> rbe_left t' x = rbe_left t x"
  shows "ctx_rep cs p' t'"
proof (cases cs)
  case (Cons c ds)
  obtain d x S where c: "c = (d, x, S)" by (cases c)
  have n: "x \<notin> set_tree S" "x \<notin> ctx_set ds" "distinct (inorder S)" "ctx_distinct ds" using assms(2) Cons c by auto
  have "rb_rep S b x t'" if "rb_rep S b x t" for b
    by (rule rb_rep_same [OF that n(3)]) (use assms(5,6) Cons c n(1) in auto)
  moreover have "ctx_rep ds x t'"
    by (rule ctx_rep_same [of _ _ t]) (use assms Cons c n in auto)
  ultimately show ?thesis using assms(1,5,7) Cons c by (auto split: if_splits)
qed (use assms in simp)

definition zip_ok :: "ctx \<Rightarrow> u64 tree \<Rightarrow> rb_links \<Rightarrow> bool" where
  "zip_ok cs T t \<longleftrightarrow> (\<exists>p. rb_rep T p (top_of cs) t \<and> ctx_rep cs p t) \<and> distinct (inorder (plug cs T)) \<and>
     (\<forall>x \<in> set_tree (plug cs T). aligned4 x)"

definition same_red :: "rb_links \<Rightarrow> rb_links \<Rightarrow> bool" where
  "same_red t' t \<longleftrightarrow> (\<forall>y. RB_RED_LEFT y t' = RB_RED_LEFT y t \<and> RB_RED_RIGHT y t' = RB_RED_RIGHT y t)"

lemma swap_child [links_simps]:
  "RB_PARENT y (RB_SWAP_CHILD x v t) = RB_PARENT y t" "RB_RED_LEFT y (RB_SWAP_CHILD x v t) = RB_RED_LEFT y t"
  "RB_RED_RIGHT y (RB_SWAP_CHILD x v t) = RB_RED_RIGHT y t"
  "rbh_root (RB_SWAP_CHILD x v t) = (if RB_PARENT x t = 0 then v else rbh_root t)"
  "rbe_left (RB_SWAP_CHILD x v t) = (if RB_PARENT x t \<noteq> 0 \<and> x = rbe_left t (RB_PARENT x t)
     then (rbe_left t)(RB_PARENT x t := v) else rbe_left t)"
  "rbe_right (RB_SWAP_CHILD x v t) = (if RB_PARENT x t \<noteq> 0 \<and> x \<noteq> rbe_left t (RB_PARENT x t)
     then (rbe_right t)(RB_PARENT x t := v) else rbe_right t)"
  by (simp_all add: RB_SWAP_CHILD_def links_simps)

lemma ctx_top:
  assumes "ctx_rep cs p t"
  shows "top_of cs = 0 \<longleftrightarrow> cs = []" "cs \<noteq> [] \<Longrightarrow> top_of cs \<in> ctx_set cs"
  using assms by (cases cs rule: top_of.cases; auto)+

lemma ctx_side:
  \<comment> \<open>the test by which \<open>RB_SWAP_CHILD\<close> and the rebalancing loop tell left from right\<close>
  assumes "ctx_rep ((d, x, S) # cs) p t" "p \<noteq> 0" "p \<notin> set_tree S"
  shows "rbe_left t x = p \<longleftrightarrow> d"
  using assms rb_rep_in [of S "rbe_left t x"] by (auto split: if_splits)

lemma rotate_right_zip:
  assumes ok: "zip_ok cs (Node (Node A e B) p C) t"
  obtains t' where "RB_ROTATE_RIGHT p t = Some (e, t')" "zip_ok cs (Node A e (Node B p C)) t'" "same_red t' t"
proof -
  have r: "p \<noteq> 0" "RB_PARENT p t = top_of cs" "rbe_left t p = e" "e \<noteq> 0" "RB_PARENT e t = p"
    "rb_rep A (rbe_left t e) e t" "rb_rep B (rbe_right t e) e t" "rb_rep C (rbe_right t p) p t" "ctx_rep cs p t"
    using ok by (auto simp: zip_ok_def)
  have d: "distinct (inorder A)" "distinct (inorder B)" "distinct (inorder C)" "ctx_distinct cs" "p \<noteq> e"
    "p \<notin> set_tree A \<union> set_tree B \<union> set_tree C \<union> ctx_set cs" "e \<notin> set_tree A \<union> set_tree B \<union> set_tree C \<union> ctx_set cs"
    "set_tree A \<inter> set_tree B = {}" "set_tree C \<inter> set_tree B = {}" "set_tree B \<inter> ctx_set cs = {}"
    "set_tree A \<inter> ctx_set cs = {}" "set_tree C \<inter> ctx_set cs = {}"
    using ok unfolding zip_ok_def distinct_plug by (auto simp flip: set_inorder)
  have al: "aligned4 p" "aligned4 e" "aligned4 (top_of cs)"
    using ok ctx_top [OF r(9)] unfolding zip_ok_def set_plug by (cases "cs = []"; auto)+
  define g where "g = top_of cs"
  define b where "b = rbe_right t e"
  define t3 where "t3 = RB_SET_PARENT e g (if b \<noteq> 0 then RB_SET_PARENT b p (set_left p b t) else set_left p b t)"
  define t' where "t' = RB_SET_PARENT p e (set_right e p (RB_SWAP_CHILD p e t3))"
  have bB: "b \<in> set_tree B" if "b \<noteq> 0" using rb_rep_in [OF r(7)] that by (simp add: b_def)
  have be: "b \<noteq> p" "b \<noteq> e" using bB d(6,7) r(1,4) by auto
  have gn: "g \<noteq> p" "g \<noteq> e" "g \<noteq> 0 \<Longrightarrow> g \<in> ctx_set cs" "g = 0 \<longleftrightarrow> cs = []"
    using ctx_top [OF r(9)] d(6,7) r(1,4) unfolding g_def by (cases "cs = []"; auto)+
  have t3: "rbe_left t3 = (rbe_left t)(p := b)" "rbe_right t3 = rbe_right t" "rbh_root t3 = rbh_root t"
    "RB_PARENT y t3 = (if y = e then g else if b \<noteq> 0 \<and> y = b then p else RB_PARENT y t)" "same_red t3 t" for y
    using al unfolding t3_def g_def [symmetric] same_red_def by (auto simp: links_simps)
  have run: "RB_ROTATE_RIGHT p t = Some (e, t')"
    using r(1-4) d(5) al be unfolding RB_ROTATE_RIGHT_def t'_def t3_def g_def b_def Let_def
    by (simp add: links_simps)
  have par: "RB_PARENT p t3 = g" using t3(4) r(2) be d(5) by (simp add: g_def)
  define H where "H \<longleftrightarrow> p = rbe_left t3 g"
  have sw: "rbe_left (RB_SWAP_CHILD p e t3) = (if g \<noteq> 0 \<and> H then (rbe_left t3)(g := e) else rbe_left t3)"
    "rbe_right (RB_SWAP_CHILD p e t3) = (if g \<noteq> 0 \<and> \<not> H then (rbe_right t3)(g := e) else rbe_right t3)"
    "rbh_root (RB_SWAP_CHILD p e t3) = (if g = 0 then e else rbh_root t3)"
    unfolding swap_child par H_def by (rule refl)+
  have H: "H \<longleftrightarrow> p = rbe_left t g" unfolding H_def t3(1,2) using gn(1) by simp
  have fld: "RB_PARENT y t' = (if y = p then e else if y = e then g else if b \<noteq> 0 \<and> y = b then p else RB_PARENT y t)"
    "rbh_root t' = (if g = 0 then e else rbh_root t)"
    "rbe_left t' y = (if y = p then b else if y = g \<and> g \<noteq> 0 \<and> p = rbe_left t g then e else rbe_left t y)"
    "rbe_right t' y = (if y = e then p else if y = g \<and> g \<noteq> 0 \<and> p \<noteq> rbe_left t g then e else rbe_right t y)"
    "same_red t' t" for y
    using t3(5) gn(1,2) d(5) unfolding t'_def same_red_def set_parent(4-6) [OF al(2)] set_parent(1-3) set_links swap_child(1-3) sw H [symmetric]
    by (auto simp: t3(1-4))
  have oth: "rbe_left t' y = rbe_left t y \<and> rbe_right t' y = rbe_right t y" if "y \<noteq> p" "y \<noteq> e" "g \<noteq> 0 \<Longrightarrow> y \<noteq> g" for y
    using fld(3,4) [of y] that by (cases "g = 0") simp_all
  have sub: "rbe_left t' y = rbe_left t y \<and> rbe_right t' y = rbe_right t y" if "y \<in> set_tree A \<union> set_tree B \<union> set_tree C" for y
    by (rule oth) (use that d gn(3) in auto)
  have "rb_rep B b p t'" by (rule rb_rep_frame [OF r(7) [folded b_def] d(2)]) (use fld(1) sub be bB d(6,7) in auto)
  moreover have "rb_rep A (rbe_left t e) e t'" by (rule rb_rep_same [OF r(6) d(1)]) (use fld(1) sub bB d in auto)
  moreover have "rb_rep C (rbe_right t p) p t'" by (rule rb_rep_same [OF r(8) d(3)]) (use fld(1) sub bB d in auto)
  ultimately have "rb_rep (Node A e (Node B p C)) e (top_of cs) t'"
    using fld(1,3,4) [of e] fld(1,3,4) [of p] r(1,4) d(5) gn g_def by simp
  moreover have "ctx_rep cs e t'"
  proof (rule ctx_rep_new_child [OF r(9) d(4)])
    fix dd x S ds assume c: "cs = (dd, x, S) # ds"
    then have "g = x" "x \<noteq> 0" "p \<notin> set_tree S" using r(9) d(6) by (auto simp: g_def)
    then show "if dd then rbe_left t' x = e \<and> rbe_right t' x = rbe_right t x else rbe_right t' x = e \<and> rbe_left t' x = rbe_left t x"
      using ctx_side [OF r(9) [unfolded c] r(1)] gn fld(3,4) [of x] by auto
  next
    show "rbe_left t' y = rbe_left t y \<and> rbe_right t' y = rbe_right t y" if "y \<in> ctx_set cs" "y \<noteq> top_of cs" for y
      by (rule oth) (use that d(6,7) g_def in auto)
  qed (use fld(1,2) gn d bB g_def in auto)
  ultimately have "zip_ok cs (Node A e (Node B p C)) t'"
    using ok by (auto simp: zip_ok_def set_plug distinct_plug)
  then show thesis using that run fld(5) by blast
qed

lemma rotate_left_zip:
  assumes ok: "zip_ok cs (Node C p (Node B e A)) t"
  obtains t' where "RB_ROTATE_LEFT p t = Some (e, t')" "zip_ok cs (Node (Node C p B) e A) t'" "same_red t' t"
proof -
  have r: "p \<noteq> 0" "RB_PARENT p t = top_of cs" "rbe_right t p = e" "e \<noteq> 0" "RB_PARENT e t = p"
    "rb_rep A (rbe_right t e) e t" "rb_rep B (rbe_left t e) e t" "rb_rep C (rbe_left t p) p t" "ctx_rep cs p t"
    using ok by (auto simp: zip_ok_def)
  have d: "distinct (inorder A)" "distinct (inorder B)" "distinct (inorder C)" "ctx_distinct cs" "p \<noteq> e"
    "p \<notin> set_tree A \<union> set_tree B \<union> set_tree C \<union> ctx_set cs" "e \<notin> set_tree A \<union> set_tree B \<union> set_tree C \<union> ctx_set cs"
    "set_tree A \<inter> set_tree B = {}" "set_tree C \<inter> set_tree B = {}" "set_tree B \<inter> ctx_set cs = {}"
    "set_tree A \<inter> ctx_set cs = {}" "set_tree C \<inter> ctx_set cs = {}"
    using ok unfolding zip_ok_def distinct_plug by (auto simp flip: set_inorder)
  have al: "aligned4 p" "aligned4 e" "aligned4 (top_of cs)"
    using ok ctx_top [OF r(9)] unfolding zip_ok_def set_plug by (cases "cs = []"; auto)+
  define g where "g = top_of cs"
  define b where "b = rbe_left t e"
  define t3 where "t3 = RB_SET_PARENT e g (if b \<noteq> 0 then RB_SET_PARENT b p (set_right p b t) else set_right p b t)"
  define t' where "t' = RB_SET_PARENT p e (set_left e p (RB_SWAP_CHILD p e t3))"
  have bB: "b \<in> set_tree B" if "b \<noteq> 0" using rb_rep_in [OF r(7)] that by (simp add: b_def)
  have be: "b \<noteq> p" "b \<noteq> e" using bB d(6,7) r(1,4) by auto
  have gn: "g \<noteq> p" "g \<noteq> e" "g \<noteq> 0 \<Longrightarrow> g \<in> ctx_set cs" "g = 0 \<longleftrightarrow> cs = []"
    using ctx_top [OF r(9)] d(6,7) r(1,4) unfolding g_def by (cases "cs = []"; auto)+
  have t3: "rbe_right t3 = (rbe_right t)(p := b)" "rbe_left t3 = rbe_left t" "rbh_root t3 = rbh_root t"
    "RB_PARENT y t3 = (if y = e then g else if b \<noteq> 0 \<and> y = b then p else RB_PARENT y t)" "same_red t3 t" for y
    using al unfolding t3_def g_def [symmetric] same_red_def by (auto simp: links_simps)
  have run: "RB_ROTATE_LEFT p t = Some (e, t')"
    using r(1-4) d(5) al be unfolding RB_ROTATE_LEFT_def t'_def t3_def g_def b_def Let_def
    by (simp add: links_simps)
  have par: "RB_PARENT p t3 = g" using t3(4) r(2) be d(5) by (simp add: g_def)
  define H where "H \<longleftrightarrow> p = rbe_left t3 g"
  have sw: "rbe_left (RB_SWAP_CHILD p e t3) = (if g \<noteq> 0 \<and> H then (rbe_left t3)(g := e) else rbe_left t3)"
    "rbe_right (RB_SWAP_CHILD p e t3) = (if g \<noteq> 0 \<and> \<not> H then (rbe_right t3)(g := e) else rbe_right t3)"
    "rbh_root (RB_SWAP_CHILD p e t3) = (if g = 0 then e else rbh_root t3)"
    unfolding swap_child par H_def by (rule refl)+
  have H: "H \<longleftrightarrow> p = rbe_left t g" unfolding H_def t3(1,2) using gn(1) by simp
  have fld: "RB_PARENT y t' = (if y = p then e else if y = e then g else if b \<noteq> 0 \<and> y = b then p else RB_PARENT y t)"
    "rbh_root t' = (if g = 0 then e else rbh_root t)"
    "rbe_left t' y = (if y = e then p else if y = g \<and> g \<noteq> 0 \<and> p = rbe_left t g then e else rbe_left t y)"
    "rbe_right t' y = (if y = p then b else if y = g \<and> g \<noteq> 0 \<and> p \<noteq> rbe_left t g then e else rbe_right t y)"
    "same_red t' t" for y
    using t3(5) gn(1,2) d(5) unfolding t'_def same_red_def set_parent(4-6) [OF al(2)] set_parent(1-3) set_links swap_child(1-3) sw H [symmetric]
    by (auto simp: t3(1-4))
  have oth: "rbe_left t' y = rbe_left t y \<and> rbe_right t' y = rbe_right t y" if "y \<noteq> p" "y \<noteq> e" "g \<noteq> 0 \<Longrightarrow> y \<noteq> g" for y
    using fld(3,4) [of y] that by (cases "g = 0") simp_all
  have sub: "rbe_left t' y = rbe_left t y \<and> rbe_right t' y = rbe_right t y" if "y \<in> set_tree A \<union> set_tree B \<union> set_tree C" for y
    by (rule oth) (use that d gn(3) in auto)
  have "rb_rep B b p t'" by (rule rb_rep_frame [OF r(7) [folded b_def] d(2)]) (use fld(1) sub be bB d(6,7) in auto)
  moreover have "rb_rep A (rbe_right t e) e t'" by (rule rb_rep_same [OF r(6) d(1)]) (use fld(1) sub bB d in auto)
  moreover have "rb_rep C (rbe_left t p) p t'" by (rule rb_rep_same [OF r(8) d(3)]) (use fld(1) sub bB d in auto)
  ultimately have "rb_rep (Node (Node C p B) e A) e (top_of cs) t'"
    using fld(1,3,4) [of e] fld(1,3,4) [of p] r(1,4) d(5) gn g_def by simp
  moreover have "ctx_rep cs e t'"
  proof (rule ctx_rep_new_child [OF r(9) d(4)])
    fix dd x S ds assume c: "cs = (dd, x, S) # ds"
    then have "g = x" "x \<noteq> 0" "p \<notin> set_tree S" using r(9) d(6) by (auto simp: g_def)
    then show "if dd then rbe_left t' x = e \<and> rbe_right t' x = rbe_right t x else rbe_right t' x = e \<and> rbe_left t' x = rbe_left t x"
      using ctx_side [OF r(9) [unfolded c] r(1)] gn fld(3,4) [of x] by auto
  next
    show "rbe_left t' y = rbe_left t y \<and> rbe_right t' y = rbe_right t y" if "y \<in> ctx_set cs" "y \<noteq> top_of cs" for y
      by (rule oth) (use that d(6,7) g_def in auto)
  qed (use fld(1,2) gn d bB g_def in auto)
  ultimately have "zip_ok cs (Node (Node C p B) e A) t'"
    using ok by (auto simp: zip_ok_def set_plug distinct_plug)
  then show thesis using that run fld(5) by blast
qed


section \<open>Balance\<close>

fun rk :: "rb_links \<Rightarrow> u64 tree \<Rightarrow> nat" where
  \<comment> \<open>the rank, computed along the left side\<close>
  "rk t Leaf = 0"
| "rk t (Node l x r) = rk t l + 1 + of_bool (RB_RED_LEFT x t)"

fun bal :: "rb_links \<Rightarrow> u64 tree \<Rightarrow> bool" where
  "bal t Leaf \<longleftrightarrow> True"
| "bal t (Node l x r) \<longleftrightarrow> bal t l \<and> bal t r \<and>
     rk t l + of_bool (RB_RED_LEFT x t) = rk t r + of_bool (RB_RED_RIGHT x t) \<and> (l = Leaf \<and> r = Leaf \<longrightarrow> \<not> RB_RED_LEFT x t)"

definition red :: "bool \<Rightarrow> u64 \<Rightarrow> rb_links \<Rightarrow> bool" where
  "red d x t = (if d then RB_RED_LEFT x t else RB_RED_RIGHT x t)"

fun ctx_bal :: "rb_links \<Rightarrow> nat \<Rightarrow> ctx \<Rightarrow> bool" where
  \<comment> \<open>balanced once the hole is filled with a balanced tree of the given rank\<close>
  "ctx_bal t k [] \<longleftrightarrow> True"
| "ctx_bal t k ((d, x, S) # cs) \<longleftrightarrow> bal t S \<and> k + of_bool (red d x t) = rk t S + of_bool (red (\<not> d) x t) \<and>
     (k = 0 \<and> S = Leaf \<longrightarrow> \<not> red d x t) \<and> ctx_bal t (k + 1 + of_bool (red d x t)) cs"

lemma rk_0 [simp]: "rk t T = 0 \<longleftrightarrow> T = Leaf" by (cases T) auto

lemma bal_plug: "bal t (plug cs T) \<longleftrightarrow> bal t T \<and> ctx_bal t (rk t T) cs"
proof (induction cs arbitrary: T)
  case (Cons c cs)
  obtain d x S where "c = (d, x, S)" by (cases c)
  then show ?case by (cases d) (auto simp: Cons.IH red_def)
qed simp

lemma bal_cong:
  assumes "\<And>y. y \<in> set_tree T \<Longrightarrow> RB_RED_LEFT y t' = RB_RED_LEFT y t \<and> RB_RED_RIGHT y t' = RB_RED_RIGHT y t"
  shows "rk t' T = rk t T \<and> bal t' T = bal t T"
  using assms by (induction T) auto

lemma ctx_bal_cong:
  assumes "\<And>y. y \<in> ctx_set cs \<Longrightarrow> RB_RED_LEFT y t' = RB_RED_LEFT y t \<and> RB_RED_RIGHT y t' = RB_RED_RIGHT y t"
  shows "ctx_bal t' k cs = ctx_bal t k cs"
  using assms
proof (induction cs arbitrary: k)
  case (Cons c cs)
  obtain d x S where c: "c = (d, x, S)" by (cases c)
  have "red e x t' = red e x t" for e using Cons.prems [of x] c by (simp add: red_def)
  moreover have "rk t' S = rk t S \<and> bal t' S = bal t S" by (rule bal_cong) (use Cons.prems c in auto)
  ultimately show ?case using Cons c by simp
qed simp

definition same_shape :: "rb_links \<Rightarrow> rb_links \<Rightarrow> bool" where
  "same_shape t' t \<longleftrightarrow> rbe_left t' = rbe_left t \<and> rbe_right t' = rbe_right t \<and> rbh_root t' = rbh_root t \<and>
     (\<forall>y. RB_PARENT y t' = RB_PARENT y t)"

lemma same_shape_bits [simp]:
  "same_shape (RB_FLIP_LEFT x t) t" "same_shape (RB_FLIP_RIGHT x t) t"
  "same_shape (set_bits x (rbe_parent t x AND NOT RB_RED_MASK) t) t"
  unfolding same_shape_def links_simps by simp_all

lemma zip_ok_shape: "same_shape t' t \<Longrightarrow> zip_ok cs T t \<Longrightarrow> zip_ok cs T t'"
  unfolding zip_ok_def distinct_plug
  by (elim conjE exE, intro conjI exI) (auto simp: same_shape_def intro: rb_rep_same ctx_rep_same)

lemma zip_ok_up:
  "zip_ok ((d, p, S) # cs) T t \<Longrightarrow> zip_ok cs (if d then Node T p S else Node S p T) t"
  unfolding zip_ok_def by (cases d) auto

lemma zip_ok_down: "zip_ok cs (Node T p S) t \<Longrightarrow> zip_ok ((True, p, S) # cs) T t"
  "zip_ok cs (Node S p T) t \<Longrightarrow> zip_ok ((False, p, S) # cs) T t"
  unfolding zip_ok_def by auto

definition same_red_but :: "u64 set \<Rightarrow> rb_links \<Rightarrow> rb_links \<Rightarrow> bool" where
  "same_red_but X t' t \<longleftrightarrow> (\<forall>y. y \<notin> X \<longrightarrow> RB_RED_LEFT y t' = RB_RED_LEFT y t \<and> RB_RED_RIGHT y t' = RB_RED_RIGHT y t)"

fun not22 :: "rb_links \<Rightarrow> u64 tree \<Rightarrow> bool" where
  "not22 t Leaf \<longleftrightarrow> True"
| "not22 t (Node l x r) \<longleftrightarrow> \<not> (RB_RED_LEFT x t \<and> RB_RED_RIGHT x t)"

fun promoted :: "rb_links \<Rightarrow> u64 tree \<Rightarrow> bool" where
  \<comment> \<open>a subtree whose rank has just grown: a new leaf, or one whose higher child has just grown\<close>
  "promoted t Leaf \<longleftrightarrow> False"
| "promoted t (Node l x r) \<longleftrightarrow> l = Leaf \<and> r = Leaf \<or>
     RB_RED_LEFT x t \<noteq> RB_RED_RIGHT x t \<and> not22 t (if RB_RED_LEFT x t then r else l)"

lemma fix_left_single:
  assumes z: "zip_ok cs (Node (Node l x r) p S) t" and b: "bal t (Node l x r)" "bal t S" "rk t (Node l x r) = rk t S + 2"
    and red: "\<not> RB_RED_LEFT p t" "\<not> RB_RED_RIGHT p t" "RB_RED_RIGHT x t" "\<not> RB_RED_LEFT x t"
  obtains t' where "insert_fix_left x p t = Some t'" "zip_ok cs (Node l x (Node r p S)) t'" "bal t' (Node l x (Node r p S))"
    "rk t' (Node l x (Node r p S)) = rk t (Node l x r)"
    "same_red_but {x} t' t"
proof -
  obtain t1 where t1: "RB_ROTATE_RIGHT p t = Some (x, t1)" "zip_ok cs (Node l x (Node r p S)) t1" "same_red t1 t"
    using rotate_right_zip [OF z] .
  define t' where "t' = set_bits x (rbe_parent t1 x AND NOT RB_RED_MASK) t1"
  have red': "RB_RED_LEFT y t' = (y \<noteq> x \<and> RB_RED_LEFT y t)" "RB_RED_RIGHT y t' = (y \<noteq> x \<and> RB_RED_RIGHT y t)" for y
    using t1(3) unfolding t'_def clear_bits same_red_def by simp_all
  have n: "x \<noteq> p" "x \<notin> set_tree l" "x \<notin> set_tree r" "x \<notin> set_tree S"
    using z unfolding zip_ok_def distinct_plug by (auto simp flip: set_inorder)
  have same: "rk t' T = rk t T \<and> bal t' T = bal t T" if "x \<notin> set_tree T" for T
    by (rule bal_cong) (use red' that in auto)
  show thesis
  proof (rule that)
    show "insert_fix_left x p t = Some t'" using red(3) t1(1) unfolding insert_fix_left_def t'_def by simp
    show "zip_ok cs (Node l x (Node r p S)) t'" unfolding t'_def by (rule zip_ok_shape [OF same_shape_bits(3) t1(2)])
    show "bal t' (Node l x (Node r p S))" "rk t' (Node l x (Node r p S)) = rk t (Node l x r)"
      using b red n same [of l] same [of r] same [of S] by (auto simp: red')
  qed (use red' in \<open>auto simp: same_red_but_def\<close>)
qed

lemma fix_left_double:
  assumes z: "zip_ok cs (Node (Node l x (Node b c d)) p S) t"
    and b: "bal t (Node l x (Node b c d))" "bal t S" "rk t (Node l x (Node b c d)) = rk t S + 2"
    and red: "\<not> RB_RED_LEFT p t" "\<not> RB_RED_RIGHT p t" "\<not> RB_RED_RIGHT x t" "RB_RED_LEFT x t" "not22 t (Node b c d)"
  defines "T' \<equiv> Node (Node l x b) c (Node d p S)"
  obtains t' where "insert_fix_left x p t = Some t'" "zip_ok cs T' t'" "bal t' T'" "rk t' T' = rk t (Node l x (Node b c d))"
    "same_red_but {x, c, p} t' t"
proof -
  have "zip_ok ((True, p, S) # cs) (Node l x (Node b c d)) (RB_FLIP_LEFT x t)"
    by (rule zip_ok_shape [OF _ zip_ok_down(1) [OF z]]) simp
  then obtain t2 where t2: "RB_ROTATE_LEFT x (RB_FLIP_LEFT x t) = Some (c, t2)"
      "zip_ok ((True, p, S) # cs) (Node (Node l x b) c d) t2" "same_red t2 (RB_FLIP_LEFT x t)"
    using rotate_left_zip by metis
  define t3 where "t3 = (if RB_RED_LEFT c t2 then RB_FLIP_RIGHT x t2 else if RB_RED_RIGHT c t2 then RB_FLIP_LEFT p t2 else t2)"
  have "same_shape t3 t2" unfolding t3_def by (simp add: same_shape_def links_simps)
  then have "zip_ok cs (Node (Node (Node l x b) c d) p S) t3"
    using zip_ok_up [OF zip_ok_shape [OF _ t2(2), of t3]] by simp
  then obtain t4 where t4: "RB_ROTATE_RIGHT p t3 = Some (c, t4)" "zip_ok cs T' t4" "same_red t4 t3"
    using rotate_right_zip unfolding T'_def by metis
  define t' where "t' = set_bits c (rbe_parent t4 c AND NOT RB_RED_MASK) t4"
  have n: "distinct [x, c, p]" "set [x, c, p] \<inter> (set_tree l \<union> set_tree b \<union> set_tree d \<union> set_tree S) = {}"
    using z unfolding zip_ok_def distinct_plug by (auto simp flip: set_inorder)
  have red2: "RB_RED_LEFT y t2 = (if y = x then \<not> RB_RED_LEFT x t else RB_RED_LEFT y t)" "RB_RED_RIGHT y t2 = RB_RED_RIGHT y t" for y
    using t2(3) by (simp_all add: same_red_def links_simps)
  have red': "RB_RED_LEFT y t' = (if y = c \<or> y = x then False else if y = p then \<not> RB_RED_LEFT c t \<and> RB_RED_RIGHT c t else RB_RED_LEFT y t)"
    "RB_RED_RIGHT y t' = (if y = c then False else if y = x then RB_RED_LEFT c t else RB_RED_RIGHT y t)" for y
    using t4(3) n(1) red unfolding t'_def clear_bits same_red_def t3_def
    by (auto simp: links_simps red2)
  have same: "rk t' T = rk t T \<and> bal t' T = bal t T" if "set_tree T \<inter> {x, c, p} = {}" for T
    by (rule bal_cong) (use red' that in auto)
  show thesis
  proof (rule that)
    show "insert_fix_left x p t = Some t'"
      using red(3) t2(1) t4(1) unfolding insert_fix_left_def t'_def t3_def by simp
    show "zip_ok cs T' t'" unfolding t'_def by (rule zip_ok_shape [OF same_shape_bits(3) t4(2)])
    show "bal t' T'" "rk t' T' = rk t (Node l x (Node b c d))"
      using b red n same [of l] same [of b] same [of d] same [of S] unfolding T'_def by (auto simp: red')
  qed (use red' in \<open>auto simp: same_red_but_def\<close>)
qed

lemma fix_right_single:
  assumes z: "zip_ok cs (Node S p (Node r x l)) t" and b: "bal t (Node r x l)" "bal t S" "rk t (Node r x l) = rk t S + 2"
    and red: "\<not> RB_RED_RIGHT p t" "\<not> RB_RED_LEFT p t" "RB_RED_LEFT x t" "\<not> RB_RED_RIGHT x t"
  obtains t' where "insert_fix_right x p t = Some t'" "zip_ok cs (Node (Node S p r) x l) t'" "bal t' (Node (Node S p r) x l)"
    "rk t' (Node (Node S p r) x l) = rk t (Node r x l)"
    "same_red_but {x} t' t"
proof -
  obtain t1 where t1: "RB_ROTATE_LEFT p t = Some (x, t1)" "zip_ok cs (Node (Node S p r) x l) t1" "same_red t1 t"
    using rotate_left_zip [OF z] .
  define t' where "t' = set_bits x (rbe_parent t1 x AND NOT RB_RED_MASK) t1"
  have red': "RB_RED_RIGHT y t' = (y \<noteq> x \<and> RB_RED_RIGHT y t)" "RB_RED_LEFT y t' = (y \<noteq> x \<and> RB_RED_LEFT y t)" for y
    using t1(3) unfolding t'_def clear_bits same_red_def by simp_all
  have n: "x \<noteq> p" "x \<notin> set_tree l" "x \<notin> set_tree r" "x \<notin> set_tree S"
    using z unfolding zip_ok_def distinct_plug by (auto simp flip: set_inorder)
  have same: "rk t' T = rk t T \<and> bal t' T = bal t T" if "x \<notin> set_tree T" for T
    by (rule bal_cong) (use red' that in auto)
  show thesis
  proof (rule that)
    show "insert_fix_right x p t = Some t'" using red(3) t1(1) unfolding insert_fix_right_def t'_def by simp
    show "zip_ok cs (Node (Node S p r) x l) t'" unfolding t'_def by (rule zip_ok_shape [OF same_shape_bits(3) t1(2)])
    show "bal t' (Node (Node S p r) x l)" "rk t' (Node (Node S p r) x l) = rk t (Node r x l)"
      using b red n same [of l] same [of r] same [of S] by (auto simp: red')
  qed (use red' in \<open>auto simp: same_red_but_def\<close>)
qed

lemma fix_right_double:
  assumes z: "zip_ok cs (Node S p (Node (Node d c b) x l)) t"
    and b: "bal t (Node (Node d c b) x l)" "bal t S" "rk t (Node (Node d c b) x l) = rk t S + 2"
    and red: "\<not> RB_RED_RIGHT p t" "\<not> RB_RED_LEFT p t" "\<not> RB_RED_LEFT x t" "RB_RED_RIGHT x t" "not22 t (Node d c b)"
  defines "T' \<equiv> Node (Node S p d) c (Node b x l)"
  obtains t' where "insert_fix_right x p t = Some t'" "zip_ok cs T' t'" "bal t' T'" "rk t' T' = rk t (Node (Node d c b) x l)"
    "same_red_but {x, c, p} t' t"
proof -
  have "zip_ok ((False, p, S) # cs) (Node (Node d c b) x l) (RB_FLIP_RIGHT x t)"
    by (rule zip_ok_shape [OF _ zip_ok_down(2) [OF z]]) simp
  then obtain t2 where t2: "RB_ROTATE_RIGHT x (RB_FLIP_RIGHT x t) = Some (c, t2)"
      "zip_ok ((False, p, S) # cs) (Node d c (Node b x l)) t2" "same_red t2 (RB_FLIP_RIGHT x t)"
    using rotate_right_zip by metis
  define t3 where "t3 = (if RB_RED_RIGHT c t2 then RB_FLIP_LEFT x t2 else if RB_RED_LEFT c t2 then RB_FLIP_RIGHT p t2 else t2)"
  have "same_shape t3 t2" unfolding t3_def by (simp add: same_shape_def links_simps)
  then have "zip_ok cs (Node S p (Node d c (Node b x l))) t3"
    using zip_ok_up [OF zip_ok_shape [OF _ t2(2), of t3]] by simp
  then obtain t4 where t4: "RB_ROTATE_LEFT p t3 = Some (c, t4)" "zip_ok cs T' t4" "same_red t4 t3"
    using rotate_left_zip unfolding T'_def by metis
  define t' where "t' = set_bits c (rbe_parent t4 c AND NOT RB_RED_MASK) t4"
  have n: "distinct [x, c, p]" "set [x, c, p] \<inter> (set_tree l \<union> set_tree b \<union> set_tree d \<union> set_tree S) = {}"
    using z unfolding zip_ok_def distinct_plug by (auto simp flip: set_inorder)
  have red2: "RB_RED_RIGHT y t2 = (if y = x then \<not> RB_RED_RIGHT x t else RB_RED_RIGHT y t)" "RB_RED_LEFT y t2 = RB_RED_LEFT y t" for y
    using t2(3) by (simp_all add: same_red_def links_simps)
  have red': "RB_RED_RIGHT y t' = (if y = c \<or> y = x then False else if y = p then \<not> RB_RED_RIGHT c t \<and> RB_RED_LEFT c t else RB_RED_RIGHT y t)"
    "RB_RED_LEFT y t' = (if y = c then False else if y = x then RB_RED_RIGHT c t else RB_RED_LEFT y t)" for y
    using t4(3) n(1) red unfolding t'_def clear_bits same_red_def t3_def
    by (auto simp: links_simps red2)
  have same: "rk t' T = rk t T \<and> bal t' T = bal t T" if "set_tree T \<inter> {x, c, p} = {}" for T
    by (rule bal_cong) (use red' that in auto)
  show thesis
  proof (rule that)
    show "insert_fix_right x p t = Some t'"
      using red(3) t2(1) t4(1) unfolding insert_fix_right_def t'_def t3_def by simp
    show "zip_ok cs T' t'" unfolding t'_def by (rule zip_ok_shape [OF same_shape_bits(3) t4(2)])
    show "bal t' T'" "rk t' T' = rk t (Node (Node d c b) x l)"
      using b red n same [of l] same [of b] same [of d] same [of S] unfolding T'_def by (auto simp: red')
  qed (use red' in \<open>auto simp: same_red_but_def\<close>)
qed


section \<open>The rebalancing loop\<close>

definition tree_ok :: "rb_links \<Rightarrow> u64 list \<Rightarrow> bool" where
  \<comment> \<open>the links form a balanced tree with these nodes in order\<close>
  "tree_ok t xs \<longleftrightarrow> (\<exists>T. rb_rep T (rbh_root t) 0 t \<and> bal t T \<and> inorder T = xs) \<and> distinct xs \<and> (\<forall>x \<in> set xs. aligned4 x)"

lemma tree_ok_zip:
  assumes "zip_ok cs T t" "bal t T" "ctx_bal t (rk t T) cs"
  shows "tree_ok t (inorder (plug cs T))"
  using assms plug_rep [of cs T t] bal_plug [of t cs T] unfolding tree_ok_def zip_ok_def set_inorder by blast

lemma zip_finish:
  assumes "zip_ok cs T' t'" "bal t' T'" "rk t' T' = k" "same_red_but X t' t" "ctx_bal t k cs" "inorder T' = inorder T" "X \<inter> ctx_set cs = {}"
  shows "tree_ok t' (inorder (plug cs T))"
proof -
  have "ctx_bal t' k cs = ctx_bal t k cs" by (rule ctx_bal_cong) (use assms(4,7) in \<open>auto simp: same_red_but_def\<close>)
  then show ?thesis using tree_ok_zip [OF assms(1,2)] assms(3,5) plug_inorder_cong [OF assms(6)] by simp
qed

lemma insert_fix_left_ok:
  assumes z: "zip_ok cs (Node (Node l x r) p S) t" and b: "bal t (Node l x r)" "promoted t (Node l x r)" "bal t S"
    and k: "rk t (Node l x r) = rk t S + 2" "\<not> RB_RED_LEFT p t" "\<not> RB_RED_RIGHT p t" "ctx_bal t (rk t (Node l x r)) cs"
  shows "\<exists>t'. insert_fix_left x p t = Some t' \<and> tree_ok t' (inorder (plug cs (Node (Node l x r) p S)))"
proof -
  have n: "{x, p} \<inter> ctx_set cs = {}" "set_tree r \<inter> ctx_set cs = {}" using z unfolding zip_ok_def distinct_plug by auto
  have nl: "\<not> (l = Leaf \<and> r = Leaf)" using b(1) k(1) by auto
  show ?thesis
  proof (cases "RB_RED_RIGHT x t")
    case True
    then have "\<not> RB_RED_LEFT x t" using b(2) nl by simp
    then obtain t' where t': "insert_fix_left x p t = Some t'" "zip_ok cs (Node l x (Node r p S)) t'" "bal t' (Node l x (Node r p S))"
      "rk t' (Node l x (Node r p S)) = rk t (Node l x r)"
      "same_red_but {x} t' t"
      using fix_left_single [OF z b(1,3) k(1-3) True] by metis
    have "tree_ok t' (inorder (plug cs (Node (Node l x r) p S)))"
      by (rule zip_finish [OF t'(2-5) k(4)]) (use n in auto)
    then show ?thesis using t'(1) by blast
  next
    case False
    then have rl: "RB_RED_LEFT x t" "not22 t r" using b(2) nl by auto
    then have "r \<noteq> Leaf" using b(1) False by auto
    then obtain u c d where r: "r = Node u c d" by (cases r) auto
    obtain t' where t': "insert_fix_left x p t = Some t'" "zip_ok cs (Node (Node l x u) c (Node d p S)) t'"
      "bal t' (Node (Node l x u) c (Node d p S))" "rk t' (Node (Node l x u) c (Node d p S)) = rk t (Node l x r)"
      "same_red_but {x, c, p} t' t"
      using fix_left_double [OF z [unfolded r] b(1,3) [unfolded r] k(1-3) [unfolded r] False rl [unfolded r]] r by metis
    have "tree_ok t' (inorder (plug cs (Node (Node l x r) p S)))"
      by (rule zip_finish [OF t'(2-5) k(4)]) (use n r in auto)
    then show ?thesis using t'(1) by blast
  qed
qed

lemma insert_fix_right_ok:
  assumes z: "zip_ok cs (Node S p (Node r x l)) t" and b: "bal t (Node r x l)" "promoted t (Node r x l)" "bal t S"
    and k: "rk t (Node r x l) = rk t S + 2" "\<not> RB_RED_RIGHT p t" "\<not> RB_RED_LEFT p t" "ctx_bal t (rk t (Node r x l)) cs"
  shows "\<exists>t'. insert_fix_right x p t = Some t' \<and> tree_ok t' (inorder (plug cs (Node S p (Node r x l))))"
proof -
  have n: "{x, p} \<inter> ctx_set cs = {}" "set_tree r \<inter> ctx_set cs = {}" using z unfolding zip_ok_def distinct_plug by auto
  have nl: "\<not> (r = Leaf \<and> l = Leaf)" using b(1) k(1) by auto
  show ?thesis
  proof (cases "RB_RED_LEFT x t")
    case True
    then have "\<not> RB_RED_RIGHT x t" using b(2) nl by simp
    then obtain t' where t': "insert_fix_right x p t = Some t'" "zip_ok cs (Node (Node S p r) x l) t'" "bal t' (Node (Node S p r) x l)"
      "rk t' (Node (Node S p r) x l) = rk t (Node r x l)"
      "same_red_but {x} t' t"
      using fix_right_single [OF z b(1,3) k(1-3) True] by metis
    have "tree_ok t' (inorder (plug cs (Node S p (Node r x l))))"
      by (rule zip_finish [OF t'(2-5) k(4)]) (use n in auto)
    then show ?thesis using t'(1) by blast
  next
    case False
    then have rl: "RB_RED_RIGHT x t" "not22 t r" using b(2) nl by auto
    then have "r \<noteq> Leaf" using b(1) False by auto
    then obtain u c d where r: "r = Node d c u" by (cases r) auto
    obtain t' where t': "insert_fix_right x p t = Some t'" "zip_ok cs (Node (Node S p d) c (Node u x l)) t'"
      "bal t' (Node (Node S p d) c (Node u x l))" "rk t' (Node (Node S p d) c (Node u x l)) = rk t (Node r x l)"
      "same_red_but {x, c, p} t' t"
      using fix_right_double [OF z [unfolded r] b(1,3) [unfolded r] k(1-3) [unfolded r] False rl [unfolded r]] r by metis
    have "tree_ok t' (inorder (plug cs (Node S p (Node r x l))))"
      by (rule zip_finish [OF t'(2-5) k(4)]) (use n r in auto)
    then show ?thesis using t'(1) by blast
  qed
qed

lemma red_but_same:
  assumes "same_red_but {p} t' t" "p \<notin> set_tree U"
  shows "rk t' U = rk t U \<and> bal t' U = bal t U \<and> promoted t' U = promoted t U \<and> not22 t' U = not22 t U"
proof -
  have r: "RB_RED_LEFT y t' = RB_RED_LEFT y t \<and> RB_RED_RIGHT y t' = RB_RED_RIGHT y t" if "y \<in> set_tree U" for y
    using that assms by (auto simp: same_red_but_def)
  then have v: "not22 t' V = not22 t V" if "set_tree V \<subseteq> set_tree U" for V using that by (cases V) auto
  have "promoted t' U = promoted t U"
  proof (cases U)
    case (Node l x r)
    then show ?thesis using r [of x] v [of l] v [of r] by auto
  qed simp
  then show ?thesis using bal_cong [of U t' t] r v [of U] by blast
qed

lemma ctx_red_but_same: "same_red_but {p} t' t \<Longrightarrow> p \<notin> ctx_set cs \<Longrightarrow> ctx_bal t' m cs = ctx_bal t m cs"
  by (rule ctx_bal_cong) (auto simp: same_red_but_def)

lemma same_red_flips: "same_red_but {p} (RB_FLIP_LEFT p t) t" "same_red_but {p} (RB_FLIP_RIGHT p t) t"
  by (simp_all add: same_red_but_def links_simps)

lemma promoted_not22: "bal t T \<Longrightarrow> promoted t T \<Longrightarrow> not22 t T"
  by (cases T) auto

lemma color_step_left:
  \<comment> \<open>one turn of the loop at a left child: it ends, or the parent has grown\<close>
  assumes z: "zip_ok ((True, p, S) # cs) (Node l x r) t" and b: "bal t (Node l x r)" "promoted t (Node l x r)"
    and k: "rk t (Node l x r) = Suc k" "ctx_bal t k ((True, p, S) # cs)"
  obtains (stop) t' where "RB_INSERT_COLOR x t = Some t'" "tree_ok t' (inorder (plug cs (Node (Node l x r) p S)))"
  | (climb) t' where "RB_INSERT_COLOR x t = RB_INSERT_COLOR p t'" "zip_ok cs (Node (Node l x r) p S) t'"
      "bal t' (Node (Node l x r) p S)" "promoted t' (Node (Node l x r) p S)" "rk t' (Node (Node l x r) p S) = Suc (Suc k)"
      "ctx_bal t' (Suc k) cs"
proof -
  define T where "T = Node l x r"
  have rep: "rb_rep T x p t" "ctx_rep ((True, p, S) # cs) x t" using z by (auto simp: zip_ok_def T_def)
  have p: "p \<noteq> 0" "RB_PARENT x t = p" "rbe_left t p = x" using rep by (auto simp: T_def)
  have n: "p \<notin> set_tree T" "p \<notin> set_tree S" "p \<notin> ctx_set cs"
    using z unfolding zip_ok_def distinct_plug by (auto simp: T_def)
  have zup: "zip_ok cs (Node T p S) t'" if "same_shape t' t" for t'
    using zip_ok_up [OF zip_ok_shape [OF that z]] by (simp add: T_def)
  note same = red_but_same [OF same_red_flips(1) n(1)] red_but_same [OF same_red_flips(1) n(2)]
    red_but_same [OF same_red_flips(2) n(1)] red_but_same [OF same_red_flips(2) n(2)]
    ctx_red_but_same [OF same_red_flips(1) n(3)] ctx_red_but_same [OF same_red_flips(2) n(3)]
  have T: "bal t T" "promoted t T" "rk t T = Suc k" "not22 t T" "T \<noteq> Leaf"
    using b k(1) promoted_not22 [OF b] unfolding T_def [symmetric] by (auto simp: T_def)
  have K: "bal t S" "k + of_bool (RB_RED_LEFT p t) = rk t S + of_bool (RB_RED_RIGHT p t)" "ctx_bal t (k + 1 + of_bool (RB_RED_LEFT p t)) cs"
    using k(2) unfolding ctx_bal.simps red_def by auto
  note run = RB_INSERT_COLOR.simps [of x t, unfolded p(2) Let_def]
  consider (red) "RB_RED_LEFT p t" | (rot) "\<not> RB_RED_LEFT p t" "RB_RED_RIGHT p t" | (grow) "\<not> RB_RED_LEFT p t" "\<not> RB_RED_RIGHT p t" by blast
  then show thesis
  proof cases
    case red
    have "tree_ok (RB_FLIP_LEFT p t) (inorder (plug cs (Node T p S)))"
      by (rule tree_ok_zip) (use zup K T red same in \<open>auto simp: links_simps\<close>)
    then show thesis using stop run p red by (simp add: T_def)
  next
    case rot
    have "\<exists>t'. insert_fix_left x p (RB_FLIP_RIGHT p t) = Some t' \<and> tree_ok t' (inorder (plug cs (Node T p S)))"
      unfolding T_def by (rule insert_fix_left_ok; (unfold T_def [symmetric])?)
        (use zup K T rot same in \<open>auto simp: links_simps\<close>)
    then show thesis using stop run p rot by (auto simp: links_simps T_def)
  next
    case grow
    have "RB_INSERT_COLOR x t = RB_INSERT_COLOR p (RB_FLIP_RIGHT p t)" using run p grow by (simp add: links_simps)
    then show thesis
      by (rule climb; (unfold T_def [symmetric])?) (use zup K T grow same in \<open>auto simp: links_simps\<close>)
  qed
qed

lemma color_step_right:
  \<comment> \<open>one turn of the loop at a right child: it ends, or the parent has grown\<close>
  assumes z: "zip_ok ((False, p, S) # cs) (Node l x r) t" and b: "bal t (Node l x r)" "promoted t (Node l x r)"
    and k: "rk t (Node l x r) = Suc k" "ctx_bal t k ((False, p, S) # cs)"
  obtains (stop) t' where "RB_INSERT_COLOR x t = Some t'" "tree_ok t' (inorder (plug cs (Node S p (Node l x r))))"
  | (climb) t' where "RB_INSERT_COLOR x t = RB_INSERT_COLOR p t'" "zip_ok cs (Node S p (Node l x r)) t'"
      "bal t' (Node S p (Node l x r))" "promoted t' (Node S p (Node l x r))" "rk t' (Node S p (Node l x r)) = Suc (Suc k)"
      "ctx_bal t' (Suc k) cs"
proof -
  define T where "T = Node l x r"
  have rep: "rb_rep T x p t" "ctx_rep ((False, p, S) # cs) x t" using z by (auto simp: zip_ok_def T_def)
  have p: "p \<noteq> 0" "RB_PARENT x t = p" "rbe_left t p \<noteq> x"
    using rep ctx_side [OF rep(2)] z by (auto simp: T_def zip_ok_def distinct_plug)
  have n: "p \<notin> set_tree T" "p \<notin> set_tree S" "p \<notin> ctx_set cs"
    using z unfolding zip_ok_def distinct_plug by (auto simp: T_def)
  have zup: "zip_ok cs (Node S p T) t'" if "same_shape t' t" for t'
    using zip_ok_up [OF zip_ok_shape [OF that z]] by (simp add: T_def)
  note same = red_but_same [OF same_red_flips(2) n(1)] red_but_same [OF same_red_flips(2) n(2)]
    red_but_same [OF same_red_flips(1) n(1)] red_but_same [OF same_red_flips(1) n(2)]
    ctx_red_but_same [OF same_red_flips(2) n(3)] ctx_red_but_same [OF same_red_flips(1) n(3)]
  have T: "bal t T" "promoted t T" "rk t T = Suc k" "not22 t T" "T \<noteq> Leaf"
    using b k(1) promoted_not22 [OF b] unfolding T_def [symmetric] by (auto simp: T_def)
  have K: "bal t S" "k + of_bool (RB_RED_RIGHT p t) = rk t S + of_bool (RB_RED_LEFT p t)" "ctx_bal t (k + 1 + of_bool (RB_RED_RIGHT p t)) cs"
    using k(2) unfolding ctx_bal.simps red_def by auto
  note run = RB_INSERT_COLOR.simps [of x t, unfolded p(2) Let_def]
  consider (red) "RB_RED_RIGHT p t" | (rot) "\<not> RB_RED_RIGHT p t" "RB_RED_LEFT p t" | (grow) "\<not> RB_RED_RIGHT p t" "\<not> RB_RED_LEFT p t" by blast
  then show thesis
  proof cases
    case red
    have "tree_ok (RB_FLIP_RIGHT p t) (inorder (plug cs (Node S p T)))"
      by (rule tree_ok_zip) (use zup K T red same in \<open>auto simp: links_simps\<close>)
    then show thesis using stop run p red by (simp add: T_def)
  next
    case rot
    have "\<exists>t'. insert_fix_right x p (RB_FLIP_LEFT p t) = Some t' \<and> tree_ok t' (inorder (plug cs (Node S p T)))"
      unfolding T_def by (rule insert_fix_right_ok; (unfold T_def [symmetric])?)
        (use zup K T rot same in \<open>auto simp: links_simps\<close>)
    then show thesis using stop run p rot by (auto simp: links_simps T_def)
  next
    case grow
    have "RB_INSERT_COLOR x t = RB_INSERT_COLOR p (RB_FLIP_LEFT p t)" using run p grow by (simp add: links_simps)
    then show thesis
      by (rule climb; (unfold T_def [symmetric])?) (use zup K T grow same in \<open>auto simp: links_simps\<close>)
  qed
qed


lemma RB_INSERT_COLOR_ok:
  assumes "zip_ok cs (Node l x r) t" "bal t (Node l x r)" "promoted t (Node l x r)" "rk t (Node l x r) = Suc k" "ctx_bal t k cs"
  shows "\<exists>t'. RB_INSERT_COLOR x t = Some t' \<and> tree_ok t' (inorder (plug cs (Node l x r)))"
  using assms
proof (induction cs arbitrary: l x r t k)
  case Nil
  then have "RB_PARENT x t = 0" by (auto simp: zip_ok_def)
  then have "RB_INSERT_COLOR x t = Some t" by (subst RB_INSERT_COLOR.simps) simp
  then show ?case using tree_ok_zip [OF Nil(1,2)] by simp
next
  case (Cons c cs)
  obtain d p S where c: "c = (d, p, S)" by (cases c)
  show ?case
  proof (cases d)
    case True
    then have T: "d = True" by simp
    note prems = Cons.prems [unfolded c T]
    show ?thesis using prems
    proof (cases rule: color_step_left)
      case (climb t')
      then show ?thesis using Cons.IH [OF climb(2-6)] c True by simp
    qed (use c True in auto)
  next
    case False
    then have F: "d = False" by simp
    note prems = Cons.prems [unfolded c F]
    show ?thesis using prems
    proof (cases rule: color_step_right)
      case (climb t')
      then show ?thesis using Cons.IH [OF climb(2-6)] c False by simp
    qed (use c False in auto)
  qed
qed

section \<open>Insertion\<close>

definition place :: "(u64 \<Rightarrow> int) \<Rightarrow> u64 tree \<Rightarrow> u64 \<Rightarrow> int \<Rightarrow> ctx \<Rightarrow> u64 \<Rightarrow> int \<Rightarrow> bool" where
  \<comment> \<open>the context \<open>cs\<close> leads to the empty place in \<open>T\<close> where the key belongs; \<open>par\<close> and \<open>cm\<close> describe its end\<close>
  "place cmp T par0 cm0 cs par cm \<longleftrightarrow> plug cs Leaf = T \<and>
     (if cs = [] then par = par0 \<and> cm = cm0 else par = top_of cs \<and> par \<noteq> 0 \<and> (cm < 0 \<longleftrightarrow> fst (hd cs))) \<and>
     (\<exists>us ws. (\<forall>U. inorder (plug cs U) = us @ inorder U @ ws) \<and> (\<forall>x \<in> set us. cmp x > 0) \<and> (\<forall>x \<in> set ws. cmp x < 0))"

lemma plug_snoc: "plug (cs @ [c]) T = plug [c] (plug cs T)"
  by (induction cs T rule: plug.induct) auto

lemma place_left:
  assumes "place cmp l x (cmp x) cs par cm" "cmp x < 0" "x \<noteq> 0" "\<And>y. y \<in> set_tree r \<Longrightarrow> cmp y < 0"
  shows "place cmp (Node l x r) par0 cm0 (cs @ [(True, x, r)]) par cm"
proof -
  obtain us ws where u: "\<And>U. inorder (plug cs U) = us @ inorder U @ ws" "\<forall>y \<in> set us. cmp y > 0" "\<forall>y \<in> set ws. cmp y < 0"
    using assms(1) unfolding place_def by blast
  have "\<exists>us ws. (\<forall>U. inorder (plug (cs @ [(True, x, r)]) U) = us @ inorder U @ ws) \<and> (\<forall>y \<in> set us. cmp y > 0) \<and> (\<forall>y \<in> set ws. cmp y < 0)"
    by (rule exI [of _ us], rule exI [of _ "ws @ x # inorder r"]) (use u assms(2,4) in \<open>auto simp: plug_snoc\<close>)
  then show ?thesis using assms(1-3) unfolding place_def by (cases cs rule: top_of.cases) (auto simp: plug_snoc)
qed

lemma place_right:
  assumes "place cmp r x (cmp x) cs par cm" "cmp x > 0" "x \<noteq> 0" "\<And>y. y \<in> set_tree l \<Longrightarrow> cmp y > 0"
  shows "place cmp (Node l x r) par0 cm0 (cs @ [(False, x, l)]) par cm"
proof -
  obtain us ws where u: "\<And>U. inorder (plug cs U) = us @ inorder U @ ws" "\<forall>y \<in> set us. cmp y > 0" "\<forall>y \<in> set ws. cmp y < 0"
    using assms(1) unfolding place_def by blast
  have "\<exists>us ws. (\<forall>U. inorder (plug (cs @ [(False, x, l)]) U) = us @ inorder U @ ws) \<and> (\<forall>y \<in> set us. cmp y > 0) \<and> (\<forall>y \<in> set ws. cmp y < 0)"
    by (rule exI [of _ "inorder l @ x # us"], rule exI [of _ ws]) (use u assms(2,4) in \<open>auto simp: plug_snoc\<close>)
  then show ?thesis using assms(1-3) unfolding place_def by (cases cs rule: top_of.cases) (auto simp: plug_snoc)
qed

lemma insert_place_rep:
  assumes "rb_rep T p q t" "\<And>x. x \<in> set_tree T \<Longrightarrow> cmp x \<noteq> 0" "sorted_wrt (\<lambda>x y. cmp x < 0 \<longrightarrow> cmp y < 0) (inorder T)"
  shows "\<exists>cs par cm. insert_place cmp p par0 cm0 t = Some (0, par, cm) \<and> place cmp T par0 cm0 cs par cm"
  using assms
proof (induction T arbitrary: p q par0 cm0)
  case Leaf
  have "place cmp Leaf par0 cm0 [] par0 cm0"
    unfolding place_def by (auto intro!: exI [of _ "[]"])
  then show ?case using Leaf by (subst insert_place.simps) auto
next
  case (Node l x r)
  have p: "p = x" "x \<noteq> 0" "rb_rep l (rbe_left t x) x t" "rb_rep r (rbe_right t x) x t" using Node.prems(1) by auto
  note run = insert_place.simps [of cmp p par0 cm0 t, unfolded Let_def p(1)]
  note srt = Node.prems(3) [unfolded inorder.simps sorted_wrt_append set_append list.set set_inorder]
  have lr: "sorted_wrt (\<lambda>x y. cmp x < 0 \<longrightarrow> cmp y < 0) (inorder l)" "sorted_wrt (\<lambda>x y. cmp x < 0 \<longrightarrow> cmp y < 0) (inorder r)"
    using srt by blast+
  have ord: "\<And>y. y \<in> set_tree l \<Longrightarrow> cmp y < 0 \<Longrightarrow> cmp x < 0" "\<And>y. y \<in> set_tree r \<Longrightarrow> cmp x < 0 \<Longrightarrow> cmp y < 0"
    using srt by blast+
  have nz: "cmp y \<noteq> 0" if "y \<in> set_tree l \<union> set_tree r \<union> {x}" for y using Node.prems(2) [of y] that by auto
  show ?case
  proof (cases "cmp x < 0")
    case True
    have "\<exists>cs par cm. insert_place cmp (rbe_left t x) x (cmp x) t = Some (0, par, cm) \<and> place cmp l x (cmp x) cs par cm"
      by (rule Node.IH(1) [OF p(3) _ lr(1)]) (use nz in auto)
    then obtain cs par cm where r: "insert_place cmp (rbe_left t x) x (cmp x) t = Some (0, par, cm)" "place cmp l x (cmp x) cs par cm" by blast
    have "\<And>y. y \<in> set_tree r \<Longrightarrow> cmp y < 0" using ord(2) True by blast
    from place_left [OF r(2) True p(2) this] show ?thesis using run r(1) True p(1,2) by auto
  next
    case False
    then have pos: "cmp x > 0" using nz [of x] by simp
    have "\<exists>cs par cm. insert_place cmp (rbe_right t x) x (cmp x) t = Some (0, par, cm) \<and> place cmp r x (cmp x) cs par cm"
      by (rule Node.IH(2) [OF p(4) _ lr(2)]) (use nz in auto)
    then obtain cs par cm where r: "insert_place cmp (rbe_right t x) x (cmp x) t = Some (0, par, cm)" "place cmp r x (cmp x) cs par cm" by blast
    have "cmp y > 0" if "y \<in> set_tree l" for y
    proof -
      have "\<not> cmp y < 0" using ord(1) False that by blast
      then show ?thesis using nz [of y] that by simp
    qed
    from place_right [OF r(2) pos p(2) this] show ?thesis using run r(1) pos p(1,2) by auto
  qed
qed

definition link_new :: "u64 \<Rightarrow> u64 \<Rightarrow> int \<Rightarrow> rb_links \<Rightarrow> rb_links" where
  \<comment> \<open>\<open>RB_INSERT\<close> between the descent and the rebalancing\<close>
  "link_new elm par cm t =
     (let t = RB_SET elm par t
      in if par = 0 then t\<lparr>rbh_root := elm\<rparr> else if cm < 0 then set_left par elm t else set_right par elm t)"

lemma RB_INSERT_run:
  "insert_place cmp (rbh_root t) 0 0 t = Some (0, par, cm) \<Longrightarrow>
   RB_INSERT cmp elm t = map_option (Pair 0) (RB_INSERT_COLOR elm (link_new elm par cm t))"
  by (simp add: RB_INSERT_def link_new_def Let_def map_option_case split: option.split)

lemma link_new_zip:
  assumes c: "place cmp T 0 0 cs par cm" and rep: "rb_rep T (rbh_root t) 0 t" and d: "distinct (inorder T)"
    and al: "\<And>x. x \<in> set_tree T \<Longrightarrow> aligned4 x" and e: "elm \<noteq> 0" "aligned4 elm" "elm \<notin> set_tree T"
  shows "zip_ok cs (Node Leaf elm Leaf) (link_new elm par cm t)"
proof -
  have T: "plug cs Leaf = T" and par: "par = top_of cs" using c by (auto simp: place_def split: if_splits)
  have ctx: "ctx_rep cs 0 t" using rep plug_rep [of cs Leaf t] T by auto
  have set: "set_tree T = ctx_set cs" "ctx_distinct cs" using set_plug [of cs Leaf] distinct_plug [of cs Leaf] T d by auto
  note top = ctx_top [OF ctx, folded par]
  have apar: "aligned4 par" using al top set by (cases "cs = []") auto
  have pe: "par \<noteq> elm" using top set e(1,3) by (cases "cs = []") auto
  define t' where "t' = link_new elm par cm t"
  have fld: "RB_PARENT y t' = (if y = elm then par else RB_PARENT y t)" "rbh_root t' = (if par = 0 then elm else rbh_root t)"
    "rbe_left t' y = (if y = elm then 0 else if par \<noteq> 0 \<and> cm < 0 \<and> y = par then elm else rbe_left t y)"
    "rbe_right t' y = (if y = elm then 0 else if par \<noteq> 0 \<and> \<not> cm < 0 \<and> y = par then elm else rbe_right t y)" for y
    using pe unfolding t'_def link_new_def Let_def by (auto simp: links_simps apar)
  have "ctx_rep cs elm t'"
  proof (rule ctx_rep_new_child [OF ctx set(2)])
    fix dd x S ds assume cs: "cs = (dd, x, S) # ds"
    then show "if dd then rbe_left t' x = elm \<and> rbe_right t' x = rbe_right t x else rbe_right t' x = elm \<and> rbe_left t' x = rbe_left t x"
      using c fld(3,4) [of x] pe par top(1) by (auto simp: place_def)
  next
    show "rbe_left t' y = rbe_left t y \<and> rbe_right t' y = rbe_right t y" if "y \<in> ctx_set cs" "y \<noteq> top_of cs" for y
      using that fld(3,4) [of y] set(1) e(3) par by auto
  qed (use fld(1,2) top set e in auto)
  moreover have "rb_rep (Node Leaf elm Leaf) elm (top_of cs) t'" using fld(1,3,4) [of elm] e(1) par by simp
  ultimately show ?thesis
    using set e(2,3) al unfolding t'_def zip_ok_def by (auto simp: distinct_plug set_plug)
qed

lemma RB_INSERT_ok:
  assumes ok: "tree_ok t xs" and e: "elm \<noteq> 0" "aligned4 elm" "elm \<notin> set xs"
    and cmp: "\<And>x. x \<in> set xs \<Longrightarrow> cmp x \<noteq> 0" "sorted_wrt (\<lambda>x y. cmp x < 0 \<longrightarrow> cmp y < 0) xs"
  obtains t' us ws where "RB_INSERT cmp elm t = Some (0, t')" "xs = us @ ws" "tree_ok t' (us @ elm # ws)"
    "\<And>x. x \<in> set us \<Longrightarrow> cmp x > 0" "\<And>x. x \<in> set ws \<Longrightarrow> cmp x < 0"
proof -
  obtain T where T: "rb_rep T (rbh_root t) 0 t" "bal t T" "inorder T = xs" "distinct (inorder T)" "\<And>x. x \<in> set_tree T \<Longrightarrow> aligned4 x"
    using ok by (auto simp: tree_ok_def)
  have xs: "set_tree T = set xs" using T(3) by (simp flip: set_inorder)
  obtain cs par cm where run: "insert_place cmp (rbh_root t) 0 0 t = Some (0, par, cm)" and pl: "place cmp T 0 0 cs par cm"
    using insert_place_rep [OF T(1), of cmp 0 0] cmp xs T(3) by auto
  obtain us ws where u: "\<And>U. inorder (plug cs U) = us @ inorder U @ ws" "\<And>x. x \<in> set us \<Longrightarrow> cmp x > 0" "\<And>x. x \<in> set ws \<Longrightarrow> cmp x < 0"
    using pl by (auto simp: place_def)
  have pT: "plug cs Leaf = T" using pl by (simp add: place_def)
  let ?t = "link_new elm par cm t"
  have z: "zip_ok cs (Node Leaf elm Leaf) ?t"
    by (rule link_new_zip [OF pl T(1,4)]) (use T(5) e xs in auto)
  have par: "aligned4 par" using pl T(5) set_plug [of cs Leaf] by (cases cs rule: top_of.cases) (auto simp: place_def)
  have red: "RB_RED_LEFT y ?t = (y \<noteq> elm \<and> RB_RED_LEFT y t)" "RB_RED_RIGHT y ?t = (y \<noteq> elm \<and> RB_RED_RIGHT y t)" for y
    unfolding link_new_def Let_def by (auto simp: links_simps par)
  have "ctx_bal t 0 cs" using T(2) bal_plug [of t cs Leaf] pT by simp
  moreover have "ctx_bal ?t 0 cs = ctx_bal t 0 cs"
    by (rule ctx_bal_cong) (use red e(3) xs set_plug [of cs Leaf] pT in auto)
  ultimately have "\<exists>t'. RB_INSERT_COLOR elm ?t = Some t' \<and> tree_ok t' (inorder (plug cs (Node Leaf elm Leaf)))"
    by (intro RB_INSERT_COLOR_ok [OF z]) (auto simp: red)
  then obtain t' where "RB_INSERT_COLOR elm ?t = Some t'" "tree_ok t' (us @ elm # ws)" using u(1) by auto
  moreover have "xs = us @ ws" using u(1) [of Leaf] pT T(3) by simp
  ultimately show thesis using that RB_INSERT_run [OF run] u(2,3) by simp
qed

section \<open>Height\<close>

lemma height_rank: "bal t T \<Longrightarrow> height T \<le> rk t T"
  by (induction T) auto

lemma rank_size: "bal t T \<Longrightarrow> 2 ^ rk t T \<le> (size1 T) ^ 2"
proof (induction T)
  case (Node l x r)
  have le: "2 ^ rk t l \<le> size1 l ^ 2" "2 ^ rk t r \<le> size1 r ^ 2" using Node by auto
  have eq: "rk t l + of_bool (RB_RED_LEFT x t) = rk t r + of_bool (RB_RED_RIGHT x t)" using Node.prems by simp
  define m where "m = rk t (Node l x r) - 2"
  have m: "rk t (Node l x r) \<le> m + 2" "m \<le> rk t l" "m \<le> rk t r" using eq
    by (cases "RB_RED_LEFT x t"; cases "RB_RED_RIGHT x t"; simp add: m_def)+
  have "(2 :: nat) ^ m \<le> 2 ^ rk t l" "(2 :: nat) ^ m \<le> 2 ^ rk t r" using m by (simp_all add: power_increasing)
  then have s: "(2 :: nat) ^ m \<le> size1 l ^ 2" "(2 :: nat) ^ m \<le> size1 r ^ 2" using le by linarith+
  have "2 ^ m \<le> size1 l * size1 r"
  proof (cases "size1 l \<le> size1 r")
    case True
    then have "size1 l ^ 2 \<le> size1 l * size1 r" by (simp add: power2_eq_square)
    then show ?thesis using s(1) by linarith
  next
    case False
    then have "size1 r ^ 2 \<le> size1 l * size1 r" by (simp add: power2_eq_square)
    then show ?thesis using s(2) by linarith
  qed
  then have "4 * 2 ^ m \<le> (size1 l + size1 r) ^ 2" using s by (simp add: power2_sum)
  moreover have "(2 :: nat) ^ rk t (Node l x r) \<le> 2 ^ (m + 2)" using m(1) by (rule power_increasing) simp
  ultimately show ?case by simp
qed simp

text \<open>C15: inserting a node with a new key into a balanced tree always comes to its end without touching a
  null node. The node takes the place in the order that the comparison gives it, the other nodes
  stay as they were, the tree is balanced again, and its height is at most twice the binary logarithm of
  the number of its nodes plus one.\<close>

theorem RB_INSERT_spec:
  assumes "tree_ok t xs" "elm \<noteq> 0" "aligned4 elm" "elm \<notin> set xs"
    and "\<And>x. x \<in> set xs \<Longrightarrow> cmp x \<noteq> 0" "sorted_wrt (\<lambda>x y. cmp x < 0 \<longrightarrow> cmp y < 0) xs"
  shows "\<exists>t' us ws. RB_INSERT cmp elm t = Some (0, t') \<and> xs = us @ ws \<and> tree_ok t' (us @ elm # ws) \<and>
    (\<forall>x \<in> set us. cmp x > 0) \<and> (\<forall>x \<in> set ws. cmp x < 0) \<and>
    (\<exists>T. rb_rep T (rbh_root t') 0 t' \<and> inorder T = us @ elm # ws \<and> 2 ^ height T \<le> (length xs + 2) ^ 2)"
proof -
  obtain t' us ws where r: "RB_INSERT cmp elm t = Some (0, t')" "xs = us @ ws" "tree_ok t' (us @ elm # ws)"
    "\<And>x. x \<in> set us \<Longrightarrow> cmp x > 0" "\<And>x. x \<in> set ws \<Longrightarrow> cmp x < 0"
    by (rule RB_INSERT_ok [OF assms(1-4) _ assms(6)], erule assms(5)) (rule that; blast)
  obtain T where T: "rb_rep T (rbh_root t') 0 t'" "bal t' T" "inorder T = us @ elm # ws" using r(3) by (auto simp: tree_ok_def)
  have "size1 T = length xs + 2" using T(3) r(2) length_inorder [of T] by (simp add: size1_size)
  moreover have "(2 :: nat) ^ height T \<le> 2 ^ rk t' T" using height_rank [OF T(2)] by (simp add: power_increasing)
  ultimately have "2 ^ height T \<le> (length xs + 2) ^ 2" using rank_size [OF T(2)] by (metis le_trans)
  then show ?thesis using r T by blast
qed

theorem RB_INSERT_spec_witness:
  "\<exists>t'. RB_INSERT (\<lambda>_. 1) 0x1000 \<lparr>rbe_left = (\<lambda>_. 0), rbe_right = (\<lambda>_. 0), rbe_parent = (\<lambda>_. 0), rbh_root = 0\<rparr> = Some (0, t') \<and>
     tree_ok t' [0x1000]"
proof -
  let ?t = "\<lparr>rbe_left = (\<lambda>_. 0), rbe_right = (\<lambda>_. 0), rbe_parent = (\<lambda>_. 0), rbh_root = 0\<rparr>"
  have "tree_ok ?t []" by (simp add: tree_ok_def)
  from RB_INSERT_spec [OF this, of "0x1000" "\<lambda>_. 1"] show ?thesis by (auto simp: aligned4_def)
qed

end
