(* ===== verification/Vma_Spec.thy ===== *)
theory Vma_Spec
  imports Vma Rb_Insert
begin

text \<open>
  The regions of the root server's child: the tree and the list hold the same nodes, in ascending
  order and without overlap (\<open>vma_ok\<close>), and the nodes of the pool that are not in use form a list of
  their own (\<open>vma_inv\<close>). Initialisation establishes this, inserting a region keeps it, and looking up an
  address finds the region inserted.
\<close>

section \<open>Sets of regions\<close>

fun threaded :: "u64 \<Rightarrow> u64 list \<Rightarrow> u64 \<Rightarrow> (u64 \<Rightarrow> vma) \<Rightarrow> bool" where
  \<comment> \<open>the list links of the nodes, with \<open>p\<close> before the first and \<open>q\<close> after the last\<close>
  "threaded p [] q m \<longleftrightarrow> True"
| "threaded p (x # xs) q m \<longleftrightarrow> v_prev (m x) = p \<and> v_next (m x) = (if xs = [] then q else hd xs) \<and> threaded x xs q m"

definition list_ok :: "u64 list \<Rightarrow> vma_set \<Rightarrow> bool" where
  "list_ok xs s \<longleftrightarrow> threaded 0 xs 0 (vmas s) \<and> v_first s = (if xs = [] then 0 else hd xs) \<and>
     v_last s = (if xs = [] then 0 else last xs)"

definition ordered :: "u64 list \<Rightarrow> (u64 \<Rightarrow> vma) \<Rightarrow> bool" where
  \<comment> \<open>nonempty regions, in ascending order without overlap\<close>
  "ordered xs m \<longleftrightarrow> sorted_wrt (\<lambda>x y. v_end (m x) \<le> v_start (m y)) xs \<and> (\<forall>x \<in> set xs. v_start (m x) < v_end (m x))"

definition vma_ok :: "vma_set \<Rightarrow> u64 list \<Rightarrow> bool" where
  "vma_ok s xs \<longleftrightarrow> tree_ok (v_tree s) xs \<and> 0 \<notin> set xs \<and> list_ok xs s \<and> ordered xs (vmas s)"

fun chain :: "u64 \<Rightarrow> u64 list \<Rightarrow> (u64 \<Rightarrow> vma) \<Rightarrow> bool" where
  \<comment> \<open>the nodes that are linked from \<open>p\<close> on\<close>
  "chain p [] m \<longleftrightarrow> p = 0"
| "chain p (x # xs) m \<longleftrightarrow> p = x \<and> x \<noteq> 0 \<and> chain (v_next (m x)) xs m"

definition vma_inv :: "vma_set \<Rightarrow> u64 list \<Rightarrow> u64 list \<Rightarrow> bool" where
  \<comment> \<open>the nodes of the regions in order, and the free nodes\<close>
  "vma_inv s xs fs \<longleftrightarrow> vma_ok s xs \<and> chain (vma_free s) fs (vmas s) \<and> distinct fs \<and> (\<forall>x \<in> set fs. aligned4 x) \<and> set xs \<inter> set fs = {}"

lemma ordered_start:
  assumes "ordered (us @ y # ws) m"
  shows "x \<in> set us \<Longrightarrow> v_start (m x) < v_start (m y)" "x \<in> set us \<Longrightarrow> v_end (m x) \<le> v_start (m y)"
    "x \<in> set ws \<Longrightarrow> v_end (m y) \<le> v_start (m x)" "x \<in> set ws \<Longrightarrow> v_start (m y) < v_start (m x)" "v_start (m y) < v_end (m y)"
proof -
  note o = assms [unfolded ordered_def sorted_wrt_append sorted_wrt.simps]
  show e: "x \<in> set us \<Longrightarrow> v_end (m x) \<le> v_start (m y)" "x \<in> set ws \<Longrightarrow> v_end (m y) \<le> v_start (m x)"
    "v_start (m y) < v_end (m y)" using o by auto
  show "x \<in> set us \<Longrightarrow> v_start (m x) < v_start (m y)" using e(1) o by (auto intro: less_le_trans)
  show "x \<in> set ws \<Longrightarrow> v_start (m y) < v_start (m x)" using e(2,3) by (auto intro: less_le_trans)
qed

lemma nfind_set:
  assumes "vma_ok s xs"
  shows "RB_NFIND (cmp_to k s) (v_tree s) =
    Some (case find (\<lambda>x. k \<le> v_start (vmas s x)) xs of None \<Rightarrow> 0 | Some x \<Rightarrow> x)"
proof -
  obtain T where T: "rb_rep T (rbh_root (v_tree s)) 0 (v_tree s)" "inorder T = xs" using assms by (auto simp: vma_ok_def tree_ok_def)
  have o: "ordered xs (vmas s)" using assms by (simp add: vma_ok_def)
  have c: "cmp_to k s x \<le> 0 \<longleftrightarrow> k \<le> v_start (vmas s x)" "cmp_to k s x \<ge> 0 \<longleftrightarrow> v_start (vmas s x) \<le> k"
    "cmp_to k s x > 0 \<longleftrightarrow> v_start (vmas s x) < k" for x
    by (auto simp: cmp_to_def vma_cmp_def)
  have "nfind_from (cmp_to k s) (rbh_root (v_tree s)) 0 (v_tree s) =
      Some (case find (\<lambda>x. cmp_to k s x \<le> 0) (inorder T) of None \<Rightarrow> 0 | Some x \<Rightarrow> x)"
  proof (rule nfind_rep [OF T(1)])
    fix us x ws y assume a: "inorder T = us @ x # ws" "cmp_to k s x \<ge> 0" "y \<in> set us"
    then have "v_start (vmas s y) < v_start (vmas s x)" using ordered_start(1) [of us x ws] o T(2) by simp
    then show "cmp_to k s y > 0" using a(2) unfolding c by simp
  qed
  then show ?thesis by (simp add: RB_NFIND_def c T(2))
qed

lemma max_set: "vma_ok s xs \<Longrightarrow> RB_MINMAX 1 (v_tree s) = Some (if xs = [] then 0 else last xs)"
proof -
  assume "vma_ok s xs"
  then obtain T where T: "rb_rep T (rbh_root (v_tree s)) 0 (v_tree s)" "inorder T = xs" by (auto simp: vma_ok_def tree_ok_def)
  moreover have "T = Leaf \<longleftrightarrow> inorder T = []" by (cases T) auto
  ultimately show ?thesis using minmax_rep [OF T(1), of 0] by (simp add: RB_MINMAX_def)
qed

lemma prev_set:
  assumes "vma_ok s (us @ x # ws)"
  shows "RB_PREV x (v_tree s) = Some (if us = [] then 0 else last us)"
proof -
  let ?t = "v_tree s"
  obtain T where T: "rb_rep T (rbh_root ?t) 0 ?t" "inorder T = us @ x # ws" using assms by (auto simp: vma_ok_def tree_ok_def)
  then have "T \<noteq> Leaf" by auto
  then have "RB_PARENT (rbh_root ?t) ?t = 0" using T(1) by (cases T) auto
  moreover from this have "climb_left (rbh_root ?t) ?t = Some 0" by (subst climb_left.simps) simp
  ultimately show ?thesis using prev_rep [OF T(1) _ T(2)] assms T(2) by (auto simp: vma_ok_def tree_ok_def)
qed

lemma find_split:
  obtains (none) "find P xs = None" "\<And>x. x \<in> set xs \<Longrightarrow> \<not> P x"
  | (some) us y ws where "find P xs = Some y" "xs = us @ y # ws" "P y" "\<And>x. x \<in> set us \<Longrightarrow> \<not> P x"
proof (cases "find P xs")
  case None
  then show thesis using none by (auto simp: find_None_iff)
next
  case (Some y)
  then obtain i where i: "i < length xs" "P (xs ! i)" "y = xs ! i" "\<And>j. j < i \<Longrightarrow> \<not> P (xs ! j)"
    by (auto simp: find_Some_iff)
  show thesis
  proof (rule some [OF Some])
    show "xs = take i xs @ y # drop (Suc i) xs" using i by (simp add: id_take_nth_drop)
    show "P y" using i by simp
    show "\<not> P x" if "x \<in> set (take i xs)" for x using that i(1,4) by (auto simp: in_set_conv_nth)
  qed
qed

lemma vma_find_region:
  assumes ok: "vma_ok s xs" and ne: "xs \<noteq> []"
  shows "\<exists>r. vma_find addr s = Some r \<and> (if r = 0 then \<forall>x \<in> set xs. \<not> vma_holds x addr s else r \<in> set xs \<and> vma_holds r addr s)"
proof -
  have o: "ordered xs (vmas s)" and nz: "0 \<notin> set xs" using ok by (simp_all add: vma_ok_def)
  show ?thesis
  proof (rule find_split [of "\<lambda>x. addr \<le> v_start (vmas s x)" xs])
    assume f: "find (\<lambda>x. addr \<le> v_start (vmas s x)) xs = None" and a: "\<And>x. x \<in> set xs \<Longrightarrow> \<not> addr \<le> v_start (vmas s x)"
    obtain us v where xs: "xs = us @ [v]" using ne by (cases xs rule: rev_cases) auto
    have v: "v \<noteq> 0" "addr > v_start (vmas s v)" using nz a [of v] xs by auto
    have us: "\<not> vma_holds x addr s" if "x \<in> set us" for x
      using ordered_start(2) [of us v "[]" "vmas s" x] o v(2) that xs by (auto simp: vma_holds_def not_less)
    have p: "RB_PREV v (v_tree s) = Some (if us = [] then 0 else last us)" by (rule prev_set [of s us v "[]"]) (use ok xs in simp)
    have "vma_find addr s = Some (if vma_holds v addr s then v else 0)"
      using nfind_set [OF ok, of addr] f max_set [OF ok] p us v(1) by (simp add: vma_find_def xs)
    then show ?thesis using us v(1) xs by auto
  next
    fix us v ws
    assume f: "find (\<lambda>x. addr \<le> v_start (vmas s x)) xs = Some v" and xs: "xs = us @ v # ws" and v: "addr \<le> v_start (vmas s v)"
      and us: "\<And>x. x \<in> set us \<Longrightarrow> \<not> addr \<le> v_start (vmas s x)"
    have ws: "\<not> vma_holds x addr s" if "x \<in> set ws" for x
      using ordered_start(4) [of us v ws "vmas s" x] o v that xs by (auto simp: vma_holds_def)
    have init: "\<not> vma_holds x addr s" if "x \<in> set (butlast us)" "us \<noteq> []" for x
    proof -
      have "ordered (butlast us @ last us # v # ws) (vmas s)"
        using o that(2) xs append_butlast_last_id [of us] by (metis append.assoc append_Cons append_Nil)
      from ordered_start(2) [OF this that(1)] us [of "last us"] that(2) show ?thesis by (auto simp: vma_holds_def)
    qed
    have p: "RB_PREV v (v_tree s) = Some (if us = [] then 0 else last us)" by (rule prev_set [of s us v ws]) (use ok xs in simp)
    have nv: "v \<noteq> 0" using nz xs by auto
    have in_us: "x = last us \<or> x \<in> set (butlast us)" if "x \<in> set us" for x
      using that by (cases us rule: rev_cases) auto
    define r where "r = (if vma_holds v addr s then v else if us \<noteq> [] \<and> vma_holds (last us) addr s then last us else 0)"
    have "us \<noteq> [] \<Longrightarrow> last us \<noteq> 0" using nz xs by (metis UnI1 last_in_set set_append)
    moreover from this have "vma_find addr s = Some r"
      using nfind_set [OF ok, of addr] f p nv by (simp add: vma_find_def r_def)
    moreover have "us \<noteq> []" if "x \<in> set us" for x using that by auto
    ultimately have "vma_find addr s = Some r"
      "if r = 0 then \<forall>x \<in> set xs. \<not> vma_holds x addr s else r \<in> set xs \<and> vma_holds r addr s"
      using ws init in_us nv xs unfolding r_def by (simp_all split: if_splits) blast+
    then show ?thesis by blast
  qed
qed

text \<open>In a set that is not empty \<open>vma_find\<close> returns the region that contains the address, or null when
  there is none.\<close>

theorem vma_find_spec:
  assumes "vma_ok s xs" "xs \<noteq> []"
  shows "\<exists>r. vma_find addr s = Some r \<and> (if r = 0 then \<forall>x \<in> set xs. \<not> vma_holds x addr s else r \<in> set xs \<and> vma_holds r addr s)"
  by (rule vma_find_region [OF assms])

text \<open>In an empty set \<open>vma_find\<close> does not return: it asks for the predecessor of the null node.\<close>

theorem vma_find_empty:
  assumes "rbh_root (v_tree s) = 0"
  shows "vma_find addr s = None"
proof -
  have "RB_NFIND (cmp_to addr s) (v_tree s) = Some 0" "RB_MINMAX 1 (v_tree s) = Some 0"
    using assms nfind_from.simps [of _ 0] minmax_from.simps [of _ 0] by (simp_all add: RB_NFIND_def RB_MINMAX_def)
  then show ?thesis by (simp add: vma_find_def RB_PREV_def)
qed


section \<open>Inserting a region\<close>

lemma ordered_cong:
  "(\<And>x. x \<in> set xs \<Longrightarrow> v_start (m' x) = v_start (m x) \<and> v_end (m' x) = v_end (m x)) \<Longrightarrow> ordered xs m' \<longleftrightarrow> ordered xs m"
  by (induction xs) (auto simp: ordered_def)

lemma ordered_insert:
  assumes "ordered (us @ ws) m" "v_start (m' v) < v_end (m' v)"
    and same: "\<And>x. x \<in> set us \<or> x \<in> set ws \<Longrightarrow> v_start (m' x) = v_start (m x) \<and> v_end (m' x) = v_end (m x)"
    and "\<And>x. x \<in> set us \<Longrightarrow> v_end (m x) \<le> v_start (m' v)" "\<And>x. x \<in> set ws \<Longrightarrow> v_end (m' v) \<le> v_start (m x)"
  shows "ordered (us @ v # ws) m'"
proof -
  have "ordered (us @ ws) m'" using assms(1) ordered_cong [of "us @ ws" m' m] same by simp
  then show ?thesis using assms(2-5) by (simp add: ordered_def sorted_wrt_append)
qed

definition overlaps :: "u64 \<Rightarrow> u64 \<Rightarrow> u64 \<Rightarrow> vma_set \<Rightarrow> bool" where
  \<comment> \<open>region \<open>x\<close> has an address in common with the range\<close>
  "overlaps start fin x s \<longleftrightarrow> v_start (vmas s x) < fin \<and> start < v_end (vmas s x)"

lemma insert_neighbours:
  assumes ok: "vma_ok s xs"
  obtains us ws where "xs = us @ ws" "\<And>x. x \<in> set us \<Longrightarrow> v_start (vmas s x) < start" "\<And>x. x \<in> set ws \<Longrightarrow> start \<le> v_start (vmas s x)"
    "RB_NFIND (cmp_to start s) (v_tree s) = Some (if ws = [] then 0 else hd ws)"
    "(if ws \<noteq> [] then RB_PREV (hd ws) (v_tree s) else RB_MINMAX 1 (v_tree s)) = Some (if us = [] then 0 else last us)"
proof (rule find_split [of "\<lambda>x. start \<le> v_start (vmas s x)" xs])
  assume "find (\<lambda>x. start \<le> v_start (vmas s x)) xs = None" "\<And>x. x \<in> set xs \<Longrightarrow> \<not> start \<le> v_start (vmas s x)"
  then show thesis using that [of xs "[]"] nfind_set [OF ok, of start] max_set [OF ok] by (simp add: not_le)
next
  fix us v ws
  assume f: "find (\<lambda>x. start \<le> v_start (vmas s x)) xs = Some v" and xs: "xs = us @ v # ws" and v: "start \<le> v_start (vmas s v)"
    and us: "\<And>x. x \<in> set us \<Longrightarrow> \<not> start \<le> v_start (vmas s x)"
  have "ordered xs (vmas s)" using ok by (simp add: vma_ok_def)
  then have "start \<le> v_start (vmas s x)" if "x \<in> set ws" for x
    using ordered_start(4) [of us v ws "vmas s" x] that xs v by simp
  then show thesis
    using that [of us "v # ws"] xs v us nfind_set [OF ok, of start] f prev_set [of s us v ws] ok
    by (simp add: not_le) blast
qed

lemma no_overlap:
  assumes o: "ordered (us @ ws) (vmas s)" and nz: "0 \<notin> set (us @ ws)" and lt: "start < fin"
    and us: "\<And>x. x \<in> set us \<Longrightarrow> v_start (vmas s x) < start" and ws: "\<And>x. x \<in> set ws \<Longrightarrow> start \<le> v_start (vmas s x)"
  shows "(\<exists>x \<in> set (us @ ws). overlaps start fin x s) \<longleftrightarrow>
    us \<noteq> [] \<and> v_end (vmas s (last us)) > start \<or> ws \<noteq> [] \<and> v_start (vmas s (hd ws)) < fin" (is "?L \<longleftrightarrow> ?R")
proof
  assume ?R
  then show ?L
  proof
    assume a: "us \<noteq> [] \<and> v_end (vmas s (last us)) > start"
    then have "overlaps start fin (last us) s" using us [of "last us"] lt by (simp add: overlaps_def)
    then show ?L using a by auto
  next
    assume a: "ws \<noteq> [] \<and> v_start (vmas s (hd ws)) < fin"
    then have "hd ws \<in> set (us @ ws)" by simp
    then have "v_start (vmas s (hd ws)) < v_end (vmas s (hd ws))" using o by (auto simp: ordered_def)
    then have "overlaps start fin (hd ws) s" using a ws [of "hd ws"] by (simp add: overlaps_def)
    then show ?L using a by auto
  qed
next
  assume ?L
  then obtain x where x: "x \<in> set us \<or> x \<in> set ws" "v_start (vmas s x) < fin" "start < v_end (vmas s x)" by (auto simp: overlaps_def)
  from x(1) show ?R
  proof
    assume u: "x \<in> set us"
    then have e: "us \<noteq> []" by auto
    then have e2: "us @ ws = butlast us @ last us # ws" by (metis append.assoc append_Cons append_Nil append_butlast_last_id)
    have "x = last us \<or> x \<in> set (butlast us)" using u by (cases us rule: rev_cases) auto
    then have "v_end (vmas s x) \<le> v_end (vmas s (last us))"
      using ordered_start(2) [of "butlast us" "last us" ws "vmas s" x] ordered_start(5) [of "butlast us" "last us" ws "vmas s"] o e2
      by auto
    then show ?R using x(3) e by auto
  next
    assume w: "x \<in> set ws"
    then obtain y ys where y: "ws = y # ys" by (cases ws) auto
    then have "v_start (vmas s y) \<le> v_start (vmas s x)"
      using w ordered_start(4) [of us y ys "vmas s" x] o by (cases "x = y") auto
    then show ?R using x(2) y by auto
  qed
qed

lemma threaded_append:
  "threaded p (us @ ws) q m \<longleftrightarrow>
     threaded p us (if ws = [] then q else hd ws) m \<and> threaded (if us = [] then p else last us) ws q m"
  by (induction us arbitrary: p) auto

lemma threaded_cong:
  "(\<And>x. x \<in> set xs \<Longrightarrow> v_prev (m' x) = v_prev (m x) \<and> v_next (m' x) = v_next (m x)) \<Longrightarrow> threaded p xs q m' \<longleftrightarrow> threaded p xs q m"
  by (induction xs arbitrary: p) auto

lemma threaded_next:
  "threaded p us q m \<Longrightarrow> distinct us \<Longrightarrow> us \<noteq> [] \<Longrightarrow> threaded p us q' (m(last us := (m (last us))\<lparr>v_next := q'\<rparr>))"
proof (induction us arbitrary: p)
  case (Cons x us)
  then show ?case by (cases "us = []") auto
qed simp

lemma threaded_prev:
  "threaded p ws q m \<Longrightarrow> distinct ws \<Longrightarrow> ws \<noteq> [] \<Longrightarrow> threaded p' ws q (m(hd ws := (m (hd ws))\<lparr>v_prev := p'\<rparr>))"
proof (cases ws)
  case (Cons y ys)
  assume a: "threaded p ws q m" "distinct ws"
  have "threaded y ys q (m(y := (m y)\<lparr>v_prev := p'\<rparr>)) = threaded y ys q m"
    by (rule threaded_cong) (use a(2) Cons in auto)
  then show ?thesis using a Cons by simp
qed simp

lemma link_list:
  assumes L: "list_ok (us @ ws) s" and d: "distinct (us @ v # ws)" "0 \<notin> set (us @ v # ws)"
    and v: "v_prev (vmas s v) = (if us = [] then 0 else last us)" "v_next (vmas s v) = (if ws = [] then 0 else hd ws)"
    and s': "s' = vma_link v (if us = [] then 0 else last us) (if ws = [] then 0 else hd ws) s"
  shows "list_ok (us @ v # ws) s'" "v_tree s' = v_tree s" "vma_free s' = vma_free s"
    "v_start (vmas s' x) = v_start (vmas s x)" "v_end (vmas s' x) = v_end (vmas s x)"
    "v_prot (vmas s' x) = v_prot (vmas s x)" "v_kind (vmas s' x) = v_kind (vmas s x)"
    "x \<notin> set (us @ ws) \<Longrightarrow> vmas s' x = vmas s x"
proof -
  have nz: "us \<noteq> [] \<Longrightarrow> last us \<noteq> 0" "ws \<noteq> [] \<Longrightarrow> hd ws \<noteq> 0"
    using d(2) last_in_set [of us] hd_in_set [of ws] by (metis UnI1 UnI2 list.set_intros(2) set_append)+
  have ne: "us \<noteq> [] \<Longrightarrow> ws \<noteq> [] \<Longrightarrow> last us \<noteq> hd ws" "us \<noteq> [] \<Longrightarrow> last us \<noteq> v" "ws \<noteq> [] \<Longrightarrow> hd ws \<noteq> v"
    using d(1) by (auto dest: last_in_set hd_in_set)
  have T: "threaded 0 us (if ws = [] then 0 else hd ws) (vmas s)" "threaded (if us = [] then 0 else last us) ws 0 (vmas s)"
    "v_first s = (if us @ ws = [] then 0 else hd (us @ ws))" "v_last s = (if us @ ws = [] then 0 else last (us @ ws))"
    using L by (simp_all add: list_ok_def threaded_append)
  let ?m = "vmas s'"
  have m: "?m = (if us = [] then vmas s else (vmas s)(last us := (vmas s (last us))\<lparr>v_next := v\<rparr>))
      (if ws = [] then v else hd ws := if ws = [] then vmas s v else (vmas s (hd ws))\<lparr>v_prev := v\<rparr>)"
    using nz ne unfolding s' vma_link_def by (auto simp: upd_vma_def Let_def)
  have xu: "x \<noteq> v" "ws \<noteq> [] \<Longrightarrow> x \<noteq> hd ws" if "x \<in> set us" for x using that d(1) hd_in_set [of ws] by auto
  have xw: "x \<noteq> v" "us \<noteq> [] \<Longrightarrow> x \<noteq> last us" if "x \<in> set ws" for x
    using that d(1) last_in_set [of us] by (auto simp del: last_in_set)
  have 1: "threaded 0 us v ?m"
  proof (cases "us = []")
    case False
    have "threaded 0 us v ((vmas s)(last us := (vmas s (last us))\<lparr>v_next := v\<rparr>))" by (rule threaded_next [OF T(1)]) (use d False in auto)
    moreover have "threaded 0 us v ?m = threaded 0 us v ((vmas s)(last us := (vmas s (last us))\<lparr>v_next := v\<rparr>))"
      by (rule threaded_cong) (use False xu in \<open>simp add: m\<close>)
    ultimately show ?thesis by simp
  qed simp
  have 2: "threaded v ws 0 ?m"
  proof (cases "ws = []")
    case False
    have "threaded v ws 0 ((vmas s)(hd ws := (vmas s (hd ws))\<lparr>v_prev := v\<rparr>))" by (rule threaded_prev [OF T(2)]) (use d False in auto)
    moreover have "threaded v ws 0 ?m = threaded v ws 0 ((vmas s)(hd ws := (vmas s (hd ws))\<lparr>v_prev := v\<rparr>))"
      by (rule threaded_cong) (use False xw in \<open>simp add: m\<close>)
    ultimately show ?thesis by simp
  qed simp
  have 3: "?m v = vmas s v" using ne d(1) by (auto simp: m)
  have "v_first s' = hd (us @ v # ws)" "v_last s' = last (us @ v # ws)"
    using T(3,4) nz unfolding s' vma_link_def by (auto simp: upd_vma_def Let_def)
  then show "list_ok (us @ v # ws) s'" using 1 2 3 v by (simp add: list_ok_def threaded_append)
  show "v_tree s' = v_tree s" "vma_free s' = vma_free s"
    unfolding s' vma_link_def by (simp_all add: upd_vma_def Let_def)
  show "v_start (vmas s' x) = v_start (vmas s x)" "v_end (vmas s' x) = v_end (vmas s x)"
    "v_prot (vmas s' x) = v_prot (vmas s x)" "v_kind (vmas s' x) = v_kind (vmas s x)" by (simp_all add: m)
  show "x \<notin> set (us @ ws) \<Longrightarrow> vmas s' x = vmas s x" using last_in_set [of us] hd_in_set [of ws] by (auto simp: m)
qed


definition region :: "vma_set \<Rightarrow> u64 \<Rightarrow> u64 \<times> u64 \<times> u64 \<times> u64" where
  "region s x = (v_start (vmas s x), v_end (vmas s x), v_prot (vmas s x), v_kind (vmas s x))"

lemma vma_insert_links:
  assumes ok: "vma_ok s xs" and lt: "start < fin" and new: "vma_free s \<notin> set xs"
  shows "if (\<exists>x \<in> set xs. overlaps start fin x s) \<or> vma_free s = 0 then vma_insert start fin prot kind s = Some (- 1, s)
    else \<exists>us ws s1. xs = us @ ws \<and> list_ok (us @ vma_free s # ws) s1 \<and> ordered (us @ vma_free s # ws) (vmas s1) \<and>
      region s1 (vma_free s) = (start, fin, prot, kind) \<and> v_tree s1 = v_tree s \<and> vma_free s1 = v_next (vmas s (vma_free s)) \<and>
      (\<forall>x \<in> set xs. region s1 x = region s x) \<and> (\<forall>x. x \<notin> set xs \<longrightarrow> x \<noteq> vma_free s \<longrightarrow> vmas s1 x = vmas s x) \<and>
      vma_insert start fin prot kind s =
        map_option (\<lambda>(_, t). (0, s1\<lparr>v_tree := t\<rparr>)) (RB_INSERT (cmp_to start s1) (vma_free s) (v_tree s))"
proof -
  let ?v = "vma_free s"
  have o: "ordered xs (vmas s)" and nz: "0 \<notin> set xs" and d: "distinct xs" and L: "list_ok xs s"
    using ok by (simp_all add: vma_ok_def tree_ok_def)
  obtain us ws where xs: "xs = us @ ws" and us: "\<And>x. x \<in> set us \<Longrightarrow> v_start (vmas s x) < start"
    and ws: "\<And>x. x \<in> set ws \<Longrightarrow> start \<le> v_start (vmas s x)"
    and nf: "RB_NFIND (cmp_to start s) (v_tree s) = Some (if ws = [] then 0 else hd ws)"
    and pf: "(if ws \<noteq> [] then RB_PREV (hd ws) (v_tree s) else RB_MINMAX 1 (v_tree s)) = Some (if us = [] then 0 else last us)"
    by (rule insert_neighbours [OF ok, of start]) (rule that; blast)
  have nzs: "us \<noteq> [] \<Longrightarrow> last us \<noteq> 0" "ws \<noteq> [] \<Longrightarrow> hd ws \<noteq> 0"
    using nz last_in_set [of us] hd_in_set [of ws] by (metis UnI1 UnI2 set_append xs)+
  define P where "P = (if us = [] then 0 else last us)"
  define N where "N = (if ws = [] then 0 else hd ws)"
  have pf': "(if N \<noteq> 0 then RB_PREV N (v_tree s) else RB_MINMAX 1 (v_tree s)) = Some P" using pf nzs by (auto simp: P_def N_def split: if_splits)
  have nf': "RB_NFIND (cmp_to start s) (v_tree s) = Some N" using nf by (simp add: N_def)
  have ov: "(\<exists>x \<in> set xs. overlaps start fin x s) \<longleftrightarrow>
      P \<noteq> 0 \<and> v_end (vmas s P) > start \<or> N \<noteq> 0 \<and> v_start (vmas s N) < fin"
    using no_overlap [OF o [unfolded xs] nz [unfolded xs] lt us ws] nzs by (simp add: xs P_def N_def)
  define s0 where "s0 = upd_vma ?v (\<lambda>r. r\<lparr>v_start := start, v_end := fin, v_prot := prot, v_kind := kind, v_prev := P, v_next := N\<rparr>)
    (s\<lparr>vma_free := v_next (vmas s ?v)\<rparr>)"
  define s1 where "s1 = vma_link ?v P N s0"
  have fails: "vma_insert start fin prot kind s = Some (- 1, s)" if "(\<exists>x \<in> set xs. overlaps start fin x s) \<or> ?v = 0"
    using that pf' unfolding ov vma_insert_def nf' by (auto simp: vma_alloc_def Let_def)
  have inserts: "vma_insert start fin prot kind s =
      map_option (\<lambda>(_, t). (0, s1\<lparr>v_tree := t\<rparr>)) (RB_INSERT (cmp_to (v_start (vmas s1 ?v)) s1) ?v (v_tree s1))"
    if "\<not> ((\<exists>x \<in> set xs. overlaps start fin x s) \<or> ?v = 0)"
  proof -
    have c: "\<not> (P \<noteq> 0 \<and> v_end (vmas s P) > start)" "\<not> (N \<noteq> 0 \<and> v_start (vmas s N) < fin)" "?v \<noteq> 0" using that unfolding ov by blast+
    then have "vma_insert start fin prot kind s =
        RB_INSERT (cmp_to (v_start (vmas s1 ?v)) s1) ?v (v_tree s1) \<bind> (\<lambda>(_, t). Some (0, s1\<lparr>v_tree := t\<rparr>))"
      unfolding vma_insert_def nf' bind.bind_lunit pf' if_not_P [OF c(1)] if_not_P [OF c(2)]
      by (simp add: vma_alloc_def s1_def s0_def Let_def)
    then show ?thesis by (simp add: map_conv_bind_option comp_def split_def)
  qed
  show ?thesis
  proof (cases "(\<exists>x \<in> set xs. overlaps start fin x s) \<or> ?v = 0")
    case False
    have "threaded 0 (us @ ws) 0 (vmas s0) = threaded 0 (us @ ws) 0 (vmas s)"
      by (rule threaded_cong) (use new xs in \<open>auto simp: s0_def upd_vma_def\<close>)
    then have L0: "list_ok (us @ ws) s0" using L by (simp add: list_ok_def xs s0_def upd_vma_def)
    have d1: "distinct (us @ ?v # ws)" "0 \<notin> set (us @ ?v # ws)" using d new nz False xs by auto
    have v0: "v_prev (vmas s0 ?v) = (if us = [] then 0 else last us)" "v_next (vmas s0 ?v) = (if ws = [] then 0 else hd ws)"
      by (simp_all add: s0_def upd_vma_def P_def N_def)
    note l = link_list [OF L0 d1 v0 s1_def [unfolded P_def N_def]]
    have st: "v_start (vmas s1 x) = (if x = ?v then start else v_start (vmas s x))" "v_end (vmas s1 x) = (if x = ?v then fin else v_end (vmas s x))" for x
      using l(4,5) [of x] by (simp_all add: s0_def upd_vma_def)
    have rg: "region s1 x = (if x = ?v then (start, fin, prot, kind) else region s x)" for x
      using l(4-7) [of x] by (simp add: s0_def upd_vma_def region_def)
    have "vmas s1 x = vmas s x" if "x \<notin> set xs" "x \<noteq> ?v" for x
      using l(8) [of x] that xs by (simp add: s0_def upd_vma_def)
    note rest = this
    have clear: "\<not> overlaps start fin x s" if "x \<in> set xs" for x using False that by blast
    have nv: "x \<noteq> ?v" if "x \<in> set us \<or> x \<in> set ws" for x using that new xs by auto
    have lo: "v_end (vmas s x) \<le> start" if "x \<in> set us" for x
      using clear [of x] us [OF that] lt that xs by (auto simp: overlaps_def)
    have hi: "fin \<le> v_start (vmas s x)" if "x \<in> set ws" for x
    proof -
      have "v_start (vmas s x) < v_end (vmas s x)" using o that xs by (auto simp: ordered_def)
      then show ?thesis using clear [of x] ws [OF that] that xs by (auto simp: overlaps_def)
    qed
    have "ordered (us @ ?v # ws) (vmas s1)"
      by (rule ordered_insert [OF o [unfolded xs]]) (use lt lo hi nv st in auto)
    then show ?thesis
      using False inserts [OF False] l(1,2,3) st [of ?v] rg new rest xs
      by (simp only: if_False, intro exI [of _ us] exI [of _ ws] exI [of _ s1]) (auto simp add: s0_def upd_vma_def)
  next
    case True
    then show ?thesis by (simp only: if_True fails)
  qed
qed


lemma chain_cong: "(\<And>x. x \<in> set fs \<Longrightarrow> v_next (m' x) = v_next (m x)) \<Longrightarrow> chain p fs m' \<longleftrightarrow> chain p fs m"
  by (induction fs arbitrary: p) auto

lemma insert_in_tree:
  \<comment> \<open>the tree accepts the node that the list has got\<close>
  assumes t: "tree_ok t (us @ ws)" and o: "ordered (us @ v # ws) (vmas s1)"
    and v: "v \<noteq> 0" "aligned4 v" "v \<notin> set (us @ ws)" "v_start (vmas s1 v) = start"
  obtains t' where "RB_INSERT (cmp_to start s1) v t = Some (0, t')" "tree_ok t' (us @ v # ws)"
proof -
  have lo: "cmp_to start s1 x > 0" if "x \<in> set us" for x
    using ordered_start(1) [OF o that] v(4) by (simp add: cmp_to_def vma_cmp_def)
  have hi: "cmp_to start s1 x < 0" if "x \<in> set ws" for x
    using ordered_start(4) [OF o that] v(4) by (simp add: cmp_to_def vma_cmp_def)
  have nz: "cmp_to start s1 x \<noteq> 0" if "x \<in> set (us @ ws)" for x using lo [of x] hi [of x] that by auto
  have srt: "sorted_wrt (\<lambda>x y. cmp_to start s1 x < 0 \<longrightarrow> cmp_to start s1 y < 0) (us @ ws)"
  proof -
    have all: "sorted_wrt R zs" if "\<And>x y. x \<in> set zs \<Longrightarrow> y \<in> set zs \<Longrightarrow> R x y" for R and zs :: "u64 list"
      using that by (induction zs) auto
    have "\<not> cmp_to start s1 x < 0" if "x \<in> set us" for x using lo [OF that] by simp
    then show ?thesis using hi by (auto simp: sorted_wrt_append intro!: all)
  qed
  obtain t' us' ws' where r: "RB_INSERT (cmp_to start s1) v t = Some (0, t')" "us @ ws = us' @ ws'"
      "tree_ok t' (us' @ v # ws')" "\<And>x. x \<in> set us' \<Longrightarrow> cmp_to start s1 x > 0" "\<And>x. x \<in> set ws' \<Longrightarrow> cmp_to start s1 x < 0"
    by (rule RB_INSERT_ok [OF t v(1-3) _ srt], erule nz) (rule that; blast)
  have tw: "takeWhile (\<lambda>x. cmp_to start s1 x > 0) (as @ bs) = as"
    if "\<And>x. x \<in> set as \<Longrightarrow> cmp_to start s1 x > 0" "\<And>x. x \<in> set bs \<Longrightarrow> cmp_to start s1 x < 0" for as bs
  proof -
    have "takeWhile (\<lambda>x. cmp_to start s1 x > 0) bs = []" using that(2) by (cases bs) (auto dest: order_less_asym)
    then show ?thesis using that(1) by (simp add: takeWhile_append2)
  qed
  have "us = us'" using tw [of us ws, OF lo hi] tw [of us' ws', OF r(4,5)] r(2) by simp
  then have "us = us' \<and> ws = ws'" using r(2) by simp
  then show thesis using that r(1,3) by simp
qed

lemma vma_insert_keeps:
  assumes inv: "vma_inv s xs fs" and lt: "start < fin"
  shows "if (\<exists>x \<in> set xs. overlaps start fin x s) \<or> fs = [] then vma_insert start fin prot kind s = Some (- 1, s)
    else \<exists>us ws s'. xs = us @ ws \<and> vma_insert start fin prot kind s = Some (0, s') \<and>
      vma_inv s' (us @ hd fs # ws) (tl fs) \<and> region s' (hd fs) = (start, fin, prot, kind) \<and>
      (\<forall>x \<in> set xs. region s' x = region s x)"
proof -
  have ok: "vma_ok s xs" and ch: "chain (vma_free s) fs (vmas s)" and fs: "distinct fs" "\<And>x. x \<in> set fs \<Longrightarrow> aligned4 x" "set xs \<inter> set fs = {}"
    using inv by (auto simp: vma_inv_def)
  have f0: "vma_free s = (if fs = [] then 0 else hd fs)" "fs = [] \<longleftrightarrow> vma_free s = 0" using ch by (cases fs; auto)+
  have new: "vma_free s \<notin> set xs" using f0 fs(3) ok by (cases fs) (auto simp: vma_ok_def)
  show ?thesis
  proof (cases "(\<exists>x \<in> set xs. overlaps start fin x s) \<or> fs = []")
    case True
    then show ?thesis using vma_insert_links [OF ok lt new, of prot kind] f0(2) by (simp only: if_True)
  next
    case False
    then have F: "\<not> ((\<exists>x \<in> set xs. overlaps start fin x s) \<or> vma_free s = 0)" using f0(2) by simp
    obtain v vs where v: "fs = v # vs" "vma_free s = v" "v \<noteq> 0" "chain (v_next (vmas s v)) vs (vmas s)" using False ch by (cases fs) auto
    from vma_insert_links [OF ok lt new, of prot kind, unfolded if_not_P [OF F], unfolded v(2)]
    obtain us ws s1 where l: "xs = us @ ws" "list_ok (us @ v # ws) s1" "ordered (us @ v # ws) (vmas s1)"
      "region s1 v = (start, fin, prot, kind)" "v_tree s1 = v_tree s" "vma_free s1 = v_next (vmas s v)"
      "\<forall>x \<in> set xs. region s1 x = region s x" "\<forall>x. x \<notin> set xs \<longrightarrow> x \<noteq> v \<longrightarrow> vmas s1 x = vmas s x"
      "vma_insert start fin prot kind s = map_option (\<lambda>(_, t). (0, s1\<lparr>v_tree := t\<rparr>)) (RB_INSERT (cmp_to start s1) v (v_tree s))"
      by (elim exE conjE) (rule that)
    have t: "tree_ok (v_tree s) (us @ ws)" using ok l(1) by (simp add: vma_ok_def)
    have va: "aligned4 v" "v \<notin> set (us @ ws)" "v_start (vmas s1 v) = start" using fs(2) v new l(1,4) by (auto simp: region_def)
    obtain t' where t': "RB_INSERT (cmp_to start s1) v (v_tree s) = Some (0, t')" "tree_ok t' (us @ v # ws)"
      by (rule insert_in_tree [OF t l(3) v(3) va])
    let ?s = "s1\<lparr>v_tree := t'\<rparr>"
    have "chain (v_next (vmas s v)) vs (vmas s1) = chain (v_next (vmas s v)) vs (vmas s)"
      by (rule chain_cong) (use l(8) fs(1,3) v(1) in auto)
    moreover have "vma_ok ?s (us @ v # ws)"
      using t'(2) l(1-3) v(3) ok by (simp add: vma_ok_def list_ok_def)
    ultimately have "vma_inv ?s (us @ v # ws) vs" using v l(1,6) fs by (auto simp: vma_inv_def)
    moreover have "vma_insert start fin prot kind s = Some (0, ?s)" using l(9) t'(1) by simp
    moreover have "region ?s x = region s1 x" for x by (simp add: region_def)
    ultimately show ?thesis unfolding if_not_P [OF False] using l(1,4,7) v(1)
      by (intro exI [of _ us] exI [of _ ws] exI [of _ ?s]) simp
  qed
qed

text \<open>C14: \<open>vma_insert\<close> never admits a region that overlaps another. For a nonempty range it fails, with
  nothing changed, exactly when the range overlaps a region of the set or the pool has no node left;
  otherwise it takes the first free node for the new region, the other regions keep theirs, and the
  invariant holds again: tree and list hold the regions in order, the tree is balanced and the other
  free nodes are still in the pool.\<close>

theorem vma_insert_spec:
  assumes "vma_inv s xs fs" "start < fin"
  shows "if (\<exists>x \<in> set xs. overlaps start fin x s) \<or> fs = [] then vma_insert start fin prot kind s = Some (- 1, s)
    else \<exists>us ws s'. xs = us @ ws \<and> vma_insert start fin prot kind s = Some (0, s') \<and>
      vma_inv s' (us @ hd fs # ws) (tl fs) \<and> region s' (hd fs) = (start, fin, prot, kind) \<and>
      (\<forall>x \<in> set xs. region s' x = region s x)"
  by (rule vma_insert_keeps [OF assms])

lemma holds_unique:
  assumes "ordered xs (vmas s)" "x \<in> set xs" "y \<in> set xs" "vma_holds x addr s" "vma_holds y addr s"
  shows "x = y"
proof (rule ccontr)
  assume "x \<noteq> y"
  obtain us ws where xs: "xs = us @ x # ws" using split_list [OF assms(2)] by blast
  then have "y \<in> set us \<or> y \<in> set ws" using assms(3) \<open>x \<noteq> y\<close> by auto
  then show False
    using ordered_start(2) [of us x ws "vmas s" y] ordered_start(3) [of us x ws "vmas s" y] assms(1,4,5) xs
    by (auto simp: vma_holds_def)
qed

lemma vma_find_iff:
  assumes "vma_ok s xs" "xs \<noteq> []"
  shows "vma_find addr s = Some r \<longleftrightarrow> (if r = 0 then \<forall>x \<in> set xs. \<not> vma_holds x addr s else r \<in> set xs \<and> vma_holds r addr s)"
proof -
  obtain q where q: "vma_find addr s = Some q" "if q = 0 then \<forall>x \<in> set xs. \<not> vma_holds x addr s else q \<in> set xs \<and> vma_holds q addr s"
    using vma_find_region [OF assms] by blast
  have "ordered xs (vmas s)" using assms(1) by (simp add: vma_ok_def)
  then show ?thesis using q holds_unique [of xs s q r addr] by (auto split: if_splits)
qed

text \<open>C16: what has been inserted is found. After a successful \<open>vma_insert\<close> every address of the new range is
  found in the new region, and every other address is found where it was found before.\<close>

theorem vma_insert_find:
  assumes "vma_inv s xs fs" "start < fin" "vma_insert start fin prot kind s = Some (0, s')"
  shows "if start \<le> addr \<and> addr < fin then \<exists>r. vma_find addr s' = Some r \<and> region s' r = (start, fin, prot, kind)
    else xs \<noteq> [] \<longrightarrow> vma_find addr s' = vma_find addr s"
proof -
  have c: "\<not> ((\<exists>x \<in> set xs. overlaps start fin x s) \<or> fs = [])"
  proof
    assume "(\<exists>x \<in> set xs. overlaps start fin x s) \<or> fs = []"
    then show False using vma_insert_keeps [OF assms(1,2), of prot kind] assms(3) by auto
  qed
  obtain us ws where n: "xs = us @ ws" "vma_inv s' (us @ hd fs # ws) (tl fs)" "region s' (hd fs) = (start, fin, prot, kind)"
      "\<forall>x \<in> set xs. region s' x = region s x"
    using vma_insert_keeps [OF assms(1,2), of prot kind] assms(3) unfolding if_not_P [OF c] by auto
  have ok: "vma_ok s xs" "vma_ok s' (us @ hd fs # ws)" using assms(1) n(2) by (simp_all add: vma_inv_def)
  then have nz: "hd fs \<noteq> 0" by (auto simp: vma_ok_def)
  have h: "vma_holds (hd fs) addr s' \<longleftrightarrow> start \<le> addr \<and> addr < fin" using n(3) by (simp add: vma_holds_def region_def)
  have o: "vma_holds x addr s' = vma_holds x addr s" if "x \<in> set xs" for x using n(4) that by (simp add: vma_holds_def region_def)
  show ?thesis
  proof (cases "start \<le> addr \<and> addr < fin")
    case True
    then have "vma_find addr s' = Some (hd fs)" using vma_find_iff [OF ok(2), of addr "hd fs"] nz h by simp
    then show ?thesis using True n(3) by auto
  next
    case False
    have "vma_find addr s' = vma_find addr s" if ne: "xs \<noteq> []"
    proof -
      obtain r where r: "vma_find addr s = Some r" using vma_find_region [OF ok(1) ne] by blast
      then have "vma_find addr s' = Some r"
        using vma_find_iff [OF ok(1) ne, of addr r] vma_find_iff [OF ok(2), of addr r] False h o n(1) by (auto split: if_splits)
      then show ?thesis using r by simp
    qed
    then show ?thesis unfolding if_not_P [OF False] by blast
  qed
qed

section \<open>The empty set\<close>

definition pool_node :: "u64 \<Rightarrow> nat \<Rightarrow> u64" where
  "pool_node pool i = pool + sizeof_vma * of_nat i"

lemma unat_pool_node:
  assumes "unat pool + 72 * 256 < 2 ^ 64" "i < 256"
  shows "unat (pool_node pool i) = unat pool + 72 * i"
proof -
  have "unat (72 * of_nat i :: u64) = 72 * i" using assms(2) by (simp add: unat_word_ariths unat_of_nat)
  then show ?thesis using assms by (simp add: pool_node_def unat_word_ariths)
qed

lemma chain_nodes:
  assumes "\<And>i. i < n \<Longrightarrow> f i \<noteq> 0" "\<And>i. i + 1 < n \<Longrightarrow> v_next (m (f i)) = f (i + 1)" "n \<noteq> 0 \<Longrightarrow> v_next (m (f (n - 1))) = 0"
  shows "k \<le> n \<Longrightarrow> n \<noteq> 0 \<Longrightarrow> chain (if k = n then 0 else f k) (map f [k..<n]) m"
proof (induction "n - k" arbitrary: k)
  case (Suc d)
  then have "chain (if Suc k = n then 0 else f (Suc k)) (map f [Suc k..<n]) m" by simp
  moreover have "v_next (m (f k)) = (if Suc k = n then 0 else f (Suc k))" using assms(2) [of k] assms(3) Suc by (cases "Suc k = n") auto
  moreover have "k < n" using Suc.hyps(2) by simp
  ultimately show ?case using assms(1) [of k] by (simp add: upt_conv_Cons)
qed simp

lemma aligned4_iff: "aligned4 x \<longleftrightarrow> 4 dvd unat x"
proof -
  have m: "(3 :: u64) = mask 2" by (simp add: mask_eq_exp_minus_1)
  have "aligned4 x \<longleftrightarrow> unat (x AND 3) = 0" by (simp add: aligned4_def unat_eq_0)
  also have "unat (x AND 3) = unat x mod 4"
    unfolding m by (simp only: take_bit_eq_mask [symmetric] unsigned_take_bit_eq) (simp add: take_bit_eq_mod)
  finally show ?thesis by auto
qed

definition link_nodes :: "(nat \<Rightarrow> u64) \<Rightarrow> nat \<Rightarrow> vma_set \<Rightarrow> vma_set" where
  \<comment> \<open>the loop of \<open>vma_set_init\<close>\<close>
  "link_nodes f n s = fold (\<lambda>i. upd_vma (f i) (\<lambda>r. r\<lparr>v_next := f (i + 1)\<rparr>)) [0..<n] s"

lemma link_nodes_fields:
  "v_tree (link_nodes f n s) = v_tree s \<and> v_first (link_nodes f n s) = v_first s \<and> v_last (link_nodes f n s) = v_last s"
  by (induction n) (simp_all add: link_nodes_def upd_vma_def)

lemma link_nodes_next:
  assumes "inj_on f {..<N}" "i < N"
  shows "n \<le> N \<Longrightarrow> v_next (vmas (link_nodes f n s) (f i)) = (if i < n then f (i + 1) else v_next (vmas s (f i)))"
proof (induction n)
  case (Suc n)
  have "f i = f n \<longleftrightarrow> i = n" using assms Suc.prems by (auto simp: inj_on_def)
  moreover have "link_nodes f (Suc n) s = upd_vma (f n) (\<lambda>r. r\<lparr>v_next := f (n + 1)\<rparr>) (link_nodes f n s)" by (simp add: link_nodes_def)
  ultimately show ?case using Suc by (auto simp: upd_vma_def)
qed (simp add: link_nodes_def)

text \<open>On its first use, with a pool of 256 nodes that is aligned and does not wrap around the address space,
  \<open>vma_set_init\<close> gives an empty set with all the nodes free.\<close>

theorem vma_set_init_inv:
  assumes "vma_free s = 0" "pool \<noteq> 0" "aligned4 pool" "unat pool + 72 * 256 < 2 ^ 64"
  shows "vma_inv (vma_set_init pool s) [] (map (pool_node pool) [0..<256])"
proof -
  let ?f = "pool_node pool"
  note u = unat_pool_node [OF assms(4)]
  have inj: "inj_on ?f {..<256}"
    by (rule inj_onI) (use u in \<open>metis add_left_cancel lessThan_iff mult_cancel1 zero_neq_numeral\<close>)
  have nz: "?f i \<noteq> 0" if "i < 256" for i
    using u [OF that] assms(2) by (auto simp: unat_eq_0)
  define s0 where "s0 = s\<lparr>v_tree := RB_INIT (v_tree s), v_first := 0, v_last := 0\<rparr>"
  define s1 where "s1 = link_nodes ?f 255 s0"
  have init: "vma_set_init pool s = (upd_vma (?f 255) (\<lambda>r. r\<lparr>v_next := 0\<rparr>) s1)\<lparr>vma_free := ?f 0\<rparr>"
    using assms(1) unfolding vma_set_init_def s1_def s0_def link_nodes_def pool_node_def Let_def by simp
  have v: "v_next (vmas (vma_set_init pool s) (?f i)) = (if i = 255 then 0 else ?f (i + 1))" if "i < 256" for i
  proof -
    have "?f i = ?f 255 \<longleftrightarrow> i = 255" using inj that by (auto simp: inj_on_def)
    then show ?thesis using link_nodes_next [OF inj that, of 255 s0] that unfolding init s1_def by (auto simp: upd_vma_def)
  qed
  have "chain (if 0 = (256 :: nat) then 0 else ?f 0) (map ?f [0..<256]) (vmas (vma_set_init pool s))"
    by (rule chain_nodes) (use nz v in simp_all)
  then have "chain (vma_free (vma_set_init pool s)) (map ?f [0..<256]) (vmas (vma_set_init pool s))" by (simp add: init)
  moreover have "v_tree (vma_set_init pool s) = RB_INIT (v_tree s)" "v_first (vma_set_init pool s) = 0" "v_last (vma_set_init pool s) = 0"
    using link_nodes_fields [of ?f 255 s0] unfolding init s1_def by (simp_all add: upd_vma_def s0_def)
  then have "vma_ok (vma_set_init pool s) []"
    by (simp add: vma_ok_def tree_ok_def list_ok_def ordered_def RB_INIT_def)
  moreover have "distinct (map ?f [0..<256])" using inj by (simp add: distinct_map atLeast0LessThan)
  moreover have "aligned4 (?f i)" if "i < 256" for i
    using u [OF that] assms(3) unfolding aligned4_iff by simp
  ultimately show ?thesis unfolding vma_inv_def by simp
qed

section \<open>A set with one region\<close>

definition one_region :: vma_set where
  \<comment> \<open>the region from \<open>0x4000\<close> to \<open>0x8000\<close>, in the node \<open>0x1000\<close>; the node \<open>0x2000\<close> is free\<close>
  "one_region = \<lparr>vmas = (\<lambda>_. \<lparr>v_start = 0x4000, v_end = 0x8000, v_prot = 1, v_kind = 2, v_prev = 0, v_next = 0\<rparr>),
     v_tree = \<lparr>rbe_left = (\<lambda>_. 0), rbe_right = (\<lambda>_. 0), rbe_parent = (\<lambda>_. 0), rbh_root = 0x1000\<rparr>,
     v_first = 0x1000, v_last = 0x1000, vma_free = 0x2000\<rparr>"

lemma one_region_ok: "vma_ok one_region [0x1000]"
proof -
  have "rb_rep (Node Leaf 0x1000 Leaf) (rbh_root (v_tree one_region)) 0 (v_tree one_region) \<and>
      bal (v_tree one_region) (Node Leaf 0x1000 Leaf)"
    by (simp add: one_region_def RB_PARENT_def RB_RED_LEFT_def RB_RED_RIGHT_def)
  then have "tree_ok (v_tree one_region) [0x1000]"
    unfolding tree_ok_def by (intro conjI exI [of _ "Node Leaf 0x1000 Leaf"]) (auto simp: aligned4_def)
  moreover have "list_ok [0x1000] one_region" "ordered [0x1000] (vmas one_region)"
    by (simp_all add: one_region_def list_ok_def ordered_def)
  ultimately show ?thesis unfolding vma_ok_def by simp
qed

lemma one_region_inv: "vma_inv one_region [0x1000] [0x2000]"
  using one_region_ok by (simp add: vma_inv_def aligned4_def) (simp add: one_region_def)

lemma one_region_clear: "\<not> overlaps 0x9000 0xA000 x one_region"
  by (simp add: overlaps_def one_region_def)

theorem vma_find_spec_witness: "vma_find 0x5000 one_region = Some 0x1000"
proof -
  have "vma_holds 0x1000 0x5000 one_region" by (simp add: vma_holds_def one_region_def)
  then show ?thesis using vma_find_spec [OF one_region_ok, of "0x5000"] by (auto split: if_splits)
qed

theorem vma_find_empty_witness: "vma_find 0x5000 (one_region\<lparr>v_tree := RB_INIT (v_tree one_region)\<rparr>) = None"
  by (rule vma_find_empty) (simp add: RB_INIT_def)

theorem vma_insert_spec_witness:
  "\<exists>s' xs. vma_insert 0x9000 0xA000 1 2 one_region = Some (0, s') \<and> vma_inv s' xs [] \<and> set xs = {0x1000, 0x2000}"
proof -
  have "(0x9000 :: u64) < 0xA000" by simp
  from vma_insert_spec [OF one_region_inv this, of 1 2] obtain us ws s' where
    "[0x1000] = us @ ws" "vma_insert 0x9000 0xA000 1 2 one_region = Some (0, s')" "vma_inv s' (us @ 0x2000 # ws) []"
    by (auto simp: one_region_clear)
  moreover from this(1) have "set us \<union> set ws = {0x1000}" by (metis list.set(1,2) set_append)
  ultimately show ?thesis by (intro exI [of _ s'] exI [of _ "us @ 0x2000 # ws"]) auto
qed

theorem vma_insert_find_witness:
  "\<exists>s' r. vma_insert 0x9000 0xA000 1 2 one_region = Some (0, s') \<and> vma_find 0x9800 s' = Some r \<and>
     region s' r = (0x9000, 0xA000, 1, 2)"
proof -
  have lt: "(0x9000 :: u64) < 0xA000" by simp
  from vma_insert_keeps [OF one_region_inv lt, of 1 2] obtain s' where
    s': "vma_insert 0x9000 0xA000 1 2 one_region = Some (0, s')" by (auto simp: one_region_clear)
  then show ?thesis using vma_insert_find [OF one_region_inv lt s', of "0x9800"] by simp
qed

theorem vma_set_init_inv_witness:
  "vma_inv (vma_set_init 0x1000 (one_region\<lparr>vma_free := 0\<rparr>)) [] (map (pool_node 0x1000) [0..<256])"
  by (rule vma_set_init_inv) (simp_all add: aligned4_def)

end
