(* ===== verification/Pager_Spec.thy ===== *)
theory Pager_Spec
  imports Pager Syscall_Spec Vma_Spec
begin

text \<open>
  The root server: the text of the numbers it logs, the frames it hands out, and the program headers it
  merges before it loads them.
\<close>

section \<open>Decimal numbers\<close>

fun decimal :: "nat \<Rightarrow> nat list" where
  \<comment> \<open>the digits, most significant first\<close>
  "decimal n = (if n < 10 then [n] else decimal (n div 10) @ [n mod 10])"

declare decimal.simps [simp del]

lemma decimal_length: "n < 10 ^ k \<Longrightarrow> k \<noteq> 0 \<Longrightarrow> length (decimal n) \<le> k"
proof (induction n arbitrary: k rule: decimal.induct)
  case (1 n)
  show ?case
  proof (cases "n < 10")
    case False
    obtain j where k: "k = Suc j" using 1(3) by (cases k) auto
    have "j \<noteq> 0" using False 1(2) k by (cases j) auto
    moreover have "n div 10 < 10 ^ j" using 1(2) k by (simp add: less_mult_imp_div_less)
    ultimately show ?thesis using 1(1) [OF False, of j] False k by (subst decimal.simps) simp
  qed (use 1 in \<open>subst decimal.simps, simp\<close>)
qed

lemma decimal_value: "foldl (\<lambda>a d. 10 * a + d) 0 (decimal n) = n"
proof (induction n rule: decimal.induct)
  case (1 n)
  then show ?case by (subst decimal.simps) simp
qed

lemma ulong_loop_text:
  assumes "length (decimal (unat v)) \<le> Suc i" "i < length buf"
  shows "\<exists>buf'. ulong_loop (int i) v buf = Some (int i - int (length (decimal (unat v))), buf') \<and> length buf' = length buf \<and>
    drop (Suc i - length (decimal (unat v))) buf' = map (\<lambda>d. 0x30 + of_nat d) (decimal (unat v)) @ drop (Suc i) buf"
  using assms
proof (induction "unat v" arbitrary: v i buf rule: decimal.induct)
  case 1
  let ?n = "unat v"
  define b where "b = buf[i := 0x30 + of_nat (?n mod 10)]"
  have d: "unat (v div 10) = ?n div 10" "unat (v mod 10) = ?n mod 10" by (simp_all add: unat_div unat_mod)
  have pos: "v div 10 > 0 \<longleftrightarrow> \<not> ?n < 10" using d(1) by (auto simp: word_less_nat_alt div_greater_zero_iff)
  have "(ucast (v mod 10) :: u8) = of_nat (?n mod 10)" using d(2) by (metis of_nat_unat)
  then have p: "array_set buf (int i) (0x30 + ucast (v mod 10)) = Some b" using 1(3) by (simp add: array_set_def b_def)
  have db: "drop (Suc i) b = drop (Suc i) buf" "b ! i = 0x30 + of_nat (?n mod 10)" "length b = length buf"
    using 1(3) by (simp_all add: b_def drop_update_cancel)
  show ?case
  proof (cases "?n < 10")
    case True
    then have "drop i b = (0x30 + of_nat ?n) # drop (Suc i) buf" using db 1(3) by (simp add: Cons_nth_drop_Suc [symmetric])
    then show ?thesis using True p pos db(3) by (subst ulong_loop.simps) (simp add: decimal.simps [of ?n])
  next
    case False
    then have dec: "decimal ?n = decimal (?n div 10) @ [?n mod 10]" by (simp add: decimal.simps [of ?n])
    then obtain j where i: "i = Suc j" using 1(2) decimal.simps [of "?n div 10"] by (cases i) (auto split: if_splits)
    have "length (decimal (unat (v div 10))) \<le> Suc j" "j < length b" using 1(2,3) dec i d(1) db(3) by simp_all
    from 1(1) [OF False d(1) [symmetric] this] obtain c where
      c: "ulong_loop (int j) (v div 10) b = Some (int j - int (length (decimal (?n div 10))), c)" "length c = length b"
        "drop (Suc j - length (decimal (?n div 10))) c = map (\<lambda>d. 0x30 + of_nat d) (decimal (?n div 10)) @ drop (Suc j) b"
      by (auto simp: d(1))
    have "drop (Suc j) b = (0x30 + of_nat (?n mod 10)) # drop (Suc i) buf" using db 1(3) i by (simp add: Cons_nth_drop_Suc [symmetric])
    then show ?thesis using False p pos c dec i db(3) by (subst ulong_loop.simps) simp
  qed
qed

text \<open>\<open>log_ulong\<close> never leaves its array of 21 characters, and what it logs is the decimal numeral of
  its argument, terminated by NUL.\<close>

theorem log_ulong_decimal:
  assumes "length buf = 21"
  shows "log_ulong buf v = Some (map (\<lambda>d. 0x30 + of_nat d) (decimal (unat v)) @ [0])"
proof -
  have "unat v < 10 ^ 20" using unat_less_64 [of v] by simp
  then have l: "length (decimal (unat v)) \<le> 20" by (rule decimal_length) simp
  define b where "b = buf[20 := 0]"
  have "drop 20 b = b ! 20 # drop 21 b" using assms by (subst Cons_nth_drop_Suc [symmetric]) (simp_all add: b_def)
  then have "drop 20 b = [0]" using assms by (simp add: b_def)
  moreover obtain c where "ulong_loop 19 v b = Some (19 - int (length (decimal (unat v))), c)"
      "drop (20 - length (decimal (unat v))) c = map (\<lambda>d. 0x30 + of_nat d) (decimal (unat v)) @ drop 20 b"
    using ulong_loop_text [of v 19 b] l assms by (auto simp: b_def)
  moreover have "nat (20 - int (length (decimal (unat v)))) = 20 - length (decimal (unat v))" using l by simp
  ultimately show ?thesis using assms unfolding log_ulong_def array_set_def b_def by (simp add: numeral_eq_Suc)
qed

theorem log_ulong_decimal_witness:
  "log_ulong (replicate 21 0) 1207 = Some [0x31, 0x32, 0x30, 0x37, 0]"
  using log_ulong_decimal [of "replicate 21 0" 1207] by (simp add: decimal.simps)

section \<open>Hexadecimal numbers\<close>

lemma hex_loop_text:
  assumes "i < length buf"
  shows "\<exists>buf'. hex_loop (int i) v buf = Some buf' \<and> length buf' = length buf \<and>
    (\<forall>j < length buf. buf' ! j = (if j \<le> i then log_digit (drop_bit (4 * (i - j)) v AND 0xF) else buf ! j))"
  using assms
proof (induction i arbitrary: v buf)
  case 0
  have "hex_loop (- 1) w b = Some b" for w b by (simp add: hex_loop.simps)
  then show ?case using 0 by (subst hex_loop.simps) (auto simp: array_set_def)
next
  case (Suc i)
  let ?b = "buf[Suc i := log_digit (v AND 0xF)]"
  obtain c where c: "hex_loop (int i) (drop_bit 4 v) ?b = Some c" "length c = length buf"
      "\<forall>j < length buf. c ! j = (if j \<le> i then log_digit (drop_bit (4 * (i - j)) (drop_bit 4 v) AND 0xF) else ?b ! j)"
    using Suc.IH [of ?b "drop_bit 4 v"] Suc.prems by auto
  have "hex_loop (int (Suc i)) v buf = Some c"
    using c(1) Suc.prems by (subst hex_loop.simps) (simp add: array_set_def nat_add_distrib)
  moreover have "drop_bit (4 * (i - j)) (drop_bit 4 v) = drop_bit (4 * (Suc i - j)) v" if "j \<le> i" for j
    using that by (simp add: Suc_diff_le add.commute)
  ultimately show ?case using c Suc.prems by (auto simp: nth_list_update le_Suc_eq)
qed

text \<open>\<open>log_hex\<close> writes the sixteen hexadecimal digits of its argument, the most significant one first.\<close>

lemma log_hex_digits:
  assumes "length buf = 16"
  shows "log_hex buf v = Some (map (\<lambda>j. log_digit (drop_bit (4 * (15 - j)) v AND 0xF)) [0..<16])"
proof -
  obtain c where c: "hex_loop 15 v buf = Some c" "length c = 16"
      "\<forall>j < 16. c ! j = log_digit (drop_bit (4 * (15 - j)) v AND 0xF)"
    using hex_loop_text [of 15 buf v] assms by auto
  then have "c = map (\<lambda>j. log_digit (drop_bit (4 * (15 - j)) v AND 0xF)) [0..<16]"
    by (intro nth_equalityI) auto
  then show ?thesis using c(1) by (simp add: log_hex_def)
qed

section \<open>The pool of frames\<close>

definition avail :: "root_server \<Rightarrow> u64 \<Rightarrow> bool" where
  "avail s j \<longleftrightarrow> bit (user_view (kern s) (pg_pool s + j div 8)) (unat (j mod 8))"

definition pool_mapped :: "root_server \<Rightarrow> bool" where
  "pool_mapped s \<longleftrightarrow> (\<forall>j < pool_bits s. user_byte (pg_pool s + j div 8) (kern s) \<noteq> 0)"

definition cursor :: "root_server \<Rightarrow> u64" where
  "cursor s = (if pool_bit s \<ge> pool_bits s then 0 else pool_bit s)"

definition slot :: "root_server \<Rightarrow> nat \<Rightarrow> u64" where
  \<comment> \<open>the frames in the order in which the scan meets them\<close>
  "slot s k = of_nat ((unat (cursor s) + k) mod unat (pool_bits s))"

lemma avail_upd [simp]: "avail (s\<lparr>pool_bit := b\<rparr>) = avail s" "pool_mapped (s\<lparr>pool_bit := b\<rparr>) = pool_mapped s"
  by (auto simp: avail_def pool_mapped_def)

lemma cursor_less: "pool_bits s \<noteq> 0 \<Longrightarrow> cursor s < pool_bits s"
  by (auto simp: cursor_def word_gt_0 not_le)

lemma slot_0: "pool_bits s \<noteq> 0 \<Longrightarrow> slot s 0 = cursor s"
  using cursor_less [of s] by (simp add: slot_def word_less_nat_alt)

lemma slot_Suc:
  assumes "pool_bits s \<noteq> 0"
  shows "slot (s\<lparr>pool_bit := cursor s + 1\<rparr>) k = slot s (Suc k)"
proof -
  let ?n = "unat (pool_bits s)"
  have lt: "unat (cursor s) < ?n" using cursor_less [OF assms] by (simp add: word_less_nat_alt)
  have u: "unat (cursor s + 1) = Suc (unat (cursor s))"
    using lt unat_less_64 [of "pool_bits s"] by (simp add: unat_word_ariths)
  have "unat (cursor (s\<lparr>pool_bit := cursor s + 1\<rparr>)) mod ?n = Suc (unat (cursor s)) mod ?n"
  proof (cases "?n \<le> Suc (unat (cursor s))")
    case True
    then have "Suc (unat (cursor s)) = ?n" using lt by simp
    then show ?thesis using u by (simp add: cursor_def [of "s\<lparr>pool_bit := cursor s + 1\<rparr>"] word_le_nat_alt)
  qed (use u in \<open>simp add: cursor_def [of "s\<lparr>pool_bit := cursor s + 1\<rparr>"] word_le_nat_alt\<close>)
  then have "(unat (cursor (s\<lparr>pool_bit := cursor s + 1\<rparr>)) + k) mod ?n = (Suc (unat (cursor s)) + k) mod ?n"
    by (rule mod_add_cong) simp
  then show ?thesis unfolding slot_def by simp
qed

lemma pool_scan_spec:
  assumes "pool_mapped s" "unat sc + n = unat (pool_bits s)"
  shows "(\<exists>k < n. avail s (slot s k) \<and> (\<forall>i < k. \<not> avail s (slot s i)) \<and>
      pool_scan sc s = Some (Some (slot s k), s\<lparr>pool_bit := slot s k + 1\<rparr>)) \<or>
    (\<forall>k < n. \<not> avail s (slot s k)) \<and> (\<exists>b. pool_scan sc s = Some (None, s\<lparr>pool_bit := b\<rparr>))"
  using assms
proof (induction n arbitrary: sc s)
  case 0
  then have "pool_scan sc s = Some (None, s\<lparr>pool_bit := pool_bit s\<rparr>)" by (subst pool_scan.simps) (simp add: word_less_nat_alt)
  then show ?case by blast
next
  case (Suc n)
  have lt: "sc < pool_bits s" and nz: "pool_bits s \<noteq> 0" using Suc.prems(2) by (auto simp: word_less_nat_alt unat_eq_0)
  have cur: "(if pool_bit s \<ge> pool_bits s then s\<lparr>pool_bit := 0\<rparr> else s) = s\<lparr>pool_bit := cursor s\<rparr>" by (simp add: cursor_def)
  have "user_byte (pg_pool s + cursor s div 8) (kern s) \<noteq> 0" using Suc.prems(1) cursor_less [OF nz] by (simp add: pool_mapped_def)
  then have run: "pool_scan sc s = (if avail s (cursor s) then Some (Some (cursor s), s\<lparr>pool_bit := cursor s + 1\<rparr>)
      else pool_scan (sc + 1) (s\<lparr>pool_bit := cursor s + 1\<rparr>))"
    using lt by (subst pool_scan.simps) (simp add: cur avail_def Let_def)
  show ?case
  proof (cases "avail s (cursor s)")
    case True
    then show ?thesis using run slot_0 [OF nz] by (intro disjI1 exI [of _ 0]) simp
  next
    case False
    let ?s = "s\<lparr>pool_bit := cursor s + 1\<rparr>"
    have "unat (sc + 1) = Suc (unat sc)" using lt by (rule unat_inc)
    then have "unat (sc + 1) + n = unat (pool_bits ?s)" using Suc.prems(2) by simp
    from Suc.IH [OF _ this] Suc.prems(1) have "(\<exists>k < n. avail s (slot s (Suc k)) \<and> (\<forall>i < k. \<not> avail s (slot s (Suc i))) \<and>
        pool_scan sc s = Some (Some (slot s (Suc k)), s\<lparr>pool_bit := slot s (Suc k) + 1\<rparr>)) \<or>
      (\<forall>k < n. \<not> avail s (slot s (Suc k))) \<and> (\<exists>b. pool_scan sc s = Some (None, s\<lparr>pool_bit := b\<rparr>))"
      using run False unfolding slot_Suc [OF nz] by simp
    then show ?thesis
    proof
      assume "\<exists>k < n. avail s (slot s (Suc k)) \<and> (\<forall>i < k. \<not> avail s (slot s (Suc i))) \<and>
        pool_scan sc s = Some (Some (slot s (Suc k)), s\<lparr>pool_bit := slot s (Suc k) + 1\<rparr>)"
      then obtain k where "k < n" "avail s (slot s (Suc k))" "\<forall>i < k. \<not> avail s (slot s (Suc i))"
        "pool_scan sc s = Some (Some (slot s (Suc k)), s\<lparr>pool_bit := slot s (Suc k) + 1\<rparr>)" by blast
      then show ?thesis using False slot_0 [OF nz]
        by (intro disjI1 exI [of _ "Suc k"]) (simp add: less_Suc_eq_0_disj [of _ k] all_conj_distrib imp_conjR, metis)
    next
      assume "(\<forall>k < n. \<not> avail s (slot s (Suc k))) \<and> (\<exists>b. pool_scan sc s = Some (None, s\<lparr>pool_bit := b\<rparr>))"
      then show ?thesis using False slot_0 [OF nz] by (intro disjI2) (auto simp: less_Suc_eq_0_disj)
    qed
  qed
qed

lemma slot_onto:
  assumes "j < pool_bits s"
  obtains k where "k < unat (pool_bits s)" "slot s k = j"
proof -
  let ?n = "unat (pool_bits s)" and ?c = "unat (cursor s)"
  have j: "unat j < ?n" using assms by (simp add: word_less_nat_alt)
  then have "pool_bits s \<noteq> 0" by auto
  then have c: "?c < ?n" using cursor_less [of s] by (simp add: word_less_nat_alt)
  define k where "k = (unat j + (?n - ?c)) mod ?n"
  have "(?c + k) mod ?n = (unat j + ?n) mod ?n" using c by (simp add: k_def mod_add_right_eq)
  also have "\<dots> = unat j" using j by simp
  finally have "slot s k = j" by (simp add: slot_def)
  then show thesis using that [of k] c by (simp add: k_def)
qed

lemma slot_less:
  assumes "k < unat (pool_bits s)"
  shows "slot s k < pool_bits s"
proof -
  have "(unat (cursor s) + k) mod unat (pool_bits s) < unat (pool_bits s)" using assms by simp
  moreover from this have "(unat (cursor s) + k) mod unat (pool_bits s) < 2 ^ 64" using unat_less_64 [of "pool_bits s"] by linarith
  ultimately show ?thesis by (simp add: slot_def word_less_nat_alt unat_of_nat take_bit_nat_eq_self)
qed

lemma pool_alloc_cases:
  assumes "pool_mapped s"
  shows "if \<exists>j < pool_bits s. avail s j
    then \<exists>k < unat (pool_bits s). avail s (slot s k) \<and> (\<forall>i < k. \<not> avail s (slot s i)) \<and>
      pool_alloc s = Some (Some (slot s k), s\<lparr>pool_bit := slot s k + 1\<rparr>)
    else \<exists>b. pool_alloc s = Some (None, s\<lparr>pool_bit := b\<rparr>)"
proof -
  let ?n = "unat (pool_bits s)"
  have scan: "(\<exists>k < ?n. avail s (slot s k) \<and> (\<forall>i < k. \<not> avail s (slot s i)) \<and>
      pool_alloc s = Some (Some (slot s k), s\<lparr>pool_bit := slot s k + 1\<rparr>)) \<or>
    (\<forall>k < ?n. \<not> avail s (slot s k)) \<and> (\<exists>b. pool_alloc s = Some (None, s\<lparr>pool_bit := b\<rparr>))"
    unfolding pool_alloc_def by (rule pool_scan_spec [OF assms]) simp
  show ?thesis
  proof (cases "\<exists>j < pool_bits s. avail s j")
    case True
    then obtain k where "k < ?n" "avail s (slot s k)" by (metis slot_onto)
    then show ?thesis using scan True by auto
  next
    case False
    then show ?thesis using scan slot_less by auto
  qed
qed

text \<open>C21: \<open>pool_alloc\<close> always comes to its end. When some frame is marked in the pool it returns the first
  marked one behind its cursor, wrapping around at the end, and the cursor moves behind it; when
  none is marked it fails. Nothing else changes.\<close>

theorem pool_alloc_spec:
  assumes "pool_mapped s"
  shows "if \<exists>j < pool_bits s. avail s j
    then \<exists>k < unat (pool_bits s). avail s (slot s k) \<and> (\<forall>i < k. \<not> avail s (slot s i)) \<and>
      pool_alloc s = Some (Some (slot s k), s\<lparr>pool_bit := slot s k + 1\<rparr>)
    else \<exists>b. pool_alloc s = Some (None, s\<lparr>pool_bit := b\<rparr>)"
  by (rule pool_alloc_cases [OF assms])

text \<open>C39: a frame that has been handed out stays marked in the pool. When it is the only one, the next
  allocation hands it out again.\<close>

theorem pool_alloc_again:
  assumes "pool_mapped s" "j < pool_bits s" "avail s j" "\<And>i. i < pool_bits s \<Longrightarrow> avail s i \<Longrightarrow> i = j"
  shows "\<exists>s1 s2. pool_alloc s = Some (Some j, s1) \<and> pool_alloc s1 = Some (Some j, s2)"
proof -
  have step: "pool_alloc (s\<lparr>pool_bit := b\<rparr>) = Some (Some j, s\<lparr>pool_bit := j + 1\<rparr>)" for b
  proof -
    let ?s = "s\<lparr>pool_bit := b\<rparr>"
    obtain k where k: "k < unat (pool_bits s)" "avail s (slot ?s k)" "pool_alloc ?s = Some (Some (slot ?s k), s\<lparr>pool_bit := slot ?s k + 1\<rparr>)"
      using pool_alloc_cases [of ?s] assms(1-3) by (auto split: if_splits)
    have "slot ?s k < pool_bits s" using slot_less [of k ?s] k(1) by simp
    then show ?thesis using k(2,3) assms(4) by metis
  qed
  show ?thesis using step [of "pool_bit s"] step [of "j + 1"] by auto
qed


section \<open>Merging program headers\<close>

definition in_file :: "Elf64_Phdr \<Rightarrow> u64 \<Rightarrow> u64" where
  \<comment> \<open>the place in the file of the byte that a segment has at an address\<close>
  "in_file ph va = p_offset ph + (va - p_vaddr ph)"

lemma merge_phdrs_fields:
  "p_vaddr (snd (merge_phdrs i n phdr ph)) = p_vaddr ph \<and> p_offset (snd (merge_phdrs i n phdr ph)) = p_offset ph"
  by (induction i n phdr ph rule: merge_phdrs.induct) (subst (1 2) merge_phdrs.simps, simp add: Let_def)

lemma merge_phdrs_keeps:
  assumes "merge_phdrs i n phdr ph = (i', ph')"
  shows "p_vaddr ph' = p_vaddr ph" "p_offset ph' = p_offset ph"
  using merge_phdrs_fields [of i n phdr ph] assms by simp_all

text \<open>When no header but the last of those merged has memory beyond its bytes in the file, every header that is
  merged into a segment keeps the place in the file of each of its bytes.\<close>

theorem merge_phdrs_in_file:
  assumes "merge_phdrs i n phdr ph = (i', ph')" "p_memsz ph = p_filesz ph"
    "\<forall>j. i < j \<and> j < i' \<longrightarrow> p_memsz (phdr j) = p_filesz (phdr j)" "i < j" "j \<le> i'"
  shows "in_file ph' va = in_file (phdr j) va"
  using assms
proof (induction i n phdr ph arbitrary: i' ph' j rule: merge_phdrs.induct)
  case (1 i n phdr ph)
  let ?next = "phdr (i + 1)"
  define mrg where "mrg = ph\<lparr>p_memsz := p_vaddr ?next + p_memsz ?next - p_vaddr ph,
    p_filesz := p_offset ?next + p_filesz ?next - p_offset ph\<rparr>"
  define ok where "ok \<longleftrightarrow> i + 1 < n \<and> p_type ?next = PT_LOAD \<and> p_flags ?next = p_flags ph \<and>
    p_vaddr ?next = p_vaddr ph + p_memsz ph \<and> p_offset ?next = p_offset ph + p_filesz ph"
  have run: "merge_phdrs i n phdr ph = (if ok then merge_phdrs (i + 1) n phdr mrg else (i, ph))"
    unfolding ok_def mrg_def by (subst merge_phdrs.simps) (simp only: Let_def)
  have ok: ok using run "1.prems" by (auto split: if_splits)
  then have rest: "merge_phdrs (i + 1) n phdr mrg = (i', ph')" using run "1.prems"(1) by simp
  have same: "p_vaddr ph' = p_vaddr ph" "p_offset ph' = p_offset ph" using merge_phdrs_keeps [OF rest] by (simp_all add: mrg_def)
  show ?case
  proof (cases "j = i + 1")
    case True
    then show ?thesis using ok same "1.prems"(2) by (simp add: in_file_def ok_def)
  next
    case False
    then have j: "i + 1 < j" using "1.prems"(4) by simp
    then have "p_memsz ?next = p_filesz ?next" using "1.prems"(3,5) by simp
    then have "p_memsz mrg = p_filesz mrg" using ok "1.prems"(2) by (simp add: mrg_def ok_def)
    then show ?thesis using "1.IH" [OF refl ok [unfolded ok_def], folded mrg_def, OF rest] j "1.prems"(3,5) by simp
  qed
qed

text \<open>Otherwise the bytes of the later header are read from the wrong place: they are displaced by the part of the
  earlier one that the file does not have.\<close>

theorem merge_phdrs_displaced:
  assumes "i + 2 = n" "p_type (phdr (i + 1)) = PT_LOAD" "p_flags (phdr (i + 1)) = p_flags ph"
    "p_vaddr (phdr (i + 1)) = p_vaddr ph + p_memsz ph" "p_offset (phdr (i + 1)) = p_offset ph + p_filesz ph"
  shows "\<exists>ph'. merge_phdrs i n phdr ph = (i + 1, ph') \<and>
    in_file ph' va = in_file (phdr (i + 1)) va + (p_memsz ph - p_filesz ph)"
proof -
  let ?next = "phdr (i + 1)"
  let ?m = "ph\<lparr>p_memsz := p_vaddr ?next + p_memsz ?next - p_vaddr ph, p_filesz := p_offset ?next + p_filesz ?next - p_offset ph\<rparr>"
  have "merge_phdrs (i + 1) n phdr ?m = (i + 1, ?m)" using assms(1) by (subst merge_phdrs.simps) (simp add: Let_def)
  then have "merge_phdrs i n phdr ph = (i + 1, ?m)" using assms by (subst merge_phdrs.simps) (simp add: Let_def)
  then show ?thesis using assms(4,5) by (simp add: in_file_def)
qed

section \<open>A concrete server\<close>

text \<open>A pool of eight frames, of which frame 2 is marked, in a 2 MiB page at \<open>0x400000\<close>.\<close>

definition pool_small :: root_server where
  "pool_small = \<lparr>kern = sys_small\<lparr>mem := (\<lambda>_. 0)
       (0xFFFF800000200000 := 0x07, 0xFFFF800000200001 := 0x10, 0xFFFF800000200002 := 0x20,
        0xFFFF800000201000 := 0x07, 0xFFFF800000201001 := 0x20, 0xFFFF800000201002 := 0x20,
        0xFFFF800000202010 := 0x81, 0xFFFF800000202012 := 0x60, 0xFFFF800000600000 := 4)\<rparr>,
     pg_self_tid = 1, pg_pool = 0x400000, pool_bits = 8, pool_bit = 0, child_vmas = one_region, pg_heap = CHILD_HEAP_VA\<rparr>"

lemma pool_small_byte: "user_byte 0x400000 (kern pool_small) = 0xFFFF800000600000"
proof -
  let ?m = "mem (kern pool_small)"
  have e: "entry 0xFFFF800000200000 0 ?m = 0x201007" "entry 0xFFFF800000201000 0 ?m = 0x202007" "entry 0xFFFF800000202000 2 ?m = 0x600081"
    by (simp_all add: entry_def load_bytes(3) pool_small_def)
  have "pm_root_virt (pmaps (kern pool_small) p) = 0xFFFF800000200000" for p
    by (simp add: pool_small_def sys_small_fields phys_to_virt_def)
  moreover have "t_pmap (threads (kern pool_small) (current (kern pool_small))) = 0x3000"
    using sys_small_fields by (simp add: pool_small_def)
  moreover have "extract_from 0xFFFF800000200000 0x400000 ?m = 0x600000"
    using e by (simp add: extract_from_def Let_def table_of_def is_present_def is_huge_def phys_to_virt_def PML4_INDEX_def PDPT_INDEX_def PD_INDEX_def)
  ultimately show ?thesis by (simp add: user_byte_def pmap_extract_def phys_to_virt_def)
qed


lemma pool_small_bits: "(\<forall>j < pool_bits pool_small. user_byte (pg_pool pool_small + j div 8) (kern pool_small) = 0xFFFF800000600000)"
proof (intro allI impI)
  fix j assume "j < pool_bits pool_small"
  then have "j div 8 = 0" by (simp add: pool_small_def word_less_nat_alt word_arith_nat_div)
  then show "user_byte (pg_pool pool_small + j div 8) (kern pool_small) = 0xFFFF800000600000"
    using pool_small_byte by (simp add: pool_small_def)
qed

lemma pool_small_avail: "j < pool_bits pool_small \<Longrightarrow> avail pool_small j \<longleftrightarrow> j = 2"
proof -
  assume j: "j < pool_bits pool_small"
  then have "unat j < 8" by (simp add: pool_small_def word_less_nat_alt)
  have "mem (kern pool_small) 0xFFFF800000600000 = 4" by (simp add: pool_small_def)
  then have "avail pool_small j \<longleftrightarrow> bit (4 :: u8) (unat (j mod 8))"
    using pool_small_bits j by (simp add: avail_def user_view_def)
  also have "\<dots> \<longleftrightarrow> bit (4 :: u8) (unat j)" using \<open>unat j < 8\<close> by (simp add: unat_mod)
  also have "\<dots> \<longleftrightarrow> unat j = 2" using \<open>unat j < 8\<close> by (auto simp: bit_numeral_rec numeral_eq_Suc less_Suc_eq)
  finally show ?thesis by (simp add: word_unat_eq_iff)
qed

lemma pool_small_mapped: "pool_mapped pool_small"
  using pool_small_bits by (simp add: pool_mapped_def)

theorem pool_alloc_spec_witness: "\<exists>s. pool_alloc pool_small = Some (Some 2, s) \<and> pool_bit s = 3"
proof -
  have two: "2 < pool_bits pool_small" by (simp add: pool_small_def)
  then have "\<exists>j < pool_bits pool_small. avail pool_small j" using pool_small_avail by blast
  then obtain k where k: "k < unat (pool_bits pool_small)" "avail pool_small (slot pool_small k)"
      "pool_alloc pool_small = Some (Some (slot pool_small k), pool_small\<lparr>pool_bit := slot pool_small k + 1\<rparr>)"
    using pool_alloc_spec [OF pool_small_mapped] by auto
  then have "slot pool_small k = 2" using slot_less pool_small_avail by blast
  then show ?thesis using k(3) by simp
qed

theorem pool_alloc_again_witness:
  "\<exists>s1 s2. pool_alloc pool_small = Some (Some 2, s1) \<and> pool_alloc s1 = Some (Some 2, s2)"
proof (rule pool_alloc_again [OF pool_small_mapped])
  show two: "2 < pool_bits pool_small" by (simp add: pool_small_def)
  show "avail pool_small 2" using pool_small_avail [OF two] by simp
  show "i = 2" if "i < pool_bits pool_small" "avail pool_small i" for i using pool_small_avail that by blast
qed

definition two_headers :: "u64 \<Rightarrow> nat \<Rightarrow> Elf64_Phdr" where
  \<comment> \<open>two writable segments that follow each other; the first has \<open>b\<close> bytes in the file\<close>
  "two_headers b i = \<lparr>p_type = PT_LOAD, p_flags = 6, p_offset = (if i = 0 then 0x1000 else 0x1000 + b),
     p_vaddr = (if i = 0 then 0x401000 else 0x402000), p_paddr = 0, p_filesz = (if i = 0 then b else 0x10),
     p_memsz = (if i = 0 then 0x1000 else 0x10), p_align = 0x1000\<rparr>"

theorem merge_phdrs_in_file_witness:
  "\<exists>ph. merge_phdrs 0 2 (two_headers 0x1000) (two_headers 0x1000 0) = (1, ph) \<and> in_file ph 0x402008 = 0x2008"
proof -
  let ?h = "two_headers 0x1000"
  obtain ph where ph: "merge_phdrs 0 2 ?h (?h 0) = (1, ph)"
    using merge_phdrs_displaced [of 0 2 ?h "?h 0"] by (auto simp: two_headers_def)
  have "in_file ph 0x402008 = in_file (?h 1) 0x402008"
    by (rule merge_phdrs_in_file [OF ph]) (auto simp: two_headers_def)
  then show ?thesis using ph by (simp add: in_file_def two_headers_def)
qed

theorem merge_phdrs_displaced_witness:
  "\<exists>ph. merge_phdrs 0 2 (two_headers 0x800) (two_headers 0x800 0) = (1, ph) \<and>
     in_file ph 0x402000 = in_file (two_headers 0x800 1) 0x402000 + 0x800"
  using merge_phdrs_displaced [of 0 2 "two_headers 0x800" "two_headers 0x800 0" "0x402000"] by (simp add: two_headers_def)

end
