(* ===== verification/Futex_Spec.thy ===== *)
theory Futex_Spec
  imports Syscall_Spec
begin

text \<open>
  What \<^verbatim>\<open>kernel/task/futex.c\<close> promises: the hash table of wait queues is a map from physical
  addresses to sequences of sleeping threads (\<open>waiters\<close>), \<open>futex_wait\<close> puts the running thread at the end of one
  of them and \<open>futex_wake\<close> makes the first, or all, of them ready in their order.
\<close>

section \<open>The hash table as wait queues\<close>

fun futex_lists :: "(nat \<Rightarrow> u64 list) \<Rightarrow> (u64 \<Rightarrow> u64 list) \<Rightarrow> futex_node \<Rightarrow> futex_node list" where
  "futex_lists B W (BucketHead b) = map HashNode (B b)"
| "futex_lists B W (WaitersHead wq) = map FutexNode (W wq)"
| "futex_lists B W _ = []"

definition wqs :: "(nat \<Rightarrow> u64 list) \<Rightarrow> u64 set" where
  "wqs B = (\<Union>b < FUTEX_BUCKETS. set (B b))"

definition futex_heads :: "(nat \<Rightarrow> u64 list) \<Rightarrow> futex_node set" where
  "futex_heads B = BucketHead ` {..<FUTEX_BUCKETS} \<union> WaitersHead ` wqs B"

definition futex_inv :: "kernel \<Rightarrow> (nat \<Rightarrow> u64 list) \<Rightarrow> (u64 \<Rightarrow> u64 list) \<Rightarrow> bool" where
  "futex_inv s B W \<longleftrightarrow> dlists (futexq s) (futex_heads B) (futex_lists B W) \<and>
     (\<forall>b < FUTEX_BUCKETS. distinct (map (wq_phys s) (B b)) \<and> (\<forall>wq \<in> set (B b). futex_hash (wq_phys s wq) = b)) \<and>
     (\<forall>wq \<in> wqs B. wq \<noteq> 0 \<and> W wq \<noteq> [] \<and> (\<forall>t \<in> set (W wq). asleep s t))"

definition waiters :: "kernel \<Rightarrow> (nat \<Rightarrow> u64 list) \<Rightarrow> (u64 \<Rightarrow> u64 list) \<Rightarrow> u64 \<Rightarrow> u64 list" where
  "waiters s B W phys =
     (case find (\<lambda>wq. wq_phys s wq = phys) (B (futex_hash phys)) of None \<Rightarrow> [] | Some wq \<Rightarrow> W wq)"

lemma futex_hash_less: "futex_hash phys < FUTEX_BUCKETS"
proof -
  have "drop_bit 2 phys AND 63 \<le> 63" by (rule word_and_le1)
  then show ?thesis by (simp add: futex_hash_def word_le_nat_alt)
qed

lemma futex_find_seg:
  "seg (futexq s) a (map HashNode ws) (BucketHead b) \<Longrightarrow>
   futex_find_from (nxt (futexq s) a) b phys s = Some (find (\<lambda>wq. wq_phys s wq = phys) ws)"
  by (induction ws arbitrary: a) (subst futex_find_from.simps, simp)+

lemma futex_find_spec:
  assumes "dlists (futexq s) (futex_heads B) (futex_lists B W)"
  shows "futex_find phys s = Some (find (\<lambda>wq. wq_phys s wq = phys) (B (futex_hash phys)))"
proof -
  have "BucketHead (futex_hash phys) \<in> futex_heads B" using futex_hash_less [of phys] by (simp add: futex_heads_def)
  then have "dlist (futexq s) (BucketHead (futex_hash phys)) (map HashNode (B (futex_hash phys)))"
    using assms by (metis dlists_def futex_lists.simps(1))
  then show ?thesis unfolding futex_find_def by (intro futex_find_seg) (simp add: dlist_def)
qed

lemma futex_lists_upd:
  "(futex_lists B W)(WaitersHead wq := map FutexNode ts) = futex_lists B (W(wq := ts))"
  "(futex_lists B W)(BucketHead b := map HashNode ws) = futex_lists (B(b := ws)) W"
proof -
  have "((futex_lists B W)(WaitersHead wq := map FutexNode ts)) h = futex_lists B (W(wq := ts)) h"
    "((futex_lists B W)(BucketHead b := map HashNode ws)) h = futex_lists (B(b := ws)) W h" for h
    by (cases h; simp)+
  then show "(futex_lists B W)(WaitersHead wq := map FutexNode ts) = futex_lists B (W(wq := ts))"
    "(futex_lists B W)(BucketHead b := map HashNode ws) = futex_lists (B(b := ws)) W" by blast+
qed

lemma dlists_subset: "dlists st H L \<Longrightarrow> H' \<subseteq> H \<Longrightarrow> (\<And>h. h \<in> H' \<Longrightarrow> L' h = L h) \<Longrightarrow> dlists st H' L'"
  unfolding dlists_def by (metis (no_types, lifting) Int_commute disjoint_iff subset_iff)

section \<open>Waking\<close>

lemma sched_wakeup_futexq [simp]:
  "sched_wakeup t (s\<lparr>futexq := q\<rparr>) = (sched_wakeup t s)\<lparr>futexq := q\<rparr>" "futexq (sched_wakeup t s) = futexq s"
  "wq_phys (sched_wakeup t s) = wq_phys s" "kmem_t.truncate (sched_wakeup t s) = kmem_t.truncate s"
  by (simp_all add: sched_wakeup_def sched_enqueue_def upd_thread_def enqueue_at_def kmem_t.defs)

lemma wake_many_futexq [simp]:
  "fold sched_wakeup ts (s\<lparr>futexq := q\<rparr>) = (fold sched_wakeup ts s)\<lparr>futexq := q\<rparr>" "futexq (fold sched_wakeup ts s) = futexq s"
  "wq_phys (fold sched_wakeup ts s) = wq_phys s" "kmem_t.truncate (fold sched_wakeup ts s) = kmem_t.truncate s"
  "current (fold sched_wakeup ts s) = current s"
  by (induction ts arbitrary: s) simp_all

lemma wake_loop:
  assumes "dlists (futexq s) H L" "WaitersHead wq \<in> H" "L (WaitersHead wq) = map FutexNode ts"
    and n: "n = (if all then length ts else min 1 (length ts))"
  shows "\<exists>st. futex_wake_loop wq all k s = Some (k + int n, (fold sched_wakeup (take n ts) s)\<lparr>futexq := st\<rparr>) \<and>
    dlists st H (L(WaitersHead wq := map FutexNode (drop n ts)))"
  using assms
proof (induction ts arbitrary: s L k n)
  case Nil
  then have "list_empty (WaitersHead wq) (futexq s)" by (simp add: lists.rep_is_empty)
  then show ?case using Nil by (subst futex_wake_loop.simps) (auto simp: fun_upd_idem intro!: exI [of _ "futexq s"])
next
  case (Cons t ts)
  have c: "L (WaitersHead wq) = FutexNode t # map FutexNode ts" using Cons.prems(3) by simp
  note p = lists.pop [OF Cons.prems(1,2) c]
  let ?st = "list_del (FutexNode t) (futexq s)"
  let ?s = "(sched_wakeup t s)\<lparr>futexq := ?st\<rparr>"
  have run: "futex_wake_loop wq all k s = (if \<not> all then Some (k + 1, ?s) else futex_wake_loop wq all (k + 1) ?s)"
    using p(1,2) by (subst futex_wake_loop.simps) (simp add: Let_def)
  show ?case
  proof (cases all)
    case False
    then show ?thesis using run p(3) Cons.prems(4) by (intro exI [of _ ?st]) (simp del: fun_upd_apply)
  next
    case True
    have "dlists (futexq ?s) H (L(WaitersHead wq := map FutexNode ts))" using p(3) by simp
    from Cons.IH [OF this Cons.prems(2), of "length ts" "k + 1"] True run Cons.prems(4) show ?thesis
      by (simp add: fun_upd_same add.assoc del: fun_upd_apply)
  qed
qed

lemma bucket_head: "b < FUTEX_BUCKETS \<Longrightarrow> BucketHead b \<in> futex_heads B" "wq \<in> wqs B \<Longrightarrow> WaitersHead wq \<in> futex_heads B"
  by (auto simp: futex_heads_def)

lemma waiters_distinct:
  assumes "futex_inv s B W" "wq \<in> wqs B"
  shows "distinct (W wq)" "wq' \<in> wqs B \<Longrightarrow> wq' \<noteq> wq \<Longrightarrow> set (W wq') \<inter> set (W wq) = {}"
proof -
  have L: "dlists (futexq s) (futex_heads B) (futex_lists B W)" using assms by (simp add: futex_inv_def)
  show "distinct (W wq)" using lists.rep_distinct [OF L bucket_head(2) [OF assms(2)]] by (simp add: distinct_map)
  show "set (W wq') \<inter> set (W wq) = {}" if "wq' \<in> wqs B" "wq' \<noteq> wq"
    using lists.rep_disjoint [OF L bucket_head(2) [OF that(1)] bucket_head(2) [OF assms(2)]] that(2) by fastforce
qed

lemma found_wq:
  assumes "futex_inv s B W" "find (\<lambda>wq. wq_phys s wq = phys) (B (futex_hash phys)) = Some wq"
  shows "wq_phys s wq = phys" "wq \<in> set (B (futex_hash phys))" "wq \<in> wqs B" "wq \<noteq> 0" "waiters s B W phys = W wq" "W wq \<noteq> []"
    "\<forall>t \<in> set (W wq). asleep s t"
proof -
  show w: "wq_phys s wq = phys" "wq \<in> set (B (futex_hash phys))" using find_Some_unique [OF assms(2)] by auto
  then show i: "wq \<in> wqs B" using futex_hash_less [of phys] by (auto simp: wqs_def)
  then show "wq \<noteq> 0" "W wq \<noteq> []" "\<forall>t \<in> set (W wq). asleep s t" using assms(1) by (auto simp: futex_inv_def)
  show "waiters s B W phys = W wq" using assms(2) by (simp add: waiters_def)
qed

lemma waiters_upd:
  assumes "futex_inv s B W" "find (\<lambda>wq. wq_phys s wq = phys) (B (futex_hash phys)) = Some wq" "wq_phys s' = wq_phys s"
  shows "waiters s' B (W(wq := ts)) = (waiters s B W)(phys := ts)"
proof
  fix p show "waiters s' B (W(wq := ts)) p = ((waiters s B W)(phys := ts)) p"
  proof (cases "p = phys")
    case False
    have "x \<noteq> wq" if "find (\<lambda>wq. wq_phys s wq = p) (B (futex_hash p)) = Some x" for x
      using False found_wq(1) [OF assms(1,2)] found_wq(1) [OF assms(1) that] by auto
    then show ?thesis using False assms(3) by (auto simp: waiters_def split: option.splits)
  qed (use assms(2,3) in \<open>simp add: waiters_def\<close>)
qed

lemma find_remove1_other: "\<not> P x \<Longrightarrow> find P (remove1 x xs) = find P xs"
  by (induction xs) auto

lemma find_remove1_key: "distinct (map f xs) \<Longrightarrow> y \<in> set xs \<Longrightarrow> find (\<lambda>x. f x = f y) (remove1 y xs) = None"
  by (induction xs) (auto simp: find_None_iff image_iff)

lemma waiters_remove:
  assumes "futex_inv s B W" "find (\<lambda>wq. wq_phys s wq = phys) (B (futex_hash phys)) = Some wq" "wq_phys s' = wq_phys s"
    "\<And>x. x \<noteq> wq \<Longrightarrow> W' x = W x"
  shows "waiters s' (B(futex_hash phys := remove1 wq (B (futex_hash phys)))) W' = (waiters s B W)(phys := [])"
proof
  let ?b = "futex_hash phys"
  have d: "distinct (map (wq_phys s) (B ?b))" using assms(1) futex_hash_less by (simp add: futex_inv_def)
  note w = found_wq [OF assms(1,2)]
  fix p show "waiters s' (B(?b := remove1 wq (B ?b))) W' p = ((waiters s B W)(phys := [])) p"
  proof (cases "p = phys")
    case True
    then show ?thesis using find_remove1_key [OF d w(2)] w(1) assms(3) by (simp add: waiters_def)
  next
    case False
    then have "find (\<lambda>wq. wq_phys s wq = p) (remove1 wq (B ?b)) = find (\<lambda>wq. wq_phys s wq = p) (B ?b)"
      using w(1) by (intro find_remove1_other) auto
    moreover have "W' x = W x" if "find (\<lambda>wq. wq_phys s wq = p) (B (futex_hash p)) = Some x" for x
      using False w(1) found_wq(1) [OF assms(1) that] by (intro assms(4)) auto
    ultimately show ?thesis using False assms(3) by (auto simp: waiters_def split: option.splits)
  qed
qed

lemma futex_inv_shorter:
  assumes inv: "futex_inv s B W" and wq: "wq \<in> wqs B" and ts: "W wq = us @ ts" "ts \<noteq> []"
    and st: "dlists (futexq s') (futex_heads B) (futex_lists B (W(wq := ts)))" "wq_phys s' = wq_phys s"
    and sl: "\<And>u. asleep s' u \<longleftrightarrow> asleep s u \<and> u \<notin> set us"
  shows "futex_inv s' B (W(wq := ts))"
proof -
  have "asleep s' u" if "x \<in> wqs B" "u \<in> set ((W(wq := ts)) x)" for x u
  proof (cases "x = wq")
    case True
    have "distinct (us @ ts)" using waiters_distinct(1) [OF inv wq] ts by simp
    then show ?thesis using that True inv wq ts sl by (auto simp: futex_inv_def)
  next
    case False
    then have "u \<notin> set us" using waiters_distinct(2) [OF inv wq that(1) False] that(2) ts by auto
    then show ?thesis using that False inv sl by (auto simp: futex_inv_def)
  qed
  then show ?thesis using inv ts st by (auto simp: futex_inv_def)
qed

lemma futex_inv_removed:
  assumes inv: "futex_inv s B W" and wq: "wq \<in> set (B b)" "b < FUTEX_BUCKETS"
    and st: "dlists (futexq s') (futex_heads B) (futex_lists (B(b := remove1 wq (B b))) W')" "wq_phys s' = wq_phys s"
    and sl: "\<And>u. asleep s' u \<longleftrightarrow> asleep s u \<and> u \<notin> set (W wq)" and W': "\<And>x. x \<noteq> wq \<Longrightarrow> W' x = W x"
  shows "futex_inv s' (B(b := remove1 wq (B b))) W'"
proof -
  let ?B = "B(b := remove1 wq (B b))"
  have i: "wq \<in> wqs B" using wq by (auto simp: wqs_def)
  have "set (?B c) \<subseteq> set (B c)" for c using set_remove1_subset [of wq "B b"] by simp
  then have sub: "wqs ?B \<subseteq> wqs B" unfolding wqs_def by blast
  have out: "wq \<notin> wqs ?B"
  proof
    assume "wq \<in> wqs ?B"
    then obtain c where c: "c < 64" "wq \<in> set (?B c)" by (auto simp: wqs_def)
    have "distinct (B b)" using inv wq by (auto simp: futex_inv_def distinct_map)
    then have "c \<noteq> b" using c(2) by auto
    moreover have "futex_hash (wq_phys s wq) = b" "futex_hash (wq_phys s wq) = c"
      using inv wq c \<open>c \<noteq> b\<close> unfolding futex_inv_def by (metis fun_upd_other)+
    ultimately show False by simp
  qed
  have "distinct (map (wq_phys s) (?B c)) \<and> (\<forall>x \<in> set (?B c). futex_hash (wq_phys s x) = c)" if "c < FUTEX_BUCKETS" for c
  proof (cases "c = b")
    case True
    have "distinct (map (wq_phys s) (B b))" using inv wq(2) by (simp add: futex_inv_def)
    then have "distinct (map (wq_phys s) (remove1 wq (B b)))" by (auto simp: distinct_map intro: inj_on_subset set_remove1_subset)
    then show ?thesis using True inv wq(2) by (auto simp: futex_inv_def dest: set_remove1_subset [THEN subsetD])
  qed (use inv that in \<open>simp add: futex_inv_def\<close>)
  moreover have "asleep s' u" if x: "x \<in> wqs ?B" "u \<in> set (W' x)" for x u
  proof -
    have "x \<in> wqs B" "x \<noteq> wq" using x sub out by auto
    then have "u \<notin> set (W wq)" "asleep s u"
      using waiters_distinct(2) [OF inv i, of x] x(2) W' inv by (auto simp: futex_inv_def)
    then show ?thesis using sl by blast
  qed
  moreover have "dlists (futexq s') (futex_heads ?B) (futex_lists ?B W')"
    by (rule dlists_subset [OF st(1)]) (use sub in \<open>auto simp: futex_heads_def\<close>)
  moreover have "x \<noteq> 0 \<and> W' x \<noteq> []" if "x \<in> wqs ?B" for x
  proof -
    have "x \<in> wqs B" "W' x = W x" using that sub out W' [of x] by auto
    then show ?thesis using inv by (simp add: futex_inv_def)
  qed
  ultimately show ?thesis using st(2) unfolding futex_inv_def by simp
qed


text \<open>How many threads a wake-up takes from the queue.\<close>

definition woken_of :: "bool \<Rightarrow> u64 list \<Rightarrow> nat" where
  "woken_of all ts = (if all then length ts else min 1 (length ts))"

lemma futex_wake_found:
  assumes ok: "sched_ok s Q" and inv: "futex_inv s B W"
    and wq: "find (\<lambda>wq. wq_phys s wq = phys) (B (futex_hash phys)) = Some wq"
    and st: "dlists st (futex_heads B) (futex_lists B (W(wq := drop n (W wq))))" and n: "n = woken_of all (W wq)"
    and s1: "s1 = (fold sched_wakeup (take n (W wq)) s)\<lparr>futexq := st\<rparr>"
    and free: "drop n (W wq) = [] \<Longrightarrow> kfree wq (s1\<lparr>futexq := list_del (HashNode wq) st\<rparr>) \<noteq> None"
  shows "\<exists>s' B'. (if list_empty (WaitersHead wq) (futexq s1)
      then kfree wq (s1\<lparr>futexq := list_del (HashNode wq) (futexq s1)\<rparr>) else Some s1) = Some s' \<and>
    sched_ok s' (Q(0 := Q 0 @ take n (W wq))) \<and> futex_inv s' B' (W(wq := drop n (W wq))) \<and>
    waiters s' B' (W(wq := drop n (W wq))) = (waiters s B W)(phys := drop n (W wq))"
proof -
  let ?b = "futex_hash phys" and ?ts = "W wq" and ?W = "W(wq := drop n (W wq))"
  note w = found_wq [OF inv wq]
  have tk: "distinct (take n ?ts)" "\<forall>t \<in> set (take n ?ts). asleep s t"
    using waiters_distinct(1) [OF inv w(3)] w(7) by (auto dest: in_set_takeD)
  have "sched_ok (fold sched_wakeup (take n ?ts) s) (Q(0 := Q 0 @ take n ?ts))"
    by (rule mlfq.wake_many [OF ok tk])
  then have sok: "sched_ok s' (Q(0 := Q 0 @ take n ?ts))" if "threads s' = threads s1" "current s' = current s1" "runq s' = runq s1" for s'
    using that sched_ok_cong [of s' "fold sched_wakeup (take n ?ts) s"] by (simp add: s1)
  have sl: "asleep s' u \<longleftrightarrow> asleep s u \<and> u \<notin> set (take n ?ts)" if "threads s' = threads s1" for s' u
    using mlfq.wake_many_asleep [OF tk] that by (simp add: asleep_def s1)
  have emp: "list_empty (WaitersHead wq) (futexq s1) \<longleftrightarrow> drop n ?ts = []"
    using lists.rep_is_empty [OF st bucket_head(2) [OF w(3)]] by (simp add: s1)
  have ph: "wq_phys s1 = wq_phys s" by (simp add: s1)
  show ?thesis
  proof (cases "drop n ?ts = []")
    case False
    have "futex_inv s1 B ?W"
      by (rule futex_inv_shorter [OF inv w(3) _ False, where us = "take n ?ts"]) (use st sl ph in \<open>simp_all add: s1\<close>)
    then show ?thesis using False emp sok waiters_upd [OF inv wq ph] by (intro exI [of _ s1] exI [of _ B]) simp
  next
    case True
    then have all: "take n ?ts = ?ts" by simp
    define B' where "B' = B(?b := remove1 wq (B ?b))"
    let ?st = "list_del (HashNode wq) st"
    obtain s' where s': "kfree wq (s1\<lparr>futexq := ?st\<rparr>) = Some s'" using free True by blast
    note m = kernel_more [OF kernel_krest(1) [OF kfree_krest [OF s']]]
    have "dlists ?st (futex_heads B) (futex_lists B' ?W)"
      using lists.rep_unlink [OF st bucket_head(1) [OF futex_hash_less, of phys], of "HashNode wq"] w(2)
        futex_lists_upd(2) [of B ?W ?b "remove1 wq (B ?b)"] remove1_map [of HashNode wq "B ?b"]
      by (simp add: B'_def inj_def del: fun_upd_apply)
    then have "futex_inv s' B' ?W"
      unfolding B'_def by (intro futex_inv_removed [OF inv w(2) futex_hash_less]) (use m sl all ph in simp_all)
    moreover have "waiters s' B' ?W = (waiters s B W)(phys := drop n ?ts)"
      using waiters_remove [OF inv wq, of s' ?W] m ph True by (simp add: B'_def)
    ultimately show ?thesis using emp True s' sok [of s'] m by (intro exI [of _ s'] exI [of _ B']) (simp add: s1)
  qed
qed


lemma futex_wake_ok:
  assumes "sched_ok s Q" "futex_inv s B W" "uaddr AND 3 = 0" "pmap_extract (t_pmap (threads s (current s))) uaddr s = phys" "phys \<noteq> 0"
    and "n = woken_of all (waiters s B W phys)"
    and "\<And>wq s1. n = length (waiters s B W phys) \<Longrightarrow> wq \<in> wqs B \<Longrightarrow> kmem_t.truncate (s1 :: kernel) = kmem_t.truncate s \<Longrightarrow> kfree wq s1 \<noteq> None"
  shows "\<exists>s' B' W'. futex_wake uaddr all s = Some (int n, s') \<and> sched_ok s' (Q(0 := Q 0 @ take n (waiters s B W phys))) \<and>
    futex_inv s' B' W' \<and> waiters s' B' W' = (waiters s B W)(phys := drop n (waiters s B W phys)) \<and> current s' = current s"
proof (cases "find (\<lambda>wq. wq_phys s wq = phys) (B (futex_hash phys))")
  case None
  have L: "dlists (futexq s) (futex_heads B) (futex_lists B W)" using assms(2) by (simp add: futex_inv_def)
  have "waiters s B W phys = []" using None by (simp add: waiters_def)
  moreover have "futex_wake uaddr all s = Some (0, s)" using assms None futex_find_spec [OF L, of phys] by (simp add: futex_wake_def)
  ultimately show ?thesis using assms(1,2,6)
    by (intro exI [of _ s] exI [of _ B] exI [of _ W]) (simp add: woken_of_def fun_upd_idem)
next
  case (Some wq)
  have L: "dlists (futexq s) (futex_heads B) (futex_lists B W)" using assms(2) by (simp add: futex_inv_def)
  note w = found_wq [OF assms(2) Some]
  have n: "n = woken_of all (W wq)" using assms(6) w(5) by simp
  obtain st where st: "futex_wake_loop wq all 0 s = Some (int n, (fold sched_wakeup (take n (W wq)) s)\<lparr>futexq := st\<rparr>)"
      "dlists st (futex_heads B) (futex_lists B (W(wq := drop n (W wq))))"
    using wake_loop [OF L bucket_head(2) [OF w(3)], of "W wq" n all 0] n by (auto simp: woken_of_def futex_lists_upd)
  define s1 where "s1 = (fold sched_wakeup (take n (W wq)) s)\<lparr>futexq := st\<rparr>"
  have "kmem_t.truncate (s1\<lparr>futexq := q\<rparr>) = kmem_t.truncate s" for q
    using wake_many_futexq(4) [of "take n (W wq)" s] by (simp add: s1_def kmem_t.defs)
  moreover have "n \<le> length (W wq)" using n by (simp add: woken_of_def)
  ultimately have "kfree wq (s1\<lparr>futexq := q\<rparr>) \<noteq> None" if "drop n (W wq) = []" for q
    using assms(7) [OF _ w(3)] w(5) that by auto
  from futex_wake_found [OF assms(1,2) Some st(2) n s1_def this] obtain s' B' where
    "(if list_empty (WaitersHead wq) (futexq s1) then kfree wq (s1\<lparr>futexq := list_del (HashNode wq) (futexq s1)\<rparr>) else Some s1) = Some s'"
    "sched_ok s' (Q(0 := Q 0 @ take n (W wq)))" "futex_inv s' B' (W(wq := drop n (W wq)))"
    "waiters s' B' (W(wq := drop n (W wq))) = (waiters s B W)(phys := drop n (W wq))" by blast
  moreover from this(1) have "current s' = current s"
    by (auto simp: s1_def split: if_splits dest!: kfree_krest dest: kernel_more(3) [OF kernel_krest(1)])
  moreover from calculation(1) have "futex_wake uaddr all s = Some (int n, s')"
    using assms(3-5) Some futex_find_spec [OF L, of phys] st(1) [folded s1_def] by (simp add: futex_wake_def)
  ultimately show ?thesis unfolding w(5) by blast
qed

text \<open>C24: waking at an address where no thread sleeps does nothing. Otherwise \<open>futex_wake\<close> makes the first
  sleeping thread ready, or all of them, in the order in which they went to sleep, returns their number, and
  leaves every other wait queue as it is; run queues and wait queues stay well formed. The heap must take back
  the queue that becomes empty.\<close>

theorem futex_wake_spec:
  assumes "sched_ok s Q" "futex_inv s B W" "uaddr AND 3 = 0" "pmap_extract (t_pmap (threads s (current s))) uaddr s = phys" "phys \<noteq> 0"
    and "n = woken_of all (waiters s B W phys)"
    and "\<And>wq s1. n = length (waiters s B W phys) \<Longrightarrow> wq \<in> wqs B \<Longrightarrow> kmem_t.truncate (s1 :: kernel) = kmem_t.truncate s \<Longrightarrow> kfree wq s1 \<noteq> None"
  shows "\<exists>s' B' W'. futex_wake uaddr all s = Some (int n, s') \<and> sched_ok s' (Q(0 := Q 0 @ take n (waiters s B W phys))) \<and>
    futex_inv s' B' W' \<and> waiters s' B' W' = (waiters s B W)(phys := drop n (waiters s B W phys))"
  using futex_wake_ok [OF assms] by blast



section \<open>Waiting\<close>

definition futex_shape :: "kernel \<Rightarrow> (nat \<Rightarrow> u64 list) \<Rightarrow> (u64 \<Rightarrow> u64 list) \<Rightarrow> bool" where
  \<comment> \<open>the invariant without the state of the threads\<close>
  "futex_shape s B W \<longleftrightarrow> dlists (futexq s) (futex_heads B) (futex_lists B W) \<and>
     (\<forall>b < FUTEX_BUCKETS. distinct (map (wq_phys s) (B b)) \<and> (\<forall>wq \<in> set (B b). futex_hash (wq_phys s wq) = b)) \<and>
     (\<forall>wq \<in> wqs B. wq \<noteq> 0 \<and> W wq \<noteq> [])"

lemma futex_inv_iff: "futex_inv s B W \<longleftrightarrow> futex_shape s B W \<and> (\<forall>wq \<in> wqs B. \<forall>t \<in> set (W wq). asleep s t)"
  by (auto simp: futex_inv_def futex_shape_def)

lemma members_futex: "members (futex_heads B) (futex_lists B W) =
  HashNode ` wqs B \<union> FutexNode ` (\<Union>wq \<in> wqs B. set (W wq))"
proof -
  have "(\<Union>b < FUTEX_BUCKETS. HashNode ` set (B b)) = HashNode ` wqs B" by (simp add: wqs_def image_UN)
  then show ?thesis unfolding members_def futex_heads_def UN_Un by (simp add: image_UN)
qed

lemma futex_no_head: "FutexNode t \<notin> futex_heads B" "HashNode wq \<notin> futex_heads B"
  by (auto simp: futex_heads_def)

lemma enqueue_found:
  assumes inv: "futex_inv s B W" and wq: "find (\<lambda>wq. wq_phys s wq = phys) (B (futex_hash phys)) = Some wq"
    and c: "\<not> asleep s (current s)" and s': "s' = s\<lparr>futexq := list_add_tail (FutexNode (current s)) (WaitersHead wq) (futexq s)\<rparr>"
  shows "futex_enqueue phys s = Some (True, s')" "futex_shape s' B (W(wq := W wq @ [current s]))"
    "waiters s' B (W(wq := W wq @ [current s])) = (waiters s B W)(phys := waiters s B W phys @ [current s])"
proof -
  note w = found_wq [OF inv wq]
  have L: "dlists (futexq s) (futex_heads B) (futex_lists B W)" using inv by (simp add: futex_inv_def)
  show "futex_enqueue phys s = Some (True, s')"
    using wq w(4) futex_find_spec [OF L, of phys] by (simp add: futex_enqueue_def Let_def s')
  have "FutexNode (current s) \<notin> members (futex_heads B) (futex_lists B W)" using inv c by (auto simp: members_futex futex_inv_def)
  then have "dlists (futexq s') (futex_heads B) (futex_lists B (W(wq := W wq @ [current s])))"
    using lists.rep_add_last [OF L bucket_head(2) [OF w(3)], of "FutexNode (current s)"]
      futex_lists_upd(1) [of B W wq "W wq @ [current s]"] by (simp add: s' futex_no_head del: fun_upd_apply)
  then show "futex_shape s' B (W(wq := W wq @ [current s]))" using inv by (simp add: futex_shape_def futex_inv_def s')
  show "waiters s' B (W(wq := W wq @ [current s])) = (waiters s B W)(phys := waiters s B W phys @ [current s])"
    using waiters_upd [OF inv wq, of s'] w(5) by (simp add: s')
qed

lemma new_queue_lists:
  assumes L: "dlists q (futex_heads B) (futex_lists B W)" and b: "b < FUTEX_BUCKETS" and fresh: "wq \<notin> wqs B"
    and c: "FutexNode c \<notin> members (futex_heads B) (futex_lists B W)"
  shows "dlists (list_add_tail (FutexNode c) (WaitersHead wq) (list_add_tail (HashNode wq) (BucketHead b) (list_init (WaitersHead wq) q)))
    (futex_heads (B(b := B b @ [wq]))) (futex_lists (B(b := B b @ [wq])) (W(wq := [c])))"
proof -
  let ?B = "B(b := B b @ [wq])"
  have wqs: "wqs ?B = insert wq (wqs B)" using b by (auto simp: wqs_def split: if_splits)
  then have H: "futex_heads ?B = insert (WaitersHead wq) (futex_heads B)" by (auto simp: futex_heads_def)
  have "WaitersHead wq \<notin> futex_heads B" "WaitersHead wq \<notin> members (futex_heads B) (futex_lists B W)"
    using fresh unfolding members_futex by (auto simp: futex_heads_def)
  from dlists_init [OF L this] have "dlists (list_init (WaitersHead wq) q) (futex_heads ?B) (futex_lists B (W(wq := [])))"
    using futex_lists_upd(1) [of B W wq "[]"] by (simp add: H del: fun_upd_apply)
  moreover have "HashNode wq \<notin> members (futex_heads ?B) (futex_lists B (W(wq := [])))"
    using fresh by (auto simp: members_def H futex_heads_def wqs_def split: if_splits)
  ultimately have "dlists (list_add_tail (HashNode wq) (BucketHead b) (list_init (WaitersHead wq) q)) (futex_heads ?B) (futex_lists ?B (W(wq := [])))"
    using lists.rep_add_last [of _ "futex_heads ?B" "futex_lists B (W(wq := []))" "BucketHead b" "HashNode wq"] bucket_head(1) [OF b]
      futex_lists_upd(2) [of B "W(wq := [])" b "B b @ [wq]"] by (simp add: futex_no_head del: fun_upd_apply)
  moreover have "FutexNode c \<notin> members (futex_heads ?B) (futex_lists ?B (W(wq := [])))"
    using c fresh by (auto simp: members_futex wqs image_iff split: if_splits)
  ultimately show ?thesis
    using lists.rep_add_last [of _ "futex_heads ?B" "futex_lists ?B (W(wq := []))" "WaitersHead wq" "FutexNode c"]
      futex_lists_upd(1) [of ?B "W(wq := [])" wq "[c]"] by (simp add: H futex_no_head fun_upd_same del: fun_upd_apply)
qed


lemma enqueue_new:
  assumes inv: "futex_inv s B W" and none: "find (\<lambda>wq. wq_phys s wq = phys) (B (futex_hash phys)) = None"
    and k: "kmalloc sizeof_futex_waitq s = Some (wq, s1)" "wq \<noteq> 0" "wq \<notin> wqs B"
    and c: "\<not> asleep s (current s)"
  defines "B' \<equiv> B(futex_hash phys := B (futex_hash phys) @ [wq])"
  defines "s' \<equiv> s1\<lparr>wq_phys := (wq_phys s)(wq := phys), futexq := list_add_tail (FutexNode (current s)) (WaitersHead wq)
     (list_add_tail (HashNode wq) (BucketHead (futex_hash phys)) (list_init (WaitersHead wq) (futexq s)))\<rparr>"
  shows "futex_enqueue phys s = Some (True, s')" "futex_shape s' B' (W(wq := [current s]))"
    "waiters s' B' (W(wq := [current s])) = (waiters s B W)(phys := waiters s B W phys @ [current s])"
proof -
  let ?b = "futex_hash phys"
  note m = kernel_more [OF kernel_krest(1) [OF kmalloc_krest [OF k(1)]]]
  have L: "dlists (futexq s) (futex_heads B) (futex_lists B W)" using inv by (simp add: futex_inv_def)
  show "futex_enqueue phys s = Some (True, s')"
    using none k futex_find_spec [OF L, of phys] m by (simp add: futex_enqueue_def Let_def s'_def)
  have "FutexNode (current s) \<notin> members (futex_heads B) (futex_lists B W)" using inv c by (auto simp: members_futex futex_inv_def)
  from new_queue_lists [OF L futex_hash_less k(3) this]
  have L': "dlists (futexq s') (futex_heads B') (futex_lists B' (W(wq := [current s])))" by (simp add: s'_def B'_def)
  have out: "wq \<notin> set (B b)" if "b < 64" for b using that k(3) by (auto simp: wqs_def)
  have keys: "map (wq_phys s') (B b) = map (wq_phys s) (B b)" if "b < 64" for b using out [OF that] by (auto simp: s'_def)
  have "distinct (map (wq_phys s') (B' b)) \<and> (\<forall>x \<in> set (B' b). futex_hash (wq_phys s' x) = b)" if b: "b < FUTEX_BUCKETS" for b
  proof -
    have "\<forall>x \<in> set (B b). wq_phys s' x = wq_phys s x" using out [OF b] by (auto simp: s'_def)
    moreover have "wq_phys s' wq = phys" by (simp add: s'_def)
    moreover have "phys \<notin> wq_phys s ` set (B ?b)" using none by (auto simp: find_None_iff)
    moreover have "distinct (map (wq_phys s') (B b))" "\<forall>x \<in> set (B b). futex_hash (wq_phys s x) = b"
      unfolding keys [OF b] using inv b by (simp_all add: futex_inv_def)
    ultimately show ?thesis by (cases "b = ?b") (auto simp: B'_def)
  qed
  moreover have wqs: "wqs B' = insert wq (wqs B)" using futex_hash_less [of phys] by (auto simp: wqs_def B'_def split: if_splits)
  ultimately show "futex_shape s' B' (W(wq := [current s]))" using L' inv k(2) by (auto simp: futex_shape_def futex_inv_def)
  have "waiters s' B' (W(wq := [current s])) p = ((waiters s B W)(phys := waiters s B W phys @ [current s])) p" for p
  proof -
    have f: "find (\<lambda>x. wq_phys s' x = p) (B (futex_hash p)) = find (\<lambda>x. wq_phys s x = p) (B (futex_hash p))"
      by (rule find_cong [OF refl]) (use out [OF futex_hash_less, of p] in \<open>auto simp: s'_def\<close>)
    have w: "wq_phys s' wq = phys" by (simp add: s'_def)
    show ?thesis
    proof (cases "p = phys")
      case True
      then show ?thesis using f none w by (simp add: waiters_def B'_def find_append)
    next
      case False
      then have "find (\<lambda>x. wq_phys s' x = p) (B' (futex_hash p)) = find (\<lambda>x. wq_phys s x = p) (B (futex_hash p))"
        using f w by (cases "futex_hash p = ?b") (auto simp: B'_def find_append split: option.split)
      moreover have "x \<noteq> wq" if "find (\<lambda>x. wq_phys s x = p) (B (futex_hash p)) = Some x" for x
        using found_wq(3) [OF inv that] k(3) by auto
      ultimately show ?thesis using False by (simp add: waiters_def split: option.split)
    qed
  qed
  then show "waiters s' B' (W(wq := [current s])) = (waiters s B W)(phys := waiters s B W phys @ [current s])" by blast
qed

lemma sched_block_threads:
  assumes "sched_block s = Some s'"
  shows "futexq s' = futexq s" "wq_phys s' = wq_phys s" "t \<noteq> current s \<Longrightarrow> t \<noteq> current s' \<Longrightarrow> threads s' t = threads s t"
  using assms
  by (auto simp: sched_block_def leave_cpu_def run_next_def switch_to_def upd_thread_def Let_def
      split: if_splits Option.bind_splits dest!: sched_pick_runq)

lemma futex_enqueue_ok:
  assumes ok: "sched_ok s Q" and inv: "futex_inv s B W"
    and k: "waiters s B W phys = [] \<Longrightarrow> kmalloc sizeof_futex_waitq s = Some (wq, s1) \<and> wq \<noteq> 0 \<and> wq \<notin> wqs B"
  obtains s2 B' W' where "futex_enqueue phys s = Some (True, s2)" "futex_shape s2 B' W'"
      "waiters s2 B' W' = (waiters s B W)(phys := waiters s B W phys @ [current s])"
      "threads s2 = threads s" "current s2 = current s" "runq s2 = runq s"
      "\<forall>x \<in> wqs B'. \<forall>t \<in> set (W' x). asleep s t \<or> t = current s"
proof (cases "find (\<lambda>wq. wq_phys s wq = phys) (B (futex_hash phys))")
  case None
  have na: "\<not> asleep s (current s)" using ok by (auto simp: sched_ok_def asleep_def)
  have k': "kmalloc sizeof_futex_waitq s = Some (wq, s1)" "wq \<noteq> 0" "wq \<notin> wqs B" using k None by (auto simp: waiters_def)
  note e = enqueue_new [OF inv None k' na]
  note m = kernel_more [OF kernel_krest(1) [OF kmalloc_krest [OF k'(1)]]]
  show thesis
  proof (rule that [OF e])
    show "\<forall>x \<in> wqs (B(futex_hash phys := B (futex_hash phys) @ [wq])). \<forall>t \<in> set ((W(wq := [current s])) x). asleep s t \<or> t = current s"
      using inv by (auto simp: futex_inv_def wqs_def split: if_splits)
  qed (use m in simp_all)
next
  case (Some wq)
  have na: "\<not> asleep s (current s)" using ok by (auto simp: sched_ok_def asleep_def)
  note e = enqueue_found [OF inv Some na refl]
  show thesis by (rule that [OF e]) (use inv in \<open>auto simp: futex_inv_def\<close>)
qed

lemma futex_wait_cases:
  assumes ok: "sched_ok s Q" and inv: "futex_inv s B W"
    and a: "uaddr AND 3 = 0" "pmap_extract (t_pmap (threads s (current s))) uaddr s = phys" "phys \<noteq> 0"
      "load32 (phys_to_virt phys) (mem s) = expected"
    and k: "waiters s B W phys = [] \<Longrightarrow> kmalloc sizeof_futex_waitq s = Some (wq, s1) \<and> wq \<noteq> 0 \<and> wq \<notin> wqs B"
  obtains "queued Q = {}" "futex_wait uaddr expected s = None"
    | s' B' W' l t ts where "futex_wait uaddr expected s = Some (None, s')" "l < 4" "\<forall>j < l. Q j = []" "Q l = t # ts"
      "current s' = t" "sched_ok s' (Q(l := ts))" "futex_inv s' B' W'"
      "waiters s' B' W' = (waiters s B W)(phys := waiters s B W phys @ [current s])"
proof -
  obtain s2 B' W' where s2: "futex_enqueue phys s = Some (True, s2)" "futex_shape s2 B' W'"
      "waiters s2 B' W' = (waiters s B W)(phys := waiters s B W phys @ [current s])"
      "threads s2 = threads s" "current s2 = current s" "runq s2 = runq s"
      "\<forall>x \<in> wqs B'. \<forall>t \<in> set (W' x). asleep s t \<or> t = current s"
    using futex_enqueue_ok [OF ok inv k] by blast
  have ok2: "sched_ok s2 Q" using ok sched_ok_cong s2(4-6) by blast
  have fw: "futex_wait uaddr expected s = (case sched_block s2 of None \<Rightarrow> None | Some s' \<Rightarrow> Some (None, s'))"
    using a s2(1) by (simp add: futex_wait_def Let_def split: option.split)
  show thesis
  proof (rule sched_block_cases [OF ok2])
    assume "queued Q = {}" "sched_block s2 = None"
    then show thesis using fw by (intro that(1)) simp_all
  next
    fix l t ts s'
    assume b: "l < 4" "\<And>j. j < l \<Longrightarrow> Q j = []" "Q l = t # ts" "sched_block s2 = Some s'" "current s' = t"
      "sched_ok s' (Q(l := ts))" "state (threads s' (current s2)) = THREAD_BLOCKED" "t \<in> queued Q"
    note fr = sched_block_threads [OF b(4)]
    have "asleep s' u" if "asleep s u \<or> u = current s" for u
    proof (cases "u = current s")
      case False
      then have "asleep s u" using that by simp
      then have "u \<noteq> t" using asleep_off [OF ok] b(8) by auto
      then show ?thesis using \<open>asleep s u\<close> fr(3) [of u] False b(5) s2(4,5) by (simp add: asleep_def)
    qed (use b(7) s2(5) ok in \<open>simp add: asleep_def sched_ok_def\<close>)
    then have "futex_inv s' B' W'" using s2(2,7) fr by (auto simp: futex_inv_iff futex_shape_def)
    moreover have "waiters s' B' W' = waiters s2 B' W'" using fr by (simp add: waiters_def fun_eq_iff)
    ultimately show thesis using b s2(3) fw by (intro that(2) [of s' l t ts B' W']) auto
  qed
qed

text \<open>C25: when the word still has the expected value, \<open>futex_wait\<close> puts the running thread at the end of the queue
  of the word's physical address, with a new queue from the heap when nobody waited there, and hands the processor
  to the first thread of the highest nonempty level. Every other queue is as before.\<close>

theorem futex_wait_spec:
  assumes "sched_ok s Q" "futex_inv s B W" "queued Q \<noteq> {}"
    and a: "uaddr AND 3 = 0" "pmap_extract (t_pmap (threads s (current s))) uaddr s = phys" "phys \<noteq> 0"
      "load32 (phys_to_virt phys) (mem s) = expected"
    and k: "waiters s B W phys = [] \<Longrightarrow> kmalloc sizeof_futex_waitq s = Some (wq, s1) \<and> wq \<noteq> 0 \<and> wq \<notin> wqs B"
  shows "\<exists>s' B' W' l t ts. futex_wait uaddr expected s = Some (None, s') \<and> l < 4 \<and> (\<forall>j < l. Q j = []) \<and> Q l = t # ts \<and>
    current s' = t \<and> sched_ok s' (Q(l := ts)) \<and> futex_inv s' B' W' \<and>
    waiters s' B' W' = (waiters s B W)(phys := waiters s B W phys @ [current s])"
  by (rule futex_wait_cases [OF assms(1,2) a k]) (use assms(3) in blast)+

section \<open>Two sleeping threads\<close>

lemma huge_mem_extract: "extract_from (phys_to_virt 0x200000) 0x400000 huge_mem = 0x600000"
  using huge_mem_tree unfolding extract_resolve [OF huge_mem_tree(1)]
  by (simp add: resolve_def huge_at_def is_present_def is_huge_def)

definition one_sleeper_links :: "futex_node dlinks" where
  "one_sleeper_links = list_add_tail (FutexNode 0x9000) (WaitersHead 0x5000) (list_add_tail (HashNode 0x5000) (BucketHead 0)
     (list_init (WaitersHead 0x5000) (fold (\<lambda>i. list_init (BucketHead i)) [0..<FUTEX_BUCKETS] links_zero)))"

definition sleepers :: kernel where
  \<comment> \<open>the threads at \<open>0x9000\<close> and \<open>0xA000\<close> sleep on the word at \<open>0x400000\<close>\<close>
  "sleepers = upd_thread 0x9000 (\<lambda>t. t\<lparr>state := THREAD_BLOCKED\<rparr>) (upd_thread 0xA000 (\<lambda>t. t\<lparr>state := THREAD_BLOCKED\<rparr>)
     (upd_thread 0x1000 (\<lambda>t. t\<lparr>t_pmap := 0x3000\<rparr>) two_threads))\<lparr>mem := huge_mem,
     pmaps := (\<lambda>_. \<lparr>pm_root_virt = phys_to_virt 0x200000, pm_root_phys = 0x200000\<rparr>), wq_phys := (\<lambda>_. 0)(0x5000 := 0x600000),
     futexq := list_add_tail (FutexNode 0xA000) (WaitersHead 0x5000) one_sleeper_links\<rparr>"

definition sleeper_buckets :: "nat \<Rightarrow> u64 list" where "sleeper_buckets = (\<lambda>_. [])(0 := [0x5000])"
definition sleeper_queues :: "u64 \<Rightarrow> u64 list" where "sleeper_queues = (\<lambda>_. [])(0x5000 := [0x9000, 0xA000])"

lemma sleepers_fields:
  "current sleepers = 0x1000" "pmap_extract (t_pmap (threads sleepers 0x1000)) 0x400000 sleepers = 0x600000"
  "asleep sleepers 0x9000" "asleep sleepers 0xA000" "wq_phys sleepers = (\<lambda>_. 0)(0x5000 := 0x600000)" "futex_hash 0x600000 = 0"
  using huge_mem_extract by (simp_all add: sleepers_def asleep_def two_threads_fields pmap_extract_def futex_hash_def)

lemma sleepers_ok: "sched_ok sleepers ((\<lambda>_. [])(0 := [0x8000]))"
proof -
  have q: "queued ((\<lambda>_. [])(0 := [0x8000])) = {0x8000}" by (auto simp: queued_def split: if_splits)
  have "sched_ok (upd_thread 0x9000 (\<lambda>t. t\<lparr>state := THREAD_BLOCKED\<rparr>) (upd_thread 0xA000 (\<lambda>t. t\<lparr>state := THREAD_BLOCKED\<rparr>)
      (upd_thread 0x1000 (\<lambda>t. t\<lparr>t_pmap := 0x3000\<rparr>) two_threads))) ((\<lambda>_. [])(0 := [0x8000]))"
    by (intro sched_ok_upd sched_ok_view two_threads_ok) (simp_all add: q two_threads_fields)
  then show ?thesis by (subst sched_ok_cong) (simp_all add: sleepers_def)
qed

lemma sleepers_inv: "futex_inv sleepers sleeper_buckets sleeper_queues"
proof -
  have w: "wqs (\<lambda>_. []) = {}" "wqs sleeper_buckets = {0x5000}" by (auto simp: wqs_def sleeper_buckets_def split: if_splits)
  have e: "futex_lists (\<lambda>_. []) (\<lambda>_. []) = (\<lambda>_. [])" by (rule ext, rule futex_lists.induct) simp_all
  have "dlists (fold (\<lambda>i. list_init (BucketHead i)) [0..<FUTEX_BUCKETS] links_zero) (futex_heads (\<lambda>_. [])) (futex_lists (\<lambda>_. []) (\<lambda>_. []))"
    using init_many [OF no_lists, of BucketHead FUTEX_BUCKETS] by (simp add: e futex_heads_def w inj_def)
  from new_queue_lists [OF this, of 0 "0x5000" "0x9000"]
  have L: "dlists one_sleeper_links (futex_heads sleeper_buckets) (futex_lists sleeper_buckets ((\<lambda>_. [])(0x5000 := [0x9000])))"
    by (simp add: w one_sleeper_links_def sleeper_buckets_def members_futex)
  have "dlists (futexq sleepers) (futex_heads sleeper_buckets) (futex_lists sleeper_buckets sleeper_queues)"
    using lists.rep_add_last [OF L bucket_head(2), of "0x5000" "FutexNode 0xA000"]
      futex_lists_upd(1) [of sleeper_buckets "(\<lambda>_. [])(0x5000 := [0x9000])" "0x5000" "[0x9000, 0xA000]"]
    by (simp add: w members_futex futex_no_head sleepers_def sleeper_queues_def fun_upd_same image_iff del: fun_upd_apply)
  then show ?thesis using sleepers_fields by (simp add: futex_inv_def w) (simp add: sleeper_buckets_def sleeper_queues_def)
qed

lemma sleepers_waiters: "waiters sleepers sleeper_buckets sleeper_queues 0x600000 = [0x9000, 0xA000]"
  by (simp add: waiters_def sleepers_fields(5,6)) (simp add: sleeper_buckets_def sleeper_queues_def)

theorem futex_wake_spec_witness:
  "\<exists>s'. futex_wake 0x400000 False sleepers = Some (1, s') \<and> sched_ok s' ((\<lambda>_. [])(0 := [0x8000, 0x9000]))"
  using futex_wake_spec [OF sleepers_ok sleepers_inv, of "0x400000" "0x600000" 1 False]
  by (simp add: sleepers_fields sleepers_waiters woken_of_def) auto

theorem futex_wait_spec_witness:
  "\<exists>s' B W. futex_wait 0x400000 (load32 (phys_to_virt 0x600000) huge_mem) sleepers = Some (None, s') \<and> current s' = 0x8000 \<and>
     waiters s' B W 0x600000 = [0x9000, 0xA000, 0x1000]"
proof -
  have "mem sleepers = huge_mem" by (simp add: sleepers_def)
  moreover have "queued ((\<lambda>_. [])(0 := [0x8000 :: u64])) \<noteq> {}" by (auto simp: queued_def split: if_splits)
  ultimately show ?thesis
    using futex_wait_spec [OF sleepers_ok sleepers_inv, of "0x400000" "0x600000" "load32 (phys_to_virt 0x600000) huge_mem"]
    by (simp add: sleepers_fields sleepers_waiters) (auto split: if_splits, metis fun_upd_same)
qed

end
