(* ===== verification/Loader.thy ===== *)
theory Loader
  imports Boot Cpio
begin

text \<open>
  The UEFI boot loader: \<^verbatim>\<open>boot/main.c\<close>, \<^verbatim>\<open>boot/loader.c\<close> and \<^verbatim>\<open>boot/arch/x86_64/hhdm.c\<close>. The services of
  the firmware are a parameter, the record \<open>efi\<close>, each as a function of the firmware's own state. The
  loader runs with physical addresses, so its tables are read and written at the address an entry
  holds. Text output is left out. \<open>None\<close> is a loop that does not come to its end or a division by zero.
\<close>

section \<open>Firmware\<close>

datatype efi_status = EFI_SUCCESS | EFI_LOAD_ERROR | EFI_INVALID_PARAMETER | EFI_BUFFER_TOO_SMALL
  | EFI_OUT_OF_RESOURCES | EFI_NOT_FOUND | EFI_OTHER_ERROR u64 | EFI_WARNING u64

fun EFI_ERROR :: "efi_status \<Rightarrow> bool" where
  "EFI_ERROR EFI_SUCCESS = False"
| "EFI_ERROR (EFI_WARNING w) = False"
| "EFI_ERROR _ = True"

text \<open>The numbers of the types of memory and the layout of a descriptor are those of the UEFI specification.\<close>

abbreviation (input) EfiLoaderCode :: u32 where "EfiLoaderCode \<equiv> 1"
abbreviation (input) EfiLoaderData :: u32 where "EfiLoaderData \<equiv> 2"
abbreviation (input) EfiBootServicesCode :: u32 where "EfiBootServicesCode \<equiv> 3"
abbreviation (input) EfiBootServicesData :: u32 where "EfiBootServicesData \<equiv> 4"
abbreviation (input) EfiConventionalMemory :: u32 where "EfiConventionalMemory \<equiv> 7"
abbreviation (input) EfiUnusableMemory :: u32 where "EfiUnusableMemory \<equiv> 8"
abbreviation (input) EfiACPIReclaimMemory :: u32 where "EfiACPIReclaimMemory \<equiv> 9"
abbreviation (input) EfiACPIMemoryNVS :: u32 where "EfiACPIMemoryNVS \<equiv> 10"

definition desc_Type :: "u64 \<Rightarrow> memory \<Rightarrow> u32" where "desc_Type desc m = load32 desc m"
definition desc_PhysicalStart :: "u64 \<Rightarrow> memory \<Rightarrow> u64" where "desc_PhysicalStart desc m = load64 (desc + 8) m"
definition desc_NumberOfPages :: "u64 \<Rightarrow> memory \<Rightarrow> u64" where "desc_NumberOfPages desc m = load64 (desc + 24) m"
definition desc_Attribute :: "u64 \<Rightarrow> memory \<Rightarrow> u64" where "desc_Attribute desc m = load64 (desc + 32) m"

record efi_mode =
  FrameBufferBase :: u64
  HorizontalResolution :: u32
  VerticalResolution :: u32
  PixelsPerScanLine :: u32

record efi_table =
  VendorGuid :: "u32 \<times> u16 \<times> u16 \<times> u64"
  VendorTable :: u64

record 'f efi =
  \<comment> \<open>\<open>AllocatePages(AllocateMaxAddress, EfiLoaderData, 1, &addr)\<close> with \<open>addr = 0xFFFFFFFF\<close>\<close>
  AllocateMaxAddress :: "'f \<Rightarrow> (efi_status \<times> u64) \<times> 'f"
  \<comment> \<open>\<open>AllocatePages(AllocateAddress, EfiRuntimeServicesCode, num_pages, &addr)\<close>\<close>
  AllocateAddress :: "u64 \<Rightarrow> u64 \<Rightarrow> 'f \<Rightarrow> efi_status \<times> 'f"
  AllocatePool :: "u64 \<Rightarrow> 'f \<Rightarrow> (efi_status \<times> u64) \<times> 'f"
  FreePool :: "u64 \<Rightarrow> 'f \<Rightarrow> 'f"
  \<comment> \<open>with no buffer: status, size of the map, size of a descriptor\<close>
  MemoryMapSize :: "'f \<Rightarrow> (efi_status \<times> u64 \<times> u64) \<times> 'f"
  \<comment> \<open>with a buffer of this size: status, what is written to the buffer, the key, the size of a descriptor\<close>
  GetMemoryMap :: "u64 \<Rightarrow> 'f \<Rightarrow> (efi_status \<times> u8 list \<times> u64 \<times> u64) \<times> 'f"
  ExitBootServices :: "u64 \<Rightarrow> 'f \<Rightarrow> efi_status \<times> 'f"
  LoadedImage :: "efi_status \<times> u64 \<times> u64"
  GraphicsOutput :: "efi_status \<times> efi_mode option"
  ACPI_20_TABLE_GUID :: "u32 \<times> u16 \<times> u16 \<times> u64"
  ConfigurationTable :: "efi_table list"
  \<comment> \<open>opening \<open>bootbin.cpio\<close>: file system, volume and file; its size; reading it to the end\<close>
  FileSystem :: efi_status
  OpenVolume :: efi_status
  OpenFile :: efi_status
  FileSize :: u64
  ReadFile :: "u64 \<Rightarrow> 'f \<Rightarrow> (efi_status \<times> u8 list) \<times> 'f"

record 'f loader =
  umem :: memory
  fw :: 'f
  g_boot_info :: boot_info_t
  \<comment> \<open>\<open>entries\<close> and \<open>count\<close> of its memory map: the list in \<open>g_boot_info\<close> is read from there when the kernel is started\<close>
  mmap_entries :: u64
  mmap_count :: u32

section \<open>Page tables for the kernel\<close>

abbreviation (input) PAGE_PRESENT :: u64 where "PAGE_PRESENT \<equiv> 1"
abbreviation (input) PAGE_WRITE :: u64 where "PAGE_WRITE \<equiv> 2"
abbreviation (input) PAGE_HUGE :: u64 where "PAGE_HUGE \<equiv> 0x80"

definition alloc_page :: "'f efi \<Rightarrow> 'f loader \<Rightarrow> u64 \<times> 'f loader" where
  "alloc_page bs s =
     (let ((status, addr), f) = AllocateMaxAddress bs (fw s)
      in if EFI_ERROR status then (0, s\<lparr>fw := f\<rparr>)
         else (addr, s\<lparr>fw := f, umem := memset addr 0 4096 (umem s)\<rparr>))"

definition write_entry :: "u64 \<Rightarrow> u64 \<Rightarrow> u64 \<Rightarrow> 'f loader \<Rightarrow> 'f loader" where
  \<comment> \<open>\<open>table[idx] = v\<close>\<close>
  "write_entry table idx v s = s\<lparr>umem := store64 (table + 8 * idx) v (umem s)\<rparr>"

definition add_table :: "'f efi \<Rightarrow> u64 \<Rightarrow> u64 \<Rightarrow> 'f loader \<Rightarrow> u64 option \<times> 'f loader" where
  \<comment> \<open>a new table below \<open>table[idx]\<close>; none is \<open>return EFI_OUT_OF_RESOURCES\<close>\<close>
  "add_table bs table idx s =
     (let (n, s) = alloc_page bs s
      in if n = 0 then (None, s)
         else (Some n, write_entry table idx (n OR PAGE_PRESENT OR PAGE_WRITE) s))"

definition next_table :: "'f efi \<Rightarrow> u64 \<Rightarrow> u64 \<Rightarrow> 'f loader \<Rightarrow> u64 option \<times> 'f loader" where
  \<comment> \<open>the table below \<open>table[idx]\<close>, a new one if there is none\<close>
  "next_table bs table idx s =
     (let e = entry table idx (umem s)
      in if e AND PAGE_PRESENT \<noteq> 0 then (Some (e AND NOT 0xFFF), s) else add_table bs table idx s)"

partial_function (option) identity_map :: "'f efi \<Rightarrow> u64 \<Rightarrow> u64 \<Rightarrow> u64 \<Rightarrow> 'f loader \<Rightarrow> (bool \<times> 'f loader) option" where
  "identity_map bs pml4 addr fin s =
     (if addr < fin then
        let pml4_idx = drop_bit 39 addr AND 0x1FF;
            pdpt_idx = drop_bit 30 addr AND 0x1FF;
            pd_idx = drop_bit 21 addr AND 0x1FF;
            (pdpt, s) = next_table bs pml4 pml4_idx s
        in case pdpt of None \<Rightarrow> Some (False, s)
           | Some pdpt \<Rightarrow>
               let (pd, s) = next_table bs pdpt pdpt_idx s
               in case pd of None \<Rightarrow> Some (False, s)
                  | Some pd \<Rightarrow>
                      identity_map bs pml4 (addr + 2 * 1024 * 1024) fin
                        (write_entry pd pd_idx (addr OR PAGE_PRESENT OR PAGE_WRITE OR PAGE_HUGE) s)
      else Some (True, s))"

fun fill_pd :: "nat list \<Rightarrow> u64 \<Rightarrow> u64 \<Rightarrow> u64 \<Rightarrow> 'f loader \<Rightarrow> u64 \<times> 'f loader" where
  \<comment> \<open>the loop over \<open>k\<close>; the result is \<open>allocated_pdes\<close>\<close>
  "fill_pd [] pd pdes total_pdes s = (pdes, s)"
| "fill_pd (k # ks) pd pdes total_pdes s =
     (if pdes \<ge> total_pdes then (pdes, s)
      else
        let phys_addr = pdes * 2 * 1024 * 1024
        in fill_pd ks pd (pdes + 1) total_pdes
             (write_entry pd (of_nat k) (phys_addr OR PAGE_PRESENT OR PAGE_WRITE OR PAGE_HUGE) s))"

fun fill_pdpt :: "nat list \<Rightarrow> 'f efi \<Rightarrow> u64 \<Rightarrow> u64 \<Rightarrow> u64 \<Rightarrow> u64 \<Rightarrow> u64 \<Rightarrow> 'f loader \<Rightarrow> (u64 \<times> u64) option \<times> 'f loader" where
  \<comment> \<open>the loop over \<open>j\<close>; the result is \<open>allocated_pdts\<close> and \<open>allocated_pdes\<close>\<close>
  "fill_pdpt [] bs pdpt pdts pdes total_pdts total_pdes s = (Some (pdts, pdes), s)"
| "fill_pdpt (j # js) bs pdpt pdts pdes total_pdts total_pdes s =
     (if pdts \<ge> total_pdts then (Some (pdts, pdes), s)
      else
        let (pd, s) = add_table bs pdpt (of_nat j) s
        in case pd of None \<Rightarrow> (None, s)
           | Some pd \<Rightarrow>
               let (pdes, s) = fill_pd [0..<512] pd pdes total_pdes s
               in fill_pdpt js bs pdpt (pdts + 1) pdes total_pdts total_pdes s)"

fun fill_hhdm :: "nat list \<Rightarrow> 'f efi \<Rightarrow> u64 \<Rightarrow> u64 \<Rightarrow> u64 \<Rightarrow> u64 \<Rightarrow> u64 \<Rightarrow> u64 \<Rightarrow> 'f loader \<Rightarrow> bool \<times> 'f loader" where
  \<comment> \<open>the loop over \<open>i\<close>, which ends at 256 because \<open>pml4_base_index\<close> is 256\<close>
  "fill_hhdm [] bs pml4 pdts pdes total_pdpts total_pdts total_pdes s = (True, s)"
| "fill_hhdm (i # is) bs pml4 pdts pdes total_pdpts total_pdts total_pdes s =
     (if \<not> of_nat i < total_pdpts then (True, s)
      else
        let (pdpt, s) = add_table bs pml4 (256 + of_nat i) s
        in case pdpt of None \<Rightarrow> (False, s)
           | Some pdpt \<Rightarrow>
               let (c, s) = fill_pdpt [0..<512] bs pdpt pdts pdes total_pdts total_pdes s
               in case c of None \<Rightarrow> (False, s)
                  | Some (pdts, pdes) \<Rightarrow> fill_hhdm is bs pml4 pdts pdes total_pdpts total_pdts total_pdes s)"

definition kernel_pd :: "u64 \<Rightarrow> u64 \<Rightarrow> 'f loader \<Rightarrow> 'f loader" where
  \<comment> \<open>the loop over \<open>pde_idx\<close>\<close>
  "kernel_pd pd pdpt_idx s =
     fold (\<lambda>pde_idx.
       let phys_addr = (pdpt_idx - 510) * 1024 * 1024 * 1024 + of_nat pde_idx * 2 * 1024 * 1024
       in write_entry pd (of_nat pde_idx) (phys_addr OR PAGE_PRESENT OR PAGE_WRITE OR PAGE_HUGE)) [0..<512] s"

fun kernel_map :: "u64 list \<Rightarrow> 'f efi \<Rightarrow> u64 \<Rightarrow> 'f loader \<Rightarrow> bool \<times> 'f loader" where
  \<comment> \<open>the loop over \<open>pdpt_idx\<close>\<close>
  "kernel_map [] bs pdpt s = (True, s)"
| "kernel_map (i # is) bs pdpt s =
     (let (pd, s) = add_table bs pdpt i s
      in case pd of None \<Rightarrow> (False, s)
         | Some pd \<Rightarrow> kernel_map is bs pdpt (kernel_pd pd i s))"

definition init_hhdm :: "'f efi \<Rightarrow> u64 \<Rightarrow> u64 \<Rightarrow> u64 \<Rightarrow> 'f loader \<Rightarrow> (efi_status \<times> u64 \<times> 'f loader) option" where
  \<comment> \<open>status and \<open>*out_root_phys\<close>, which is 0 where it is not written\<close>
  "init_hhdm bs max_phys image_base image_size s =
     (let (pml4, s) = alloc_page bs s
      in if pml4 = 0 then Some (EFI_OUT_OF_RESOURCES, 0, s)
         else case identity_map bs pml4 (image_base AND NOT 0x1FFFFF) (image_base + image_size) s of
           None \<Rightarrow> None
         | Some (ok, s) \<Rightarrow>
             if \<not> ok then Some (EFI_OUT_OF_RESOURCES, 0, s)
             else
               let total_pdes = drop_bit 21 (max_phys + 0x1FFFFF);
                   total_pdts = drop_bit 9 (total_pdes + 511);
                   total_pdpts = drop_bit 9 (total_pdts + 511);
                   (ok, s) = fill_hhdm [0..<256] bs pml4 0 0 total_pdpts total_pdts total_pdes s
               in if \<not> ok then Some (EFI_OUT_OF_RESOURCES, 0, s)
                  else
                    let (kernel_pdpt, s) = add_table bs pml4 511 s
                    in case kernel_pdpt of None \<Rightarrow> Some (EFI_OUT_OF_RESOURCES, 0, s)
                       | Some kernel_pdpt \<Rightarrow>
                           let (ok, s) = kernel_map [510, 511] bs kernel_pdpt s
                           in if \<not> ok then Some (EFI_OUT_OF_RESOURCES, 0, s) else Some (EFI_SUCCESS, pml4, s))"

section \<open>The files of the boot image\<close>

partial_function (option) efi_cpio_scan :: "u64 \<Rightarrow> u64 \<Rightarrow> u64 \<Rightarrow> memory \<Rightarrow> (efi_status \<times> u64 \<times> u64) option" where
  \<comment> \<open>the loop of the loader's \<open>cpio_extract\<close>: status, \<open>*out_base\<close> and \<open>*out_size\<close>, which are 0 where they are not written.
    The header and \<open>parse_hex8\<close> are those of \<open>Cpio\<close>.\<close>
  "efi_cpio_scan current_offset base_addr target_filename m =
     (let header = header_at (base_addr + current_offset)
      in if \<not> starts CPIO_MAGIC (magic header) m then Some (EFI_LOAD_ERROR, 0, 0)
      else
        let fsize = parse_hex8 (filesize header) m;
            nsize = parse_hex8 (namesize header) m;
            filename = base_addr + current_offset + sizeof_cpio_header
        in if starts TRAILER filename m then Some (EFI_NOT_FOUND, 0, 0)
        else
          let data_offset = sizeof_cpio_header + ucast nsize;
              data_offset = (data_offset + 3) AND NOT 3
          in case strcmp filename target_filename m of
               None \<Rightarrow> None
             | Some c \<Rightarrow>
                 if c = 0 then Some (EFI_SUCCESS, base_addr + current_offset + data_offset, ucast fsize)
                 else
                   let next_record_offset = data_offset + ucast fsize;
                       next_record_offset = (next_record_offset + 3) AND NOT 3
                   in efi_cpio_scan (current_offset + next_record_offset) base_addr target_filename m)"

definition efi_cpio_extract :: "u64 \<Rightarrow> u64 \<Rightarrow> memory \<Rightarrow> (efi_status \<times> u64 \<times> u64) option" where
  "efi_cpio_extract cpio_base target_filename m = efi_cpio_scan 0 cpio_base target_filename m"

definition write_bytes :: "u64 \<Rightarrow> u8 list \<Rightarrow> memory \<Rightarrow> memory" where
  "write_bytes a bs m = (\<lambda>x. if unat (x - a) < length bs then bs ! unat (x - a) else m x)"

definition read_bootbin :: "'f efi \<Rightarrow> 'f loader \<Rightarrow> (efi_status \<times> u64) \<times> 'f loader" where
  \<comment> \<open>the first half of \<open>load_bootbin\<close>: the status and \<open>bootbin_base\<close>\<close>
  "read_bootbin bs s =
     (if EFI_ERROR (fst (LoadedImage bs)) then ((fst (LoadedImage bs), 0), s)
      else if EFI_ERROR (FileSystem bs) then ((FileSystem bs, 0), s)
      else if EFI_ERROR (OpenVolume bs) then ((OpenVolume bs, 0), s)
      else if EFI_ERROR (OpenFile bs) then ((OpenFile bs, 0), s)
      else if FileSize bs = 0 then ((EFI_LOAD_ERROR, 0), s)
      else
        let ((status, base), f) = AllocatePool bs (FileSize bs) (fw s);
            s = s\<lparr>fw := f\<rparr>
        in if EFI_ERROR status then ((status, 0), s)
           else
             let ((status, bytes), f) = ReadFile bs (FileSize bs) (fw s);
                 s = s\<lparr>fw := f, umem := write_bytes base bytes (umem s)\<rparr>
             in if EFI_ERROR status \<or> of_nat (length bytes) \<noteq> FileSize bs
                then ((EFI_LOAD_ERROR, 0), s\<lparr>fw := FreePool bs base (fw s)\<rparr>)
                else ((EFI_SUCCESS, base), s))"

definition load_bootbin :: "'f efi \<Rightarrow> u64 \<Rightarrow> u64 \<Rightarrow> u64 \<Rightarrow> 'f loader \<Rightarrow> (efi_status \<times> 'f loader) option" where
  \<comment> \<open>the addresses are those of the strings \<open>"kernel.elf"\<close>, \<open>"initrd.cpio"\<close> and \<open>"init.elf"\<close>\<close>
  "load_bootbin bs kernel_name initrd_name init_name s =
     (let ((status, base), s) = read_bootbin bs s
      in if EFI_ERROR status then Some (status, s)
      else do {
        (status, kernel_base, kernel_sz) \<leftarrow> efi_cpio_extract base kernel_name (umem s);
        if EFI_ERROR status then Some (status, s\<lparr>fw := FreePool bs base (fw s)\<rparr>)
        else do {
          (status, initrd_base, initrd_size) \<leftarrow> efi_cpio_extract base initrd_name (umem s);
          if EFI_ERROR status then Some (status, s\<lparr>fw := FreePool bs base (fw s)\<rparr>)
          else do {
            (status, init_base, init_size) \<leftarrow> efi_cpio_extract initrd_base init_name (umem s);
            let (init_base, init_size) = (if EFI_ERROR status then (0, 0) else (init_base, init_size));
            Some (EFI_SUCCESS, s\<lparr>g_boot_info := (g_boot_info s)
              \<lparr>bi_kernel := \<lparr>kernel_src = kernel_base, kernel_size = kernel_sz\<rparr>,
               bi_init := \<lparr>img_addr = init_base, img_size = init_size\<rparr>,
               bi_initrd := \<lparr>img_addr = initrd_base, img_size = initrd_size\<rparr>\<rparr>\<rparr>)}}})"

definition load_phdr :: "'f efi \<Rightarrow> u64 \<Rightarrow> Elf64_Phdr \<Rightarrow> 'f loader \<Rightarrow> efi_status \<times> 'f loader" where
  \<comment> \<open>the body of the loop for a header of type \<open>PT_LOAD\<close>\<close>
  "load_phdr bs elf ph s =
     (let phys_start = p_vaddr ph - 0xFFFFFFFF80000000;
          page_start = phys_start AND NOT 0xFFF;
          phys_end = phys_start + p_memsz ph;
          page_end = (phys_end + 0xFFF) AND NOT 0xFFF;
          num_pages = (page_end - page_start) div 4096;
          (status, f) = AllocateAddress bs num_pages page_start (fw s);
          s = s\<lparr>fw := f\<rparr>
      in if EFI_ERROR status then (status, s)
      else
        let src = elf + p_offset ph;
            s = (if p_filesz ph > 0 then s\<lparr>umem := memcpy phys_start src (p_filesz ph) (umem s)\<rparr> else s);
            s = (if p_memsz ph > p_filesz ph
                 then s\<lparr>umem := memset (phys_start + p_filesz ph) 0 (p_memsz ph - p_filesz ph) (umem s)\<rparr> else s)
        in (EFI_SUCCESS, s))"

function load_phdrs :: "nat \<Rightarrow> 'f efi \<Rightarrow> u64 \<Rightarrow> u64 \<Rightarrow> 'f loader \<Rightarrow> efi_status \<times> 'f loader" where
  \<comment> \<open>the loop of \<open>load_elf_kernel_uefi\<close> over the program headers at \<open>phdr\<close>, which are read from memory in every turn\<close>
  "load_phdrs i bs elf phdr s =
     (if i < unat (e_phnum (Ehdr_at elf (umem s))) then
        let ph = Phdr_at (phdr + sizeof_Phdr * of_nat i) (umem s)
        in if p_type ph = PT_LOAD then
             let (status, s) = load_phdr bs elf ph s
             in if EFI_ERROR status then (status, s) else load_phdrs (Suc i) bs elf phdr s
           else load_phdrs (Suc i) bs elf phdr s
      else (EFI_SUCCESS, s))"
  by pat_completeness auto
termination
proof (relation "measure (\<lambda>(i, _). 65536 - i)", goal_cases)
  case (2 i bs elf phdr s)
  have "unat (e_phnum (Ehdr_at elf (umem s))) < 2 ^ 16" using unsigned_less [of "e_phnum (Ehdr_at elf (umem s))"] by simp
  then show ?case using 2 by simp
next
  case (3 i bs elf phdr s)
  have "unat (e_phnum (Ehdr_at elf (umem s))) < 2 ^ 16" using unsigned_less [of "e_phnum (Ehdr_at elf (umem s))"] by simp
  then show ?case using 3 by simp
qed simp

declare load_phdrs.simps [simp del]

definition load_elf_kernel_uefi :: "'f efi \<Rightarrow> u64 \<Rightarrow> 'f loader \<Rightarrow> (efi_status \<times> u64) \<times> 'f loader" where
  \<comment> \<open>status and \<open>*out_entry_point\<close>\<close>
  "load_elf_kernel_uefi bs elf s =
     (let ehdr = Ehdr_at elf (umem s)
      in if take 4 (e_ident ehdr) \<noteq> [0x7F, 0x45, 0x4C, 0x46] then ((EFI_INVALID_PARAMETER, 0), s)
         else
           let (status, s) = load_phdrs 0 bs elf (elf + e_phoff ehdr) s
           in if EFI_ERROR status then ((status, 0), s)
              else ((EFI_SUCCESS, e_entry (Ehdr_at elf (umem s))), s))"

section \<open>What the firmware knows about the machine\<close>

definition convert_mmap_type :: "u32 \<Rightarrow> u32" where
  "convert_mmap_type uefi_type =
     (if uefi_type = EfiConventionalMemory then MMAP_TYPE_USABLE
      else if uefi_type = EfiLoaderCode \<or> uefi_type = EfiLoaderData \<or> uefi_type = EfiBootServicesCode \<or>
        uefi_type = EfiBootServicesData then MMAP_TYPE_BOOTLOADER_RECLAIMABLE
      else if uefi_type = EfiACPIReclaimMemory then MMAP_TYPE_ACPI_RECLAIMABLE
      else if uefi_type = EfiACPIMemoryNVS then MMAP_TYPE_ACPI_NVS
      else if uefi_type = EfiUnusableMemory then MMAP_TYPE_BAD_MEM
      else MMAP_TYPE_RESERVED)"

definition get_me :: "'f efi \<Rightarrow> efi_status \<times> u64 \<times> u64" where
  "get_me bs = (let (status, base, sz) = LoadedImage bs in if EFI_ERROR status then (status, 0, 0) else (EFI_SUCCESS, base, sz))"

definition init_gop :: "'f efi \<Rightarrow> 'f loader \<Rightarrow> efi_status \<times> 'f loader" where
  \<comment> \<open>the interface may be null although the call reports no error\<close>
  "init_gop bs s =
     (case GraphicsOutput bs of
        (status, None) \<Rightarrow> (status, s)
      | (status, Some md) \<Rightarrow>
          if EFI_ERROR status then (status, s)
          else (EFI_SUCCESS, s\<lparr>g_boot_info := (g_boot_info s)\<lparr>bi_framebuffer :=
                 \<lparr>fb_address = FrameBufferBase md, fb_width = ucast (HorizontalResolution md),
                  fb_height = ucast (VerticalResolution md), fb_pitch = ucast (PixelsPerScanLine md * 4)\<rparr>\<rparr>\<rparr>))"

definition scan_entry :: "u64 \<Rightarrow> u64 \<Rightarrow> u64 \<Rightarrow> nat \<Rightarrow> memory \<times> u64 \<times> u64 \<Rightarrow> memory \<times> u64 \<times> u64" where
  \<comment> \<open>the body of the loop of \<open>init_mmap\<close> on memory, \<open>max_phys\<close> and \<open>total_usable\<close>\<close>
  "scan_entry mp desc_size ents i = (\<lambda>(m, max_phys, usable).
     let desc = mp + of_nat i * desc_size;
         entry = ents + 24 * of_nat i;
         size_bytes = desc_NumberOfPages desc m * 4096;
         m = store64 entry (desc_PhysicalStart desc m) m;
         m = store64 (entry + 8) size_bytes m;
         m = store32 (entry + 16) (convert_mmap_type (desc_Type desc m)) m;
         m = store32 (entry + 20) (ucast (desc_Attribute desc m)) m;
         end_addr = desc_PhysicalStart desc m + size_bytes;
         max_phys = (if end_addr > max_phys then end_addr else max_phys);
         usable = (if desc_Type desc m = EfiConventionalMemory then usable + size_bytes else usable)
     in (m, max_phys, usable))"

definition scan_mmap :: "u64 \<Rightarrow> u64 \<Rightarrow> u64 \<Rightarrow> nat \<Rightarrow> memory \<Rightarrow> memory \<times> u64 \<times> u64" where
  "scan_mmap mp desc_size ents total_entries m = fold (scan_entry mp desc_size ents) [0..<total_entries] (m, 0, 0)"

definition init_mmap :: "'f efi \<Rightarrow> u64 \<Rightarrow> 'f loader \<Rightarrow> ((efi_status \<times> u64) \<times> 'f loader) option" where
  \<comment> \<open>status and \<open>*out_map_key\<close>, which is \<open>key0\<close> before; a table of entries that is not used is not given back.
    \<open>None\<close> is a division by zero.\<close>
  "init_mmap bs key0 s =
     (let ((status, map_size, desc_size), f) = MemoryMapSize bs (fw s);
          s = s\<lparr>fw := f\<rparr>
      in if status \<noteq> EFI_BUFFER_TOO_SMALL then Some ((status, key0), s)
      else if desc_size = 0 then None
      else
        let map_size = map_size + 16 * desc_size;
            total_entries = map_size div desc_size;
            ((status, mp), f) = AllocatePool bs map_size (fw s);
            s = s\<lparr>fw := f\<rparr>
        in if EFI_ERROR status then Some ((status, key0), s)
        else
          let ((status, ents), f) = AllocatePool bs (24 * total_entries) (fw s);
              s = s\<lparr>fw := f\<rparr>
          in if EFI_ERROR status then Some ((status, key0), s\<lparr>fw := FreePool bs mp (fw s)\<rparr>)
          else
            let ((status, bytes, map_key, desc_size), f) = GetMemoryMap bs map_size (fw s);
                s = s\<lparr>fw := f, umem := write_bytes mp bytes (umem s)\<rparr>
            in if status \<noteq> EFI_SUCCESS then Some ((status, key0), s\<lparr>fw := FreePool bs mp (fw s)\<rparr>)
            else if desc_size = 0 then None
            else
              let total_entries = of_nat (length bytes) div desc_size;
                  (m, max_phys, usable) = scan_mmap mp desc_size ents (unat total_entries) (umem s)
              in Some ((EFI_SUCCESS, map_key), s\<lparr>umem := m, mmap_entries := ents, mmap_count := ucast total_entries,
                   g_boot_info := (g_boot_info s)\<lparr>bi_memory := (bi_memory (g_boot_info s))
                     \<lparr>max_phys_addr := max_phys, total_usable := usable\<rparr>\<rparr>\<rparr>))"

definition init_acpi :: "'f efi \<Rightarrow> 'f loader \<Rightarrow> efi_status \<times> 'f loader" where
  "init_acpi bs s =
     (case find (\<lambda>t. VendorGuid t = ACPI_20_TABLE_GUID bs) (ConfigurationTable bs) of
        None \<Rightarrow> (EFI_NOT_FOUND, s)
      | Some t \<Rightarrow>
          if VendorTable t = 0 then (EFI_NOT_FOUND, s)
          else (EFI_SUCCESS, s\<lparr>g_boot_info := (g_boot_info s)\<lparr>bi_rsdp_addr := VendorTable t\<rparr>\<rparr>))"

section \<open>Handing over\<close>

record handover =
  \<comment> \<open>the registers with which \<open>jump_to_kernel\<close> leaves the loader, and what the first argument points to\<close>
  ho_rip :: u64
  ho_cr3 :: u64
  ho_rsp :: u64
  ho_boot_info :: boot_info_t

definition mmap_entry_at :: "u64 \<Rightarrow> memory \<Rightarrow> mmap_entry_t" where
  "mmap_entry_at a m = \<lparr>phys_start = load64 a m, len = load64 (a + 8) m, mtype = load32 (a + 16) m, mflags = load32 (a + 20) m\<rparr>"

definition mmap_list :: "'f loader \<Rightarrow> mmap_entry_t list" where
  \<comment> \<open>\<open>entries[0], ..., entries[count - 1]\<close>\<close>
  "mmap_list s = map (\<lambda>i. mmap_entry_at (mmap_entries s + 24 * of_nat i) (umem s)) [0..<unat (mmap_count s)]"

definition jump_to_kernel :: "u64 \<Rightarrow> u64 \<Rightarrow> u64 \<Rightarrow> boot_info_t \<Rightarrow> handover" where
  \<comment> \<open>the first argument is the address of \<open>stack\<close>\<close>
  "jump_to_kernel stack entry_virt root_phys bi =
     \<lparr>ho_rip = entry_virt, ho_cr3 = root_phys, ho_rsp = 0xFFFF800000000000 + (stack + 65536), ho_boot_info = bi\<rparr>"

definition to_direct_map :: "mmap_entry_t list \<Rightarrow> boot_info_t \<Rightarrow> boot_info_t" where
  \<comment> \<open>the assignments before the jump; the entries of the memory map are the list that is found at their address\<close>
  "to_direct_map es bi = bi\<lparr>
     bi_memory := (bi_memory bi)\<lparr>entries := es\<rparr>,
     bi_kernel := (bi_kernel bi)\<lparr>kernel_src := 0xFFFF800000000000 + kernel_src (bi_kernel bi)\<rparr>,
     bi_init := (bi_init bi)\<lparr>img_addr := 0xFFFF800000000000 + img_addr (bi_init bi)\<rparr>,
     bi_initrd := (bi_initrd bi)\<lparr>img_addr := 0xFFFF800000000000 + img_addr (bi_initrd bi)\<rparr>,
     bi_rsdp_addr := 0xFFFF800000000000 + bi_rsdp_addr bi,
     bi_framebuffer := (bi_framebuffer bi)\<lparr>fb_address := fb_address (bi_framebuffer bi) + 0xFFFF800000000000\<rparr>\<rparr>"

definition exit_boot :: "'f efi \<Rightarrow> u64 \<Rightarrow> 'f loader \<Rightarrow> (bool \<times> 'f loader) option" where
  \<comment> \<open>\<open>ExitBootServices\<close>, once more with a new memory map when it fails\<close>
  "exit_boot bs key s =
     (let (status, f) = ExitBootServices bs key (fw s);
          s = s\<lparr>fw := f\<rparr>
      in if EFI_ERROR status then do {
           ((_, key), s) \<leftarrow> init_mmap bs key s;
           let (status, f) = ExitBootServices bs key (fw s);
           Some (\<not> EFI_ERROR status, s\<lparr>fw := f\<rparr>)}
         else Some (True, s))"

definition boot_main :: "'f efi \<Rightarrow> u64 \<Rightarrow> u64 \<Rightarrow> u64 \<Rightarrow> u64 \<Rightarrow> 'f loader \<Rightarrow> (handover option \<times> 'f loader) option" where
  \<comment> \<open>\<open>main\<close>; no handover is \<open>return 1\<close>. The addresses are those of three strings and of the stack.\<close>
  "boot_main bs kernel_name initrd_name init_name stack s =
     (let (status, image_base, image_size) = get_me bs
      in if EFI_ERROR status then Some (None, s)
      else let (status, s) = init_gop bs s
      in if EFI_ERROR status then Some (None, s)
      else let (status, s) = init_acpi bs s
      in if EFI_ERROR status then Some (None, s)
      else do {
        ((status, key), s) \<leftarrow> init_mmap bs 0 s;
        if EFI_ERROR status then Some (None, s)
        else do {
        (status, s) \<leftarrow> load_bootbin bs kernel_name initrd_name init_name s;
        if EFI_ERROR status then Some (None, s)
        else let ((status, entry_virt), s) = load_elf_kernel_uefi bs (kernel_src (bi_kernel (g_boot_info s))) s
        in if EFI_ERROR status then Some (None, s)
        else do {
          (status, root, s) \<leftarrow> init_hhdm bs (max_phys_addr (bi_memory (g_boot_info s))) image_base image_size s;
          if EFI_ERROR status then Some (None, s)
          else do {
            ((status, key), s) \<leftarrow> init_mmap bs key s;
            if EFI_ERROR status then Some (None, s)
            else do {
              (ok, s) \<leftarrow> exit_boot bs key s;
              if \<not> ok then Some (None, s)
              else
                let s = s\<lparr>g_boot_info := to_direct_map (mmap_list s) (g_boot_info s)\<rparr>
                in Some (Some (jump_to_kernel stack entry_virt root (g_boot_info s)), s)}}}}})"

end
