(* ===== verification/Loader_Map.thy ===== *)
theory Loader_Map
  imports Loader Pmap_Spec
begin

text \<open>
  The page tables the boot loader writes, as trees of slots (\<open>Page_Table\<close>). The loader works on
  physical memory; \<open>direct_map\<close> is that memory where the kernel will see it. Firmware that gives out
  aligned pages, each once, is \<open>fresh_pages\<close>. Shown is what a new table, a directory of large pages, the
  direct map, the map of the loader itself and that of the kernel image do to the tree, whose
  directory entries are written down as a map \<open>M\<close> from indices to entries (\<open>grown\<close>).
\<close>

section \<open>Physical memory and the direct map\<close>

definition direct_map :: "memory \<Rightarrow> memory" where
  \<comment> \<open>physical memory as the kernel sees it\<close>
  "direct_map m = (\<lambda>a. m (a - HHDM_OFFSET))"

lemma virt_add: "phys_to_virt a + b = phys_to_virt (a + b)"
  by (simp add: phys_to_virt_def)

lemma direct_map_at: "direct_map m (phys_to_virt a) = m a"
  by (simp add: direct_map_def phys_to_virt_def)

lemma direct_map_load: "load_le k (phys_to_virt a) (direct_map m) = load_le k a m"
  by (induction k arbitrary: a) (simp_all add: direct_map_at virt_add)

lemma direct_map_entry: "entry (phys_to_virt t) i (direct_map m) = entry t i m"
  by (simp add: entry_def load64_def virt_add direct_map_load)

lemma direct_map_upd: "direct_map (m(a := v)) = (direct_map m)(phys_to_virt a := v)"
  by (auto simp: direct_map_def phys_to_virt_def fun_eq_iff)

lemma direct_map_store_le: "direct_map (store_le k a v m) = store_le k (phys_to_virt a) v (direct_map m)"
  by (induction k arbitrary: a v m) (simp_all add: direct_map_upd virt_add)

lemma direct_map_store: "direct_map (store64 (t + 8 * i) v m) = store64 (phys_to_virt t + 8 * i) v (direct_map m)"
  by (simp add: store64_def direct_map_store_le virt_add)

lemma direct_map_memset: "direct_map (memset a c n m) = memset (phys_to_virt a) c n (direct_map m)"
  by (simp add: memset_spec direct_map_def phys_to_virt_def fun_eq_iff diff_diff_eq add.commute)

lemma page_aligned_virt: "page_aligned (phys_to_virt a) \<longleftrightarrow> page_aligned a"
  by (simp add: page_aligned_iff phys_to_virt_def unat_word_ariths dvd_mod_iff dvd_add_left_iff)

definition view :: "'f loader \<Rightarrow> slots" where
  "view s = slots (direct_map (umem s))"

lemma view_write:
  assumes "page_aligned t" "i < 512"
  shows "view (write_entry t i v s) = put (phys_to_virt t) i v (view s)"
  using slots_store [of "phys_to_virt t" i v "direct_map (umem s)"] assms
  by (simp add: view_def write_entry_def direct_map_store page_aligned_virt)

lemma view_entry: "page_aligned t \<Longrightarrow> i < 512 \<Longrightarrow> entry t i (umem s) = view s (phys_to_virt t) i"
  by (simp add: view_def slots_entry page_aligned_virt direct_map_entry)

section \<open>What the loader relies on\<close>

definition fresh_pages :: "'f efi \<Rightarrow> ('f \<Rightarrow> u64 set) \<Rightarrow> bool" where
  \<comment> \<open>pages are aligned, below 4 GiB and not in use already\<close>
  "fresh_pages bs given \<longleftrightarrow> (\<forall>f st a f'. AllocateMaxAddress bs f = ((st, a), f') \<longrightarrow>
     (if EFI_ERROR st then given f' = given f
      else page_aligned a \<and> a < 2 ^ 32 \<and> a \<notin> given f \<and> given f' = insert a (given f)))"

definition stocked :: "'f efi \<Rightarrow> ('f \<Rightarrow> nat) \<Rightarrow> bool" where
  \<comment> \<open>as long as there is stock a page is given, and one page at a time is used up\<close>
  "stocked bs stock \<longleftrightarrow> (\<forall>f. 0 < stock f \<longrightarrow>
     (case AllocateMaxAddress bs f of ((st, a), f') \<Rightarrow> \<not> EFI_ERROR st \<and> a \<noteq> 0 \<and> stock f \<le> Suc (stock f')))"

lemma alloc_page_view:
  assumes "fresh_pages bs given" "alloc_page bs s = (n, s')" "n \<noteq> 0"
  shows "page_aligned n" "n < 2 ^ 32" "n \<notin> given (fw s)" "given (fw s') = insert n (given (fw s))"
    "view s' = (view s)(phys_to_virt n := \<lambda>_. 0)"
proof -
  obtain st a f where a: "AllocateMaxAddress bs (fw s) = ((st, a), f)" by (metis surj_pair)
  have e: "\<not> EFI_ERROR st" "n = a" "s' = s\<lparr>fw := f, umem := memset a 0 4096 (umem s)\<rparr>"
    using assms(2,3) a by (auto simp: alloc_page_def split: if_splits)
  show f: "page_aligned n" "n < 2 ^ 32" "n \<notin> given (fw s)" "given (fw s') = insert n (given (fw s))"
    using assms(1) a e by (auto simp: fresh_pages_def split: if_splits)
  have "page_aligned (phys_to_virt a)" using f(1) e(2) by (simp add: page_aligned_virt)
  then show "view s' = (view s)(phys_to_virt n := \<lambda>_. 0)"
    using e slots_memset [of "phys_to_virt a" "direct_map (umem s)"] by (simp add: view_def direct_map_memset)
qed

section \<open>Growing the tree\<close>

definition grown :: "slots \<Rightarrow> u64 \<Rightarrow> (u64 list \<Rightarrow> u64) \<Rightarrow> u64 set \<Rightarrow> bool" where
  \<comment> \<open>a tree of tables among the pages \<open>G\<close>, with the directory entries \<open>M\<close>\<close>
  "grown E r M G \<longleftrightarrow> tree E r \<and> tables E r \<subseteq> phys_to_virt ` G \<and> (\<forall>x. pde E r x = M (vregion x)) \<and>
     (\<forall>u \<in> tables E r. \<forall>i. E u i < 2 ^ 52)"

lemma bits_3: "bit (3 :: u64) n \<longleftrightarrow> n < 2"
  using bit_mask_iff [of 2 n, where ?'a = "64 word"] by (auto simp: mask_eq_exp_minus_1)

lemma bits_not_FFF: "bit (NOT 0xFFF :: u64) n \<longleftrightarrow> n < 64 \<and> 12 \<le> n"
  by (simp only: bit_not_iff bits_FFF possible_bit_word) auto

lemma boot_entry:
  assumes "page_aligned n" "n < 2 ^ 32"
  shows "table_of (n OR PAGE_PRESENT OR PAGE_WRITE) = phys_to_virt n" "is_present (n OR PAGE_PRESENT OR PAGE_WRITE)"
    "\<not> is_huge (n OR PAGE_PRESENT OR PAGE_WRITE)" "n OR PAGE_PRESENT OR PAGE_WRITE < 2 ^ 52"
proof -
  have three: "n OR PAGE_PRESENT OR PAGE_WRITE = n OR 3" by (simp add: or.assoc)
  have lo: "\<not> bit n i" if "i < 12" for i using assms(1) that by (simp add: page_aligned_bits)
  have hi: "\<not> bit n i" if "52 \<le> i" for i using assms(2) that word_less_exp_iff_bits [of 32 n] by simp
  have "(n OR 3) AND PTE_ADDR_MASK = n"
    by (rule bit_word_eqI) (use lo hi in \<open>auto simp only: bit_and_iff bit_or_iff bits_addr_mask bits_3 not_less [symmetric]\<close>)
  then show "table_of (n OR PAGE_PRESENT OR PAGE_WRITE) = phys_to_virt n" by (simp only: three table_of_def)
  show "is_present (n OR PAGE_PRESENT OR PAGE_WRITE)" "\<not> is_huge (n OR PAGE_PRESENT OR PAGE_WRITE)"
    using lo unfolding three present_bit huge_bit bit_or_iff bits_3 by simp_all
  have "\<not> bit (n OR 3) i" if "52 \<le> i" for i using hi that unfolding bit_or_iff bits_3 by simp
  then show "n OR PAGE_PRESENT OR PAGE_WRITE < 2 ^ 52" unfolding three using word_less_exp_iff_bits [of 52 "n OR 3"] by simp
qed

lemma grow:
  assumes B: "grown E r M G" and q: "walk E r q = Some t" "length q \<le> 1" and free: "\<not> is_present (E t i)"
    and n: "page_aligned n" "n < 2 ^ 32" "n \<notin> G"
    and E': "E' = put t i (n OR PAGE_PRESENT OR PAGE_WRITE) (E(phys_to_virt n := \<lambda>_. 0))"
  shows "grown E' r M (insert n G)" "walk E' r (q @ [i]) = Some (phys_to_virt n)" "E' (phys_to_virt n) k = 0"
    "u \<noteq> phys_to_virt n \<Longrightarrow> u \<noteq> t \<or> j \<noteq> i \<Longrightarrow> E' u j = E u j"
    "length x \<le> 3 \<Longrightarrow> walk E r x = Some u \<Longrightarrow> walk E' r x = Some u"
proof -
  have T: "tree E r" and tb: "tables E r \<subseteq> phys_to_virt ` G" and pd: "pde E r x = M (vregion x)"
    and bd: "u \<in> tables E r \<Longrightarrow> E u i < 2 ^ 52" for x u i
    using B by (auto simp: grown_def)
  have out: "phys_to_virt n \<notin> tables E r" using tb n(3) by (auto simp: phys_to_virt_inj)
  have q2: "length q \<le> 2" using q(2) by simp
  note e = boot_entry(1-3) [OF n(1,2)] and e4 = boot_entry(4) [OF n(1,2)]
  note I = tree_insert [OF T q(1) q2 free out e E'] and W = walk_insert [OF T q(1) q2 free out e E']
  have tn: "t \<noteq> phys_to_virt n" using tablesI [of q E r t] q out by auto
  have "pde E' r x = M (vregion x)" for x using resolve_insert(3) [OF T q(1) q2 free out e E' q(2)] pd by simp
  moreover have "E' u j < 2 ^ 52" if "u \<in> tables E' r" for u j
    using that I(2) bd e4 by (auto simp: E' put_new)
  ultimately show "grown E' r M (insert n G)" using I tb by (auto simp: grown_def)
  show "walk E' r (q @ [i]) = Some (phys_to_virt n)" using W [of "q @ [i]"] q(2) by simp
  show "E' (phys_to_virt n) k = 0" using tn by (simp add: E' put_new)
  show "E' u j = E u j" if "u \<noteq> phys_to_virt n" "u \<noteq> t \<or> j \<noteq> i" using that by (auto simp: E' put_new)
  have "walk E r (q @ [i]) = None" using q free by (simp add: walk_snoc child_def)
  then show "walk E' r x = Some u" if "length x \<le> 3" "walk E r x = Some u" using W [OF that(1)] that(2) by auto
qed

lemma add_table_grows:
  assumes fr: "fresh_pages bs given" and run: "add_table bs t i s = (Some n, s')"
    and B: "grown (view s) r M (given (fw s))" and q: "walk (view s) r q = Some (phys_to_virt t)" "length q \<le> 1"
    and np: "\<not> is_present (view s (phys_to_virt t) i)" and i: "i < 512"
  shows "grown (view s') r M (given (fw s'))" "walk (view s') r (q @ [i]) = Some (phys_to_virt n)"
    "view s' (phys_to_virt n) k = 0" "n \<notin> given (fw s)" "given (fw s') = insert n (given (fw s))" "page_aligned n"
    "u \<noteq> phys_to_virt n \<Longrightarrow> u \<noteq> phys_to_virt t \<or> j \<noteq> i \<Longrightarrow> view s' u j = view s u j"
    "length x \<le> 3 \<Longrightarrow> walk (view s) r x = Some u \<Longrightarrow> walk (view s') r x = Some u"
proof -
  obtain s1 where a: "alloc_page bs s = (n, s1)" "n \<noteq> 0" "s' = write_entry t i (n OR PAGE_PRESENT OR PAGE_WRITE) s1"
    using run by (auto simp: add_table_def Let_def split: prod.splits if_splits)
  note v = alloc_page_view [OF fr a(1,2)]
  have t: "page_aligned t" using table_aligned [OF _ q(1)] B by (auto simp: grown_def page_aligned_virt)
  have f: "fw s' = fw s1" by (simp add: a(3) write_entry_def)
  have E': "view s' = put (phys_to_virt t) i (n OR PAGE_PRESENT OR PAGE_WRITE) ((view s)(phys_to_virt n := \<lambda>_. 0))"
    using view_write [OF t i, of "n OR PAGE_PRESENT OR PAGE_WRITE" s1] v(5) a(3) by simp
  note g = grow [OF B q np v(1-3) E']
  show "grown (view s') r M (given (fw s'))" using g(1) v(4) f by simp
  show "walk (view s') r (q @ [i]) = Some (phys_to_virt n)" "view s' (phys_to_virt n) k = 0" by (rule g(2), rule g(3))
  show "n \<notin> given (fw s)" "given (fw s') = insert n (given (fw s))" "page_aligned n" using v f by simp_all
  show "view s' u j = view s u j" if "u \<noteq> phys_to_virt n" "u \<noteq> phys_to_virt t \<or> j \<noteq> i" using g(4) that .
  show "walk (view s') r x = Some u" if "length x \<le> 3" "walk (view s) r x = Some u" using g(5) that .
qed

lemma set_leaf:
  assumes B: "grown E r M G" and w: "walk E r [i4, i3] = Some pd" and va: "vregion va = [i4, i3, i2]"
    and free: "\<not> is_present (E pd i2)" and v: "is_present v" "is_huge v" "v < 2 ^ 52" and E': "E' = put pd i2 v E"
  shows "grown E' r (M([i4, i3, i2] := v)) G" "length x \<le> 3 \<Longrightarrow> walk E' r x = walk E r x"
proof -
  have ix: "PML4_INDEX va = i4" "PDPT_INDEX va = i3" "PD_INDEX va = i2" using va by (simp_all add: vregion_def)
  have T: "tree E r" using B by (simp add: grown_def)
  have "\<not> is_present (pde E r va)" using w free by (simp add: pde_def ix del: walk.simps)
  note H = huge_leaf [OF T _ this v(1,2), unfolded ix, OF w E']
  have vr: "vregion va = [i4, i3, i2]" by (rule va)
  have "pde E' r x = (M([i4, i3, i2] := v)) (vregion x)" for x
    using H(4) [of x] B by (simp add: grown_def vr)
  moreover have "\<forall>u \<in> tables E' r. \<forall>i. E' u i < 2 ^ 52" using H(2) B v(3) by (auto simp: grown_def E' put_apply)
  ultimately show "grown E' r (M([i4, i3, i2] := v)) G" using H(1,2) B by (simp add: grown_def)
  show "length x \<le> 3 \<Longrightarrow> walk E' r x = walk E r x" by (rule H(5))
qed


section \<open>Filling a directory\<close>

lemma index_of_nat:
  assumes "k < 512"
  shows "(of_nat k :: u64) < 512" "j < 512 \<Longrightarrow> (of_nat k :: u64) = of_nat j \<longleftrightarrow> k = j"
proof -
  have u: "unat (of_nat j :: u64) = j" if "j < 512" for j using that by (simp add: unat_of_nat take_bit_nat_eq_self)
  show "(of_nat k :: u64) < 512" using assms by (simp add: word_less_nat_alt u)
  show "(of_nat k :: u64) = of_nat j \<longleftrightarrow> k = j" if "j < 512" using u [OF assms] u [OF that] by metis
qed

fun set_leaves :: "u64 \<Rightarrow> u64 \<Rightarrow> (nat \<Rightarrow> u64) \<Rightarrow> nat list \<Rightarrow> (u64 list \<Rightarrow> u64) \<Rightarrow> u64 list \<Rightarrow> u64" where
  "set_leaves i4 i3 v [] M = M"
| "set_leaves i4 i3 v (k # ks) M = set_leaves i4 i3 v ks (M([i4, i3, of_nat k] := v k))"

definition same_walks :: "slots \<Rightarrow> slots \<Rightarrow> u64 \<Rightarrow> bool" where
  "same_walks E E' r \<longleftrightarrow> (\<forall>x. length x \<le> 3 \<longrightarrow> walk E' r x = walk E r x)"

lemma same_walksD: "same_walks E E' r \<Longrightarrow> length x \<le> 3 \<Longrightarrow> walk E' r x = walk E r x"
  by (simp add: same_walks_def)

lemma fill_directory:
  assumes "grown (view s) r M (given (fw s))" "walk (view s) r [i4, i3] = Some (phys_to_virt pd)" "b \<le> 512"
    and "\<And>k. a \<le> k \<Longrightarrow> k < 512 \<Longrightarrow> view s (phys_to_virt pd) (of_nat k) = 0"
    and "\<And>k. a \<le> k \<Longrightarrow> k < b \<Longrightarrow> vregion (va k) = [i4, i3, of_nat k] \<and> is_present (v k) \<and> is_huge (v k) \<and> v k < 2 ^ 52"
    and "s' = fold (\<lambda>k. write_entry pd (of_nat k) (v k)) [a..<b] s"
  shows "grown (view s') r (set_leaves i4 i3 v [a..<b] M) (given (fw s')) \<and> fw s' = fw s \<and>
    (\<forall>u. u \<noteq> phys_to_virt pd \<longrightarrow> view s' u = view s u) \<and> same_walks (view s) (view s') r"
  using assms
proof (induction "b - a" arbitrary: a s M)
  case 0
  then show ?case by (simp add: same_walks_def)
next
  case (Suc n)
  have ab: "a < b" "[a..<b] = a # [Suc a..<b]" using Suc.hyps(2) by (simp_all add: upt_conv_Cons)
  have pd: "page_aligned pd" using table_aligned [OF _ Suc.prems(2)] Suc.prems(1) by (auto simp: grown_def page_aligned_virt)
  define s1 where "s1 = write_entry pd (of_nat a) (v a) s"
  have a: "a < 512" using ab(1) Suc.prems(3) by simp
  have E': "view s1 = put (phys_to_virt pd) (of_nat a) (v a) (view s)"
    unfolding s1_def by (rule view_write [OF pd index_of_nat(1) [OF a]])
  have np: "\<not> is_present (view s (phys_to_virt pd) (of_nat a))" using Suc.prems(4) [of a] a by simp
  have v: "vregion (va a) = [i4, i3, of_nat a]" "is_present (v a)" "is_huge (v a)" "v a < 2 ^ 52" using Suc.prems(5) [of a] ab(1) by auto
  note L = set_leaf [OF Suc.prems(1,2) v(1) np v(2-4) E']
  have w: "same_walks (view s) (view s1) r" using L(2) by (simp add: same_walks_def)
  have f: "fw s1 = fw s" by (simp add: s1_def write_entry_def)
  have "grown (view s') r (set_leaves i4 i3 v [Suc a..<b] (M([i4, i3, of_nat a] := v a))) (given (fw s')) \<and> fw s' = fw s1 \<and>
    (\<forall>u. u \<noteq> phys_to_virt pd \<longrightarrow> view s' u = view s1 u) \<and> same_walks (view s1) (view s') r"
  proof (rule Suc.hyps(1))
    show "n = b - Suc a" using Suc.hyps(2) by simp
    show "grown (view s1) r (M([i4, i3, of_nat a] := v a)) (given (fw s1))" using L(1) f by simp
    show "walk (view s1) r [i4, i3] = Some (phys_to_virt pd)" using same_walksD [OF w, of "[i4, i3]"] Suc.prems(2) by (simp del: walk.simps)
    show "view s1 (phys_to_virt pd) (of_nat k) = 0" if "Suc a \<le> k" "k < 512" for k
      using Suc.prems(4) [of k] that index_of_nat(2) [OF a that(2)] by (auto simp: E' put_apply)
    show "s' = fold (\<lambda>k. write_entry pd (of_nat k) (v k)) [Suc a..<b] s1" using Suc.prems(6) ab(2) by (simp add: s1_def)
  qed (use Suc.prems(3,5) in auto)
  moreover have "view s1 u = view s u" if "u \<noteq> phys_to_virt pd" for u using that by (auto simp: E' put_apply fun_eq_iff)
  ultimately show ?case using w f ab(2) by (auto simp: same_walks_def simp del: fun_upd_apply)
qed

section \<open>The direct map\<close>

definition hreg :: "nat \<Rightarrow> u64 list" where
  \<comment> \<open>where the entry of the \<open>n\<close>-th 2 MiB of memory is\<close>
  "hreg n = [256 + of_nat (n div 2 ^ 18), of_nat (n div 512 mod 512), of_nat (n mod 512)]"

definition hent :: "nat \<Rightarrow> u64" where
  "hent n = of_nat n * 2 * 1024 * 1024 OR PAGE_PRESENT OR PAGE_WRITE OR PAGE_HUGE"

fun lmap :: "(nat \<Rightarrow> u64 list) \<Rightarrow> nat list \<Rightarrow> (u64 list \<Rightarrow> u64) \<Rightarrow> u64 list \<Rightarrow> u64" where
  \<comment> \<open>the directory entries after the \<open>n\<close>-th 2 MiB of memory has been mapped at \<open>reg n\<close>, for each \<open>n\<close> in turn\<close>
  "lmap reg [] M = M"
| "lmap reg (n # ns) M = lmap reg ns (M(reg n := hent n))"

lemma lmap_append: "lmap reg (xs @ ys) M = lmap reg ys (lmap reg xs M)"
  by (induction xs arbitrary: M) simp_all

lemma fill_pd_writes:
  assumes "k + d = 512" "n \<le> tot" "tot < 2 ^ 60"
  shows "fill_pd [k..<512] pd (of_nat n) (of_nat tot) s =
    (of_nat (min tot (n + d)), fold (\<lambda>i. write_entry pd (of_nat i) (hent (n + i - k))) [k..<k + (min tot (n + d) - n)] s)"
  using assms
proof (induction d arbitrary: k n s)
  case 0
  then show ?case by simp
next
  case (Suc d)
  have k: "[k..<512] = k # [Suc k..<512]" using Suc.prems(1) by (simp add: upt_conv_Cons)
  have u: "unat (of_nat n :: u64) = n" "unat (of_nat tot :: u64) = tot"
    using Suc.prems(2,3) by (simp_all add: unat_of_nat take_bit_nat_eq_self)
  show ?case
  proof (cases "n = tot")
    case True
    then show ?thesis by (simp add: k)
  next
    case False
    then have lt: "n < tot" using Suc.prems(2) by simp
    then have c: "\<not> (of_nat tot :: u64) \<le> of_nat n" by (simp add: word_le_nat_alt u)
    define m where "m = min tot (Suc n + d)"
    have m: "min tot (n + Suc d) = m" "m - n = Suc (m - Suc n)" using lt by (auto simp: m_def)
    have f: "[k..<k + (m - n)] = k # [Suc k..<Suc k + (m - Suc n)]" unfolding m(2) by (simp add: upt_conv_Cons)
    let ?s = "write_entry pd (of_nat k) (hent n) s"
    have "fill_pd [k..<512] pd (of_nat n) (of_nat tot) s = fill_pd [Suc k..<512] pd (of_nat (Suc n)) (of_nat tot) ?s"
      using c by (simp add: k hent_def add.commute)
    also have "\<dots> = (of_nat m, fold (\<lambda>i. write_entry pd (of_nat i) (hent (Suc n + i - Suc k))) [Suc k..<Suc k + (m - Suc n)] ?s)"
      unfolding m_def by (rule Suc.IH) (use Suc.prems lt in auto)
    finally show ?thesis unfolding m(1) f by simp
  qed
qed


lemma index_nat:
  "PML4_INDEX x = of_nat (unat x div 2 ^ 39 mod 512)" "PDPT_INDEX x = of_nat (unat x div 2 ^ 30 mod 512)"
  "PD_INDEX x = of_nat (unat x div 2 ^ 21 mod 512)"
proof -
  have m: "(0x1FF :: u64) = mask 9" by (simp add: mask_eq_exp_minus_1)
  have "drop_bit k x AND 0x1FF = of_nat (unat x div 2 ^ k mod 512)" for k
  proof -
    have "unat (drop_bit k x AND 0x1FF) = unat x div 2 ^ k mod 512"
      unfolding m by (simp only: take_bit_eq_mask [symmetric] unsigned_take_bit_eq unsigned_drop_bit_eq)
        (use unat_less_64 [of x] in \<open>simp add: take_bit_eq_mod drop_bit_eq_div\<close>)
    then show ?thesis by (metis of_nat_unat ucast_id)
  qed
  then show "PML4_INDEX x = of_nat (unat x div 2 ^ 39 mod 512)" "PDPT_INDEX x = of_nat (unat x div 2 ^ 30 mod 512)"
    "PD_INDEX x = of_nat (unat x div 2 ^ 21 mod 512)" unfolding PML4_INDEX_def PDPT_INDEX_def PD_INDEX_def by blast+
qed

lemma unat_virt: "p < 2 ^ 47 \<Longrightarrow> unat (phys_to_virt p) = 0xFFFF800000000000 + unat p"
  by (simp add: phys_to_virt_def word_less_nat_alt unat_word_ariths)

lemma virt_region:
  assumes "p < 2 ^ 47"
  shows "vregion (phys_to_virt p) = hreg (unat p div 2 ^ 21)"
proof -
  have p: "unat p < 2 ^ 47" using assms by (simp add: word_less_nat_alt)
  have "(0xFFFF800000000000 + unat p) div 2 ^ 39 = 33554176 + unat p div 2 ^ 39"
    using div_mult_self4 [of "2 ^ 39" 33554176 "unat p"] by simp
  moreover have "unat p div 2 ^ 39 < 256" using p by (simp add: less_mult_imp_div_less)
  moreover have "(33554176 + q) mod 512 = 256 + q" if "q < 256" for q :: nat
    using mod_mult_self4 [of 512 65535 "256 + q"] that by simp
  ultimately have "(0xFFFF800000000000 + unat p) div 2 ^ 39 mod 512 = 256 + unat p div 2 ^ 39" by simp
  moreover have g: "(2 ^ k * (512 * q) + unat p) div 2 ^ k mod 512 = unat p div 2 ^ k mod 512" for k q by simp
  have "(0xFFFF800000000000 + unat p) div 2 ^ 30 mod 512 = unat p div 2 ^ 30 mod 512"
    "(0xFFFF800000000000 + unat p) div 2 ^ 21 mod 512 = unat p div 2 ^ 21 mod 512" using g [of 30 33554176] g [of 21 17179738112] by simp_all
  ultimately show ?thesis unfolding vregion_def hreg_def index_nat unat_virt [OF assms] by (simp add: div_mult2_eq [symmetric])
qed

lemma hreg_region: "n < 2 ^ 26 \<Longrightarrow> vregion (phys_to_virt (of_nat (n * 2 ^ 21))) = hreg n"
proof -
  assume n: "n < 2 ^ 26"
  have u: "unat (of_nat (n * 2 ^ 21) :: u64) = n * 2 ^ 21" using n by (simp only: unat_of_nat) (simp add: take_bit_nat_eq_self)
  have "(of_nat (n * 2 ^ 21) :: u64) < 2 ^ 47" unfolding word_less_nat_alt u using n by simp
  from virt_region [OF this] show ?thesis unfolding u by simp
qed

lemma hent_bits: "is_present (hent n)" "is_huge (hent n)"
  by (simp_all add: hent_def present_bit huge_bit bit_or_iff)

lemma or_less_52:
  assumes "a < 2 ^ 52" "b < 2 ^ 52"
  shows "a OR b < (2 ^ 52 :: u64)"
proof -
  have "\<forall>n \<ge> 52. \<not> bit (a OR b) n"
    using assms word_less_exp_iff_bits [of 52 a] word_less_exp_iff_bits [of 52 b] by (simp add: bit_or_iff)
  then show ?thesis using word_less_exp_iff_bits [of 52 "a OR b"] by simp
qed

lemma hent_less: "n < 2 ^ 30 \<Longrightarrow> hent n < 2 ^ 52"
proof -
  assume n: "n < 2 ^ 30"
  then have "unat (of_nat n * 2 * 1024 * 1024 :: u64) < 2 ^ 52"
    by (simp add: unat_word_ariths unat_of_nat take_bit_nat_eq_self)
  then have a: "(of_nat n * 2 * 1024 * 1024 :: u64) < 2 ^ 52" by (simp add: word_less_nat_alt)
  show ?thesis unfolding hent_def by (rule or_less_52 [OF a]) simp
qed

lemma hreg_split:
  assumes "n mod 512 = 0" "k < 512"
  shows "hreg (n + k) = [256 + of_nat (n div 2 ^ 18), of_nat (n div 512 mod 512), of_nat k]"
proof -
  obtain q where q: "n = 512 * q" using assms(1) by auto
  have "(n + k) div 512 = q" "(n + k) mod 512 = k" using assms(2) q by simp_all
  moreover have "(n + k) div 2 ^ 18 = (n + k) div 512 div 512" "n div 2 ^ 18 = n div 512 div 512" by (simp_all add: div_mult2_eq [symmetric])
  ultimately show ?thesis using q by (simp add: hreg_def)
qed

lemma set_leaves_lmap:
  assumes "\<And>k. k < b \<Longrightarrow> reg (n + k) = [i4, i3, of_nat k]"
  shows "set_leaves i4 i3 (\<lambda>k. hent (n + k)) [a..<b] M = lmap reg [n + a..<n + b] M"
proof (induction "b - a" arbitrary: a M)
  case (Suc d)
  then have "[a..<b] = a # [Suc a..<b]" "[n + a..<n + b] = (n + a) # [n + Suc a..<n + b]" by (simp_all add: upt_conv_Cons)
  then show ?case using assms [of a] Suc.hyps(1) [of "Suc a" "M(reg (n + a) := hent (n + a))"] Suc.hyps(2) by (simp del: fun_upd_apply)
qed simp

lemma set_leaves_hmap:
  assumes "n mod 512 = 0" "b \<le> 512"
  shows "set_leaves (256 + of_nat (n div 2 ^ 18)) (of_nat (n div 512 mod 512)) (\<lambda>k. hent (n + k)) [a..<b] M = lmap hreg [n + a..<n + b] M"
  by (rule set_leaves_lmap) (use hreg_split [OF assms(1)] assms(2) in simp)

definition grown_from :: "u64 set \<Rightarrow> 'f loader \<Rightarrow> 'f loader \<Rightarrow> u64 set \<Rightarrow> u64 \<Rightarrow> bool" where
  \<comment> \<open>tables in \<open>G\<close> other than those in \<open>X\<close> keep their entries, and nothing moves\<close>
  "grown_from X s s' G r \<longleftrightarrow> (\<forall>u \<in> phys_to_virt ` G - X. view s' u = view s u) \<and>
     (\<forall>x u. length x \<le> 3 \<longrightarrow> walk (view s) r x = Some u \<longrightarrow> walk (view s') r x = Some u)"

lemma grown_from_refl: "grown_from X s s G r" by (simp add: grown_from_def)

lemma grown_from_trans:
  "grown_from X s s1 G r \<Longrightarrow> grown_from Y s1 s2 G' r \<Longrightarrow> G \<subseteq> G' \<Longrightarrow> phys_to_virt ` G \<inter> Y \<subseteq> X \<Longrightarrow> grown_from X s s2 G r"
  unfolding grown_from_def by (metis (no_types, lifting) DiffD1 DiffD2 DiffI IntI image_mono subsetD)

lemma add_table_from:
  assumes "fresh_pages bs given" "add_table bs t i s = (Some n, s')" "grown (view s) r M (given (fw s))"
    "walk (view s) r q = Some (phys_to_virt t)" "length q \<le> 1" "\<not> is_present (view s (phys_to_virt t) i)" "i < 512"
  shows "grown_from {phys_to_virt t} s s' (given (fw s)) r"
proof -
  note g = add_table_grows [OF assms]
  have "view s' u = view s u" if u: "u \<in> phys_to_virt ` given (fw s) - {phys_to_virt t}" for u
  proof
    have "u \<noteq> phys_to_virt n" using u g(4) by (auto simp: phys_to_virt_inj)
    then show "view s' u j = view s u j" for j using g(7) u by auto
  qed
  then show ?thesis using g(8) by (simp add: grown_from_def)
qed

lemma hhdm_pd:
  assumes fr: "fresh_pages bs given" and B: "grown (view s) r M (given (fw s))"
    and n: "n mod 512 = 0" "n < tot" "tot < 2 ^ 26" and j: "j = n div 512 mod 512"
    and w: "walk (view s) r [256 + of_nat (n div 2 ^ 18)] = Some (phys_to_virt pdpt)" and z: "view s (phys_to_virt pdpt) (of_nat j) = 0"
    and run: "add_table bs pdpt (of_nat j) s = (Some pd, s1)" "fill_pd [0..<512] pd (of_nat n) (of_nat tot) s1 = (c, s2)"
  shows "c = of_nat (min tot (n + 512))" "grown (view s2) r (lmap hreg [n..<min tot (n + 512)] M) (given (fw s2))"
    "grown_from {phys_to_virt pdpt} s s2 (given (fw s)) r" "given (fw s) \<subseteq> given (fw s2)"
    "j < k \<Longrightarrow> k < 512 \<Longrightarrow> view s2 (phys_to_virt pdpt) (of_nat k) = view s (phys_to_virt pdpt) (of_nat k)"
proof -
  have j5: "j < 512" using j by simp
  note i = index_of_nat(1) [OF j5]
  have w1: "length [256 + of_nat (n div 2 ^ 18) :: u64] \<le> 1" by simp
  have np: "\<not> is_present (view s (phys_to_virt pdpt) (of_nat j))" using z by simp
  note g = add_table_grows [OF fr run(1) B w w1 np i]
  let ?n = "min tot (n + 512)"
  have s2: "c = of_nat ?n" "s2 = fold (\<lambda>i. write_entry pd (of_nat i) (hent (n + i))) [0..<?n - n] s1"
    using fill_pd_writes [of 0 512 n tot pd s1] n run(2) by simp_all
  show "c = of_nat ?n" by (rule s2)
  have le: "?n - n \<le> 512" by simp
  have "grown (view s2) r (set_leaves (256 + of_nat (n div 2 ^ 18)) (of_nat j) (\<lambda>k. hent (n + k)) [0..<?n - n] M) (given (fw s2)) \<and>
      fw s2 = fw s1 \<and> (\<forall>u. u \<noteq> phys_to_virt pd \<longrightarrow> view s2 u = view s1 u) \<and> same_walks (view s1) (view s2) r"
  proof (rule fill_directory [where given = given and s = s1 and va = "\<lambda>k. phys_to_virt (of_nat ((n + k) * 2 ^ 21))"])
    show "walk (view s1) r [256 + of_nat (n div 2 ^ 18), of_nat j] = Some (phys_to_virt pd)" using g(2) by simp
    show "view s1 (phys_to_virt pd) (of_nat k) = 0" if "0 \<le> k" "k < 512" for k by (rule g(3))
    show "vregion (phys_to_virt (of_nat ((n + k) * 2 ^ 21))) = [256 + of_nat (n div 2 ^ 18), of_nat j, of_nat k] \<and>
        is_present (hent (n + k)) \<and> is_huge (hent (n + k)) \<and> hent (n + k) < 2 ^ 52" if "0 \<le> k" "k < ?n - n" for k
      using hreg_region [of "n + k"] hreg_split [OF n(1), of k] that n(2,3) hent_bits hent_less [of "n + k"] j by simp
  qed (use g(1) le s2 in auto)
  then have f: "grown (view s2) r (set_leaves (256 + of_nat (n div 2 ^ 18)) (of_nat j) (\<lambda>k. hent (n + k)) [0..<?n - n] M) (given (fw s2))"
      "fw s2 = fw s1" "\<And>u. u \<noteq> phys_to_virt pd \<Longrightarrow> view s2 u = view s1 u" "same_walks (view s1) (view s2) r" by blast+
  then show "grown (view s2) r (lmap hreg [n..<?n] M) (given (fw s2))"
    using set_leaves_hmap [OF n(1) le, of 0 M] n(2) j by simp
  have ne: "pd \<notin> given (fw s)" using g(4) .
  have "grown_from {phys_to_virt pd} s1 s2 (given (fw s1)) r"
    using f(3,4) by (auto simp: grown_from_def same_walks_def)
  then show "grown_from {phys_to_virt pdpt} s s2 (given (fw s)) r"
  proof (rule grown_from_trans [OF add_table_from [OF fr run(1) B w w1 np i]])
    show "phys_to_virt ` given (fw s) \<inter> {phys_to_virt pd} \<subseteq> {phys_to_virt pdpt}" using ne by (auto simp: phys_to_virt_inj)
  qed (use g(5) in auto)
  show "given (fw s) \<subseteq> given (fw s2)" using g(5) f(2) by auto
  have "phys_to_virt pdpt \<in> tables (view s) r" using w by (auto intro: tablesI [of "[256 + of_nat (n div 2 ^ 18)]"])
  then have "pdpt \<in> given (fw s)" using B by (auto simp: grown_def phys_to_virt_inj)
  then have "phys_to_virt pdpt \<noteq> phys_to_virt pd" using ne by (auto simp: phys_to_virt_inj)
  then show "view s2 (phys_to_virt pdpt) (of_nat k) = view s (phys_to_virt pdpt) (of_nat k)" if "j < k" "k < 512"
    using f(3) g(7) [of "phys_to_virt pdpt" "of_nat k"] index_of_nat(2) [OF that(2) j5] that by auto
qed


lemma table_given: "grown E r M G \<Longrightarrow> walk E r q = Some (phys_to_virt t) \<Longrightarrow> length q \<le> 3 \<Longrightarrow> t \<in> G"
  by (auto simp: grown_def phys_to_virt_inj dest!: tablesI)

lemma hhdm_pdpt:
  assumes fr: "fresh_pages bs given" and B: "grown (view s) r M (given (fw s))"
    and d: "d = i * 512 + j" "j + e = 512" "d \<le> D" "D = (tot + 511) div 512" "tot < 2 ^ 26" "n = min tot (d * 512)"
    and w: "walk (view s) r [256 + of_nat i] = Some (phys_to_virt pdpt)"
    and z: "\<And>k. j \<le> k \<Longrightarrow> k < 512 \<Longrightarrow> view s (phys_to_virt pdpt) (of_nat k) = 0"
    and run: "fill_pdpt [j..<512] bs pdpt (of_nat d) (of_nat n) (of_nat D) (of_nat tot) s = (Some (x, y), s')"
  shows "x = of_nat (min D (i * 512 + 512)) \<and> y = of_nat (min tot (min D (i * 512 + 512) * 512)) \<and>
    grown (view s') r (lmap hreg [n..<min tot (min D (i * 512 + 512) * 512)] M) (given (fw s')) \<and>
    grown_from {phys_to_virt pdpt} s s' (given (fw s)) r \<and> given (fw s) \<subseteq> given (fw s')"
  using B d w z run
proof (induction e arbitrary: d j n s M)
  case 0
  then show ?case by (auto simp: min_def grown_from_refl split: if_splits)
next
  case (Suc e)
  have j: "j < 512" "[j..<512] = j # [Suc j..<512]" using Suc.prems(3) by (simp_all add: upt_conv_Cons)
  have uD: "unat (of_nat D :: u64) = D" "unat (of_nat d :: u64) = d"
    using Suc.prems(4-6) by (simp_all add: unat_of_nat take_bit_nat_eq_self)
  show ?case
  proof (cases "d = D")
    case True
    have "min D (i * 512 + 512) = D" using True Suc.prems(2) j(1) by simp
    moreover have "tot \<le> D * 512" using Suc.prems(5) by simp
    then have "n = tot" using True Suc.prems(7) by (simp add: min_def)
    moreover have "(x, y) = (of_nat d, of_nat n)" "s' = s" using Suc.prems(10) True by (simp_all add: j(2))
    ultimately show ?thesis using True Suc.prems(1) \<open>tot \<le> D * 512\<close> by (simp add: grown_from_refl min_def)
  next
    case False
    then have lt: "d < D" using Suc.prems(4) by simp
    have dn: "d * 512 < tot" using lt Suc.prems(5) by simp
    then have n: "n = d * 512" using Suc.prems(7) by simp
    have c: "\<not> (of_nat D :: u64) \<le> of_nat d" using lt by (simp add: word_le_nat_alt uD)
    obtain pd s1 where a: "add_table bs pdpt (of_nat j) s = (Some pd, s1)"
      using Suc.prems(10) c by (auto simp: j(2) split: prod.splits option.splits)
    obtain c' s2 where f: "fill_pd [0..<512] pd (of_nat n) (of_nat tot) s1 = (c', s2)" by (metis surj_pair)
    have ij: "n div 512 mod 512 = j" "n div 2 ^ 18 = i" using Suc.prems(2) j(1) n by (simp_all add: div_mult2_eq)
    have wn: "walk (view s) r [256 + of_nat (n div 2 ^ 18)] = Some (phys_to_virt pdpt)" using Suc.prems(8) ij(2) by simp
    have n0: "n mod 512 = 0" "n < tot" using n dn by simp_all
    note P = hhdm_pd [OF fr Suc.prems(1) n0 Suc.prems(6) ij(1) [symmetric] wn Suc.prems(9) [OF le_refl j(1)] a f]
    define n1 where "n1 = min tot (n + 512)"
    have n1: "n1 = min tot (Suc d * 512)" using n by (simp add: n1_def add.commute)
    have "x = of_nat (min D (i * 512 + 512)) \<and> y = of_nat (min tot (min D (i * 512 + 512) * 512)) \<and>
      grown (view s') r (lmap hreg [n1..<min tot (min D (i * 512 + 512) * 512)] (lmap hreg [n..<n1] M)) (given (fw s')) \<and>
      grown_from {phys_to_virt pdpt} s2 s' (given (fw s2)) r \<and> given (fw s2) \<subseteq> given (fw s')"
    proof (rule Suc.IH [OF _ _ _ _ Suc.prems(5,6) n1])
      show "grown (view s2) r (lmap hreg [n..<n1] M) (given (fw s2))" using P(2) by (simp add: n1_def)
      show "walk (view s2) r [256 + of_nat i] = Some (phys_to_virt pdpt)"
        using P(3) Suc.prems(8) unfolding grown_from_def by (metis One_nat_def length_Cons list.size(3) one_le_numeral)
      show "view s2 (phys_to_virt pdpt) (of_nat k) = 0" if "Suc j \<le> k" "k < 512" for k using P(5) [of k] Suc.prems(9) [of k] that by simp
      show "fill_pdpt [Suc j..<512] bs pdpt (of_nat (Suc d)) (of_nat n1) (of_nat D) (of_nat tot) s2 = (Some (x, y), s')"
        using Suc.prems(10) c a f P(1) by (simp add: j(2) n1_def add.commute)
    qed (use Suc.prems lt in auto)
    moreover have "n \<le> n1" "n1 \<le> min tot (min D (i * 512 + 512) * 512)"
      using n0(2) lt Suc.prems(2) j(1) unfolding n1 by (auto simp: n min_def)
    then have "[n..<min tot (min D (i * 512 + 512) * 512)] = [n..<n1] @ [n1..<min tot (min D (i * 512 + 512) * 512)]"
      by (metis le_Suc_ex upt_add_eq_append)
    ultimately show ?thesis using P(3,4) grown_from_trans [OF P(3) _ P(4)] by (auto simp: lmap_append)
  qed
qed


lemma hhdm_all:
  assumes fr: "fresh_pages bs given" and B: "grown (view s) (phys_to_virt pml4) M (given (fw s))"
    and d: "i + e = 256" "i \<le> P" "P = (D + 511) div 512" "P < 256" "D = (tot + 511) div 512" "tot < 2 ^ 26"
      "d = min D (i * 512)" "n = min tot (d * 512)"
    and z: "\<And>k. i \<le> k \<Longrightarrow> k < 256 \<Longrightarrow> view s (phys_to_virt pml4) (256 + of_nat k) = 0"
    and run: "fill_hhdm [i..<256] bs pml4 (of_nat d) (of_nat n) (of_nat P) (of_nat D) (of_nat tot) s = (True, s')"
  shows "grown (view s') (phys_to_virt pml4) (lmap hreg [n..<tot] M) (given (fw s')) \<and>
    view s' (phys_to_virt pml4) 511 = view s (phys_to_virt pml4) 511"
  using B d z run
proof (induction e arbitrary: d i n s M)
  case 0
  then show ?case by simp
next
  case (Suc e)
  let ?r = "phys_to_virt pml4"
  have i: "i < 256" "[i..<256] = i # [Suc i..<256]" using Suc.prems(2) by (simp_all add: upt_conv_Cons)
  have u: "unat (of_nat P :: u64) = P" "unat (of_nat i :: u64) = i" using Suc.prems(5) i(1) by (simp_all add: unat_of_nat take_bit_nat_eq_self)
  show ?case
  proof (cases "i = P")
    case True
    have "D \<le> P * 512" "tot \<le> D * 512" using Suc.prems(4,6) by simp_all
    then have "n = tot" using True Suc.prems(8,9) by (simp add: min_def)
    moreover have "[P..<256] = P # [Suc P..<256]" using i(2) True by simp
    ultimately show ?thesis using True Suc.prems(1,11) by simp
  next
    case False
    then have lt: "i < P" using Suc.prems(3) by simp
    have iD: "i * 512 < D" using lt Suc.prems(4) by simp
    then have dd: "d = i * 512 + 0" "d \<le> D" using Suc.prems(8) by simp_all
    have c: "(of_nat i :: u64) < of_nat P" using lt by (simp add: word_less_nat_alt u)
    obtain pdpt s1 where a: "add_table bs pml4 (256 + of_nat i) s = (Some pdpt, s1)"
      using Suc.prems(11) c by (auto simp: i(2) split: prod.splits option.splits)
    obtain x y s2 where f: "fill_pdpt [0..<512] bs pdpt (of_nat d) (of_nat n) (of_nat D) (of_nat tot) s1 = (Some (x, y), s2)"
      and rest: "fill_hhdm [Suc i..<256] bs pml4 x y (of_nat P) (of_nat D) (of_nat tot) s2 = (True, s')"
      using Suc.prems(11) c a by (auto simp: i(2) split: prod.splits option.splits)
    have ix: "(256 + of_nat k :: u64) = of_nat (256 + k)" for k by simp
    have i5: "(256 + of_nat i :: u64) < 512" unfolding ix by (rule index_of_nat(1)) (use i in simp)
    have w: "walk (view s) ?r [] = Some ?r" by simp
    have z0: "\<not> is_present (view s ?r (256 + of_nat i))" using Suc.prems(10) [of i] i(1) by simp
    note g = add_table_grows [OF fr a Suc.prems(1) w _ z0 i5]
    have w1: "walk (view s1) ?r [256 + of_nat i] = Some (phys_to_virt pdpt)" using g(2) by simp
    have "0 + 512 = (512 :: nat)" by simp
    note P = hhdm_pdpt [OF fr g(1) dd(1) this dd(2) Suc.prems(6,7,9) w1 _ f]
    let ?d = "min D (Suc i * 512)" let ?n = "min tot (?d * 512)"
    have e: "i * 512 + 512 = Suc i * 512" by simp
    have P': "x = of_nat ?d" "y = of_nat ?n" "grown (view s2) ?r (lmap hreg [n..<?n] M) (given (fw s2))"
      "grown_from {phys_to_virt pdpt} s1 s2 (given (fw s1)) ?r" using P g(3) unfolding e by auto
    have "pml4 \<in> given (fw s)" by (rule table_given [OF Suc.prems(1) w]) simp
    then have "?r \<in> phys_to_virt ` given (fw s1) - {phys_to_virt pdpt}" using g(4,5) by (auto simp: phys_to_virt_inj)
    then have keep: "view s2 ?r k = view s ?r k" if "k \<noteq> 256 + of_nat i" for k
      using P'(4) g(7) [of ?r k] that by (auto simp: grown_from_def)
    have "grown (view s') ?r (lmap hreg [?n..<tot] (lmap hreg [n..<?n] M)) (given (fw s')) \<and> view s' ?r 511 = view s2 ?r 511"
    proof (rule Suc.IH [OF P'(3) _ _ Suc.prems(4-7) refl refl])
      show "view s2 ?r (256 + of_nat k) = 0" if "Suc i \<le> k" "k < 256" for k
      proof -
        have "(256 + of_nat k :: u64) \<noteq> 256 + of_nat i" unfolding ix using that index_of_nat(2) [of "256 + k" "256 + i"] by simp
        then show ?thesis using keep Suc.prems(10) [of k] that by simp
      qed
      show "fill_hhdm [Suc i..<256] bs pml4 (of_nat ?d) (of_nat ?n) (of_nat P) (of_nat D) (of_nat tot) s2 = (True, s')"
        using rest P'(1,2) by simp
    qed (use Suc.prems(2) lt in simp_all)
    moreover have "n \<le> ?n" "?n \<le> tot" using dd iD Suc.prems(9) by (auto simp: min_def)
    then have "[n..<tot] = [n..<?n] @ [?n..<tot]" by (metis le_Suc_ex upt_add_eq_append)
    moreover have "(511 :: u64) \<noteq> 256 + of_nat i"
      unfolding ix using index_of_nat(2) [of 511 "256 + i"] lt Suc.prems(5) by simp
    ultimately show ?thesis using keep [of 511] by (simp add: lmap_append)
  qed
qed

section \<open>A firmware that keeps the contract\<close>

definition simple_firmware :: "nat efi" where
  \<comment> \<open>a firmware that has 100 pages and gives them out in order, pool memory at a place of its own for each size, and
    one region of memory\<close>
  "simple_firmware =
     \<lparr>AllocateMaxAddress = (\<lambda>f. if f < 100 then ((EFI_SUCCESS, of_nat (Suc f) * 4096), Suc f) else ((EFI_OUT_OF_RESOURCES, 0), f)),
      AllocateAddress = (\<lambda>n a f. (EFI_SUCCESS, f)), AllocatePool = (\<lambda>n f. ((EFI_SUCCESS, 0x700000 + 0x1000 * n), f)), FreePool = (\<lambda>a f. f),
      MemoryMapSize = (\<lambda>f. ((EFI_BUFFER_TOO_SMALL, 48, 48), f)), 
      GetMemoryMap = (\<lambda>n f. ((EFI_SUCCESS, [7, 0, 0, 0, 0, 0, 0, 0] @ [0, 0, 16, 0, 0, 0, 0, 0] @ [0, 0, 0, 0, 0, 0, 0, 0] @ [16, 0, 0, 0, 0, 0, 0, 0] @
        [15, 0, 0, 0, 0, 0, 0, 0] @ [0, 0, 0, 0, 0, 0, 0, 0], 7, 48), f)),
      ExitBootServices = (\<lambda>k f. (EFI_SUCCESS, f)), LoadedImage = (EFI_SUCCESS, 0x400000, 0x10000), GraphicsOutput = (EFI_NOT_FOUND, None),
      ACPI_20_TABLE_GUID = (0, 0, 0, 0), ConfigurationTable = [], FileSystem = EFI_SUCCESS, OpenVolume = EFI_SUCCESS,
      OpenFile = EFI_SUCCESS, FileSize = 0, ReadFile = (\<lambda>n f. ((EFI_SUCCESS, []), f))\<rparr>"

lemma simple_firmware_ok:
  "fresh_pages simple_firmware (\<lambda>f. (\<lambda>i. of_nat (Suc i) * 4096) ` {..<min f 100})" "stocked simple_firmware (\<lambda>f. 100 - f)"
proof -
  have u: "unat (of_nat (Suc i) * 4096 :: u64) = Suc i * 4096" if "i < 100" for i
    using that by (simp add: unat_word_ariths unat_of_nat take_bit_nat_eq_self del: of_nat_Suc)
  have "(of_nat (Suc i) * 4096 :: u64) \<noteq> 0" if "i < 100" for i using u [OF that] by (metis mult_is_0 nat.distinct(1) unsigned_0 zero_neq_numeral)
  then show "stocked simple_firmware (\<lambda>f. 100 - f)" by (auto simp: stocked_def simple_firmware_def simp del: of_nat_Suc)
  have pa: "page_aligned (of_nat (Suc i) * 4096)" "(of_nat (Suc i) * 4096 :: u64) < 2 ^ 32" if "i < 100" for i
    unfolding page_aligned_iff word_less_nat_alt u [OF that] using that by simp_all
  have new: "of_nat (Suc f) * 4096 \<notin> (\<lambda>i. of_nat (Suc i) * 4096 :: u64) ` {..<min f 100}" if "f < 100" for f
  proof
    assume "of_nat (Suc f) * 4096 \<in> (\<lambda>i. of_nat (Suc i) * 4096 :: u64) ` {..<min f 100}"
    then obtain i where i: "i < f" "(of_nat (Suc f) * 4096 :: u64) = of_nat (Suc i) * 4096" by auto
    have "Suc f * 4096 = unat (of_nat (Suc i) * 4096 :: u64)" using u [OF that] unfolding i(2) by (rule sym)
    also have "\<dots> = Suc i * 4096" by (rule u) (use i(1) that in simp)
    finally show False using i(1) by simp
  qed
  have ins: "{..<min (Suc f) 100} = insert f {..<min f 100}" if "f < 100" for f :: nat using that by auto
  show "fresh_pages simple_firmware (\<lambda>f. (\<lambda>i. of_nat (Suc i) * 4096) ` {..<min f 100})"
    unfolding fresh_pages_def
  proof (intro allI impI)
    fix f st a f' assume "AllocateMaxAddress simple_firmware f = ((st, a), f')"
    then show "if EFI_ERROR st then (\<lambda>i. of_nat (Suc i) * 4096 :: u64) ` {..<min f' 100} = (\<lambda>i. of_nat (Suc i) * 4096) ` {..<min f 100}
      else page_aligned a \<and> a < 2 ^ 32 \<and> a \<notin> (\<lambda>i. of_nat (Suc i) * 4096) ` {..<min f 100} \<and>
        (\<lambda>i. of_nat (Suc i) * 4096) ` {..<min f' 100} = insert a ((\<lambda>i. of_nat (Suc i) * 4096) ` {..<min f 100})"
      using pa [of f] new [of f] ins [of f] by (cases "f < 100") (auto simp: simple_firmware_def simp del: of_nat_Suc)
  qed
qed

end
