(* ===== verification/Loader_Spec.thy ===== *)
theory Loader_Spec
  imports Loader_Map
begin

text \<open>
  The page tables \<open>init_hhdm\<close> hands to the kernel. With firmware that gives out fresh pages the function
  returns, and unless pages run out every physical address below the limit is found at its place in
  the direct map, the loader at its own address and the first 2 GiB where the kernel is linked. The
  number of pages that is enough is \<open>boot_pages\<close>.
\<close>

section \<open>The loader's own memory\<close>

lemma masked_entry:
  assumes "e < 2 ^ 52"
  shows "phys_to_virt (e AND NOT 0xFFF) = table_of e"
proof -
  have hi: "\<not> bit e n" if "52 \<le> n" for n using assms that word_less_exp_iff_bits [of 52 e] by simp
  have "e AND NOT 0xFFF = e AND PTE_ADDR_MASK"
    by (rule bit_word_eqI) (use hi in \<open>auto simp only: bit_and_iff bits_addr_mask bits_not_FFF not_less [symmetric]\<close>)
  then show ?thesis by (simp only: table_of_def)
qed

lemma next_table_grows:
  assumes fr: "fresh_pages bs given" and run: "next_table bs t i s = (Some n, s')"
    and B: "grown (view s) r M (given (fw s))" and q: "walk (view s) r q = Some (phys_to_virt t)" "length q \<le> 1" and i: "i < 512"
  shows "grown (view s') r M (given (fw s'))" "walk (view s') r (q @ [i]) = Some (phys_to_virt n)"
    "length x \<le> 3 \<Longrightarrow> walk (view s) r x = Some u \<Longrightarrow> walk (view s') r x = Some u"
    "u \<in> tables (view s) r \<Longrightarrow> u \<noteq> phys_to_virt t \<or> j \<noteq> i \<Longrightarrow> view s' u j = view s u j"
proof -
  let ?e = "view s (phys_to_virt t) i"
  have T: "tree (view s) r" using B by (simp add: grown_def)
  have t: "page_aligned t" using table_aligned [OF T q(1)] by (simp add: page_aligned_virt)
  have e: "entry t i (umem s) = ?e" by (rule view_entry [OF t i])
  have tb: "phys_to_virt t \<in> tables (view s) r" using tablesI [OF _ q(1)] q(2) by simp
  have all: "grown (view s') r M (given (fw s')) \<and> walk (view s') r (q @ [i]) = Some (phys_to_virt n) \<and>
    (\<forall>x u. length x \<le> 3 \<longrightarrow> walk (view s) r x = Some u \<longrightarrow> walk (view s') r x = Some u) \<and>
    (\<forall>u j. u \<in> tables (view s) r \<longrightarrow> u \<noteq> phys_to_virt t \<or> j \<noteq> i \<longrightarrow> view s' u j = view s u j)"
  proof (cases "is_present ?e")
    case True
    then have s: "n = ?e AND NOT 0xFFF" "s' = s" using run e by (auto simp: next_table_def is_present_def)
    have "?e < 2 ^ 52" using B tb by (auto simp: grown_def)
    then have "phys_to_virt n = table_of ?e" unfolding s(1) by (rule masked_entry)
    moreover have "\<not> is_huge ?e" using tree_no_huge [OF T q(2,1) True] .
    ultimately show ?thesis using True B q(1) s(2) by (simp add: walk_snoc child_def)
  next
    case np: False
    then have "add_table bs t i s = (Some n, s')" using run e by (auto simp: next_table_def is_present_def)
    note g = add_table_grows [OF fr this B q np i]
    have "u \<noteq> phys_to_virt n" if "u \<in> tables (view s) r" for u
      using that B g(4) by (auto simp: grown_def phys_to_virt_inj)
    then show ?thesis using g(1,2,7,8) by blast
  qed
  show "grown (view s') r M (given (fw s'))" "walk (view s') r (q @ [i]) = Some (phys_to_virt n)"
    "length x \<le> 3 \<Longrightarrow> walk (view s) r x = Some u \<Longrightarrow> walk (view s') r x = Some u"
    "u \<in> tables (view s) r \<Longrightarrow> u \<noteq> phys_to_virt t \<or> j \<noteq> i \<Longrightarrow> view s' u j = view s u j" using all by blast+
qed

definition ireg :: "nat \<Rightarrow> u64 list" where
  "ireg n = [of_nat (n div 2 ^ 18), of_nat (n div 512 mod 512), of_nat (n mod 512)]"

lemma low_region:
  assumes "p < 2 ^ 47"
  shows "vregion p = ireg (unat p div 2 ^ 21)" "PML4_INDEX p < 256"
proof -
  have p: "unat p < 2 ^ 47" using assms by (simp add: word_less_nat_alt)
  have q: "unat p div 2 ^ 39 < 256" using p by (simp add: less_mult_imp_div_less)
  then show "vregion p = ireg (unat p div 2 ^ 21)"
    unfolding vregion_def ireg_def index_nat by (simp add: div_mult2_eq [symmetric])
  show "PML4_INDEX p < 256" using q unfolding index_nat
    by (simp add: word_less_nat_alt unat_of_nat take_bit_nat_eq_self)
qed

lemma ireg_inj: "a < 2 ^ 26 \<Longrightarrow> b < 2 ^ 26 \<Longrightarrow> ireg a = ireg b \<Longrightarrow> a = b"
proof -
  assume a: "a < 2 ^ 26" and b: "b < 2 ^ 26" and eq: "ireg a = ireg b"
  have d: "a div 2 ^ 18 < 512" "b div 2 ^ 18 < 512" using a b by (simp_all add: less_mult_imp_div_less)
  have "a div 2 ^ 18 = b div 2 ^ 18" using eq index_of_nat(2) [OF d] by (simp add: ireg_def)
  moreover have "a div 512 mod 512 = b div 512 mod 512" "a mod 512 = b mod 512"
    using eq index_of_nat(2) [of "a div 512 mod 512" "b div 512 mod 512"] index_of_nat(2) [of "a mod 512" "b mod 512"]
    by (simp_all add: ireg_def)
  moreover have "n = (n div 2 ^ 18 * 512 + n div 512 mod 512) * 512 + n mod 512" for n :: nat
  proof -
    have "n div 2 ^ 18 = n div 512 div 512" by (simp add: div_mult2_eq [symmetric])
    then show ?thesis by simp
  qed
  ultimately show "a = b" by metis
qed

lemma identity_step:
  assumes fr: "fresh_pages bs given" and B: "grown (view s) (phys_to_virt pml4) M (given (fw s))"
    and a: "a < 2 ^ 26" "addr = of_nat (a * 2 ^ 21)" and z: "M (ireg a) = 0"
    and run: "next_table bs pml4 (PML4_INDEX addr) s = (Some pdpt, s1)"
      "next_table bs pdpt (PDPT_INDEX addr) s1 = (Some pd, s2)"
      "s3 = write_entry pd (PD_INDEX addr) (addr OR PAGE_PRESENT OR PAGE_WRITE OR PAGE_HUGE) s2"
  shows "grown (view s3) (phys_to_virt pml4) (M(ireg a := hent a)) (given (fw s3))"
    "256 \<le> k \<Longrightarrow> view s3 (phys_to_virt pml4) k = view s (phys_to_virt pml4) k"
proof -
  let ?r = "phys_to_virt pml4"
  have u: "unat addr = a * 2 ^ 21" using a by (simp only: unat_of_nat) (simp add: take_bit_nat_eq_self)
  have lt: "addr < 2 ^ 47" unfolding word_less_nat_alt u using a(1) by simp
  have reg: "vregion addr = ireg a" using low_region(1) [OF lt] u by simp
  then have ix: "vregion addr = [PML4_INDEX addr, PDPT_INDEX addr, PD_INDEX addr]" by (simp add: vregion_def)
  have e: "addr OR PAGE_PRESENT OR PAGE_WRITE OR PAGE_HUGE = hent a" by (simp add: hent_def a(2) mult.assoc)
  have w0: "walk (view s) ?r [] = Some ?r" by simp
  note n1 = next_table_grows [OF fr run(1) B w0 _ index_less(1)]
  have w1: "walk (view s1) ?r [PML4_INDEX addr] = Some (phys_to_virt pdpt)" using n1(2) by simp
  note n2 = next_table_grows [OF fr run(2) n1(1) w1 _ index_less(2)]
  have w2: "walk (view s2) ?r [PML4_INDEX addr, PDPT_INDEX addr] = Some (phys_to_virt pd)" using n2(2) by (simp del: walk.simps)
  have B2: "grown (view s2) ?r M (given (fw s2))" using n2(1) by simp
  then have T: "tree (view s1) ?r" "tree (view s2) ?r" using n1(1) by (simp_all add: grown_def)
  have pd: "page_aligned pd" using table_aligned [OF T(2) w2] by (simp add: page_aligned_virt)
  have "view s2 (phys_to_virt pd) (PD_INDEX addr) = pde (view s2) ?r addr" using w2 by (simp add: pde_def del: walk.simps)
  also have "\<dots> = 0" using B2 reg z by (simp add: grown_def)
  finally have np: "\<not> is_present (view s2 (phys_to_virt pd) (PD_INDEX addr))" by simp
  have E': "view s3 = put (phys_to_virt pd) (PD_INDEX addr) (hent a) (view s2)"
    unfolding run(3) e by (rule view_write [OF pd index_less(3)])
  have "a < 2 ^ 30" using a(1) by simp
  note L = set_leaf [OF B2 w2 ix np hent_bits hent_less [OF this] E']
  have "fw s3 = fw s2" by (simp add: run(3) write_entry_def)
  then show "grown (view s3) ?r (M(ireg a := hent a)) (given (fw s3))" using L(1) ix reg by simp
  assume k: "256 \<le> k"
  have "?r \<in> tables (view s) ?r" "?r \<in> tables (view s1) ?r" by (simp_all add: tablesI [of "[]"])
  moreover have "?r \<noteq> phys_to_virt pdpt" using tree_unique [OF T(1) _ _ w1, of "[]"] by auto
  moreover have "?r \<noteq> phys_to_virt pd" using tree_unique [OF T(2) _ _ w2, of "[]"] by auto
  moreover have "k \<noteq> PML4_INDEX addr" using low_region(2) [OF lt] k by auto
  ultimately show "view s3 ?r k = view s ?r k" using n1(4) n2(4) by (simp add: E' put_apply)
qed


lemma identity_map_loop:
  assumes fr: "fresh_pages bs given" and B: "grown (view s) (phys_to_virt pml4) M (given (fw s))"
    and b: "unat fin \<le> 2 ^ 47" "b = (unat fin + (2 ^ 21 - 1)) div 2 ^ 21" "a \<le> 2 ^ 26"
    and z: "\<And>c. a \<le> c \<Longrightarrow> c < 2 ^ 26 \<Longrightarrow> M (ireg c) = 0"
  shows "\<exists>ok s'. identity_map bs pml4 (of_nat (a * 2 ^ 21)) fin s = Some (ok, s') \<and>
    (ok \<longrightarrow> grown (view s') (phys_to_virt pml4) (lmap ireg [a..<b] M) (given (fw s')) \<and>
      (\<forall>k \<ge> 256. view s' (phys_to_virt pml4) k = view s (phys_to_virt pml4) k))"
  using B b z
proof (induction "b - a" arbitrary: a s M)
  case 0
  let ?addr = "of_nat (a * 2 ^ 21) :: u64"
  have u: "unat ?addr = a * 2 ^ 21" using 0(5) by (simp only: unat_of_nat) (simp add: take_bit_nat_eq_self)
  have "unat fin \<le> a * 2 ^ 21" using 0(1,4) by simp
  then have "\<not> ?addr < fin" by (simp only: word_less_nat_alt u not_less)
  then have "identity_map bs pml4 ?addr fin s = Some (True, s)" by (simp add: identity_map.simps)
  then show ?case using 0(1,2) by (intro exI [of _ True] exI [of _ s]) (simp del: of_nat_mult)
next
  case (Suc m)
  define addr :: u64 where "addr = of_nat (a * 2 ^ 21)"
  let ?r = "phys_to_virt pml4"
  have ab: "a < b" "m = b - Suc a" "[a..<b] = a # [Suc a..<b]" using Suc.hyps(2) by (auto simp: upt_conv_Cons)
  have "a * 2 ^ 21 < unat fin" using ab(1) Suc.prems(3) by simp
  then have a: "a < 2 ^ 26" using Suc.prems(2) by simp
  have u: "unat addr = a * 2 ^ 21" using a unfolding addr_def by (simp only: unat_of_nat) (simp add: take_bit_nat_eq_self)
  have lt: "addr < fin" using \<open>a * 2 ^ 21 < unat fin\<close> by (simp only: word_less_nat_alt u)
  have nx: "addr + 2 * 1024 * 1024 = of_nat (Suc a * 2 ^ 21)" by (simp add: addr_def)
  obtain p s1 where n1: "next_table bs pml4 (PML4_INDEX addr) s = (p, s1)" by (metis surj_pair)
  show ?case
  proof (cases p)
    case None
    then show ?thesis using n1 lt unfolding addr_def [symmetric]
      by (intro exI [of _ False] exI [of _ s1]) (simp add: identity_map.simps [of _ _ addr] PML4_INDEX_def del: of_nat_mult of_nat_Suc)
  next
    case (Some pdpt)
    obtain d s2 where n2: "next_table bs pdpt (PDPT_INDEX addr) s1 = (d, s2)" by (metis surj_pair)
    show ?thesis
    proof (cases d)
      case None
      then show ?thesis using n1 n2 Some lt unfolding addr_def [symmetric]
        by (intro exI [of _ False] exI [of _ s2]) (simp add: identity_map.simps [of _ _ addr] PML4_INDEX_def PDPT_INDEX_def del: of_nat_mult of_nat_Suc)
    next
      case d: (Some pd)
      define s3 where "s3 = write_entry pd (PD_INDEX addr) (addr OR PAGE_PRESENT OR PAGE_WRITE OR PAGE_HUGE) s2"
      have "identity_map bs pml4 addr fin s = identity_map bs pml4 (addr + 2 * 1024 * 1024) fin s3"
        using n1 n2 Some d lt
        by (simp add: identity_map.simps [of _ _ addr] s3_def PML4_INDEX_def PDPT_INDEX_def PD_INDEX_def)
      then have run: "identity_map bs pml4 addr fin s = identity_map bs pml4 (of_nat (Suc a * 2 ^ 21)) fin s3" unfolding nx .
      note S = identity_step [OF fr Suc.prems(1) a addr_def Suc.prems(5) [OF le_refl a] n1 [unfolded Some] n2 [unfolded d] s3_def]
      have "(M(ireg a := hent a)) (ireg c) = 0" if "Suc a \<le> c" "c < 2 ^ 26" for c
        using ireg_inj [OF a that(2)] that Suc.prems(5) [of c] by auto
      then obtain ok s' where "identity_map bs pml4 (of_nat (Suc a * 2 ^ 21)) fin s3 = Some (ok, s')"
        "ok \<longrightarrow> grown (view s') ?r (lmap ireg [Suc a..<b] (M(ireg a := hent a))) (given (fw s')) \<and>
           (\<forall>k \<ge> 256. view s' ?r k = view s3 ?r k)"
        using Suc.hyps(1) [OF ab(2) S(1) Suc.prems(2,3)] a by (auto simp del: of_nat_mult of_nat_Suc fun_upd_apply)
      then show ?thesis using run S(2) ab(3) unfolding addr_def [symmetric] by (simp del: of_nat_mult of_nat_Suc fun_upd_apply)
    qed
  qed
qed

section \<open>The kernel image\<close>

definition kreg :: "nat \<Rightarrow> u64 list" where
  "kreg n = [511, 510 + of_nat (n div 512), of_nat (n mod 512)]"

lemma image_region:
  assumes "k < 2 ^ 31"
  shows "vregion (0xFFFFFFFF80000000 + k) = kreg (unat k div 2 ^ 21)"
proof -
  have k: "unat k < 2 ^ 31" using assms by (simp add: word_less_nat_alt)
  have u: "unat (0xFFFFFFFF80000000 + k) = 0xFFFFFFFF80000000 + unat k" using k by (simp add: unat_word_ariths)
  have "0x7F80000000 + unat k < 2 ^ 39" using k by simp
  then have "(0xFFFFFFFF80000000 + unat k) div 2 ^ 39 = 33554431"
    using div_mult_self4 [of "2 ^ 39" 33554431 "0x7F80000000 + unat k"] by simp
  moreover have "(0xFFFFFFFF80000000 + unat k) div 2 ^ 30 = 17179869182 + unat k div 2 ^ 30"
    using div_mult_self4 [of "2 ^ 30" 17179869182 "unat k"] by simp
  moreover have "unat k div 2 ^ 30 < 2" using k by (simp add: less_mult_imp_div_less)
  moreover have "(17179869182 + q) mod 512 = 510 + q" if "q < 2" for q :: nat
    using mod_mult_self4 [of 512 33554431 "510 + q"] that by simp
  moreover have g: "(2 ^ j * (512 * q) + unat k) div 2 ^ j mod 512 = unat k div 2 ^ j mod 512" for j q by simp
  have "(0xFFFFFFFF80000000 + unat k) div 2 ^ 21 mod 512 = unat k div 2 ^ 21 mod 512" using g [of 21 17179869182] by simp
  ultimately show ?thesis unfolding vregion_def kreg_def index_nat u by (simp add: div_mult2_eq [symmetric])
qed

lemma kernel_entry:
  "(of_nat (510 + m) - 510 :: u64) * 1024 * 1024 * 1024 + of_nat k * 2 * 1024 * 1024 = of_nat (m * 512 + k) * 2 * 1024 * 1024"
  by (simp add: algebra_simps)

lemma kernel_directory:
  assumes fr: "fresh_pages bs given" and B: "grown (view s) r M (given (fw s))"
    and w: "walk (view s) r [511] = Some (phys_to_virt t)" and m: "m < 2" and z: "view s (phys_to_virt t) (of_nat (510 + m)) = 0"
    and run: "add_table bs t (of_nat (510 + m)) s = (Some pd, s1)" "s2 = kernel_pd pd (of_nat (510 + m)) s1"
  shows "grown (view s2) r (lmap kreg [m * 512..<m * 512 + 512] M) (given (fw s2))" "walk (view s2) r [511] = Some (phys_to_virt t)"
    "j \<noteq> of_nat (510 + m) \<Longrightarrow> view s2 (phys_to_virt t) j = view s (phys_to_virt t) j"
proof -
  let ?i = "of_nat (510 + m) :: u64"
  have i: "?i < 512" by (rule index_of_nat(1)) (use m in simp)
  have np: "\<not> is_present (view s (phys_to_virt t) ?i)" using z by simp
  have w1: "length [511 :: u64] \<le> 1" by simp
  note g = add_table_grows [OF fr run(1) B w w1 np i]
  have reg: "kreg (m * 512 + k) = [511, ?i, of_nat k]" if "k < 512" for k using that by (simp add: kreg_def)
  have va: "vregion (0xFFFFFFFF80000000 + of_nat ((m * 512 + k) * 2 ^ 21)) = kreg (m * 512 + k)" if "k < 512" for k
  proof -
    let ?x = "of_nat ((m * 512 + k) * 2 ^ 21) :: u64"
    have n: "m * 512 + k < 1024" using that m by simp
    then have u: "unat ?x = (m * 512 + k) * 2 ^ 21" by (simp only: unat_of_nat) (simp add: take_bit_nat_eq_self)
    have "?x < 2 ^ 31" unfolding word_less_nat_alt u using n by simp
    moreover have "(m * 512 + k) * 2 ^ 21 div 2 ^ 21 = m * 512 + k" by (rule nonzero_mult_div_cancel_right) simp
    ultimately show ?thesis using image_region [of ?x] unfolding u by (simp only:)
  qed
  have f: "grown (view s2) r (set_leaves 511 ?i (\<lambda>k. hent (m * 512 + k)) [0..<512] M) (given (fw s2)) \<and>
      fw s2 = fw s1 \<and> (\<forall>u. u \<noteq> phys_to_virt pd \<longrightarrow> view s2 u = view s1 u) \<and> same_walks (view s1) (view s2) r"
  proof (rule fill_directory [where given = given and s = s1 and va = "\<lambda>k. 0xFFFFFFFF80000000 + of_nat ((m * 512 + k) * 2 ^ 21)"])
    show "walk (view s1) r [511, ?i] = Some (phys_to_virt pd)" using g(2) by simp
    show "view s1 (phys_to_virt pd) (of_nat k) = 0" for k by (rule g(3))
    show "vregion (0xFFFFFFFF80000000 + of_nat ((m * 512 + k) * 2 ^ 21)) = [511, ?i, of_nat k] \<and>
        is_present (hent (m * 512 + k)) \<and> is_huge (hent (m * 512 + k)) \<and> hent (m * 512 + k) < 2 ^ 52" if "k < 512" for k
      using va [OF that] reg [OF that] hent_bits hent_less [of "m * 512 + k"] m that by simp
    show "s2 = fold (\<lambda>k. write_entry pd (of_nat k) (hent (m * 512 + k))) [0..<512] s1"
      unfolding run(2) kernel_pd_def Let_def kernel_entry hent_def ..
  qed (use g(1) in auto)
  show "grown (view s2) r (lmap kreg [m * 512..<m * 512 + 512] M) (given (fw s2))"
    using conjunct1 [OF f] set_leaves_lmap [of 512 kreg "m * 512" 511 ?i 0 M] reg by simp
  have "walk (view s1) r [511] = Some (phys_to_virt t)" using g(8) [OF _ w] by simp
  then show "walk (view s2) r [511] = Some (phys_to_virt t)" using f by (simp add: same_walks_def del: walk.simps)
  assume "j \<noteq> ?i"
  moreover have "phys_to_virt t \<noteq> phys_to_virt pd" using table_given [OF B w] g(4) by (auto simp: phys_to_virt_inj)
  ultimately show "view s2 (phys_to_virt t) j = view s (phys_to_virt t) j" using f g(7) by simp
qed

lemma kernel_all:
  assumes fr: "fresh_pages bs given" and B: "grown (view s) (phys_to_virt pml4) M (given (fw s))"
    and z: "view s (phys_to_virt pml4) 511 = 0"
    and run: "add_table bs pml4 511 s = (Some t, s1)" "kernel_map [510, 511] bs t s1 = (True, s')"
  shows "grown (view s') (phys_to_virt pml4) (lmap kreg [0..<1024] M) (given (fw s'))"
proof -
  let ?r = "phys_to_virt pml4"
  have np: "\<not> is_present (view s ?r 511)" using z by simp
  note g = add_table_grows [OF fr run(1) B walk.simps(1) _ np]
  have w: "walk (view s1) ?r [511] = Some (phys_to_virt t)" using g(2) by simp
  obtain pd s2 pd' s3 where k: "add_table bs t 510 s1 = (Some pd, s2)" "add_table bs t 511 (kernel_pd pd 510 s2) = (Some pd', s3)"
    "s' = kernel_pd pd' 511 s3"
    using run(2) by (auto split: prod.splits option.splits)
  have e: "of_nat (510 + 0) = (510 :: u64)" "of_nat (510 + 1) = (511 :: u64)" by simp_all
  have z0: "view s1 (phys_to_virt t) i = 0" for i using g(3) by simp
  let ?s = "kernel_pd pd 510 s2"
  have B1: "grown (view s1) ?r M (given (fw s1))" using g(1) by simp
  have d0: "grown (view ?s) ?r (lmap kreg [0..<512] M) (given (fw ?s))" "walk (view ?s) ?r [511] = Some (phys_to_virt t)"
    "view ?s (phys_to_virt t) 511 = 0"
    using kernel_directory [OF fr B1 w, of 0 pd s2 ?s] k(1) z0 unfolding e by simp_all
  have "grown (view s') ?r (lmap kreg [512..<1024] (lmap kreg [0..<512] M)) (given (fw s'))"
    using kernel_directory(1) [OF fr d0(1,2), of 1 pd' s3 s'] k(2,3) d0(3) unfolding e by simp
  moreover have "[0..<1024] = [0..<512] @ [512..<1024 :: nat]" using upt_add_eq_append [of 0 512 512] by simp
  ultimately show ?thesis by (simp add: lmap_append)
qed


section \<open>Translations\<close>

lemma lmap_out: "x \<notin> reg ` set ns \<Longrightarrow> lmap reg ns M x = M x"
  by (induction ns arbitrary: M) auto

lemma lmap_in: "n \<in> set ns \<Longrightarrow> inj_on reg (set ns) \<Longrightarrow> lmap reg ns M (reg n) = hent n"
proof (induction ns arbitrary: M)
  case (Cons k ns)
  show ?case
  proof (cases "n \<in> set ns")
    case True
    then show ?thesis using Cons by (simp del: fun_upd_apply)
  next
    case False
    then have "n = k" "reg n \<notin> reg ` set ns" using Cons.prems by (auto simp: inj_on_def)
    then show ?thesis by (simp add: lmap_out)
  qed
qed simp

lemma hreg_inj: "a < 2 ^ 26 \<Longrightarrow> b < 2 ^ 26 \<Longrightarrow> hreg a = hreg b \<Longrightarrow> a = b"
  by (rule ireg_inj) (simp_all add: hreg_def ireg_def)

lemma kreg_inj:
  assumes "a < 1024" "b < 1024" "kreg a = kreg b"
  shows "a = b"
proof -
  have d: "a div 512 < 512" "b div 512 < 512" using assms by simp_all
  have "a div 512 = b div 512" using assms(3) index_of_nat(2) [OF d] by (simp add: kreg_def)
  moreover have "a mod 512 = b mod 512" using assms(3) index_of_nat(2) [of "a mod 512" "b mod 512"] by (simp add: kreg_def)
  ultimately show ?thesis by (metis div_mod_decomp)
qed

lemma regions_apart:
  assumes "n < 2 ^ 26"
  shows "kreg k \<noteq> ireg n" "n \<le> 2 ^ 25 \<Longrightarrow> kreg k \<noteq> hreg n" "m < 2 ^ 25 \<Longrightarrow> hreg m \<noteq> ireg n"
proof -
  have n: "n div 2 ^ 18 < 256" using assms by (simp add: less_mult_imp_div_less)
  show "kreg k \<noteq> ireg n" using index_of_nat(2) [of 511 "n div 2 ^ 18"] n by (simp add: kreg_def ireg_def)
  show "kreg k \<noteq> hreg n" if "n \<le> 2 ^ 25"
  proof -
    have "n div 2 ^ 18 \<le> 128" using that div_le_mono [of n "2 ^ 25" "2 ^ 18"] by simp
    then show ?thesis using index_of_nat(2) [of 511 "256 + n div 2 ^ 18"] by (simp add: kreg_def hreg_def)
  qed
  show "hreg m \<noteq> ireg n" if "m < 2 ^ 25"
  proof -
    have "m div 2 ^ 18 < 256" using that by (simp add: less_mult_imp_div_less)
    then show ?thesis using index_of_nat(2) [of "256 + m div 2 ^ 18" "n div 2 ^ 18"] n by (simp add: hreg_def ireg_def)
  qed
qed

lemma bits_huge_mask: "bit (0x000FFFFFFFE00000 :: u64) n \<longleftrightarrow> 21 \<le> n \<and> n < 52"
proof -
  have "(0x000FFFFFFFE00000 :: u64) = push_bit 21 (mask 31)" by (simp add: mask_eq_exp_minus_1 push_bit_eq_mult)
  then show ?thesis by (simp only: bit_push_bit_iff bit_mask_iff) auto
qed

lemma unat_offset: "unat (p AND 0x1FFFFF :: u64) = unat p mod 2 ^ 21"
proof -
  have m: "(0x1FFFFF :: u64) = mask 21" by (simp add: mask_eq_exp_minus_1)
  show ?thesis unfolding m by (simp only: take_bit_eq_mask [symmetric] unsigned_take_bit_eq) (simp only: take_bit_eq_mod)
qed

lemma offset_nat: "p AND 0x1FFFFF = (of_nat (unat p mod 2 ^ 21) :: u64)"
  unfolding unat_offset [symmetric] by simp

lemma region_offset: "of_nat (unat p div 2 ^ 21 * 2 ^ 21) + of_nat (unat p mod 2 ^ 21) = (p :: u64)"
  unfolding of_nat_add [symmetric] div_mult_mod_eq by simp

lemma hent_address:
  assumes "p < 2 ^ 47"
  shows "(hent (unat p div 2 ^ 21) AND HUGE_ADDR_MASK) + (p AND 0x1FFFFF) = p"
proof -
  have "\<forall>n \<ge> 47. \<not> bit p n" using assms word_less_exp_iff_bits [of 47 p] by simp
  then have hi: "bit p n \<Longrightarrow> n < 52" for n by (cases "47 \<le> n") auto
  let ?x = "of_nat (unat p div 2 ^ 21) * 2 * 1024 * 1024 :: u64"
  have "unat (drop_bit 21 p) = unat p div 2 ^ 21" unfolding unat_drop_bit_eq by (rule drop_bit_eq_div)
  then have "drop_bit 21 p = of_nat (unat p div 2 ^ 21)" by (metis of_nat_unat ucast_id)
  then have x: "?x = push_bit 21 (drop_bit 21 p)" by (simp add: push_bit_eq_mult)
  have "?x AND HUGE_ADDR_MASK = ?x" unfolding x
    by (rule bit_word_eqI) (auto simp: bit_and_iff bits_huge_mask bit_push_bit_iff bit_drop_bit_eq dest: hi simp del: bit_numeral_word_iff)
  then have "hent (unat p div 2 ^ 21) AND HUGE_ADDR_MASK = ?x"
    unfolding hent_def by (simp add: bit.conj_disj_distrib2)
  moreover have "?x = of_nat (unat p div 2 ^ 21 * 2 ^ 21)" by simp
  ultimately show ?thesis unfolding offset_nat by (simp only: region_offset)
qed

lemma offset_add: "b AND 0x1FFFFF = 0 \<Longrightarrow> (b + p) AND 0x1FFFFF = p AND (0x1FFFFF :: u64)"
proof -
  assume "b AND 0x1FFFFF = 0"
  then have "unat b mod 2 ^ 21 = 0" unfolding unat_offset [symmetric] by simp
  then obtain q where q: "unat b = 2 ^ 21 * q" by auto
  have "unat (b + p) mod 2 ^ 21 = unat p mod 2 ^ 21"
    unfolding unat_word_ariths by (simp add: mod_mod_cancel q)
  then show ?thesis by (simp only: offset_nat)
qed

lemma region_translates:
  assumes B: "grown (view s) r M G" and M: "M (vregion (b + p)) = hent (unat p div 2 ^ 21)" and p: "p < 2 ^ 47" and b: "b AND 0x1FFFFF = 0"
  shows "extract_from r (b + p) (direct_map (umem s)) = p"
proof -
  have T: "tree (slots (direct_map (umem s))) r" using B by (simp add: grown_def view_def)
  have "pde (view s) r (b + p) = hent (unat p div 2 ^ 21)" using B M by (simp add: grown_def)
  then show ?thesis unfolding extract_resolve [OF T] using hent_bits hent_address [OF p] offset_add [OF b, of p]
    by (simp add: resolve_def huge_at_def view_def)
qed


section \<open>Enough pages\<close>

lemma alloc_page_stock:
  assumes "stocked bs stock" "Suc k \<le> stock (fw s)"
  shows "\<exists>n s'. alloc_page bs s = (n, s') \<and> n \<noteq> 0 \<and> k \<le> stock (fw s')"
proof -
  obtain st a f where a: "AllocateMaxAddress bs (fw s) = ((st, a), f)" by (metis surj_pair)
  then have "\<not> EFI_ERROR st \<and> a \<noteq> 0 \<and> stock (fw s) \<le> Suc (stock f)" using assms(1) [unfolded stocked_def, rule_format, of "fw s"] assms(2) by simp
  then show ?thesis using a assms(2) by (simp add: alloc_page_def)
qed

lemma add_table_stock:
  assumes "stocked bs stock" "Suc k \<le> stock (fw s)"
  shows "\<exists>n s'. add_table bs t i s = (Some n, s') \<and> k \<le> stock (fw s')"
  using alloc_page_stock [OF assms] by (auto simp: add_table_def write_entry_def)

lemma next_table_stock:
  assumes "stocked bs stock" "Suc k \<le> stock (fw s)"
  shows "\<exists>n s'. next_table bs t i s = (Some n, s') \<and> k \<le> stock (fw s')"
  using add_table_stock [OF assms, of t i] assms(2) by (auto simp: next_table_def Let_def)

lemma identity_map_stock:
  assumes st: "stocked bs stock" and "unat addr + 2 ^ 21 * m < 2 ^ 64" "unat fin \<le> unat addr + 2 ^ 21 * m" "2 * m + k \<le> stock (fw s)"
  shows "\<exists>s'. identity_map bs pml4 addr fin s = Some (True, s') \<and> k \<le> stock (fw s')"
  using assms(2-)
proof (induction m arbitrary: addr s)
  case 0
  then show ?case by (simp add: identity_map.simps word_less_nat_alt)
next
  case (Suc m)
  show ?case
  proof (cases "addr < fin")
    case True
    obtain pdpt s1 where n1: "next_table bs pml4 (drop_bit 39 addr AND 0x1FF) s = (Some pdpt, s1)" "Suc (2 * m + k) \<le> stock (fw s1)"
      using next_table_stock [OF st, of "Suc (2 * m + k)" s pml4] Suc.prems(3) by (metis add_2_eq_Suc mult_Suc_right add_Suc)
    obtain pd s2 where n2: "next_table bs pdpt (drop_bit 30 addr AND 0x1FF) s1 = (Some pd, s2)" "2 * m + k \<le> stock (fw s2)"
      using next_table_stock [OF st n1(2)] by blast
    have "unat (addr + 2 * 1024 * 1024) = unat addr + 2 ^ 21" using Suc.prems(1) by (simp add: unat_word_ariths)
    then show ?thesis using Suc.IH [of "addr + 2 * 1024 * 1024"] Suc.prems(1,2) n1(1) n2 True
      by (simp add: identity_map.simps [of _ _ addr] write_entry_def)
  next
    case False
    then show ?thesis using Suc.prems(3) by (simp add: identity_map.simps)
  qed
qed

lemma fill_pd_fw: "fill_pd ks pd n tot s = (c, s') \<Longrightarrow> fw s' = fw s"
  by (induction ks pd n tot s rule: fill_pd.induct) (auto simp: Let_def write_entry_def split: if_splits)

lemma fill_pdpt_stock:
  assumes st: "stocked bs stock" and "unat total_pdts - unat pdts + k \<le> stock (fw s)"
  shows "\<exists>x y s'. fill_pdpt js bs pdpt pdts pdes total_pdts total_pdes s = (Some (x, y), s') \<and> unat total_pdts - unat x + k \<le> stock (fw s')"
  using assms(2)
proof (induction js arbitrary: pdts pdes s)
  case (Cons j js)
  show ?case
  proof (cases "pdts \<ge> total_pdts")
    case False
    then have lt: "unat pdts < unat total_pdts" by (simp add: word_le_nat_alt)
    then have u: "unat (pdts + 1) = Suc (unat pdts)" using unat_less_64 [of total_pdts] by (simp add: unat_word_ariths)
    then have "Suc (unat total_pdts - unat (pdts + 1) + k) \<le> stock (fw s)" using Cons.prems lt by simp
    then obtain pd s1 where a: "add_table bs pdpt (of_nat j) s = (Some pd, s1)" "unat total_pdts - unat (pdts + 1) + k \<le> stock (fw s1)"
      using add_table_stock [OF st] by blast
    obtain c s2 where f: "fill_pd [0..<512] pd pdes total_pdes s1 = (c, s2)" by (metis surj_pair)
    then show ?thesis using Cons.IH [of "pdts + 1" s2 c] a fill_pd_fw [OF f] False by simp
  qed (use Cons.prems in auto)
qed auto

lemma fill_hhdm_stock:
  assumes st: "stocked bs stock" and "i + e = 256" "unat total_pdpts - i + (unat total_pdts - unat pdts) + k \<le> stock (fw s)"
  shows "\<exists>s'. fill_hhdm [i..<256] bs pml4 pdts pdes total_pdpts total_pdts total_pdes s = (True, s') \<and> k \<le> stock (fw s')"
  using assms(2-)
proof (induction e arbitrary: i pdts pdes s)
  case (Suc e)
  have i: "[i..<256] = i # [Suc i..<256]" "unat (of_nat i :: u64) = i"
    using Suc.prems(1) by (simp_all add: upt_conv_Cons unat_of_nat take_bit_nat_eq_self)
  show ?case
  proof (cases "of_nat i < total_pdpts")
    case True
    then have lt: "i < unat total_pdpts" by (simp add: word_less_nat_alt i)
    let ?k = "unat total_pdpts - Suc i + k"
    have "Suc (unat total_pdts - unat pdts + ?k) \<le> stock (fw s)" using lt Suc.prems(2) by simp
    then obtain pdpt s1 where a: "add_table bs pml4 (256 + of_nat i) s = (Some pdpt, s1)" "unat total_pdts - unat pdts + ?k \<le> stock (fw s1)"
      using add_table_stock [OF st] by blast
    obtain x y s2 where f: "fill_pdpt [0..<512] bs pdpt pdts pdes total_pdts total_pdes s1 = (Some (x, y), s2)"
      "unat total_pdts - unat x + ?k \<le> stock (fw s2)"
      using fill_pdpt_stock [OF st a(2)] by blast
    then show ?thesis using Suc.IH [of "Suc i" x s2 y] a(1) Suc.prems(1) True by (simp add: i(1))
  next
    case False
    then show ?thesis using Suc.prems(2) by (simp add: i(1))
  qed
qed simp

lemma kernel_map_stock:
  assumes "stocked bs stock" "length is + k \<le> stock (fw s)"
  shows "\<exists>s'. kernel_map is bs t s = (True, s') \<and> k \<le> stock (fw s')"
  using assms(2)
proof (induction "is" arbitrary: s)
  case (Cons i "is")
  obtain pd s1 where a: "add_table bs t i s = (Some pd, s1)" "length is + k \<le> stock (fw s1)"
    using add_table_stock [OF assms(1), of "length is + k" s t i] Cons.prems by auto
  have "fw (kernel_pd pd i s1) = fw s1"
  proof -
    have "fw (fold (\<lambda>j. write_entry pd (g j) (v j)) xs s) = fw s" for g :: "nat \<Rightarrow> u64" and v xs and s :: "'a loader"
      by (induction xs arbitrary: s) (simp_all add: write_entry_def)
    then show ?thesis by (simp add: kernel_pd_def Let_def)
  qed
  then show ?case using Cons.IH [of "kernel_pd pd i s1"] a by simp
qed simp


section \<open>The map of the machine\<close>

lemma grown_empty:
  assumes "E r = (\<lambda>_. 0)" "page_aligned r" "r \<in> phys_to_virt ` G"
  shows "grown E r (\<lambda>_. 0) G"
proof -
  have c: "child E r i = None" for i by (simp add: child_def assms(1))
  have w: "walk E r x = Some t \<longleftrightarrow> x = [] \<and> t = r" for x t by (cases x) (auto simp: c)
  have "tables E r = {r}" by (auto simp: tables_def w)
  moreover have "tree E r" using assms(1,2) by (auto simp: tree_def w)
  moreover have "pde E r x = 0" for x by (simp add: pde_def c)
  ultimately show ?thesis using assms(1,3) by (simp add: grown_def)
qed

definition hhdm_tables :: "u64 \<Rightarrow> nat \<times> nat \<times> nat" where
  \<comment> \<open>large pages, directories and directory tables of the direct map\<close>
  "hhdm_tables max_phys = (let n = (unat max_phys + 0x1FFFFF) div 2 ^ 21; d = (n + 511) div 512 in (n, d, (d + 511) div 512))"

lemma div_word: "unat x div 2 ^ k = n \<Longrightarrow> drop_bit k x = (of_nat n :: u64)"
proof -
  assume "unat x div 2 ^ k = n"
  then have "unat (drop_bit k x) = n" unfolding unat_drop_bit_eq by (simp only: drop_bit_eq_div)
  then show ?thesis by (metis of_nat_unat ucast_id)
qed

lemma hhdm_counts:
  assumes "max_phys \<le> 2 ^ 46" "hhdm_tables max_phys = (n, d, p)"
  shows "drop_bit 21 (max_phys + 0x1FFFFF) = of_nat n" "drop_bit 9 (of_nat n + 511 :: u64) = of_nat d"
    "drop_bit 9 (of_nat d + 511 :: u64) = of_nat p" "n \<le> 2 ^ 25" "d \<le> 2 ^ 16" "p \<le> 2 ^ 7" "d = (n + 511) div 512" "p = (d + 511) div 512"
proof -
  have m: "unat max_phys \<le> 2 ^ 46" using assms(1) by (simp add: word_le_nat_alt)
  have n: "n = (unat max_phys + 0x1FFFFF) div 2 ^ 21" and d: "d = (n + 511) div 512" and p: "p = (d + 511) div 512"
    using assms(2) by (auto simp: hhdm_tables_def Let_def)
  show b: "n \<le> 2 ^ 25" using m div_le_mono [of "unat max_phys + 0x1FFFFF" "2 ^ 46 + 0x1FFFFF" "2 ^ 21"] by (simp add: n)
  show "d \<le> 2 ^ 16" using b div_le_mono [of "n + 511" "2 ^ 25 + 511" 512] by (simp add: d)
  then show "p \<le> 2 ^ 7" using div_le_mono [of "d + 511" "2 ^ 16 + 511" 512] by (simp add: p)
  show "d = (n + 511) div 512" "p = (d + 511) div 512" by (rule d, rule p)
  have "unat (max_phys + 0x1FFFFF) = unat max_phys + 0x1FFFFF" using m by (simp add: unat_word_ariths)
  then show "drop_bit 21 (max_phys + 0x1FFFFF) = of_nat n" by (intro div_word) (simp add: n)
  have u: "unat (of_nat k + 511 :: u64) = k + 511" if "k \<le> 2 ^ 25" for k
    using that by (simp add: unat_word_ariths unat_of_nat take_bit_nat_eq_self)
  show "drop_bit 9 (of_nat n + 511 :: u64) = of_nat d" using u [OF b] by (intro div_word) (simp add: d)
  show "drop_bit 9 (of_nat d + 511 :: u64) = of_nat p" using u [of d] \<open>d \<le> 2 ^ 16\<close> by (intro div_word) (simp add: p)
qed

lemma align_down_region: "x AND NOT 0x1FFFFF = (of_nat (unat x div 2 ^ 21 * 2 ^ 21) :: u64)"
proof -
  have "NOT x AND (x AND 0x1FFFFF) = 0" by (simp add: and.assoc [symmetric])
  then have "x - (x AND 0x1FFFFF) = x AND NOT (x AND 0x1FFFFF)" by (rule disjunctive_diff_eq_and_not)
  also have "\<dots> = x AND NOT 0x1FFFFF" by (rule bit_word_eqI) (simp only: bit_and_iff bit_not_iff, auto)
  finally show ?thesis using region_offset [of x] unfolding offset_nat by (metis diff_eq_eq)
qed

definition boot_pages :: "u64 \<Rightarrow> u64 \<Rightarrow> nat" where
  \<comment> \<open>how many tables are enough\<close>
  "boot_pages max_phys image_size = (case hhdm_tables max_phys of (n, d, p) \<Rightarrow> 4 + 2 * (unat image_size div 2 ^ 21 + 2) + d + p)"

lemma init_hhdm_stock:
  assumes st: "stocked bs stock" and mp: "max_phys \<le> 2 ^ 46" and im: "unat image_base + unat image_size \<le> 2 ^ 47"
    and k: "boot_pages max_phys image_size \<le> stock (fw s)"
  shows "\<exists>root s'. init_hhdm bs max_phys image_base image_size s = Some (EFI_SUCCESS, root, s')"
proof -
  obtain n d p where h: "hhdm_tables max_phys = (n, d, p)" by (metis surj_pair)
  note c = hhdm_counts [OF mp h]
  let ?m = "unat image_size div 2 ^ 21 + 2"
  have k': "Suc (2 * ?m + (p + d + 3)) \<le> stock (fw s)" using k h by (simp add: boot_pages_def)
  obtain pml4 s1 where a: "alloc_page bs s = (pml4, s1)" "pml4 \<noteq> 0" "2 * ?m + (p + d + 3) \<le> stock (fw s1)"
    using alloc_page_stock [OF st k'] by blast
  let ?lo = "image_base AND NOT 0x1FFFFF" let ?hi = "image_base + image_size"
  have le: "unat image_base div 2 ^ 21 * 2 ^ 21 \<le> unat image_base" by (rule div_times_less_eq_dividend)
  have ulo: "unat ?lo = unat image_base div 2 ^ 21 * 2 ^ 21"
    unfolding align_down_region unat_of_nat using le unat_less_64 [of image_base] by (simp add: take_bit_nat_eq_self del: of_nat_mult)
  have uhi: "unat ?hi = unat image_base + unat image_size" using im by (simp add: unat_word_ariths)
  have b: "unat image_base < unat ?lo + 2 ^ 21" "unat image_size < 2 ^ 21 * (unat image_size div 2 ^ 21) + 2 ^ 21"
    unfolding ulo using dividend_less_div_times [of "2 ^ 21" "unat image_base"] dividend_less_div_times [of "2 ^ 21" "unat image_size"]
    by (simp_all add: ac_simps)
  have "2 ^ 21 * (unat image_size div 2 ^ 21) \<le> unat image_size" by simp
  then have "unat ?lo + 2 ^ 21 * ?m < 2 ^ 64" using im le unfolding ulo by simp
  moreover have "unat ?hi \<le> unat ?lo + 2 ^ 21 * ?m" using b unfolding uhi by simp
  ultimately obtain s2 where i: "identity_map bs pml4 ?lo ?hi s1 = Some (True, s2)" "p + d + 3 \<le> stock (fw s2)"
    using identity_map_stock [OF st _ _ a(3)] by blast
  have u: "unat (of_nat p :: u64) = p" "unat (of_nat d :: u64) = d" using c(5,6) by (simp_all add: unat_of_nat take_bit_nat_eq_self)
  have "0 + 256 = (256 :: nat)" "unat (of_nat p :: u64) - 0 + (unat (of_nat d :: u64) - unat (0 :: u64)) + 3 \<le> stock (fw s2)" using i(2) by (simp_all add: u)
  then obtain s3 where f: "fill_hhdm [0..<256] bs pml4 0 0 (of_nat p) (of_nat d) (of_nat n) s2 = (True, s3)" "Suc 2 \<le> stock (fw s3)"
    using fill_hhdm_stock [OF st, of 0 256 "of_nat p" "of_nat d" 0 3 s2 pml4 0 "of_nat n"] by auto
  obtain t s4 where t: "add_table bs pml4 511 s3 = (Some t, s4)" "2 \<le> stock (fw s4)" using add_table_stock [OF st f(2)] by blast
  obtain s5 where "kernel_map [510, 511] bs t s4 = (True, s5)" using kernel_map_stock [OF st, of "[510, 511]" 0 s4 t] t(2) by auto
  then show ?thesis using a i f t c(1-3) by (simp add: init_hhdm_def Let_def)
qed

lemma init_hhdm_tree:
  assumes fr: "fresh_pages bs given" and mp: "max_phys \<le> 2 ^ 46" and im: "unat image_base + unat image_size \<le> 2 ^ 47"
    and h: "hhdm_tables max_phys = (n, d, p)" and b: "b = (unat image_base + unat image_size + (2 ^ 21 - 1)) div 2 ^ 21"
  shows "\<exists>st root s'. init_hhdm bs max_phys image_base image_size s = Some (st, root, s') \<and> st \<in> {EFI_SUCCESS, EFI_OUT_OF_RESOURCES} \<and>
    (st = EFI_SUCCESS \<longrightarrow> grown (view s') (phys_to_virt root)
       (lmap kreg [0..<1024] (lmap hreg [0..<n] (lmap ireg [unat image_base div 2 ^ 21..<b] (\<lambda>_. 0)))) (given (fw s')))"
proof -
  note c = hhdm_counts [OF mp h]
  obtain pml4 s1 where a: "alloc_page bs s = (pml4, s1)" by (metis surj_pair)
  show ?thesis
  proof (cases "pml4 = 0")
    case True
    then show ?thesis using a by (simp add: init_hhdm_def)
  next
    case False
    note v = alloc_page_view [OF fr a False]
    let ?r = "phys_to_virt pml4"
    have B: "grown (view s1) ?r (\<lambda>_. 0) (given (fw s1))"
      by (rule grown_empty) (use v in \<open>simp_all add: page_aligned_virt\<close>)
    have uhi: "unat (image_base + image_size) = unat image_base + unat image_size" using im by (simp add: unat_word_ariths)
    have a26: "unat image_base div 2 ^ 21 \<le> 2 ^ 26" using im div_le_mono [of "unat image_base" "2 ^ 47" "2 ^ 21"] by simp
    obtain ok s2 where i: "identity_map bs pml4 (image_base AND NOT 0x1FFFFF) (image_base + image_size) s1 = Some (ok, s2)"
      "ok \<Longrightarrow> grown (view s2) ?r (lmap ireg [unat image_base div 2 ^ 21..<b] (\<lambda>_. 0)) (given (fw s2))"
      "ok \<Longrightarrow> 256 \<le> k \<Longrightarrow> view s2 ?r k = 0" for k
      using identity_map_loop [OF fr B, of "image_base + image_size" b "unat image_base div 2 ^ 21"] im b a26 v(5)
      unfolding uhi align_down_region by auto
    show ?thesis
    proof (cases ok)
      case False
      then show ?thesis using a \<open>pml4 \<noteq> 0\<close> i(1) by (simp add: init_hhdm_def)
    next
      case True
      obtain ok3 s3 where f: "fill_hhdm [0..<256] bs pml4 0 0 (of_nat p) (of_nat d) (of_nat n) s2 = (ok3, s3)" by (metis surj_pair)
      obtain t s4 where t: "add_table bs pml4 511 s3 = (t, s4)" by (metis surj_pair)
      obtain ok5 s5 where k: "kernel_map [510, 511] bs (the t) s4 = (ok5, s5)" by (metis surj_pair)
      have run: "init_hhdm bs max_phys image_base image_size s =
        (if \<not> ok3 then Some (EFI_OUT_OF_RESOURCES, 0, s3) else if t = None then Some (EFI_OUT_OF_RESOURCES, 0, s4)
         else if \<not> ok5 then Some (EFI_OUT_OF_RESOURCES, 0, s5) else Some (EFI_SUCCESS, pml4, s5))"
        using a \<open>pml4 \<noteq> 0\<close> i(1) True f t k c(1-3) by (cases t) (auto simp: init_hhdm_def Let_def simp del: kernel_map.simps)
      have "grown (view s5) ?r (lmap kreg [0..<1024] (lmap hreg [0..<n] (lmap ireg [unat image_base div 2 ^ 21..<b] (\<lambda>_. 0)))) (given (fw s5))"
        if ok: "ok3" "t = Some t'" "ok5" for t'
      proof -
        have z: "view s2 ?r (256 + of_nat k) = 0" if "k < 256" for k
        proof (rule i(3) [OF True])
          have "unat (256 + of_nat k :: u64) = 256 + k" using that by (simp add: unat_word_ariths unat_of_nat take_bit_nat_eq_self)
          then show "256 \<le> (256 + of_nat k :: u64)" by (simp add: word_le_nat_alt)
        qed
        have "grown (view s3) ?r (lmap hreg [0..<n] (lmap ireg [unat image_base div 2 ^ 21..<b] (\<lambda>_. 0))) (given (fw s3)) \<and> view s3 ?r 511 = view s2 ?r 511"
          by (rule hhdm_all [OF fr i(2) [OF True], of 0 256 p d n 0 0]) (use c z f ok(1) in auto)
        then show ?thesis using kernel_all [OF fr, of s3 pml4 _ t' s4 s5] i(3) [OF True, of 511] t k ok(2,3) by simp
      qed
      then show ?thesis unfolding run by auto
    qed
  qed
qed


lemma boot_map_covers:
  assumes M: "M = lmap kreg [0..<1024] (lmap hreg [0..<n] (lmap ireg [a..<b] (\<lambda>_. 0)))" and n: "n \<le> 2 ^ 25" "b \<le> 2 ^ 26"
  shows "k < 1024 \<Longrightarrow> M (kreg k) = hent k" "k < n \<Longrightarrow> M (hreg k) = hent k" "a \<le> k \<Longrightarrow> k < b \<Longrightarrow> M (ireg k) = hent k"
proof -
  have inj: "inj_on kreg (set [0..<1024])" "inj_on hreg (set [0..<n])" "inj_on ireg (set [a..<b])"
    using n by (auto intro!: inj_onI intro: kreg_inj hreg_inj ireg_inj)
  show "M (kreg k) = hent k" if "k < 1024" unfolding M by (rule lmap_in [OF _ inj(1)]) (use that in simp)
  show "M (hreg k) = hent k" if "k < n"
  proof -
    have "hreg k \<notin> kreg ` set [0..<1024]" using regions_apart(2) [of k] that n(1) by fastforce
    then show ?thesis unfolding M using lmap_in [OF _ inj(2), of k] that by (simp add: lmap_out)
  qed
  show "M (ireg k) = hent k" if "a \<le> k" "k < b"
  proof -
    have k: "k < 2 ^ 26" using that n(2) by simp
    then have "ireg k \<notin> kreg ` set [0..<1024]" using regions_apart(1) [of k] by (metis imageE)
    moreover have "ireg k \<noteq> hreg m" if "m < n" for m using regions_apart(3) [OF k, of m] that n(1) by simp
    then have "ireg k \<notin> hreg ` set [0..<n]" by (metis atLeastLessThan_iff imageE set_upt)
    ultimately show ?thesis unfolding M using lmap_in [OF _ inj(3), of k] that by (simp add: lmap_out)
  qed
qed

text \<open>C17: \<open>init_hhdm\<close> always returns. It gives up only when the firmware has fewer pages than \<open>boot_pages\<close> counts;
  otherwise, with the tables it leaves behind, the kernel's translation finds every physical address below the limit
  in the direct map, the loader's image at its own address, and the first 2 GiB at the addresses the kernel
  is linked at.\<close>

theorem init_hhdm_spec:
  assumes fr: "fresh_pages bs given" and st: "stocked bs stock"
    and mp: "max_phys \<le> 2 ^ 46" and im: "unat image_base + unat image_size \<le> 2 ^ 47"
  shows "\<exists>st root s'. init_hhdm bs max_phys image_base image_size s = Some (st, root, s') \<and>
    (st = EFI_OUT_OF_RESOURCES \<and> stock (fw s) < boot_pages max_phys image_size \<or>
     st = EFI_SUCCESS \<and>
       (\<forall>p < max_phys. extract_from (phys_to_virt root) (phys_to_virt p) (direct_map (umem s')) = p) \<and>
       (\<forall>p. image_base \<le> p \<and> p < image_base + image_size \<longrightarrow> extract_from (phys_to_virt root) p (direct_map (umem s')) = p) \<and>
       (\<forall>k < 2 ^ 31. extract_from (phys_to_virt root) (0xFFFFFFFF80000000 + k) (direct_map (umem s')) = k))"
proof -
  obtain n d q where h: "hhdm_tables max_phys = (n, d, q)" by (metis surj_pair)
  let ?a = "unat image_base div 2 ^ 21"
  define b where "b = (unat image_base + unat image_size + (2 ^ 21 - 1)) div 2 ^ 21"
  define M where "M = lmap kreg [0..<1024] (lmap hreg [0..<n] (lmap ireg [?a..<b] (\<lambda>_. 0)))"
  obtain st root s' where run: "init_hhdm bs max_phys image_base image_size s = Some (st, root, s')" "st \<in> {EFI_SUCCESS, EFI_OUT_OF_RESOURCES}"
    and g: "st = EFI_SUCCESS \<Longrightarrow> grown (view s') (phys_to_virt root) M (given (fw s'))"
    using init_hhdm_tree [OF fr mp im h b_def] unfolding M_def by blast
  have n: "n \<le> 2 ^ 25" by (rule hhdm_counts(4) [OF mp h])
  have b26: "b \<le> 2 ^ 26" using im div_le_mono [of "unat image_base + unat image_size + (2 ^ 21 - 1)" "2 ^ 47 + (2 ^ 21 - 1)" "2 ^ 21"] by (simp add: b_def)
  note C = boot_map_covers [OF M_def n b26]
  have direct: "extract_from (phys_to_virt root) (phys_to_virt p) (direct_map (umem s')) = p" if "st = EFI_SUCCESS" "p < max_phys" for p
  proof -
    have p: "p < 2 ^ 47" using that(2) mp by (simp add: word_less_nat_alt word_le_nat_alt)
    have "unat p < unat max_phys" using that(2) by (simp add: word_less_nat_alt)
    then have "unat p div 2 ^ 21 < n" using h div_le_mono [of "unat p + 2 ^ 21" "unat max_phys + 0x1FFFFF" "2 ^ 21"] by (auto simp: hhdm_tables_def Let_def)
    then have "M (vregion (HHDM_OFFSET + p)) = hent (unat p div 2 ^ 21)" using C(2) virt_region [OF p] by (simp add: phys_to_virt_def add.commute)
    from region_translates [OF g [OF that(1)] this p] show ?thesis by (simp add: phys_to_virt_def add.commute)
  qed
  have own: "extract_from (phys_to_virt root) p (direct_map (umem s')) = p"
    if "st = EFI_SUCCESS" "image_base \<le> p" "p < image_base + image_size" for p
  proof -
    have u: "unat image_base \<le> unat p" "unat p < unat image_base + unat image_size"
      using that(2,3) im by (simp_all add: word_less_nat_alt word_le_nat_alt unat_word_ariths)
    have p: "p < 2 ^ 47" using u im by (simp add: word_less_nat_alt)
    have "?a \<le> unat p div 2 ^ 21" using u(1) by (rule div_le_mono)
    moreover have "unat p div 2 ^ 21 < b"
      using u(2) div_le_mono [of "unat p + 2 ^ 21" "unat image_base + unat image_size + (2 ^ 21 - 1)" "2 ^ 21"] by (simp add: b_def)
    ultimately have "M (vregion (0 + p)) = hent (unat p div 2 ^ 21)" using C(3) low_region(1) [OF p] by simp
    from region_translates [OF g [OF that(1)] this p] show ?thesis by simp
  qed
  have kernel: "extract_from (phys_to_virt root) (0xFFFFFFFF80000000 + k) (direct_map (umem s')) = k" if "st = EFI_SUCCESS" "k < 2 ^ 31" for k
  proof -
    have k: "k < 2 ^ 47" "unat k div 2 ^ 21 < 1024" using that(2) by (simp_all add: word_less_nat_alt less_mult_imp_div_less)
    then have "M (vregion (0xFFFFFFFF80000000 + k)) = hent (unat k div 2 ^ 21)" using C(1) image_region [OF that(2)] by simp
    from region_translates [OF g [OF that(1)] this k(1)] show ?thesis by simp
  qed
  have "stock (fw s) < boot_pages max_phys image_size" if "st = EFI_OUT_OF_RESOURCES"
    using init_hhdm_stock [OF st mp im, of s] run(1) that by (cases "stock (fw s) < boot_pages max_phys image_size") (auto simp: not_less)
  then show ?thesis using run direct own kernel by auto
qed


theorem init_hhdm_spec_witness:
  "\<forall>bi. \<exists>root s'. init_hhdm simple_firmware 0x40000000 0x400000 0x10000 \<lparr>umem = (\<lambda>_. 0), fw = 0, g_boot_info = bi, mmap_entries = 0, mmap_count = 0\<rparr> = Some (EFI_SUCCESS, root, s') \<and>
    extract_from (phys_to_virt root) 0xFFFF800012345678 (direct_map (umem s')) = 0x12345678 \<and>
    extract_from (phys_to_virt root) 0x408000 (direct_map (umem s')) = 0x408000 \<and>
    extract_from (phys_to_virt root) 0xFFFFFFFF80200000 (direct_map (umem s')) = 0x200000"
proof
  fix bi
  let ?s = "\<lparr>umem = (\<lambda>_. 0), fw = 0, g_boot_info = bi, mmap_entries = 0, mmap_count = 0\<rparr>"
  have "\<not> 100 - fw ?s < boot_pages 0x40000000 0x10000" by (simp add: boot_pages_def hhdm_tables_def)
  then obtain root s' where r: "init_hhdm simple_firmware 0x40000000 0x400000 0x10000 ?s = Some (EFI_SUCCESS, root, s')"
    and d: "\<forall>p < 0x40000000. extract_from (phys_to_virt root) (phys_to_virt p) (direct_map (umem s')) = p"
    and o: "\<forall>p. 0x400000 \<le> p \<and> p < 0x400000 + 0x10000 \<longrightarrow> extract_from (phys_to_virt root) p (direct_map (umem s')) = p"
    and k: "\<forall>k < 2 ^ 31. extract_from (phys_to_virt root) (0xFFFFFFFF80000000 + k) (direct_map (umem s')) = k"
    using init_hhdm_spec [OF simple_firmware_ok, of "0x40000000" "0x400000" "0x10000" ?s] by auto
  show "\<exists>root s'. init_hhdm simple_firmware 0x40000000 0x400000 0x10000 ?s = Some (EFI_SUCCESS, root, s') \<and>
    extract_from (phys_to_virt root) 0xFFFF800012345678 (direct_map (umem s')) = 0x12345678 \<and>
    extract_from (phys_to_virt root) 0x408000 (direct_map (umem s')) = 0x408000 \<and>
    extract_from (phys_to_virt root) 0xFFFFFFFF80200000 (direct_map (umem s')) = 0x200000"
    using r d [rule_format, of "0x12345678"] o [rule_format, of "0x408000"] k [rule_format, of "0x200000"]
    by (intro exI [of _ root] exI [of _ s']) (simp add: phys_to_virt_def)
qed

end
