(* ===== verification/Loader_Image.thy ===== *)
theory Loader_Image
  imports Loader_Map
begin

text \<open>
  What the boot loader puts into memory and tells the kernel. \<open>image_of\<close> is memory with the segments of an
  image in their places; \<open>load_elf_kernel_uefi\<close> produces it when the segments lie apart from one another
  and from the file. \<open>init_mmap\<close> turns the firmware's memory map, given as the bytes the firmware writes, into the
  table the kernel reads, with a limit above every region.
\<close>

section \<open>The kernel image\<close>

definition seg_start :: "Elf64_Phdr \<Rightarrow> u64" where
  "seg_start ph = p_vaddr ph - 0xFFFFFFFF80000000"

definition covers :: "Elf64_Phdr \<Rightarrow> u64 \<Rightarrow> bool" where
  "covers ph a \<longleftrightarrow> a - seg_start ph < p_memsz ph"

definition seg_byte :: "u64 \<Rightarrow> memory \<Rightarrow> Elf64_Phdr \<Rightarrow> u64 \<Rightarrow> u8" where
  \<comment> \<open>bytes of the file, then zeroes\<close>
  "seg_byte elf m ph a = (if a - seg_start ph < p_filesz ph then m (elf + p_offset ph + (a - seg_start ph)) else 0)"

definition image_of :: "u64 \<Rightarrow> memory \<Rightarrow> Elf64_Phdr list \<Rightarrow> memory" where
  "image_of elf m phs = (\<lambda>a. case find (\<lambda>ph. covers ph a) phs of None \<Rightarrow> m a | Some ph \<Rightarrow> seg_byte elf m ph a)"

definition phdr_of :: "u64 \<Rightarrow> memory \<Rightarrow> nat \<Rightarrow> Elf64_Phdr" where
  "phdr_of elf m j = Phdr_at (elf + e_phoff (Ehdr_at elf m) + sizeof_Phdr * of_nat j) m"

definition segments :: "u64 \<Rightarrow> memory \<Rightarrow> nat \<Rightarrow> Elf64_Phdr list" where
  \<comment> \<open>those to be loaded among the first headers\<close>
  "segments elf m n = filter (\<lambda>ph. p_type ph = PT_LOAD) (map (phdr_of elf m) [0..<n])"

abbreviation all_segments :: "u64 \<Rightarrow> memory \<Rightarrow> Elf64_Phdr list" where
  "all_segments elf m \<equiv> segments elf m (unat (e_phnum (Ehdr_at elf m)))"

definition file_bytes :: "u64 \<Rightarrow> memory \<Rightarrow> u64 \<Rightarrow> bool" where
  \<comment> \<open>what of the file the loader reads\<close>
  "file_bytes elf m a \<longleftrightarrow> (\<exists>i < 64. a = elf + of_nat i) \<or>
     (\<exists>j < unat (e_phnum (Ehdr_at elf m)). \<exists>i < 56. a = elf + e_phoff (Ehdr_at elf m) + sizeof_Phdr * of_nat j + of_nat i) \<or>
     (\<exists>ph \<in> set (all_segments elf m). a - (elf + p_offset ph) < p_filesz ph)"

definition loadable :: "u64 \<Rightarrow> memory \<Rightarrow> bool" where
  \<comment> \<open>segments lie apart from one another and from the file\<close>
  "loadable elf m \<longleftrightarrow>
     (\<forall>ph \<in> set (all_segments elf m). p_filesz ph \<le> p_memsz ph \<and> (\<forall>a. covers ph a \<longrightarrow> \<not> file_bytes elf m a)) \<and>
     sorted_wrt (\<lambda>p q. \<forall>a. \<not> (covers p a \<and> covers q a)) (all_segments elf m)"

lemma load_le_at:
  assumes "\<And>i. i < n \<Longrightarrow> m' (a + of_nat i) = m (a + of_nat i)" "k + w \<le> n"
  shows "load_le w (a + of_nat k) m' = load_le w (a + of_nat k) m"
proof (rule load_le_cong)
  fix i assume "i < w"
  then show "m' (a + of_nat k + of_nat i) = m (a + of_nat k + of_nat i)" using assms(1) [of "k + i"] assms(2) by (simp add: add.assoc)
qed

lemma Ehdr_at_cong:
  assumes "\<And>i. i < 64 \<Longrightarrow> m' (a + of_nat i) = m (a + of_nat i)"
  shows "Ehdr_at a m' = Ehdr_at a m"
proof -
  have L: "load_le w (a + of_nat k) m' = load_le w (a + of_nat k) m" if "k + w \<le> 64" for w k
    by (rule load_le_at [where n = 64]) (use assms that in auto)
  show ?thesis
    using assms L [of 16 2] L [of 18 2] L [of 20 4] L [of 24 8] L [of 32 8] L [of 40 8] L [of 48 4] L [of 52 2] L [of 54 2] L [of 56 2]
      L [of 58 2] L [of 60 2] L [of 62 2]
    by (simp add: Ehdr_at_def load16_def load32_def load64_def)
qed

lemma Phdr_at_cong:
  assumes "\<And>i. i < 56 \<Longrightarrow> m' (a + of_nat i) = m (a + of_nat i)"
  shows "Phdr_at a m' = Phdr_at a m"
proof -
  have L: "load_le w (a + of_nat k) m' = load_le w (a + of_nat k) m" if "k + w \<le> 56" for w k
    by (rule load_le_at [where n = 56]) (use assms that in auto)
  show ?thesis
    using L [of 0 4] L [of 4 4] L [of 8 8] L [of 16 8] L [of 24 8] L [of 32 8] L [of 40 8] L [of 48 8]
    by (simp add: Phdr_at_def load32_def load64_def)
qed

lemma shifted_range:
  assumes "n < (k :: u64)"
  shows "x - n < k - n \<longleftrightarrow> x < k \<and> \<not> x < n"
proof -
  have "unat (k - n) = unat k - unat n" "unat n < unat k" using unat_sub [of n k] assms by (simp, simp add: word_less_nat_alt)
  then show ?thesis using unat_less_64 [of k] unat_less_64 [of x]
    by (cases "n \<le> x") (auto simp: word_less_nat_alt word_le_nat_alt unat_sub_if_size word_size)
qed

lemma load_phdr_bytes:
  assumes run: "load_phdr bs elf ph s = (st, s')" and ok: "\<not> EFI_ERROR st"
    and le: "p_filesz ph \<le> p_memsz ph" and apart: "\<And>a. covers ph a \<Longrightarrow> \<not> a - (elf + p_offset ph) < p_filesz ph"
  shows "umem s' = (\<lambda>a. if covers ph a then seg_byte elf (umem s) ph a else umem s a)" "g_boot_info s' = g_boot_info s" "st = EFI_SUCCESS"
proof -
  let ?d = "seg_start ph" let ?n = "p_filesz ph" let ?src = "elf + p_offset ph"
  define m1 where "m1 = (if ?n > 0 then memcpy ?d ?src ?n (umem s) else umem s)"
  define m2 where "m2 = (if p_memsz ph > ?n then memset (?d + ?n) 0 (p_memsz ph - ?n) m1 else m1)"
  have s': "umem s' = m2" "g_boot_info s' = g_boot_info s" "st = EFI_SUCCESS"
    using run ok unfolding m2_def m1_def by (auto simp: load_phdr_def seg_start_def Let_def split: prod.splits if_splits)
  have "?d + i \<noteq> ?src + j" if "i < ?n" "j < ?n" for i j
    using apart [of "?d + i"] that less_le_trans [OF that(1) le] by (auto simp: covers_def)
  then have m1: "m1 = (\<lambda>a. if a - ?d < ?n then umem s (?src + (a - ?d)) else umem s a)"
    unfolding m1_def by (cases "?n = 0") (auto simp: memcpy_spec word_gt_0)
  have r: "a - (?d + ?n) < p_memsz ph - ?n \<longleftrightarrow> a - ?d < p_memsz ph \<and> \<not> a - ?d < ?n" if "?n < p_memsz ph" for a
    using shifted_range [OF that, of "a - ?d"] by (simp add: diff_diff_eq)
  have "m2 a = (if covers ph a then seg_byte elf (umem s) ph a else umem s a)" for a
    using r [of a] le unfolding m2_def by (auto simp: m1 memset_spec covers_def seg_byte_def)
  then show "umem s' = (\<lambda>a. if covers ph a then seg_byte elf (umem s) ph a else umem s a)" using s'(1) by auto
  show "g_boot_info s' = g_boot_info s" "st = EFI_SUCCESS" by (rule s')+
qed


lemma image_of_snoc:
  assumes "\<And>ph a. ph \<in> set phs \<Longrightarrow> \<not> (covers ph a \<and> covers h a)"
  shows "image_of elf m (phs @ [h]) = (\<lambda>a. if covers h a then seg_byte elf m h a else image_of elf m phs a)"
proof
  fix a
  have "find (\<lambda>ph. covers ph a) phs = None" if "covers h a" using assms that by (auto simp: find_None_iff)
  then show "image_of elf m (phs @ [h]) a = (if covers h a then seg_byte elf m h a else image_of elf m phs a)"
    by (auto simp: image_of_def find_append split: option.splits)
qed

lemma image_of_uncovered: "(\<And>ph. ph \<in> set phs \<Longrightarrow> \<not> covers ph a) \<Longrightarrow> image_of elf m phs a = m a"
  using find_None_iff [of "\<lambda>ph. covers ph a" phs] by (simp add: image_of_def)

lemma segments_Suc: "segments elf m (Suc n) = segments elf m n @ (if p_type (phdr_of elf m n) = PT_LOAD then [phdr_of elf m n] else [])"
  by (simp add: segments_def)

lemma segments_mono: "i \<le> n \<Longrightarrow> set (segments elf m i) \<subseteq> set (segments elf m n)"
  by (auto simp: segments_def)

lemma loadable_segment:
  assumes L: "loadable elf m" and i: "i < unat (e_phnum (Ehdr_at elf m))" and t: "p_type (phdr_of elf m i) = PT_LOAD"
  shows "p_filesz (phdr_of elf m i) \<le> p_memsz (phdr_of elf m i)"
    "covers (phdr_of elf m i) a \<Longrightarrow> \<not> a - (elf + p_offset (phdr_of elf m i)) < p_filesz (phdr_of elf m i)"
    "ph \<in> set (segments elf m i) \<Longrightarrow> \<not> (covers ph a \<and> covers (phdr_of elf m i) a)"
proof -
  let ?n = "unat (e_phnum (Ehdr_at elf m))" let ?h = "phdr_of elf m i"
  have "?h \<in> set (segments elf m (Suc i))" using t by (simp add: segments_Suc)
  then have h: "?h \<in> set (segments elf m ?n)" using segments_mono [of "Suc i" ?n] i by auto
  show "p_filesz ?h \<le> p_memsz ?h" using L h by (simp add: loadable_def)
  show "covers ?h a \<Longrightarrow> \<not> a - (elf + p_offset ?h) < p_filesz ?h" using L h by (auto simp: loadable_def file_bytes_def)
  have "segments elf m ?n = segments elf m (Suc i) @ filter (\<lambda>ph. p_type ph = PT_LOAD) (map (phdr_of elf m) [Suc i..<?n])"
    using i upt_add_eq_append [of 0 "Suc i" "?n - Suc i"] unfolding segments_def by (simp flip: filter_append map_append)
  then have "sorted_wrt (\<lambda>p q. \<forall>a. \<not> (covers p a \<and> covers q a)) (segments elf m i @ [?h])"
    using L t by (simp add: loadable_def segments_Suc sorted_wrt_append)
  then show "ph \<in> set (segments elf m i) \<Longrightarrow> \<not> (covers ph a \<and> covers ?h a)" by (auto simp: sorted_wrt_append)
qed

lemma image_keeps_file:
  assumes "loadable elf m" "i \<le> unat (e_phnum (Ehdr_at elf m))" "file_bytes elf m a"
  shows "image_of elf m (segments elf m i) a = m a"
  by (rule image_of_uncovered) (use assms segments_mono [OF assms(2), of elf m] in \<open>auto simp: loadable_def\<close>)

lemma image_headers:
  assumes "loadable elf m" "i \<le> unat (e_phnum (Ehdr_at elf m))"
  shows "Ehdr_at elf (image_of elf m (segments elf m i)) = Ehdr_at elf m"
    "j < unat (e_phnum (Ehdr_at elf m)) \<Longrightarrow>
      Phdr_at (elf + e_phoff (Ehdr_at elf m) + sizeof_Phdr * of_nat j) (image_of elf m (segments elf m i)) = phdr_of elf m j"
proof -
  note k = image_keeps_file [OF assms]
  show "Ehdr_at elf (image_of elf m (segments elf m i)) = Ehdr_at elf m"
    by (rule Ehdr_at_cong) (auto intro!: k simp: file_bytes_def)
  show "Phdr_at (elf + e_phoff (Ehdr_at elf m) + sizeof_Phdr * of_nat j) (image_of elf m (segments elf m i)) = phdr_of elf m j"
    if "j < unat (e_phnum (Ehdr_at elf m))"
    unfolding phdr_of_def
  proof (rule Phdr_at_cong, rule k)
    fix i :: nat assume "i < 56"
    then show "file_bytes elf m (elf + e_phoff (Ehdr_at elf m) + sizeof_Phdr * of_nat j + of_nat i)"
      using that unfolding file_bytes_def by blast
  qed
qed

lemma image_source:
  assumes "loadable elf m" "i < unat (e_phnum (Ehdr_at elf m))" "p_type (phdr_of elf m i) = PT_LOAD"
  shows "seg_byte elf (image_of elf m (segments elf m i)) (phdr_of elf m i) = seg_byte elf m (phdr_of elf m i)"
proof
  fix a
  let ?h = "phdr_of elf m i" let ?x = "elf + p_offset ?h + (a - seg_start ?h)"
  have "?h \<in> set (all_segments elf m)"
    using assms(2,3) segments_mono [of "Suc i" "unat (e_phnum (Ehdr_at elf m))" elf m] by (auto simp: segments_Suc)
  then have "a - seg_start ?h < p_filesz ?h \<Longrightarrow> file_bytes elf m ?x" unfolding file_bytes_def by (metis add_diff_cancel_left')
  then show "seg_byte elf (image_of elf m (segments elf m i)) ?h a = seg_byte elf m ?h a"
    using image_keeps_file [OF assms(1), of i ?x] assms(2) by (simp add: seg_byte_def)
qed

lemma load_phdrs_image:
  assumes L: "loadable elf m" and i: "i \<le> unat (e_phnum (Ehdr_at elf m))" and s: "umem s = image_of elf m (segments elf m i)"
    and run: "load_phdrs i bs elf (elf + e_phoff (Ehdr_at elf m)) s = (st, s')"
  shows "st = EFI_SUCCESS \<and> umem s' = image_of elf m (all_segments elf m) \<and> g_boot_info s' = g_boot_info s \<or>
    EFI_ERROR st \<and> (\<exists>n a f. st = fst (AllocateAddress bs n a f))"
  using i s run
proof (induction "unat (e_phnum (Ehdr_at elf m)) - i" arbitrary: i s)
  case 0
  then have "i = unat (e_phnum (Ehdr_at elf m))" by simp
  then show ?case using 0(3,4) image_headers(1) [OF L, of i] by (simp add: load_phdrs.simps)
next
  case (Suc k)
  let ?N = "unat (e_phnum (Ehdr_at elf m))" let ?h = "phdr_of elf m i"
  have lt: "i < ?N" "k = ?N - Suc i" using Suc.hyps(2) by simp_all
  note H = image_headers [OF L Suc.prems(1)]
  have unf: "load_phdrs i bs elf (elf + e_phoff (Ehdr_at elf m)) s =
      (if p_type ?h = PT_LOAD then
         let (status, s) = load_phdr bs elf ?h s
         in if EFI_ERROR status then (status, s) else load_phdrs (Suc i) bs elf (elf + e_phoff (Ehdr_at elf m)) s
       else load_phdrs (Suc i) bs elf (elf + e_phoff (Ehdr_at elf m)) s)"
    using lt(1) H(1) H(2) [OF lt(1)] by (subst load_phdrs.simps) (simp add: Suc.prems(2))
  show ?case
  proof (cases "p_type ?h = PT_LOAD")
    case False
    then have "umem s = image_of elf m (segments elf m (Suc i))" using Suc.prems(2) by (simp add: segments_Suc)
    then show ?thesis using Suc.hyps(1) [OF lt(2)] Suc.prems(3) unf False lt(1) by simp
  next
    case True
    obtain st1 s1 where p: "load_phdr bs elf ?h s = (st1, s1)" by (metis surj_pair)
    note S = loadable_segment [OF L lt(1) True]
    show ?thesis
    proof (cases "EFI_ERROR st1")
      case e: True
      have "\<exists>n a f. st1 = fst (AllocateAddress bs n a f)"
        using p e by (auto simp: load_phdr_def Let_def split: prod.splits if_splits) (metis fst_conv)+
      then show ?thesis using Suc.prems(3) unf True p e by simp
    next
      case ok: False
      note B = load_phdr_bytes [OF p ok S(1) S(2)]
      have "umem s1 = image_of elf m (segments elf m (Suc i))"
        using B(1) [unfolded Suc.prems(2) image_source [OF L lt(1) True]] image_of_snoc [of "segments elf m i" ?h elf m] S(3) True
        by (simp add: segments_Suc)
      then show ?thesis using Suc.hyps(1) [OF lt(2), of s1] Suc.prems(3) unf True p ok lt(1) B(2) by simp
    qed
  qed
qed

text \<open>C18: \<open>load_elf_kernel_uefi\<close> refuses a file without the ELF magic and touches nothing then. Otherwise, for
  an image whose segments lie apart from one another and from the file, it either reports the error of
  the firmware that would not give it a segment's pages, or it returns the entry point and memory holds
  every segment at its physical place, bytes of the file followed by zeroes, and is unchanged
  everywhere else.\<close>

theorem load_elf_kernel_spec:
  assumes L: "loadable elf (umem s)" and run: "load_elf_kernel_uefi bs elf s = ((st, ent), s')"
  shows "if take 4 (e_ident (Ehdr_at elf (umem s))) \<noteq> [0x7F, 0x45, 0x4C, 0x46] then st = EFI_INVALID_PARAMETER \<and> s' = s
    else st = EFI_SUCCESS \<and> ent = e_entry (Ehdr_at elf (umem s)) \<and> umem s' = image_of elf (umem s) (all_segments elf (umem s)) \<and>
        g_boot_info s' = g_boot_info s \<or>
      EFI_ERROR st \<and> (\<exists>n a f. st = fst (AllocateAddress bs n a f))"
proof (cases "take 4 (e_ident (Ehdr_at elf (umem s))) \<noteq> [0x7F, 0x45, 0x4C, 0x46]")
  case True
  then show ?thesis using run by (simp add: load_elf_kernel_uefi_def)
next
  case False
  let ?m = "umem s"
  obtain st1 s1 where p: "load_phdrs 0 bs elf (elf + e_phoff (Ehdr_at elf ?m)) s = (st1, s1)" by (metis surj_pair)
  have "?m = image_of elf ?m (segments elf ?m 0)" by (simp add: image_of_def segments_def)
  then have P: "st1 = EFI_SUCCESS \<and> umem s1 = image_of elf ?m (all_segments elf ?m) \<and> g_boot_info s1 = g_boot_info s \<or>
      EFI_ERROR st1 \<and> (\<exists>n a f. st1 = fst (AllocateAddress bs n a f))"
    using load_phdrs_image [OF L _ _ p] by blast
  then show ?thesis using run False p image_headers(1) [OF L le_refl]
    by (auto simp: load_elf_kernel_uefi_def Let_def split: if_splits)
qed


definition tiny_kernel :: memory where
  \<comment> \<open>an image at 0x10000 with one segment of four bytes, to be loaded with four zeroes after it\<close>
  "tiny_kernel a =
     (if a = 0x10000 then 0x7F else if a = 0x10001 then 0x45 else if a = 0x10002 then 0x4C else if a = 0x10003 then 0x46
      else if a = 0x10019 then 0x01 else if a = 0x1001A then 0x20 else if a = 0x1001B then 0x80
      else if 0x1001C \<le> a \<and> a < 0x10020 then 0xFF
      else if a = 0x10020 then 64 else if a = 0x10038 then 1
      else if a = 0x10040 then 1 else if a = 0x10049 then 1
      else if a = 0x10052 then 0x20 else if a = 0x10053 then 0x80 else if 0x10054 \<le> a \<and> a < 0x10058 then 0xFF
      else if a = 0x10060 then 4 else if a = 0x10068 then 8
      else if a = 0x10100 then 0xDE else if a = 0x10101 then 0xAD else if a = 0x10102 then 0xBE else if a = 0x10103 then 0xEF
      else 0)"

lemma tiny_kernel_header:
  "e_phoff (Ehdr_at 0x10000 tiny_kernel) = 64" "e_phnum (Ehdr_at 0x10000 tiny_kernel) = 1" "e_entry (Ehdr_at 0x10000 tiny_kernel) = 0xFFFFFFFF80200100"
  by (simp_all add: Ehdr_at_def load_bytes tiny_kernel_def)

lemma tiny_kernel_magic: "take 4 (e_ident (Ehdr_at 0x10000 tiny_kernel)) = [0x7F, 0x45, 0x4C, 0x46]"
proof -
  have "[0..<4] = [0, 1, 2, 3 :: nat]" by (simp add: upt_rec)
  then show ?thesis by (simp add: Ehdr_at_def take_map tiny_kernel_def)
qed

lemma tiny_kernel_phdr:
  "p_type (phdr_of 0x10000 tiny_kernel 0) = PT_LOAD" "p_offset (phdr_of 0x10000 tiny_kernel 0) = 0x100"
  "p_vaddr (phdr_of 0x10000 tiny_kernel 0) = 0xFFFFFFFF80200000" "p_filesz (phdr_of 0x10000 tiny_kernel 0) = 4" "p_memsz (phdr_of 0x10000 tiny_kernel 0) = 8"
  by (simp_all add: phdr_of_def tiny_kernel_header Phdr_at_def load_bytes tiny_kernel_def)

lemma tiny_kernel_segments: "all_segments 0x10000 tiny_kernel = [phdr_of 0x10000 tiny_kernel 0]"
  by (simp add: tiny_kernel_header segments_def tiny_kernel_phdr)

lemma tiny_kernel_loadable: "loadable 0x10000 tiny_kernel"
proof -
  let ?h = "phdr_of 0x10000 tiny_kernel 0"
  have c: "0x200000 \<le> unat a" if "covers ?h a" for a
  proof -
    have "a - 0x200000 < 8" using that by (simp add: covers_def seg_start_def tiny_kernel_phdr)
    then have "unat (a - 0x200000) < 8" by (simp add: word_less_nat_alt)
    moreover have "unat a = unat (0x200000 + (a - 0x200000))" by simp
    moreover have "unat (0x200000 + x) = 0x200000 + unat x" if "unat x < 8" for x :: u64 using that by (simp add: unat_word_ariths)
    ultimately show ?thesis by (metis le_add1)
  qed
  have small: "unat (0x10000 + of_nat i :: u64) < 0x20000" if "i < 0x1000" for i using that by (simp add: unat_word_ariths unat_of_nat take_bit_nat_eq_self)
  have f: "unat a < 0x20000" if "file_bytes 0x10000 tiny_kernel a" for a
  proof -
    have "(\<exists>i < 64. a = 0x10000 + of_nat i) \<or> (\<exists>i < 56. a = 0x10040 + of_nat i) \<or> a - 0x10100 < 4"
      using that unfolding file_bytes_def tiny_kernel_segments by (auto simp: tiny_kernel_header tiny_kernel_phdr)
    then obtain i where "i < 0x1000" "a = 0x10000 + of_nat i"
    proof (elim disjE exE conjE)
      fix i :: nat assume "i < 64" "a = 0x10000 + of_nat i"
      then show thesis by (intro that [of i]) simp_all
    next
      fix i :: nat assume "i < 56" "a = 0x10040 + of_nat i"
      then show thesis by (intro that [of "64 + i"]) simp_all
    next
      assume "a - 0x10100 < 4"
      then have "unat (a - 0x10100) < 4" by (simp add: word_less_nat_alt)
      then show thesis by (intro that [of "0x100 + unat (a - 0x10100)"]) simp_all
    qed
    then show ?thesis using small by simp
  qed
  have "\<not> file_bytes 0x10000 tiny_kernel a" if "covers ?h a" for a using c [OF that] f [of a] by linarith
  then show ?thesis unfolding loadable_def tiny_kernel_segments by (simp add: tiny_kernel_phdr)
qed

theorem load_elf_kernel_spec_witness:
  "\<forall>bi. \<exists>s'. load_elf_kernel_uefi simple_firmware 0x10000 \<lparr>umem = tiny_kernel, fw = 0, g_boot_info = bi, mmap_entries = 0, mmap_count = 0\<rparr>
      = ((EFI_SUCCESS, 0xFFFFFFFF80200100), s') \<and> umem s' 0x200003 = 0xEF \<and> umem s' 0x200004 = 0"
proof
  fix bi
  let ?s = "\<lparr>umem = tiny_kernel, fw = 0, g_boot_info = bi, mmap_entries = 0, mmap_count = 0\<rparr> :: nat loader"
  obtain st ent s' where run: "load_elf_kernel_uefi simple_firmware 0x10000 ?s = ((st, ent), s')" by (metis surj_pair)
  have "fst (AllocateAddress simple_firmware n a f) = EFI_SUCCESS" for n a f by (simp add: simple_firmware_def)
  moreover have "loadable 0x10000 (umem ?s)" by (simp add: tiny_kernel_loadable)
  ultimately have "st = EFI_SUCCESS" "ent = 0xFFFFFFFF80200100" "umem s' = image_of 0x10000 tiny_kernel (all_segments 0x10000 tiny_kernel)"
    using load_elf_kernel_spec [OF _ run] tiny_kernel_magic tiny_kernel_header(3) by auto
  then show "\<exists>s'. load_elf_kernel_uefi simple_firmware 0x10000 ?s = ((EFI_SUCCESS, 0xFFFFFFFF80200100), s') \<and> umem s' 0x200003 = 0xEF \<and> umem s' 0x200004 = 0"
    using run unfolding tiny_kernel_segments
    by (simp add: image_of_def covers_def seg_start_def seg_byte_def tiny_kernel_phdr) (simp add: tiny_kernel_def)
qed

section \<open>The memory map: numbers in memory\<close>

primrec le_bytes :: "nat \<Rightarrow> 'a::len word \<Rightarrow> u8 list" where
  "le_bytes 0 v = []"
| "le_bytes (Suc k) v = ucast v # le_bytes k (drop_bit 8 v)"

lemma length_le_bytes [simp]: "length (le_bytes k v) = k"
  by (induction k arbitrary: v) auto

lemma le_bytes_numeral:
  "le_bytes 4 v = [ucast v, ucast (drop_bit 8 v), ucast (drop_bit 16 v), ucast (drop_bit 24 v)]"
  "le_bytes 8 v = [ucast v, ucast (drop_bit 8 v), ucast (drop_bit 16 v), ucast (drop_bit 24 v),
     ucast (drop_bit 32 v), ucast (drop_bit 40 v), ucast (drop_bit 48 v), ucast (drop_bit 56 v)]"
proof -
  have n: "4 = Suc (Suc (Suc (Suc 0)))" "8 = Suc (Suc (Suc (Suc (Suc (Suc (Suc (Suc 0)))))))" by simp_all
  show "le_bytes 4 v = [ucast v, ucast (drop_bit 8 v), ucast (drop_bit 16 v), ucast (drop_bit 24 v)]"
    by (subst n) (simp add: drop_bit_drop_bit)
  show "le_bytes 8 v = [ucast v, ucast (drop_bit 8 v), ucast (drop_bit 16 v), ucast (drop_bit 24 v),
     ucast (drop_bit 32 v), ucast (drop_bit 40 v), ucast (drop_bit 48 v), ucast (drop_bit 56 v)]"
    by (subst n(2)) (simp add: drop_bit_drop_bit)
qed

lemma load_le_bytes:
  assumes "\<And>i. i < k \<Longrightarrow> m (a + of_nat i) = le_bytes k v ! i"
  shows "load_le k a m = take_bit (8 * k) v"
  using assms
proof (induction k arbitrary: a v)
  case (Suc k)
  have "m (a + 1 + of_nat i) = le_bytes k (drop_bit 8 v) ! i" if "i < k" for i
    using Suc.prems [of "Suc i"] that by (simp add: algebra_simps)
  then have "load_le k (a + 1) m = take_bit (8 * k) (drop_bit 8 v)" by (rule Suc.IH)
  moreover have "m a = ucast v" using Suc.prems [of 0] by simp
  ultimately show ?case by (intro bit_word_eqI) (auto simp: bit_simps)
qed simp

lemma offset_eq: "i < 2 ^ 64 \<Longrightarrow> j < 2 ^ 64 \<Longrightarrow> (a :: u64) + of_nat i = a + of_nat j \<longleftrightarrow> i = j"
  by (simp add: word_of_nat_eq_iff take_bit_nat_eq_self)

section \<open>The memory map: one entry\<close>

lemma load_store_apart:
  assumes "k + w \<le> k' \<or> k' + w' \<le> k" "k + w < 2 ^ 64" "k' + w' < 2 ^ 64"
  shows "load_le w (a + of_nat k) (store_le w' (a + of_nat k') v m) = load_le w (a + of_nat k) m"
proof (rule load_le_cong, rule store_le_outside)
  fix i j assume "i < w" "j < w'"
  then have "k + i \<noteq> k' + j" "k + i < 2 ^ 64" "k' + j < 2 ^ 64" using assms by auto
  then show "a + of_nat k + of_nat i \<noteq> a + of_nat k' + of_nat j" using offset_eq [of "k + i" "k' + j" a] by (simp add: add.assoc)
qed

definition put_entry :: "u64 \<Rightarrow> mmap_entry_t \<Rightarrow> memory \<Rightarrow> memory" where
  "put_entry a e m = store32 (a + 20) (mflags e) (store32 (a + 16) (mtype e) (store64 (a + 8) (len e) (store64 a (phys_start e) m)))"

lemma entry_put: "mmap_entry_at a (put_entry a e m) = e"
proof -
  note ap = load_store_apart [of 0 8 8 8 a, simplified] load_store_apart [of 0 8 16 4 a, simplified] load_store_apart [of 0 8 20 4 a, simplified]
    load_store_apart [of 8 8 16 4 a, simplified] load_store_apart [of 8 8 20 4 a, simplified] load_store_apart [of 16 4 20 4 a, simplified]
  show ?thesis
    by (simp add: mmap_entry_at_def put_entry_def load64_def store64_def load32_def store32_def ap load_store_le take_bit_word_eq_self)
qed

lemma store_in_entry:
  assumes "\<And>k. k < 24 \<Longrightarrow> x \<noteq> a + of_nat k" "k + w \<le> 24"
  shows "store_le w (a + of_nat k) v m x = m x"
proof (rule store_le_outside)
  fix i assume "i < w"
  then show "x \<noteq> a + of_nat k + of_nat i" using assms(1) [of "k + i"] assms(2) by (simp add: add.assoc)
qed

lemmas stores_in_entry = store_in_entry [where k = 0 and w = 8, simplified] store_in_entry [where k = 8 and w = 8, simplified]
  store_in_entry [where k = 16 and w = 4, simplified] store_in_entry [where k = 20 and w = 4, simplified]

lemma put_outside: "(\<And>k. k < 24 \<Longrightarrow> x \<noteq> a + of_nat k) \<Longrightarrow> put_entry a e m x = m x"
  by (simp add: put_entry_def store64_def store32_def stores_in_entry)

lemma entry_cong: "(\<And>k. k < 24 \<Longrightarrow> m' (a + of_nat k) = m (a + of_nat k)) \<Longrightarrow> mmap_entry_at a m' = mmap_entry_at a m"
proof -
  assume c: "\<And>k. k < 24 \<Longrightarrow> m' (a + of_nat k) = m (a + of_nat k)"
  have L: "load_le w (a + of_nat k) m' = load_le w (a + of_nat k) m" if "k + w \<le> 24" for w k
    by (rule load_le_at [where n = 24]) (use c that in auto)
  show ?thesis using L [of 0 8] L [of 8 8] L [of 16 4] L [of 20 4] by (simp add: mmap_entry_at_def load32_def load64_def)
qed

section \<open>The memory map: descriptors\<close>

record efi_memory_descriptor =
  md_type :: u32
  md_phys :: u64
  md_pages :: u64
  md_attribute :: u64

definition desc_at :: "u64 \<Rightarrow> memory \<Rightarrow> efi_memory_descriptor" where
  "desc_at a m = \<lparr>md_type = desc_Type a m, md_phys = desc_PhysicalStart a m, md_pages = desc_NumberOfPages a m, md_attribute = desc_Attribute a m\<rparr>"

lemma desc_at_cong:
  assumes "\<And>k. k < 40 \<Longrightarrow> m' (a + of_nat k) = m (a + of_nat k)"
  shows "desc_at a m' = desc_at a m"
proof -
  have L: "load_le w (a + of_nat k) m' = load_le w (a + of_nat k) m" if "k + w \<le> 40" for w k
    by (rule load_le_at [where n = 40]) (use assms that in auto)
  show ?thesis using L [of 0 4] L [of 8 8] L [of 24 8] L [of 32 8]
    by (simp add: desc_at_def desc_Type_def desc_PhysicalStart_def desc_NumberOfPages_def desc_Attribute_def load32_def load64_def)
qed

definition entry_of :: "efi_memory_descriptor \<Rightarrow> mmap_entry_t" where
  "entry_of d = \<lparr>phys_start = md_phys d, len = md_pages d * 4096, mtype = convert_mmap_type (md_type d), mflags = ucast (md_attribute d)\<rparr>"

definition md_end :: "efi_memory_descriptor \<Rightarrow> u64" where
  "md_end d = md_phys d + md_pages d * 4096"

lemma scan_entry_put:
  assumes apart: "\<And>j k. j < 40 \<Longrightarrow> k < 24 \<Longrightarrow> mp + of_nat i * ds + of_nat j \<noteq> ents + 24 * of_nat i + of_nat k"
    and d: "desc_at (mp + of_nat i * ds) m = d"
  shows "scan_entry mp ds ents i (m, mx, u) = (put_entry (ents + 24 * of_nat i) (entry_of d) m, max mx (md_end d),
     if md_type d = EfiConventionalMemory then u + md_pages d * 4096 else u)"
proof -
  let ?a = "mp + of_nat i * ds" and ?e = "ents + 24 * of_nat i"
  have f: "desc_Type a m' = md_type (desc_at a m')" "desc_PhysicalStart a m' = md_phys (desc_at a m')"
    "desc_NumberOfPages a m' = md_pages (desc_at a m')" "desc_Attribute a m' = md_attribute (desc_at a m')" for a m'
    by (simp_all add: desc_at_def)
  have s64: "desc_at ?a (store64 ?e v m') = desc_at ?a m'" "desc_at ?a (store64 (?e + 8) v m') = desc_at ?a m'" for v m'
    unfolding store64_def by (rule desc_at_cong, rule stores_in_entry, rule apart; simp)+
  have s32: "desc_at ?a (store32 (?e + 16) v m') = desc_at ?a m'" "desc_at ?a (store32 (?e + 20) v m') = desc_at ?a m'" for v m'
    unfolding store32_def by (rule desc_at_cong, rule stores_in_entry, rule apart; simp)+
  have "max mx (md_end d) = (if md_end d > mx then md_end d else mx)" using max_def [of mx "md_end d"] by auto
  then show ?thesis unfolding scan_entry_def Let_def split_conv f s64 s32 d put_entry_def entry_of_def md_end_def by simp
qed

section \<open>The memory map: all entries\<close>

definition apart :: "u64 \<Rightarrow> nat \<Rightarrow> u64 \<Rightarrow> nat \<Rightarrow> bool" where
  \<comment> \<open>two buffers have no byte in common\<close>
  "apart a n b k \<longleftrightarrow> (\<forall>i < n. \<forall>j < k. a + of_nat i \<noteq> b + of_nat j)"

definition usable_of :: "efi_memory_descriptor list \<Rightarrow> u64" where
  "usable_of ds = (\<Sum>d \<leftarrow> filter (\<lambda>d. md_type d = EfiConventionalMemory) ds. md_pages d * 4096)"

lemma scan_upto:
  assumes d: "\<And>i. i < n \<Longrightarrow> desc_at (mp + of_nat i * ds) m0 = descs ! i" and n: "n = length descs" "n < 2 ^ 32"
    and sz: "40 \<le> unat ds" and ap: "apart mp (n * unat ds) ents (24 * n)" and "j \<le> n"
  shows "\<exists>m. fold (scan_entry mp ds ents) [0..<j] (m0, 0, 0) = (m, foldl max 0 (map md_end (take j descs)), usable_of (take j descs)) \<and>
    (\<forall>x. (\<forall>k < 24 * j. x \<noteq> ents + of_nat k) \<longrightarrow> m x = m0 x) \<and> (\<forall>i < j. mmap_entry_at (ents + 24 * of_nat i) m = entry_of (descs ! i))"
  using \<open>j \<le> n\<close>
proof (induction j)
  case 0
  then show ?case by (simp add: usable_of_def)
next
  case (Suc j)
  then obtain m where m: "fold (scan_entry mp ds ents) [0..<j] (m0, 0, 0) = (m, foldl max 0 (map md_end (take j descs)), usable_of (take j descs))"
    "\<And>x. (\<forall>k < 24 * j. x \<noteq> ents + of_nat k) \<Longrightarrow> m x = m0 x" "\<And>i. i < j \<Longrightarrow> mmap_entry_at (ents + 24 * of_nat i) m = entry_of (descs ! i)"
    by auto
  let ?e = "ents + 24 * of_nat j" and ?a = "mp + of_nat j * ds"
  have e: "?e + of_nat k = ents + of_nat (24 * j + k)" "ents + 24 * of_nat i + of_nat k = ents + of_nat (24 * i + k)" for k i by simp_all
  have a: "?a + of_nat k = mp + of_nat (j * unat ds + k)" for k by simp
  have in_buf: "j * unat ds + k < n * unat ds" if "k < 40" for k
  proof -
    have "j * unat ds + k < Suc j * unat ds" using that sz by simp
    also have "\<dots> \<le> n * unat ds" using Suc.prems by (intro mult_le_mono1)
    finally show ?thesis .
  qed
  have off: "?a + of_nat k \<noteq> ents + of_nat l" if "k < 40" "l < 24 * n" for k l
    unfolding a using ap [unfolded apart_def] in_buf [OF that(1)] that(2) by blast
  have "m (?a + of_nat k) = m0 (?a + of_nat k)" if "k < 40" for k
    by (rule m(2)) (use off [OF that] Suc.prems in auto)
  then have "desc_at ?a m = descs ! j" using d [of j] Suc.prems desc_at_cong [of m ?a m0] by simp
  then have step: "scan_entry mp ds ents j (m, mx, u) = (put_entry ?e (entry_of (descs ! j)) m, max mx (md_end (descs ! j)),
     if md_type (descs ! j) = EfiConventionalMemory then u + md_pages (descs ! j) * 4096 else u)" for mx u
    by (rule scan_entry_put [rotated]) (unfold e, rule off, use Suc.prems in auto)
  have tk: "take (Suc j) descs = take j descs @ [descs ! j]" using Suc.prems n by (simp add: take_Suc_conv_app_nth)
  let ?m = "put_entry ?e (entry_of (descs ! j)) m"
  have "?m x = m0 x" if "\<forall>k < 24 * Suc j. x \<noteq> ents + of_nat k" for x
  proof -
    have "x \<noteq> ?e + of_nat k" if "k < 24" for k unfolding e using \<open>\<forall>k < 24 * Suc j. x \<noteq> ents + of_nat k\<close> that by (metis add_less_cancel_left mult_Suc_right add.commute)
    then have "?m x = m x" by (rule put_outside)
    then show ?thesis using m(2) [of x] that by simp
  qed
  moreover have "mmap_entry_at (ents + 24 * of_nat i) ?m = entry_of (descs ! i)" if "i < Suc j" for i
  proof (cases "i = j")
    case False
    then have "i < j" using that by simp
    have "?m (ents + 24 * of_nat i + of_nat k) = m (ents + 24 * of_nat i + of_nat k)" if "k < 24" for k
    proof (rule put_outside)
      fix l :: nat assume "l < 24"
      then show "ents + 24 * of_nat i + of_nat k \<noteq> ?e + of_nat l"
        unfolding e using offset_eq [of "24 * i + k" "24 * j + l" ents] \<open>i < j\<close> that Suc.prems n(2) by simp
    qed
    then show ?thesis using entry_cong [of ?m "ents + 24 * of_nat i" m] m(3) [OF \<open>i < j\<close>] by simp
  qed (simp add: entry_put)
  ultimately show ?case using m(1) step tk
    by (intro exI [of _ ?m]) (auto simp: usable_of_def)
qed

lemma foldl_max: "x \<le> foldl max x xs" "y \<in> set xs \<Longrightarrow> y \<le> foldl max x xs" "foldl max x xs \<in> insert x (set xs)" for x :: u64
proof -
  have "x \<le> foldl max x xs \<and> (\<forall>y \<in> set xs. y \<le> foldl max x xs) \<and> foldl max x xs \<in> insert x (set xs)"
  proof (induction xs arbitrary: x)
    case (Cons a xs)
    have "max x a \<le> foldl max (max x a) xs" "foldl max (max x a) xs \<in> insert (max x a) (set xs)" "\<forall>y \<in> set xs. y \<le> foldl max (max x a) xs"
      using Cons.IH [of "max x a"] by blast+
    moreover have "max x a \<in> {x, a}" by (cases "x \<le> a") (simp_all add: max.absorb1 max.absorb2)
    ultimately show ?case using max.bounded_iff [of x a "foldl max (max x a) xs"] by auto
  qed simp
  then show "x \<le> foldl max x xs" "y \<in> set xs \<Longrightarrow> y \<le> foldl max x xs" "foldl max x xs \<in> insert x (set xs)" by blast+
qed

text \<open>What the firmware writes for a descriptor, and what the kernel is to be told.\<close>

definition describes :: "u8 list \<Rightarrow> nat \<Rightarrow> efi_memory_descriptor \<Rightarrow> bool" where
  "describes bytes k d \<longleftrightarrow> take 4 (drop k bytes) = le_bytes 4 (md_type d) \<and> take 8 (drop (k + 8) bytes) = le_bytes 8 (md_phys d) \<and>
     take 8 (drop (k + 24) bytes) = le_bytes 8 (md_pages d) \<and> take 8 (drop (k + 32) bytes) = le_bytes 8 (md_attribute d)"

definition kernel_types :: "u32 \<rightharpoonup> u32" where
  \<comment> \<open>types of the UEFI specification and of \<open>bootinfo.h\<close>\<close>
  "kernel_types = map_of [(1, 6), (2, 6), (3, 6), (4, 6), (7, 1), (8, 5), (9, 3), (10, 4)]"

definition told :: "efi_memory_descriptor \<Rightarrow> mmap_entry_t" where
  "told d = \<lparr>phys_start = md_phys d, len = md_pages d * 4096, mtype = (case kernel_types (md_type d) of Some t \<Rightarrow> t | None \<Rightarrow> 2),
     mflags = ucast (md_attribute d)\<rparr>"

lemma entry_of_told: "entry_of d = told d"
  by (simp add: entry_of_def told_def convert_mmap_type_def kernel_types_def)

lemma usable_entry: "mtype (told d) = MMAP_TYPE_USABLE \<longleftrightarrow> md_type d = EfiConventionalMemory"
  by (auto simp: told_def kernel_types_def)

lemma load_written:
  assumes "take w (drop k bytes) = le_bytes w v" "k + w \<le> length bytes" "length bytes < 2 ^ 64"
  shows "load_le w (mp + of_nat k) (write_bytes mp bytes m) = take_bit (8 * w) v"
proof (rule load_le_bytes)
  fix i assume "i < w"
  then have "le_bytes w v ! i = bytes ! (k + i)" using arg_cong [OF assms(1), of "\<lambda>xs. xs ! i"] assms(2) by simp
  moreover have "mp + of_nat k + of_nat i - mp = (of_nat (k + i) :: u64)" by simp
  then have "unat (mp + of_nat k + of_nat i - mp) = k + i" using assms(2,3) \<open>i < w\<close> by (simp only:) (simp add: unat_of_nat take_bit_nat_eq_self del: of_nat_add)
  ultimately show "write_bytes mp bytes m (mp + of_nat k + of_nat i) = le_bytes w v ! i"
    using assms(2) \<open>i < w\<close> by (simp add: write_bytes_def)
qed

lemma desc_written:
  assumes "describes bytes k d" "k + 40 \<le> length bytes" "length bytes < 2 ^ 64"
  shows "desc_at (mp + of_nat k) (write_bytes mp bytes m) = d"
proof -
  note D = assms(1) [unfolded describes_def]
  have "load_le 4 (mp + of_nat k) (write_bytes mp bytes m) = md_type d" "load_le 8 (mp + of_nat (k + 8)) (write_bytes mp bytes m) = md_phys d"
    "load_le 8 (mp + of_nat (k + 24)) (write_bytes mp bytes m) = md_pages d" "load_le 8 (mp + of_nat (k + 32)) (write_bytes mp bytes m) = md_attribute d"
    using load_written [of 4 k bytes "md_type d"] load_written [of 8 "k + 8" bytes "md_phys d"] load_written [of 8 "k + 24" bytes "md_pages d"]
      load_written [of 8 "k + 32" bytes "md_attribute d"] D assms(2,3) by (simp_all add: take_bit_word_eq_self)
  then show ?thesis
    by (simp add: desc_at_def desc_Type_def desc_PhysicalStart_def desc_NumberOfPages_def desc_Attribute_def load32_def load64_def add.assoc)
qed

text \<open>C19: when the firmware provides two pieces of pool memory that lie apart and fills the first with a memory map, \<open>init_mmap\<close>
  succeeds and the second holds what the kernel will be told: one entry for each descriptor, in their order, with
  start, size in bytes, the type as the table \<open>kernel_types\<close> translates it (2, reserved, for all other types) and the
  low half of the attributes. The usable total is the sum of the lengths of the usable entries, and the
  limit is the end of one of the regions and below the end of none. Outside the two pieces memory is unchanged, and
  so is the rest of the boot information.\<close>

theorem init_mmap_spec:
  assumes calls: "MemoryMapSize bs (fw s) = ((EFI_BUFFER_TOO_SMALL, msz, dsz), f1)" "dsz \<noteq> 0"
      "AllocatePool bs (msz + 16 * dsz) f1 = ((EFI_SUCCESS, mp), f2)"
      "AllocatePool bs (24 * ((msz + 16 * dsz) div dsz)) f2 = ((EFI_SUCCESS, ents), f3)"
      "GetMemoryMap bs (msz + 16 * dsz) f3 = ((EFI_SUCCESS, bytes, key, dsz'), f4)"
    and map: "40 \<le> unat dsz'" "length bytes = length descs * unat dsz'" "length bytes < 2 ^ 64" "length descs < 2 ^ 32"
      "\<And>i. i < length descs \<Longrightarrow> describes bytes (i * unat dsz') (descs ! i)"
    and pool: "apart mp (length bytes) ents (24 * length descs)"
  shows "\<exists>s' limit. init_mmap bs key0 s = Some ((EFI_SUCCESS, key), s') \<and> mmap_list s' = map told descs \<and>
    g_boot_info s' = (g_boot_info s)\<lparr>bi_memory := (bi_memory (g_boot_info s))
      \<lparr>total_usable := (\<Sum>e \<leftarrow> filter (\<lambda>e. mtype e = MMAP_TYPE_USABLE) (mmap_list s'). len e), max_phys_addr := limit\<rparr>\<rparr> \<and>
    limit \<in> insert 0 ((\<lambda>e. phys_start e + len e) ` set (mmap_list s')) \<and> (\<forall>e \<in> set (mmap_list s'). phys_start e + len e \<le> limit) \<and>
    (\<forall>x. (\<forall>i < length bytes. x \<noteq> mp + of_nat i) \<longrightarrow> (\<forall>i < 24 * length descs. x \<noteq> ents + of_nat i) \<longrightarrow> umem s' x = umem s x)"
proof -
  let ?n = "length descs" and ?m0 = "write_bytes mp bytes (umem s)"
  have d: "desc_at (mp + of_nat i * dsz') ?m0 = descs ! i" if "i < ?n" for i
  proof -
    have "i * unat dsz' + 40 \<le> Suc i * unat dsz'" using map(1) by simp
    also have "\<dots> \<le> length bytes" unfolding map(2) using that by (intro mult_le_mono1) simp
    finally show ?thesis using desc_written [OF map(5) [OF that] _ map(3), of mp "umem s"] by simp
  qed
  obtain m where m: "scan_mmap mp dsz' ents ?n ?m0 = (m, foldl max 0 (map md_end descs), usable_of descs)"
    "\<And>x. (\<forall>k < 24 * ?n. x \<noteq> ents + of_nat k) \<Longrightarrow> m x = ?m0 x" "\<And>i. i < ?n \<Longrightarrow> mmap_entry_at (ents + 24 * of_nat i) m = entry_of (descs ! i)"
    using scan_upto [OF d refl map(4,1) pool [unfolded map(2)] order_refl] by (auto simp: scan_mmap_def)
  have "dsz' \<noteq> 0" using map(1) by auto
  have te: "unat (of_nat (length bytes) div dsz') = ?n"
    using map(1-3) by (simp add: unat_div unat_of_nat take_bit_nat_eq_self flip: of_nat_mult)
  have cnt: "unat (ucast (of_nat (length bytes) div dsz' :: u64) :: u32) = ?n"
    using te map(4) by (simp add: unsigned_ucast_eq take_bit_nat_eq_self)
  define s' where "s' = s\<lparr>fw := f4, umem := m, mmap_entries := ents, mmap_count := ucast (of_nat (length bytes) div dsz'),
      g_boot_info := (g_boot_info s)\<lparr>bi_memory := (bi_memory (g_boot_info s))\<lparr>max_phys_addr := foldl max 0 (map md_end descs), total_usable := usable_of descs\<rparr>\<rparr>\<rparr>"
  have run: "init_mmap bs key0 s = Some ((EFI_SUCCESS, key), s')"
    unfolding init_mmap_def using calls \<open>dsz' \<noteq> 0\<close> m(1) te by (simp add: s'_def)
  have es: "mmap_list s' = map told descs"
    using m(3) cnt by (intro nth_equalityI) (simp_all add: mmap_list_def s'_def entry_of_told)
  have ends: "phys_start (told d) + len (told d) = md_end d" for d by (simp add: told_def md_end_def)
  have "(\<Sum>e \<leftarrow> filter (\<lambda>e. mtype e = MMAP_TYPE_USABLE) (mmap_list s'). len e) = usable_of descs"
    unfolding es usable_of_def by (simp add: filter_map comp_def usable_entry) (simp add: told_def)
  moreover have "umem s' x = umem s x" if "\<forall>i < length bytes. x \<noteq> mp + of_nat i" "\<forall>i < 24 * ?n. x \<noteq> ents + of_nat i" for x
  proof -
    have "x = mp + of_nat (unat (x - mp))" by simp
    then have "\<not> unat (x - mp) < length bytes" using that(1) by blast
    then show ?thesis using m(2) [OF that(2)] by (simp add: s'_def write_bytes_def)
  qed
  moreover have "(\<lambda>e. phys_start e + len e) ` set (mmap_list s') = md_end ` set descs" by (simp add: es image_image ends)
  moreover have "\<forall>e \<in> set (mmap_list s'). phys_start e + len e \<le> foldl max 0 (map md_end descs)"
    using foldl_max(2) [where x = 0 and xs = "map md_end descs"] by (auto simp: es ends)
  moreover have "g_boot_info s' = (g_boot_info s)\<lparr>bi_memory := (bi_memory (g_boot_info s))
      \<lparr>total_usable := usable_of descs, max_phys_addr := foldl max 0 (map md_end descs)\<rparr>\<rparr>" by (simp add: s'_def)
  ultimately show ?thesis using run es foldl_max(3) [where x = 0 and xs = "map md_end descs"]
    by (intro exI [of _ s'] exI [of _ "foldl max 0 (map md_end descs)"]) simp
qed

lemma init_mmap_fails:
  assumes "init_mmap bs key0 s = Some ((st, key), s')" "st \<noteq> EFI_SUCCESS"
  shows "key = key0 \<and> g_boot_info s' = g_boot_info s \<and> mmap_entries s' = mmap_entries s \<and> mmap_count s' = mmap_count s"
  using assms by (auto simp: init_mmap_def Let_def split: prod.splits if_splits)

theorem init_mmap_spec_witness:
  "\<forall>bi. \<exists>s'. init_mmap simple_firmware 0 \<lparr>umem = (\<lambda>_. 0), fw = 0, g_boot_info = bi, mmap_entries = 0, mmap_count = 0\<rparr> = Some ((EFI_SUCCESS, 7), s') \<and>
     mmap_list s' = [\<lparr>phys_start = 0x100000, len = 0x10000, mtype = MMAP_TYPE_USABLE, mflags = 15\<rparr>] \<and>
     total_usable (bi_memory (g_boot_info s')) = 0x10000 \<and> 0x110000 \<le> max_phys_addr (bi_memory (g_boot_info s'))"
proof
  fix bi
  let ?s = "\<lparr>umem = (\<lambda>_. 0), fw = 0, g_boot_info = bi, mmap_entries = 0, mmap_count = 0\<rparr> :: nat loader"
  let ?d = "\<lparr>md_type = 7, md_phys = 0x100000, md_pages = 16, md_attribute = 15\<rparr>"
  let ?b = "[7, 0, 0, 0, 0, 0, 0, 0] @ [0, 0, 16, 0, 0, 0, 0, 0] @ [0, 0, 0, 0, 0, 0, 0, 0] @ [16, 0, 0, 0, 0, 0, 0, 0] @ [15, 0, 0, 0, 0, 0, 0, 0] @ [0, 0, 0, 0, 0, 0, 0, 0] :: u8 list"
  have ap: "apart 0xA30000 (length ?b) 0x898000 (24 * length [?d])"
    unfolding apart_def
  proof (intro allI impI)
    fix i j :: nat assume "i < length ?b" "j < 24 * length [?d]"
    then have "(0xA30000 :: u64) + of_nat i = of_nat (0xA30000 + i)" "(0x898000 :: u64) + of_nat j = of_nat (0x898000 + j)" "0xA30000 + i \<noteq> 0x898000 + j" "i < 2 ^ 32" "j < 2 ^ 32"
      by simp_all
    then show "(0xA30000 :: u64) + of_nat i \<noteq> 0x898000 + of_nat j" using offset_eq [of "0xA30000 + i" "0x898000 + j" 0] by simp
  qed
  have c: "MemoryMapSize simple_firmware (fw ?s) = ((EFI_BUFFER_TOO_SMALL, 48, 48), 0)" "(48 :: u64) \<noteq> 0"
    "AllocatePool simple_firmware (48 + 16 * 48) 0 = ((EFI_SUCCESS, 0xA30000), 0)"
    "AllocatePool simple_firmware (24 * ((48 + 16 * 48) div 48)) 0 = ((EFI_SUCCESS, 0x898000), 0)"
    "GetMemoryMap simple_firmware (48 + 16 * 48) 0 = ((EFI_SUCCESS, ?b, 7, 48), 0)"
    by (simp_all add: simple_firmware_def)
  have des: "describes ?b (i * unat (48 :: u64)) ([?d] ! i)" if "i < length [?d]" for i
    using that by (simp add: describes_def le_bytes_numeral)
  have "\<exists>s' limit. init_mmap simple_firmware 0 ?s = Some ((EFI_SUCCESS, 7), s') \<and> mmap_list s' = map told [?d] \<and>
    g_boot_info s' = (g_boot_info ?s)\<lparr>bi_memory := (bi_memory (g_boot_info ?s))
      \<lparr>total_usable := (\<Sum>e \<leftarrow> filter (\<lambda>e. mtype e = MMAP_TYPE_USABLE) (mmap_list s'). len e), max_phys_addr := limit\<rparr>\<rparr> \<and>
    limit \<in> insert 0 ((\<lambda>e. phys_start e + len e) ` set (mmap_list s')) \<and> (\<forall>e \<in> set (mmap_list s'). phys_start e + len e \<le> limit) \<and>
    (\<forall>x. (\<forall>i < length ?b. x \<noteq> 0xA30000 + of_nat i) \<longrightarrow> (\<forall>i < 24 * length [?d]. x \<noteq> 0x898000 + of_nat i) \<longrightarrow> umem s' x = umem ?s x)"
    by (rule init_mmap_spec [OF c _ _ _ _ des ap]) simp_all
  then show "\<exists>s'. init_mmap simple_firmware 0 ?s = Some ((EFI_SUCCESS, 7), s') \<and>
     mmap_list s' = [\<lparr>phys_start = 0x100000, len = 0x10000, mtype = MMAP_TYPE_USABLE, mflags = 15\<rparr>] \<and>
     total_usable (bi_memory (g_boot_info s')) = 0x10000 \<and> 0x110000 \<le> max_phys_addr (bi_memory (g_boot_info s'))"
    by (auto simp: told_def kernel_types_def)
qed

end
