(* ===== verification/Kernel_Runs.thy ===== *)
theory Kernel_Runs
  imports Futex_Spec
begin

text \<open>
  Scheduler and futexes together: the step relation \<open>kernel_step\<close> takes the kernel through timer ticks, yields, waits
  and wakes in any order. The invariant \<open>kernel_inv\<close>, well-formed run queues and wait queues that hold a fixed set
  of threads, is kept by every step.
\<close>

section \<open>What scheduling leaves alone\<close>

lemma boost_level_frame: "boost_level l s = Some s' \<Longrightarrow> futexq s' = futexq s \<and> wq_phys s' = wq_phys s"
proof (rule boost_level.raw_induct [of "\<lambda>l s s'. futexq s' = futexq s \<and> wq_phys s' = wq_phys s"])
  fix f l and s s' :: kernel
  assume "\<And>l s s'. f l s = Some s' \<Longrightarrow> futexq s' = futexq s \<and> wq_phys s' = wq_phys s"
    and "(if list_empty (RunqHead l) (runq s) then Some s
      else do {
        let n = nxt (runq s) (RunqHead l);
        t \<leftarrow> sched_container n;
        let s = s\<lparr>runq := list_del (SchedNode t) (runq s)\<rparr>;
        let s = upd_thread t (\<lambda>t. t\<lparr>current_level := 0, time_quantum_left := 1\<rparr>) s;
        let s = enqueue_at t 0 s;
        f l s}) = Some s'"
  then show "futexq s' = futexq s \<and> wq_phys s' = wq_phys s"
    by (fastforce simp: Let_def enqueue_at_def upd_thread_def split: if_splits Option.bind_splits)
qed

lemma sched_boost_frame: "sched_boost s = Some s' \<Longrightarrow> futexq s' = futexq s \<and> wq_phys s' = wq_phys s"
  by (auto simp: sched_boost_def Let_def upd_thread_def split: Option.bind_splits if_splits dest!: boost_level_frame)

lemma tick_account_frame: "tick_account s = Some (b, s') \<Longrightarrow> futexq s' = futexq s \<and> wq_phys s' = wq_phys s"
  by (auto simp: tick_account_def Let_def upd_thread_def enqueue_at_def split: Option.bind_splits if_splits)

lemma run_next_frame: "futexq (run_next c t s) = futexq s" "wq_phys (run_next c t s) = wq_phys s"
  by (simp_all add: run_next_def switch_to_def upd_thread_def Let_def)

lemma sched_tick_frame: "sched_tick s = Some s' \<Longrightarrow> futexq s' = futexq s \<and> wq_phys s' = wq_phys s"
  by (auto simp: sched_tick_def Let_def upd_thread_def run_next_frame split: Option.bind_splits if_splits
      dest!: tick_account_frame sched_boost_frame sched_pick_runq)

lemma sched_yield_frame: "sched_yield s = Some s' \<Longrightarrow> futexq s' = futexq s \<and> wq_phys s' = wq_phys s"
  by (auto simp: sched_yield_def Let_def upd_thread_def enqueue_at_def run_next_frame split: Option.bind_splits if_splits
      dest!: sched_pick_runq)

lemma futex_inv_frame:
  assumes "futex_inv s B W" "futexq s' = futexq s" "wq_phys s' = wq_phys s" "\<And>t. asleep s t \<Longrightarrow> asleep s' t"
  shows "futex_inv s' B W" "waiters s' B W = waiters s B W"
  using assms unfolding futex_inv_def assms(2,3) by (blast, intro ext, simp add: waiters_def assms(3))

section \<open>Runs\<close>

definition heap_fresh :: "kernel \<Rightarrow> bool" where
  \<comment> \<open>the heap gives no wait queue that is in use\<close>
  "heap_fresh s \<longleftrightarrow> (\<forall>B W wq s1. futex_inv s B W \<longrightarrow> kmalloc sizeof_futex_waitq s = Some (wq, s1) \<longrightarrow> wq \<notin> wqs B)"

definition heap_frees :: "kernel \<Rightarrow> bool" where
  \<comment> \<open>the heap takes every wait queue back\<close>
  "heap_frees s \<longleftrightarrow> (\<forall>B W wq s1. futex_inv s B W \<longrightarrow> wq \<in> wqs B \<longrightarrow> kmem_t.truncate (s1 :: kernel) = kmem_t.truncate s \<longrightarrow> kfree wq s1 \<noteq> None)"

inductive kernel_step :: "kernel \<Rightarrow> kernel \<Rightarrow> bool" where
  tick: "sched_tick s = Some s' \<Longrightarrow> kernel_step s s'"
| yield: "sched_yield s = Some s' \<Longrightarrow> kernel_step s s'"
| wait: "futex_wait uaddr expected s = Some (r, s') \<Longrightarrow> heap_fresh s \<Longrightarrow> kernel_step s s'"
| wake: "futex_wake uaddr all s = Some (n, s') \<Longrightarrow> heap_frees s \<Longrightarrow> kernel_step s s'"

inductive kernel_run :: "kernel \<Rightarrow> kernel \<Rightarrow> bool" where
  start: "kernel_run s s"
| step: "kernel_run s s' \<Longrightarrow> kernel_step s' s'' \<Longrightarrow> kernel_run s s''"

definition population :: "kernel \<Rightarrow> (nat \<Rightarrow> u64 list) \<Rightarrow> (nat \<Rightarrow> u64 list) \<Rightarrow> (u64 \<Rightarrow> u64 list) \<Rightarrow> u64 set" where
  \<comment> \<open>the running thread, the ready ones and those that sleep on a word\<close>
  "population s Q B W = insert (current s) (queued Q) \<union> (\<Union>p. set (waiters s B W p))"

definition kernel_inv :: "u64 set \<Rightarrow> kernel \<Rightarrow> bool" where
  "kernel_inv T s \<longleftrightarrow> (\<exists>Q B W. sched_ok s Q \<and> futex_inv s B W \<and> population s Q B W = T)"

lemma tick_keeps:
  assumes "kernel_inv T s" "sched_tick s = Some s'"
  shows "kernel_inv T s'"
proof -
  obtain Q B W where i: "sched_ok s Q" "futex_inv s B W" "population s Q B W = T" using assms(1) by (auto simp: kernel_inv_def)
  obtain Q' where t: "ticked s Q s' Q'" using sched_tick_ok [OF i(1)] assms(2) by auto
  have "asleep s' x" if "asleep s x" for x
    using that asleep_off [OF i(1) that] t by (auto simp: ticked_def asleep_def)
  note f = futex_inv_frame [OF i(2) _ _ this]
  then show ?thesis using sched_tick_frame [OF assms(2)] t i(3) unfolding kernel_inv_def
    by (intro exI [of _ Q'] exI [of _ B] exI [of _ W]) (simp add: population_def ticked_def)
qed

lemma yield_keeps:
  assumes "kernel_inv T s" "sched_yield s = Some s'"
  shows "kernel_inv T s'"
proof -
  obtain Q B W where i: "sched_ok s Q" "futex_inv s B W" "population s Q B W = T" using assms(1) by (auto simp: kernel_inv_def)
  obtain Q' where t: "sched_ok s' Q'" "insert (current s') (queued Q') = insert (current s) (queued Q)"
    "\<forall>x. x \<notin> insert (current s) (queued Q) \<longrightarrow> threads s' x = threads s x"
    using sched_yield_spec [OF i(1)] assms(2) by auto
  have "asleep s' x" if "asleep s x" for x using that asleep_off [OF i(1) that] t(3) by (auto simp: asleep_def)
  note f = futex_inv_frame [OF i(2) _ _ this]
  then show ?thesis using sched_yield_frame [OF assms(2)] t i(3) unfolding kernel_inv_def
    by (intro exI [of _ Q'] exI [of _ B] exI [of _ W]) (simp add: population_def)
qed

lemma queued_append: "queued (Q(0 := Q 0 @ xs)) = queued Q \<union> set xs"
proof -
  have "{..<4} = insert 0 {1..<4 :: nat}" by auto
  then show ?thesis by (auto simp: queued_def)
qed

lemma UN_upd: "(\<Union>p. set ((f(a := xs)) p)) = (\<Union>p \<in> - {a}. set (f p)) \<union> set xs"
  by (auto split: if_splits)

lemma UN_split: "(\<Union>p. set (f p)) = (\<Union>p \<in> - {a}. set (f p)) \<union> set (f a)"
  by auto

lemma wake_keeps:
  assumes "kernel_inv T s" "futex_wake uaddr all s = Some (n, s')" "heap_frees s"
  shows "kernel_inv T s'"
proof -
  obtain Q B W where i: "sched_ok s Q" "futex_inv s B W" "population s Q B W = T" using assms(1) by (auto simp: kernel_inv_def)
  define phys where "phys = pmap_extract (t_pmap (threads s (current s))) uaddr s"
  show ?thesis
  proof (cases "uaddr AND 3 = 0 \<and> phys \<noteq> 0")
    case False
    then have "s' = s" using assms(2) by (auto simp: futex_wake_def phys_def Let_def split: if_splits)
    then show ?thesis using assms(1) by simp
  next
    case True
    define k where "k = woken_of all (waiters s B W phys)"
    have "kfree wq s1 \<noteq> None" if "wq \<in> wqs B" "kmem_t.truncate (s1 :: kernel) = kmem_t.truncate s" for wq s1
      using assms(3) i(2) that unfolding heap_frees_def by blast
    then obtain B' W' where w: "sched_ok s' (Q(0 := Q 0 @ take k (waiters s B W phys)))" "futex_inv s' B' W'"
        "waiters s' B' W' = (waiters s B W)(phys := drop k (waiters s B W phys))" "current s' = current s"
      using futex_wake_ok [OF i(1,2) _ phys_def [symmetric] _ k_def] True assms(2) by fastforce
    note q = queued_append [of Q "take k (waiters s B W phys)"]
    have "set (waiters s B W phys) = set (take k (waiters s B W phys)) \<union> set (drop k (waiters s B W phys))"
      by (metis append_take_drop_id set_append)
    then have "population s' (Q(0 := Q 0 @ take k (waiters s B W phys))) B' W' = T"
      using i(3) unfolding population_def w(3,4) UN_upd q UN_split [of "waiters s B W" phys] by auto
    then show ?thesis using w(1,2) unfolding kernel_inv_def by blast
  qed
qed

lemma wait_keeps:
  assumes "kernel_inv T s" "futex_wait uaddr expected s = Some (r, s')" "heap_fresh s"
  shows "kernel_inv T s'"
proof -
  obtain Q B W where i: "sched_ok s Q" "futex_inv s B W" "population s Q B W = T" using assms(1) by (auto simp: kernel_inv_def)
  define phys where "phys = pmap_extract (t_pmap (threads s (current s))) uaddr s"
  show ?thesis
  proof (cases "uaddr AND 3 = 0 \<and> phys \<noteq> 0 \<and> load32 (phys_to_virt phys) (mem s) = expected")
    case False
    then have "s' = s" using assms(2) by (auto simp: futex_wait_def phys_def Let_def split: if_splits)
    then show ?thesis using assms(1) by simp
  next
    case True
    show ?thesis
    proof (cases "waiters s B W phys = [] \<and> (\<forall>wq s1. kmalloc sizeof_futex_waitq s = Some (wq, s1) \<longrightarrow> wq = 0)")
      case fails: True
      have "find (\<lambda>wq. wq_phys s wq = phys) (B (futex_hash phys)) = None"
      proof (rule ccontr)
        assume "find (\<lambda>wq. wq_phys s wq = phys) (B (futex_hash phys)) \<noteq> None"
        then obtain wq where "find (\<lambda>wq. wq_phys s wq = phys) (B (futex_hash phys)) = Some wq" by blast
        from found_wq [OF i(2) this] show False using fails i(2) by (auto simp: futex_inv_def)
      qed
      then have "futex_find phys s = Some None" using futex_find_spec [of s B W phys] i(2) by (simp add: futex_inv_def)
      then obtain s1 where "kmalloc sizeof_futex_waitq s = Some (0, s1)" "s' = s1"
        using assms(2) True fails by (auto simp: futex_wait_def futex_enqueue_def phys_def Let_def split: Option.bind_splits if_splits)
      note m = kernel_more [OF kernel_krest(1) [OF kmalloc_krest [OF this(1)]], folded this(2)]
      have "sched_ok s' Q" using i(1) sched_ok_cong [OF m(2,3,4)] by simp
      moreover have "futex_inv s' B W" "waiters s' B W = waiters s B W"
        using futex_inv_frame [OF i(2) m(9,10)] m(2) by (simp_all add: asleep_def)
      ultimately show ?thesis using i(3) m(3) unfolding kernel_inv_def population_def by metis
    next
      case False
      then obtain wq s1 where "waiters s B W phys = [] \<Longrightarrow> kmalloc sizeof_futex_waitq s = Some (wq, s1) \<and> wq \<noteq> 0 \<and> wq \<notin> wqs B"
        using assms(3) i(2) unfolding heap_fresh_def by blast
      note C = futex_wait_cases [OF i(1,2) _ phys_def [symmetric] _ _ this]
      obtain B' W' l t ts where w: "l < 4" "Q l = t # ts" "current s' = t" "sched_ok s' (Q(l := ts))" "futex_inv s' B' W'"
        "waiters s' B' W' = (waiters s B W)(phys := waiters s B W phys @ [current s])"
        by (rule C [where expected = expected]) (use True assms(2) in auto)
      have q: "queued Q = insert t (queued (Q(l := ts)))"
        using queued_upd [OF w(1), of Q "t # ts"] queued_upd [OF w(1), of Q ts] fun_upd_triv [of Q l] w(2) by simp
      have "population s' (Q(l := ts)) B' W' = T"
        using i(3) unfolding population_def w(3,6) UN_upd q UN_split [of "waiters s B W" phys] by auto
      then show ?thesis using w(4,5) unfolding kernel_inv_def by blast
    qed
  qed
qed

inductive_cases kernel_stepE: "kernel_step s s'"

lemma step_keeps: "kernel_step s s' \<Longrightarrow> kernel_inv T s \<Longrightarrow> kernel_inv T s'"
  by (erule kernel_stepE) (rule tick_keeps yield_keeps wait_keeps wake_keeps; assumption)+

lemma run_keeps: "kernel_run s s' \<Longrightarrow> kernel_inv T s \<Longrightarrow> kernel_inv T s'"
  by (induction rule: kernel_run.induct) (auto intro: step_keeps)

lemma sleepers_apart:
  assumes "sched_ok s Q" "futex_inv s B W"
  shows "set (waiters s B W p) \<inter> insert (current s) (queued Q) = {}"
proof -
  have "asleep s t" if "t \<in> set (waiters s B W p)" for t
    using that found_wq(7) [OF assms(2)] by (force simp: waiters_def split: option.splits)
  then show ?thesis using asleep_off [OF assms(1)] by blast
qed

text \<open>C9: In every run of the kernel made of timer ticks, yields, waits and wakes at any address, by whichever
  thread is running, the run queues and the futex table stay well formed and no thread is ever lost or doubled: the running thread,
  the ready threads and the threads sleeping on a word are together the threads of the beginning, and no sleeping
  thread is ready or running. The runs are those in which the heap hands out no wait queue in use and takes
  wait queues back.\<close>

theorem kernel_run_keeps_threads:
  assumes "kernel_run s s'" "sched_ok s Q" "futex_inv s B W"
  shows "\<exists>Q' B' W'. sched_ok s' Q' \<and> futex_inv s' B' W' \<and> population s' Q' B' W' = population s Q B W \<and>
    (\<forall>p. set (waiters s' B' W' p) \<inter> insert (current s') (queued Q') = {})"
proof -
  have "kernel_inv (population s Q B W) s" using assms(2,3) by (auto simp: kernel_inv_def)
  from run_keeps [OF assms(1) this] show ?thesis using sleepers_apart unfolding kernel_inv_def by blast
qed

section \<open>An example\<close>

lemma sleepers_population: "population sleepers ((\<lambda>_. [])(0 := [0x8000])) sleeper_buckets sleeper_queues = {0x1000, 0x8000, 0x9000, 0xA000}"
proof -
  have q: "queued ((\<lambda>_. [])(0 := [0x8000 :: u64])) = {0x8000}" using queued_append [of "\<lambda>_. []" "[0x8000]"] by (simp add: queued_def)
  have "waiters sleepers sleeper_buckets sleeper_queues p = (if p = 0x600000 then [0x9000, 0xA000] else [])" for p
    using sleepers_waiters by (auto simp: waiters_def sleepers_fields(5) sleeper_buckets_def)
  then show ?thesis unfolding population_def q by (auto simp: sleepers_fields split: if_splits)
qed

theorem kernel_run_keeps_threads_witness:
  "\<exists>s' Q B W. kernel_run sleepers s' \<and> sched_ticks s' = sched_ticks sleepers + 1 \<and> sched_ok s' Q \<and> futex_inv s' B W \<and>
     population s' Q B W = {0x1000, 0x8000, 0x9000, 0xA000}"
proof -
  obtain s' where s': "sched_tick sleepers = Some s'" "sched_ticks s' = sched_ticks sleepers + 1"
    using sched_tick_ok [OF sleepers_ok] by (auto simp: ticked_def)
  then have "kernel_run sleepers s'" by (auto intro: kernel_run.intros kernel_step.intros)
  from kernel_run_keeps_threads [OF this sleepers_ok sleepers_inv] this s'(2) show ?thesis unfolding sleepers_population by blast
qed

end
