(* ===== verification/Serial.thy ===== *)
theory Serial
  imports Ticket_Lock "HOL-Library.Monad_Syntax"
begin

text \<open>
  The serial line, \<^verbatim>\<open>uart.c\<close> and \<^verbatim>\<open>io.c\<close>, and the hook of kernel messages in \<^verbatim>\<open>kprintf.c\<close>. What the device
  answers is a parameter, a function of the port and of the number of reads before; what is written
  to it is kept as a list. \<open>None\<close> is a loop that does not end.
\<close>

section \<open>Ports\<close>

record serial =
  port_writes :: "(u16 \<times> u8) list"
  port_reads :: nat
  initialized :: bool
  uart_lock :: spinlock_t
  rflags :: u64
  klog_putc :: bool \<comment> \<open>whether \<open>uart_putc\<close> has been installed\<close>

type_synonym device = "u16 \<Rightarrow> nat \<Rightarrow> u8"

definition outb :: "u16 \<Rightarrow> u8 \<Rightarrow> serial \<Rightarrow> serial" where
  "outb port val s = s\<lparr>port_writes := port_writes s @ [(port, val)]\<rparr>"

definition inb :: "device \<Rightarrow> u16 \<Rightarrow> serial \<Rightarrow> u8 \<times> serial" where
  "inb dev port s = (dev port (port_reads s), s\<lparr>port_reads := port_reads s + 1\<rparr>)"

section \<open>The line\<close>

abbreviation (input) SERIAL_UART :: u16 where "SERIAL_UART \<equiv> 0x3F8"

partial_function (option) uart_wait :: "device \<Rightarrow> serial \<Rightarrow> serial option" where
  \<comment> \<open>\<open>while ((inb(SERIAL_UART + 5) & 0x20) == 0);\<close>\<close>
  "uart_wait dev s =
     (let (b, s) = inb dev (SERIAL_UART + 5) s
      in if b AND 0x20 = 0 then uart_wait dev s else Some s)"

definition uart_putc :: "device \<Rightarrow> u8 \<Rightarrow> serial \<Rightarrow> serial option" where
  \<comment> \<open>with one CPU nobody else gives the lock back, so a lock that is held is waited for without end\<close>
  "uart_putc dev c s =
     (if \<not> initialized s then Some s
      else do {
        let (flags, r) = arch_irq_save (rflags s);
        let (ticket, lk) = spin_lock_take (uart_lock s);
        let s = s\<lparr>rflags := r, uart_lock := lk\<rparr>;
        if spin_lock_wait ticket lk then None
        else do {
          s \<leftarrow> uart_wait dev s;
          let s = outb 0x3F8 c s;
          Some (s\<lparr>uart_lock := spin_unlock (uart_lock s), rflags := arch_irq_restore flags (rflags s)\<rparr>)}})"

definition uart_init :: "serial \<Rightarrow> int \<times> serial" where
  "uart_init s =
     (if initialized s then (0, s)
      else
        let s = outb (SERIAL_UART + 1) 0x00 s;
            s = outb (SERIAL_UART + 3) 0x80 s;
            s = outb (SERIAL_UART + 0) 0x01 s;
            s = outb (SERIAL_UART + 1) 0x00 s;
            s = outb (SERIAL_UART + 3) 0x03 s;
            s = outb (SERIAL_UART + 2) 0xC7 s;
            s = outb (SERIAL_UART + 4) 0x0B s
        in (0, s\<lparr>initialized := True\<rparr>))"

section \<open>The hook of kernel messages\<close>

definition set_log_putc :: "serial \<Rightarrow> serial" where
  \<comment> \<open>the only function that is ever installed is \<open>uart_putc\<close>\<close>
  "set_log_putc s = s\<lparr>klog_putc := True\<rparr>"

definition early_log_init :: "serial \<Rightarrow> int \<times> serial" where
  "early_log_init s = (0, set_log_putc s)"

definition kputc :: "device \<Rightarrow> u8 \<Rightarrow> serial \<Rightarrow> serial option" where
  "kputc dev c s = (if klog_putc s then uart_putc dev c s else Some s)"

fun kputs :: "device \<Rightarrow> u8 list \<Rightarrow> serial \<Rightarrow> serial option" where
  \<comment> \<open>the characters of a formatted message, which \<open>npf_vpprintf\<close> hands to \<open>_npf_putc\<close> one by one\<close>
  "kputs dev [] s = Some s"
| "kputs dev (c # cs) s = do {
     s \<leftarrow> kputc dev c s;
     kputs dev cs s}"

section \<open>What arrives\<close>

definition ready_later :: "device \<Rightarrow> bool" where
  \<comment> \<open>the line can take a character again and again\<close>
  "ready_later dev \<longleftrightarrow> (\<forall>n. \<exists>k \<ge> n. dev (SERIAL_UART + 5) k AND 0x20 \<noteq> 0)"

lemma uart_wait_returns:
  assumes "ready_later dev"
  shows "\<exists>k. uart_wait dev s = Some (s\<lparr>port_reads := k\<rparr>)"
proof -
  obtain k where k: "k \<ge> port_reads s" "dev (SERIAL_UART + 5) k AND 0x20 \<noteq> 0" using assms by (auto simp: ready_later_def)
  from k(1) show ?thesis
  proof (induction "k - port_reads s" arbitrary: s)
    case 0
    then have "dev (SERIAL_UART + 5) (port_reads s) AND 0x20 \<noteq> 0" using k(2) by simp
    then show ?case by (subst uart_wait.simps) (auto simp: inb_def)
  next
    case (Suc d)
    let ?s = "s\<lparr>port_reads := port_reads s + 1\<rparr>"
    have "\<exists>k. uart_wait dev ?s = Some (?s\<lparr>port_reads := k\<rparr>)" by (rule Suc.hyps(1)) (use Suc.hyps(2) in auto)
    then show ?case by (subst uart_wait.simps) (auto simp: inb_def)
  qed
qed

definition line_free :: "serial \<Rightarrow> bool" where
  "line_free s \<longleftrightarrow> now_serving (uart_lock s) = next_ticket (uart_lock s)"

lemma uart_putc_sends:
  assumes "ready_later dev" "line_free s" "initialized s"
  shows "\<exists>s'. uart_putc dev c s = Some s' \<and> port_writes s' = port_writes s @ [(SERIAL_UART, c)] \<and> line_free s' \<and>
    initialized s' \<and> klog_putc s' = klog_putc s \<and> rflags s' = rflags s"
proof -
  let ?s = "s\<lparr>rflags := rflags s AND NOT 0x200, uart_lock := (uart_lock s)\<lparr>next_ticket := next_ticket (uart_lock s) + 1\<rparr>\<rparr>"
  obtain k where "uart_wait dev ?s = Some (?s\<lparr>port_reads := k\<rparr>)" using uart_wait_returns [OF assms(1)] by blast
  then show ?thesis using assms(2,3)
    by (simp add: uart_putc_def spin_lock_take_def spin_lock_wait_def arch_irq_save_def arch_irq_restore_def spin_unlock_def unlock_write_def
        line_free_def outb_def Let_def)
qed

text \<open>
  After the line and the hook have been set up every message arrives: its characters are written to the data port in
  their order and nothing else is written; interrupts are as before.
\<close>

theorem messages_arrive:
  assumes "ready_later dev" "line_free s" "initialized s" "klog_putc s"
  shows "\<exists>s'. kputs dev cs s = Some s' \<and> port_writes s' = port_writes s @ map (\<lambda>c. (SERIAL_UART, c)) cs \<and> rflags s' = rflags s"
  using assms(2-)
proof (induction cs arbitrary: s)
  case (Cons c cs)
  obtain s1 where s1: "uart_putc dev c s = Some s1" "port_writes s1 = port_writes s @ [(SERIAL_UART, c)]" "line_free s1"
    "initialized s1" "klog_putc s1 = klog_putc s" "rflags s1 = rflags s"
    using uart_putc_sends [OF assms(1) Cons.prems(1,2)] by blast
  then show ?case using Cons.IH [of s1] Cons.prems(3) by (auto simp: kputc_def)
qed simp

end
