(* ===== verification/Kernel_Entry.thy ===== *)
theory Kernel_Entry
  imports Serial Machine_Spec Boot Futex Grant
begin

text \<open>
  The entry of the kernel, \<^verbatim>\<open>kernel/generic.c\<close>: all initcalls, level by level in the order of their priorities, on
  the state of the serial line, the processor and the kernel; then the root server and the first
  thread. Progress messages are left out.
\<close>

section \<open>The whole state\<close>

record system =
  sys_serial :: serial
  sys_machine :: machine
  sys_kernel :: kernel
  g_xsdt :: u64

definition on_serial :: "(serial \<Rightarrow> int \<times> serial) \<Rightarrow> system \<Rightarrow> (int \<times> system) option" where
  "on_serial f s = (case f (sys_serial s) of (r, x) \<Rightarrow> Some (r, s\<lparr>sys_serial := x\<rparr>))"

definition on_machine :: "(machine \<Rightarrow> (int \<times> machine) option) \<Rightarrow> system \<Rightarrow> (int \<times> system) option" where
  "on_machine f s = do {
     (r, m) \<leftarrow> f (sys_machine s);
     Some (r, s\<lparr>sys_machine := m\<rparr>)}"

definition on_kernel :: "(kernel \<Rightarrow> (int \<times> kernel) option) \<Rightarrow> system \<Rightarrow> (int \<times> system) option" where
  "on_kernel f s = do {
     (r, k) \<leftarrow> f (sys_kernel s);
     Some (r, s\<lparr>sys_kernel := k\<rparr>)}"

definition acpi_initcall :: "boot_info_t \<Rightarrow> system \<Rightarrow> (int \<times> system) option" where
  "acpi_initcall bi s = do {
     (r, xsdt, k) \<leftarrow> acpi_init bi (sys_kernel s);
     Some (r, s\<lparr>sys_kernel := k, g_xsdt := (if r = 0 then xsdt else g_xsdt s)\<rparr>)}"

section \<open>Levels\<close>

record linked =
  \<comment> \<open>addresses of linked tables and routines\<close>
  cpus_addr :: u64
  gdt_addr :: u64
  idt_addr :: u64
  syscall_addr :: u64
  isr_addr :: "nat \<Rightarrow> u64"
  stub_addr :: "nat \<Rightarrow> u64"
  grant_first :: bool \<comment> \<open>\<open>grant_init\<close> and \<open>futex_init\<close> have the same priority\<close>

definition early_level :: "cpuid_t \<Rightarrow> linked \<Rightarrow> (system \<Rightarrow> (int \<times> system) option) option list" where
  "early_level cpuid ln = [Some (on_serial uart_init), Some (on_serial early_log_init)] @
     map (map_option on_machine)
       (early_initcalls cpuid (cpus_addr ln) (gdt_addr ln) (idt_addr ln) (syscall_addr ln) (isr_addr ln) (stub_addr ln))"

definition core_level :: "boot_info_t \<Rightarrow> (system \<Rightarrow> (int \<times> system) option) option list" where
  "core_level bi = [Some (on_kernel (returns (pmm_init (bi_memory bi)))), Some (on_kernel percpu_tlsf_init), Some (on_kernel (vmm_init bi))]"

definition arch_level :: "boot_info_t \<Rightarrow> (system \<Rightarrow> (int \<times> system) option) option list" where
  "arch_level bi = [Some (acpi_initcall bi), Some (on_machine (returns lapic_init))]"

definition sys_level :: "boot_info_t \<Rightarrow> linked \<Rightarrow> (system \<Rightarrow> (int \<times> system) option) option list" where
  "sys_level bi ln =
     (let g = Some (on_kernel (grant_init (bi_memory bi))); f = Some (on_kernel (returns futex_init))
      in if grant_first ln then [g, f] else [f, g])"

definition late_level :: "(system \<Rightarrow> (int \<times> system) option) option list" where
  "late_level = [Some (on_kernel (returns sched_init))]"

definition generic_entry :: "cpuid_t \<Rightarrow> linked \<Rightarrow> boot_info_t \<Rightarrow> system \<Rightarrow> system option" where
  \<comment> \<open>the state in which the first thread runs, or with none, that of the halted kernel\<close>
  "generic_entry cpuid ln bi s = do {
     s \<leftarrow> run_initcalls (early_level cpuid ln) s;
     s \<leftarrow> run_initcalls (core_level bi) s;
     s \<leftarrow> run_initcalls (arch_level bi) s;
     s \<leftarrow> run_initcalls (sys_level bi ln) s;
     s \<leftarrow> run_initcalls late_level s;
     k \<leftarrow> rootserver_boot bi (sys_kernel s);
     k \<leftarrow> sched_boot k;
     Some (s\<lparr>sys_kernel := k\<rparr>)}"

section \<open>What is set up in the end\<close>

lemma run_initcalls_append:
  "run_initcalls (es @ fs) s = do {
     s \<leftarrow> run_initcalls es s;
     run_initcalls fs s}"
  by (induction es s rule: run_initcalls.induct) (auto split: Option.bind_split)

lemma run_initcalls_keep:
  assumes "run_initcalls es s = Some s'" "\<And>f s r t. Some f \<in> set es \<Longrightarrow> f s = Some (r, t) \<Longrightarrow> P s \<Longrightarrow> P t" "P s"
  shows "P s'"
  using assms
proof (induction es s rule: run_initcalls.induct)
  case (3 f es s)
  then obtain t where t: "f s = Some (0, t)" "run_initcalls es t = Some s'" by (auto split: Option.bind_splits if_splits)
  have "P t" using 3(3) [of f s 0 t] 3(4) t(1) by simp
  moreover have "\<And>g u r v. Some g \<in> set es \<Longrightarrow> g u = Some (r, v) \<Longrightarrow> P u \<Longrightarrow> P v" using 3(3) by simp blast
  ultimately show ?case using 3(1) [of "(0, t)" 0 t] t by simp
qed auto

lemma machine_level:
  assumes "run_initcalls (map (map_option on_machine) es) s = Some s'"
  shows "run_initcalls es (sys_machine s) = Some (sys_machine s')" "sys_serial s' = sys_serial s" "sys_kernel s' = sys_kernel s"
proof -
  have "run_initcalls es (sys_machine s) = Some (sys_machine s') \<and> sys_serial s' = sys_serial s \<and> sys_kernel s' = sys_kernel s"
    using assms
  proof (induction es arbitrary: s)
    case (Cons e es)
    show ?case
    proof (cases e)
      case (Some f)
      then obtain m where m: "f (sys_machine s) = Some (0, m)"
        "run_initcalls (map (map_option on_machine) es) (s\<lparr>sys_machine := m\<rparr>) = Some s'"
        using Cons.prems by (auto simp: on_machine_def [of f] split: Option.bind_splits if_splits)
      then show ?thesis using Cons.IH [OF m(2)] Some by simp
    qed (use Cons in simp)
  qed simp
  then show "run_initcalls es (sys_machine s) = Some (sys_machine s')" "sys_serial s' = sys_serial s" "sys_kernel s' = sys_kernel s" by auto
qed

definition set_up :: "linked \<Rightarrow> system \<Rightarrow> bool" where
  "set_up ln s \<longleftrightarrow> protected (syscall_addr ln) (idt_addr ln) (sys_machine s) \<and> initialized (sys_serial s) \<and> klog_putc (sys_serial s)"

lemma early_level_sets_up:
  assumes "run_initcalls (early_level cpuid ln) s = Some s'"
  shows "set_up ln s'" "sys_kernel s' = sys_kernel s"
proof -
  obtain s1 where s1: "run_initcalls [Some (on_serial uart_init), Some (on_serial early_log_init)] s = Some s1"
    "run_initcalls (map (map_option on_machine)
       (early_initcalls cpuid (cpus_addr ln) (gdt_addr ln) (idt_addr ln) (syscall_addr ln) (isr_addr ln) (stub_addr ln))) s1 = Some s'"
    using assms unfolding early_level_def run_initcalls_append by (auto split: Option.bind_splits)
  have "initialized (sys_serial s1) \<and> klog_putc (sys_serial s1) \<and> sys_kernel s1 = sys_kernel s"
    using s1(1) by (auto simp: on_serial_def uart_init_def early_log_init_def set_log_putc_def Let_def split: prod.splits if_splits)
  then show "set_up ln s'" "sys_kernel s' = sys_kernel s"
    using machine_level [OF s1(2)] early_initcalls_protect by (auto simp: set_up_def)
qed

lemma on_kernel_keeps: "on_kernel f s = Some (r, t) \<Longrightarrow> set_up ln s \<Longrightarrow> set_up ln t"
  by (auto simp: on_kernel_def set_up_def split: Option.bind_splits)

lemma later_levels_keep:
  assumes "Some f \<in> set (core_level bi @ arch_level bi @ sys_level bi ln @ late_level)" "f s = Some (r, t)" "set_up ln s"
  shows "set_up ln t"
proof -
  have "on_machine (returns lapic_init) s = Some (r, t) \<Longrightarrow> set_up ln t"
    using assms(3) by (auto simp: on_machine_def returns_def lapic_init_def set_up_def protected_def wrmsr_def rdmsr_def Let_def)
  moreover have "acpi_initcall bi s = Some (r, t) \<Longrightarrow> set_up ln t"
    using assms(3) by (auto simp: acpi_initcall_def set_up_def split: Option.bind_splits)
  ultimately show ?thesis using assms on_kernel_keeps
    by (auto simp: core_level_def arch_level_def sys_level_def late_level_def Let_def split: if_splits)
qed

text \<open>
  When the kernel gets as far as running threads, the serial line is initialised and takes the kernel's
  messages, and every protection the early initcalls are to switch on is on: nothing of the later
  levels takes it back.
\<close>

theorem generic_entry_sets_up:
  assumes "generic_entry cpuid ln bi s = Some s'"
  shows "set_up ln s'"
proof -
  obtain s1 s2 k k' where r: "run_initcalls (early_level cpuid ln) s = Some s1"
    "run_initcalls (core_level bi @ arch_level bi @ sys_level bi ln @ late_level) s1 = Some s2" "s' = s2\<lparr>sys_kernel := k'\<rparr>"
    using assms by (auto simp: generic_entry_def run_initcalls_append split: Option.bind_splits)
  have "set_up ln s2"
    by (rule run_initcalls_keep [where P = "set_up ln", OF r(2)]) (use later_levels_keep early_level_sets_up(1) [OF r(1)] in blast)+
  then show ?thesis by (simp add: r(3) set_up_def)
qed

end
