(* ===== verification/Tlsf_Check.thy ===== *)
theory Tlsf_Check
  imports Tlsf_Spec
begin

text \<open>
  The integrity checks of the heap, the debugging utilities of \<^verbatim>\<open>kernel/lib/tlsf.c\<close>. An
  \<open>tlsf_insist\<close> that does not hold stops the kernel in its assertion, so what the checks find is
  whether they return: \<^term>\<open>None\<close> is the stopped kernel. They are compared with a
  specification over the lists of free blocks and over the blocks of a pool in address order.
\<close>

section \<open>The free lists\<close>

definition tlsf_insist :: "bool \<Rightarrow> int \<Rightarrow> int option" where
  \<comment> \<open>the macro: the assertion comes first\<close>
  "tlsf_insist x status = do {
     _ \<leftarrow> check x;
     Some (if \<not> x then status - 1 else status)}"

partial_function (option) check_list :: "nat \<Rightarrow> nat \<Rightarrow> u64 \<Rightarrow> u64 \<Rightarrow> int \<Rightarrow> 'z heap_t_scheme \<Rightarrow> int option" where
  \<comment> \<open>\<open>while (block != &control->block_null)\<close>\<close>
  "check_list i j control block status s =
     (if block \<noteq> control then do {
        status \<leftarrow> tlsf_insist (block_is_free block s) status;
        status \<leftarrow> tlsf_insist (\<not> block_is_prev_free block s) status;
        next \<leftarrow> block_next block s;
        status \<leftarrow> tlsf_insist (\<not> block_is_free next s) status;
        status \<leftarrow> tlsf_insist (block_is_prev_free next s) status;
        status \<leftarrow> tlsf_insist (block_size block s \<ge> block_size_min) status;
        let (fli, sli) = mapping_insert (block_size block s);
        status \<leftarrow> tlsf_insist (fli = int i \<and> sli = int j) status;
        check_list i j control (next_free s block) status s}
      else Some status)"

definition check_class :: "nat \<Rightarrow> nat \<Rightarrow> u64 \<Rightarrow> int \<Rightarrow> 'z heap_t_scheme \<Rightarrow> int option" where
  \<comment> \<open>the body of the two loops\<close>
  "check_class i j control status s = do {
     let fl_map = fl_bitmap (controls s control) AND push_bit i 1;
     let sl_list = sl_bitmap (controls s control) i;
     let sl_map = sl_list AND push_bit j 1;
     let block = blocks (controls s control) i j;
     status \<leftarrow> (if fl_map = 0 then tlsf_insist (sl_map = 0) status else Some status);
     if sl_map = 0 then tlsf_insist (block = control) status
     else do {
       status \<leftarrow> tlsf_insist (sl_list \<noteq> 0) status;
       status \<leftarrow> tlsf_insist (block \<noteq> control) status;
       check_list i j control block status s}}"

fun check_classes :: "(nat \<times> nat) list \<Rightarrow> u64 \<Rightarrow> int \<Rightarrow> 'z heap_t_scheme \<Rightarrow> int option" where
  "check_classes [] control status s = Some status"
| "check_classes ((i, j) # ijs) control status s = do {
     status \<leftarrow> check_class i j control status s;
     check_classes ijs control status s}"

definition tlsf_check :: "u64 \<Rightarrow> 'z heap_t_scheme \<Rightarrow> int option" where
  "tlsf_check tlsf s = check_classes (List.product [0..<nat FL_INDEX_COUNT] [0..<nat SL_INDEX_COUNT]) tlsf 0 s"

section \<open>Walking a pool\<close>

record integrity_t =
  prev_status :: int
  status :: int

definition integrity_walker :: "u64 \<Rightarrow> u64 \<Rightarrow> bool \<Rightarrow> integrity_t \<Rightarrow> 'z heap_t_scheme \<Rightarrow> integrity_t option" where
  "integrity_walker ptr sz used integ s = do {
     let block = block_from_ptr ptr;
     let this_prev_status = (if block_is_prev_free block s then 1 else 0);
     let this_status = (if block_is_free block s then 1 else 0);
     let this_block_size = block_size block s;
     st \<leftarrow> tlsf_insist (prev_status integ = this_prev_status) 0;
     st \<leftarrow> tlsf_insist (sz = this_block_size) st;
     Some (integ\<lparr>prev_status := this_status, status := status integ + st\<rparr>)}"

partial_function (option) tlsf_walk ::
  "u64 \<Rightarrow> (u64 \<Rightarrow> u64 \<Rightarrow> bool \<Rightarrow> 'u \<Rightarrow> 'z heap_t_scheme \<Rightarrow> 'u option) \<Rightarrow> 'u \<Rightarrow> 'z heap_t_scheme \<Rightarrow> 'u option" where
  "tlsf_walk block walker user s =
     (if block \<noteq> 0 \<and> \<not> block_is_last block s then do {
        user \<leftarrow> walker (block_to_ptr block) (block_size block s) (\<not> block_is_free block s) user s;
        block \<leftarrow> block_next block s;
        tlsf_walk block walker user s}
      else Some user)"

definition tlsf_walk_pool ::
  "u64 \<Rightarrow> (u64 \<Rightarrow> u64 \<Rightarrow> bool \<Rightarrow> 'u \<Rightarrow> 'z heap_t_scheme \<Rightarrow> 'u option) option \<Rightarrow> 'u \<Rightarrow> 'z heap_t_scheme \<Rightarrow> 'u option" where
  \<comment> \<open>\<open>default_walker\<close>, taken when there is none, only prints\<close>
  "tlsf_walk_pool pool walker user s =
     (let pool_walker = (case walker of Some w \<Rightarrow> w | None \<Rightarrow> (\<lambda>ptr sz used user s. Some user))
      in tlsf_walk (offset_to_block pool (- block_header_overhead)) pool_walker user s)"

definition tlsf_check_pool :: "u64 \<Rightarrow> 'z heap_t_scheme \<Rightarrow> int option" where
  "tlsf_check_pool pool s = do {
     integ \<leftarrow> tlsf_walk_pool pool (Some integrity_walker) \<lparr>prev_status = 0, status = 0\<rparr> s;
     Some (status integ)}"

section \<open>What the check of the lists finds\<close>

lemma insist_iff: "tlsf_insist x st = (if x then Some st else None)"
  by (simp add: tlsf_insist_def check_def)

definition coalesced :: "u64 \<Rightarrow> 'z heap_t_scheme \<Rightarrow> bool" where
  \<comment> \<open>a free block between blocks in use, of at least the minimal size\<close>
  "coalesced b s \<longleftrightarrow> block_is_free b s \<and> \<not> block_is_prev_free b s \<and> block_size b s \<ge> block_size_min \<and>
     (let next = block_to_ptr b + (block_size b s - block_header_overhead) in \<not> block_is_free next s \<and> block_is_prev_free next s)"

lemma check_list_iff:
  assumes "flist c p b bs s" "\<And>x. x \<in> set bs \<Longrightarrow> x \<noteq> c \<and> mapping_insert (block_size x s) = (int i, int j)"
  shows "check_list i j c b st s = (if \<forall>x \<in> set bs. coalesced x s then Some st else None)"
  using assms
proof (induction bs arbitrary: p b)
  case Nil
  then show ?case by (simp add: check_list.simps)
next
  case (Cons x bs)
  have x: "b = x" "flist c x (next_free s x) bs s" "x \<noteq> c" "mapping_insert (block_size x s) = (int i, int j)" using Cons.prems by auto
  note IH = Cons.IH [OF x(2)]
  have nx: "block_next x s = (if block_size x s = 0 then None else Some (block_to_ptr x + (block_size x s - block_header_overhead)))"
    by (simp add: block_next_def block_is_last_def check_def offset_to_block_def)
  show ?case
  proof (cases "coalesced x s")
    case True
    then have "block_size x s \<noteq> 0" by (auto simp: coalesced_def)
    then show ?thesis using True x IH Cons.prems(2) by (subst check_list.simps) (simp add: nx insist_iff coalesced_def Let_def)
  next
    case False
    then show ?thesis using x by (subst check_list.simps) (auto simp: nx insist_iff coalesced_def Let_def)
  qed
qed

lemma bit_and_push: "w AND 2 ^ i = 0 \<longleftrightarrow> \<not> bit w i" for w :: u32
  by (rule and_exp_eq_0_iff_not_bit)

lemma check_class_iff:
  assumes L: "tlsf_lists c F s" and i: "i < 25" "j < 32"
  shows "check_class i j c st s = (if \<forall>x \<in> set (F i j). coalesced x s then Some st else None)"
proof -
  note D = tlsf_listsD [OF L i]
  have list: "check_list i j c (blocks (controls s c) i j) st s = (if \<forall>x \<in> set (F i j). coalesced x s then Some st else None)"
    by (rule check_list_iff [OF D(2)]) (use D(4) in blast)
  show ?thesis
  proof (cases "F i j = []")
    case True
    then have "\<not> bit (sl_bitmap (controls s c) i) j" "blocks (controls s c) i j = c" using D(2,5) by simp_all
    then show ?thesis using True by (simp add: check_class_def Let_def bit_and_push insist_iff)
  next
    case False
    then have b: "bit (sl_bitmap (controls s c) i) j" using D(5) by simp
    then have "sl_bitmap (controls s c) i \<noteq> 0" "bit (fl_bitmap (controls s c)) i" using D(6) by auto
    moreover have "blocks (controls s c) i j \<noteq> c" using False D(2,4) by (cases "F i j") auto
    ultimately show ?thesis using b list by (simp add: check_class_def Let_def bit_and_push insist_iff)
  qed
qed

lemma check_classes_iff:
  assumes "tlsf_lists c F s" "set ijs \<subseteq> {..<25} \<times> {..<32}"
  shows "check_classes ijs c st s = (if \<forall>(i, j) \<in> set ijs. \<forall>b \<in> set (F i j). coalesced b s then Some st else None)"
  using assms(2)
proof (induction ijs)
  case (Cons ij ijs)
  then show ?case using check_class_iff [OF assms(1), of "fst ij" "snd ij" st] by (cases ij) auto
qed simp

text \<open>A heap with one free block of 4096 bytes, followed by a block in use.\<close>

lemma coalesced_heap:
  obtains F i j and s :: heap_t where "tlsf_lists 0x1000 F s" "i < 25" "j < 32" "F = upd2 (\<lambda>_ _. []) i j [0x2000]" "coalesced 0x2000 s"
proof -
  fix s :: heap_t
  define s0 where "s0 = control_construct 0x1000 (s\<lparr>bsize := \<lambda>b. if b = 0x2000 then 4097 else 2\<rparr>)"
  have L: "tlsf_lists 0x1000 (\<lambda>_ _. []) s0" unfolding s0_def by (rule control_construct_lists) simp
  have bs: "bsize s0 b = (if b = 0x2000 then 4097 else 2)" for b by (simp add: s0_def)
  show thesis
  proof (rule block_insert_spec [OF L, of "0x2000"])
    fix i j s'
    assume ij: "i < 25" "j < 32" "tlsf_lists 0x1000 (upd2 (\<lambda>_ _. []) i j [0x2000]) s'" and same: "same_headers s0 s'"
    have "bsize s' b = (if b = 0x2000 then 4097 else 2)" for b using same_headers_fields(1) [OF same] bs by simp
    then have "coalesced 0x2000 s'"
      by (simp add: coalesced_def block_is_free_def block_is_prev_free_def block_size_def block_to_ptr_def Let_def)
    then show thesis using that ij by blast
  qed (simp_all add: block_size_def bs)
qed

text \<open>
  C11: on a heap whose bitmaps and lists of free blocks agree, \<open>tlsf_check\<close> terminates, and it reports no
  fault exactly when each block of each list is free, at least of minimal size, and coalesced: the
  block before it is in use, and the block after it is in use and marked as following a free
  block. In all other cases the kernel is stopped by an assertion.
\<close>

theorem tlsf_check_iff:
  assumes "tlsf_lists c F s"
  shows "tlsf_check c s = (if \<forall>i < 25. \<forall>j < 32. \<forall>b \<in> set (F i j). coalesced b s then Some 0 else None)"
  using check_classes_iff [OF assms, of "List.product [0..<25] [0..<32]" 0]
  by (auto simp: tlsf_check_def subset_iff)

theorem tlsf_check_iff_witness:
  "\<exists>F s. tlsf_lists 0x1000 F s \<and> (\<exists>i < 25. \<exists>j < 32. F i j = [0x2000]) \<and> tlsf_check 0x1000 (s :: heap_t) = Some 0"
proof -
  obtain F i j and s :: heap_t where L: "tlsf_lists 0x1000 F s" and ij: "i < 25" "j < 32" and F: "F = upd2 (\<lambda>_ _. []) i j [0x2000]"
    and c: "coalesced 0x2000 s" by (rule coalesced_heap)
  have "\<forall>i < 25. \<forall>j < 32. \<forall>b \<in> set (F i j). coalesced b s" using F c by (auto simp: upd2_apply)
  then have "tlsf_check 0x1000 s = Some 0" using tlsf_check_iff [OF L] by simp
  moreover have "F i j = [0x2000]" by (simp add: F upd2_apply)
  ultimately show ?thesis using L ij by blast
qed

section \<open>What the walk of a pool finds\<close>

fun pool_blocks :: "u64 \<Rightarrow> u64 list \<Rightarrow> 'z heap_t_scheme \<Rightarrow> bool" where
  \<comment> \<open>the blocks of a pool follow one another up to the block of size 0\<close>
  "pool_blocks b [] s \<longleftrightarrow> b \<noteq> 0 \<and> block_size b s = 0"
| "pool_blocks b (x # xs) s \<longleftrightarrow> b = x \<and> x \<noteq> 0 \<and> block_size x s \<noteq> 0 \<and>
     pool_blocks (block_to_ptr x + (block_size x s - block_header_overhead)) xs s"

fun flags_agree :: "bool \<Rightarrow> u64 list \<Rightarrow> 'z heap_t_scheme \<Rightarrow> bool" where
  "flags_agree f [] s \<longleftrightarrow> True"
| "flags_agree f (x # xs) s \<longleftrightarrow> block_is_prev_free x s = f \<and> flags_agree (block_is_free x s) xs s"

lemma walk_pool_iff:
  assumes "pool_blocks b bs s" "prev_status integ = (if f then 1 else 0)"
  shows "map_option status (tlsf_walk b integrity_walker integ s) = (if flags_agree f bs s then Some (status integ) else None)"
  using assms
proof (induction bs arbitrary: b f integ)
  case Nil
  then show ?case by (subst tlsf_walk.simps) (simp add: block_is_last_def)
next
  case (Cons x bs)
  have x: "b = x" "x \<noteq> 0" "block_size x s \<noteq> 0" "pool_blocks (block_to_ptr x + (block_size x s - block_header_overhead)) bs s"
    using Cons.prems(1) by auto
  have bp: "block_from_ptr (block_to_ptr x) = x" by (simp add: block_from_ptr_def block_to_ptr_def)
  have nx: "block_next x s = Some (block_to_ptr x + (block_size x s - block_header_overhead))"
    using x(3) by (simp add: block_next_def block_is_last_def check_def offset_to_block_def)
  let ?i = "integ\<lparr>prev_status := if block_is_free x s then 1 else 0, status := status integ\<rparr>"
  have w: "integrity_walker (block_to_ptr x) (block_size x s) u integ s = (if block_is_prev_free x s = f then Some ?i else None)" for u
    using Cons.prems(2) by (auto simp: integrity_walker_def bp insist_iff Let_def)
  show ?case using Cons.IH [OF x(4), of ?i "block_is_free x s"] x
    by (subst tlsf_walk.simps) (auto simp: w nx block_is_last_def)
qed

text \<open>
  The walk of a pool returns no fault exactly when each block says of the block before it what that
  block says of itself.
\<close>

theorem tlsf_check_pool_iff:
  assumes "pool_blocks (pool - block_header_overhead) bs s"
  shows "tlsf_check_pool pool s = (if flags_agree False bs s then Some 0 else None)"
  using walk_pool_iff [OF assms, of "\<lparr>prev_status = 0, status = 0\<rparr>" False]
  by (simp add: tlsf_check_pool_def tlsf_walk_pool_def offset_to_block_def map_option_case split: option.splits if_splits)

end
