(* ===== verification/Spec2Isabelle.thy ===== *)
theory Spec2Isabelle
  imports Ticket_Lock Buddy_Spec Tlsf_Spec Kmem_Spec Ipc_Spec Pmap_Spec Grant_Spec Syscall_Spec Machine_Spec Boot Cpio Pager_Spec Futex_Spec
    Loader_Spec Loader_Image Kernel_Runs Kernel_Entry Tlsf_Check
begin

text \<open>
  A verification of koharu, a small L4-style microkernel for x86-64 written in C, and of its
  user-level root server.

  \<^bold>\<open>The program.\<close> The boot loader (\<open>boot/main.c\<close>, \<open>loader.c\<close>, \<open>hhdm.c\<close>, \<open>jump.c\<close>) asks the firmware for the memory map,
  loads the kernel, builds its first page tables and jumps. It leaves a memory map, the kernel image, a root server image and an
  archive of files (\<open>bootinfo.h\<close>). \<open>generic_entry\<close> runs the initcalls in their linked order: they
  set the processor up (\<open>cpu.c\<close>, \<open>gdt.c\<close>, \<open>idt.c\<close>, \<open>lapic.c\<close>), build the page allocator (\<open>pmm.c\<close>), the
  kernel's address space (\<open>vmm.c\<close>, \<open>pmap.c\<close>), one heap per CPU (\<open>kmem.c\<close> over \<open>tlsf.c\<close>), the scheduler
  (\<open>sched.c\<close>), futexes and frame grants (\<open>futex.c\<close>, \<open>grant.c\<close>). \<open>rootserver_boot\<close> (\<open>init.c\<close>) loads the
  root server and starts it. From then on the kernel is entered by the timer (\<open>sched_tick\<close>) and by
  system calls (\<open>syscall.c\<close>): threads talk by synchronous messages (\<open>ipc.c\<close>), and a thread's pager
  maps frames into it for which it holds grants. The root server finds a program in the archive
  (\<open>cpio.c\<close>), keeps the program's regions in a balanced tree (\<open>vma.c\<close> over \<open>tree.h\<close>) and pages it.

  \<^bold>\<open>How the model corresponds.\<close> Each C function is a definition of the same name, in the order of
  its file; a loop is a recursive function of its own, named after what it does, and the manifest
  names the lines of every definition. Unsigned integers are words of their width, so
  arithmetic wraps around; pointers are 64-bit words, null is 0. State is passed explicitly: the
  records \<open>pmm_t\<close> (page allocator), \<open>heap_t\<close> (extends it by block headers and byte-addressed memory) and
  \<open>kernel\<close> (extends it by threads, address spaces, grants, futexes, run queues and endpoints) are
  extended in the order in which the components build on each other, so that an operation of a
  lower component runs unchanged on the state of a higher one. An intrusive list
  (\<open>list.h\<close>) is a pair of link maps over the nodes of one family; \<open>container_of\<close> is a partial function
  on nodes. What would be undefined or would not return (a null dereference, an index out of bounds, a
  failed assertion, \<open>boot_fail\<close>, halting) is \<open>None\<close>; results of C functions that report errors
  are values. A blocking operation ends where the thread gives the processor up; what it does
  when it runs again is a \<open>_resume\<close> operation. Arrays of C objects that are reached by a computed address or
  frame number (block headers, \<open>page_t\<close>) are total maps: an element outside the array, such as the buddy of a block
  at the end of memory, reads as an arbitrary value of the map and is not \<open>None\<close>.

  \<^bold>\<open>Theories.\<close>
  \<^item> \<open>Prelude\<close>: words, lists and ranges, loops over ranges. \<open>Memory\<close>: byte-addressed memory with
    little-endian cells and their laws (locale \<open>cell_memory\<close>). \<open>Boot_Info\<close>: \<open>bootinfo.h\<close>.
  \<^item> \<open>Intrusive_List\<close>: \<open>list.h\<close>. \<open>dlists\<close> relates the link maps to lists of nodes; the locale
    \<open>list_family\<close> states what clients use (adding, deleting, emptiness, first element) and is
    interpreted on the code's operations.
  \<^item> \<open>Ticket_Lock\<close>: \<open>lock.c\<close>, with a step relation of any number of CPUs on one lock in which every access to
    memory is a step. Shown by rule induction: mutual exclusion across the wrap-around of tickets, first come first
    served, no deadlock, and that in a fair run every CPU with a ticket enters. All of it needs that a
    \<open>spin_trylock\<close> is not overtaken by about \<open>2 ^ 32\<close> tickets between its read and its swap (\<open>timely\<close>);
    \<open>trylock_overtaken\<close> shows two holders otherwise.
  \<^item> \<open>Buddy\<close>, \<open>Buddy_Spec\<close>: \<open>pmm.c\<close>. The invariant \<open>buddy_pages\<close> says that the free lists, flags and counters
    describe a set of free frames. Allocation takes exactly an aligned block out of the set or fails
    when there is none, blocks are disjoint, freeing gives exactly the block back when no smaller
    block starts at a buddy on the way. The locale \<open>page_allocator\<close> states this contract, the
    interpretation \<open>buddy\<close> discharges it; page tables are verified against it.
  \<^item> \<open>CString\<close>: \<open>string.c\<close>; \<open>Tlsf\<close>, \<open>Tlsf_Spec\<close>: \<open>tlsf.c\<close>, size classes and free lists, good fit of the
    search, adding pools; \<open>Tlsf_Check\<close>: its integrity checks and what they find; \<open>Kmem\<close>, \<open>Kmem_Spec\<close>: \<open>kmem.c\<close>, framing (\<open>krest\<close>: the heap touches nothing else of the
    kernel), aligned allocation.
  \<^item> \<open>Kernel_State\<close>: the structures of \<open>thread.h\<close>, \<open>ipc.h\<close>, \<open>pmap.h\<close>, \<open>grant.h\<close>, \<open>cpu.h\<close>. \<open>Sched\<close>, \<open>Sched_Spec\<close>:
    \<open>sched.c\<close>; \<open>sched_ok\<close> relates the run queues to four lists of ready threads; every operation keeps
    it, loses no thread and picks by level. \<open>Ipc\<close>, \<open>Ipc_Spec\<close>: \<open>ipc.c\<close>; hand-over, first come first
    served, a whole remote procedure call composed with the scheduler, and what a third thread's message does to
    a call: it is taken for the reply, and the late reply is delivered as a message.
  \<^item> \<open>Pmap\<close>, \<open>Page_Table\<close>, \<open>Pmap_Spec\<close>: \<open>pmap.c\<close>. \<open>Page_Table\<close> is the theory of four-level tables as trees of
    frames; \<open>Pmap_Spec\<close> shows that \<open>pmap_map\<close> changes the translation of \<open>pmap_extract\<close> on exactly the
    range asked for. \<open>Grant\<close>, \<open>Grant_Spec\<close>: \<open>grant.c\<close> refines a table of granted rights per address space and
    frame (\<open>rights_of\<close>; the implicit hold of the root server is stated apart, \<open>implicit\<close>). \<open>Thread\<close>: both \<open>thread.c\<close>. \<open>Futex\<close>, \<open>Futex_Spec\<close>: \<open>futex.c\<close>; the hash table refines a map from physical addresses to
    sequences of sleeping threads. It is a client of the scheduler through the locale \<open>scheduler\<close>, which
    \<open>Sched_Spec\<close> interprets on \<open>sched_wakeup\<close>. \<open>Kernel_Runs\<close>: runs of any length of ticks, yields, waits and wakes as a step
    relation; by rule induction no thread is lost or doubled between running, ready and asleep.
  \<^item> \<open>Syscall\<close>, \<open>Syscall_Spec\<close>: \<open>syscall.c\<close> and \<open>syscall_dispatch\<close>. Mapping is confined to frames the caller
    holds, granting creates no rights (in terms of \<open>grant_holds\<close>, the root server's implicit hold of ungranted pool
    frames included), only the pager controls a thread.
  \<^item> \<open>Machine\<close>, \<open>Machine_Spec\<close>: processor state; descriptor tables are read back the way the processor
    does, and the early initcalls leave the control registers and the protections the processor offers set up; their list
    (\<open>early_initcalls\<close>) is written out in the order that \<open>linker.ld\<close> sorts the sections. \<open>Boot\<close>: \<open>init.c\<close>, \<open>vmm.c\<close>, \<open>acpi.c\<close>,
    \<open>elf.h\<close>. \<open>Serial\<close>: \<open>uart.c\<close>, \<open>io.c\<close> and the hook of \<open>kprintf.c\<close>; messages arrive complete and in order on a line that
    becomes ready again and again. \<open>Kernel_Entry\<close>: \<open>generic_entry\<close>, all levels of initcalls over the states of line, processor
    and kernel; what the early level has set up is still set up when the first thread runs.
  \<^item> \<open>Cpio\<close>: \<open>cpio.c\<close> against a list of files. \<open>Rb_Tree\<close>, \<open>Rb_Tree_Spec\<close>: the macros of \<open>tree.h\<close> on node
    pointers, with the searches related to trees of HOL; \<open>Rb_Insert\<close>: the colour bits as differences of rank,
    rotations at a place in a tree, and insertion, which keeps order, balance and a logarithmic height.
    \<open>Vma\<close>, \<open>Vma_Spec\<close>: \<open>vma.c\<close> on top of them; the invariant \<open>vma_inv\<close> ties the tree, the list threaded through it
    and the chain of free nodes together, from \<open>vma_set_init\<close> on.
  \<^item> \<open>Pager\<close>, \<open>Pager_Spec\<close>: the root server, \<open>pager.c\<close>, \<open>main.c\<close>, \<open>elf.c\<close> and \<open>console.c\<close>, as a client of the modelled
    system calls that reaches its memory through its own page tables. Shown: which frame the pool hands out,
    that it is handed out again, where merged segments are read from, and the text of numbers.

  \<^item> \<open>Loader\<close>: the boot loader over firmware that is a parameter, from \<open>main\<close> to the registers \<open>jump_to_kernel\<close> sets.
    \<open>Loader_Map\<close> follows its page tables as trees of \<open>Page_Table\<close>, seen through the direct map; \<open>Loader_Spec\<close> shows
    what the kernel's own translation finds in them; \<open>Loader_Image\<close> shows the kernel image in place and the
    table of memory regions the loader leaves in memory for the kernel. \<open>load_phdr\<close> reads a program header once per turn,
    where the C code reads it again after the copy; the theorem is about images that are not overwritten by their own segments.

  \<^bold>\<open>Loops.\<close> Loops whose end is evident are total functions with a measure. Loops that follow
  pointers or compare against a bound that may wrap around are \<open>partial_function (option)\<close>; where a
  theorem speaks of their result it also shows that they return. No fuel is used.

  \<^bold>\<open>Parameters.\<close> The values of \<open>cpuid\<close>, the addresses of linked tables and routines, the contents of
  uninitialised stack words, what \<open>rdtsc\<close> and the ports of the serial line answer are arguments of the definitions that use them. The
  services of the UEFI firmware are a record of functions on the firmware's state (\<open>efi\<close>); the theorems name what
  they rely on (\<open>fresh_pages\<close>: pages are aligned, below 4 GiB and given once; \<open>stocked\<close>: they are given while
  there are any), and \<open>simple_firmware\<close> keeps these laws.

  \<^bold>\<open>Not modelled.\<close> Concurrency between CPUs apart from the lock itself (the kernel runs one CPU:
  only the boot processor is started), the acknowledgement of interrupts, cache and TLB maintenance,
  the assembly of context switch and kernel entry, the formatting of messages (the vendored \<open>nanoprintf.h\<close>) and
  functions that only print, the macros of \<open>tree.h\<close> that nothing expands, the test program \<open>child.c\<close>, which exercises a C library
  that is not in the repository, and the firmware, which is not in the repository either.
\<close>

end
